(* ===== verification/Prelude.thy ===== *)
theory Prelude
  imports Main "HOL-Library.Word"
begin

text \<open>
  Shared vocabulary of the development: names for the C integer types, the result type and
  the combinators in which the kernel's stateful functions are written, and the generic
  lemmas the component theories rely on.

  A kernel function is a state transformer \<open>'s \<Rightarrow> ('s, 'a) res\<close>. It either returns
  a value and the new state (\<open>Ok\<close>) or stops (\<open>Stop\<close>): by \<open>panic\<close>, by an access
  outside the object it indexes (\<open>Fault\<close>, undefined behaviour in C), or by giving up the
  processor in \<open>sched\<close> (\<open>Switch\<close>), or because it waits in a loop for another
  processor (\<open>Spin\<close>). A stopped function keeps the state it stopped in,
  because after \<open>Switch\<close> the rest of the kernel goes on from there.
\<close>

section \<open>C integer types\<close>

type_synonym byte = "8 word"
type_synonym ushort = "16 word"
type_synonym uint = "32 word"

text \<open>C \<open>int\<close> is modelled as \<open>int\<close>; conversions to \<open>uint\<close> are written out.\<close>

section \<open>Results and state transformers\<close>

datatype halt = Panic string | Fault | Switch | Spin

datatype ('s, 'a) res = Ok 'a 's | Stop halt 's

type_synonym ('s, 'a) kop = "'s \<Rightarrow> ('s, 'a) res"

fun res_state :: "('s, 'a) res \<Rightarrow> 's" where
  "res_state (Ok a s) = s"
| "res_state (Stop h s) = s"

definition ret :: "'a \<Rightarrow> ('s, 'a) kop" where
  "ret a s = Ok a s"

definition stop :: "halt \<Rightarrow> ('s, 'a) kop" where
  "stop h s = Stop h s"

definition panic :: "string \<Rightarrow> ('s, 'a) kop" where
  "panic msg = stop (Panic msg)"

definition kbind :: "('s, 'a) kop \<Rightarrow> ('a \<Rightarrow> ('s, 'b) kop) \<Rightarrow> ('s, 'b) kop" where
  "kbind m f s = (case m s of Ok a t \<Rightarrow> f a t | Stop h t \<Rightarrow> Stop h t)"

definition kthen :: "('s, 'a) kop \<Rightarrow> ('s, 'b) kop \<Rightarrow> ('s, 'b) kop" where
  "kthen m n = kbind m (\<lambda>_. n)"

definition kget :: "('s \<Rightarrow> 'a) \<Rightarrow> ('s, 'a) kop" where
  "kget f s = Ok (f s) s"

definition kmod :: "('s \<Rightarrow> 's) \<Rightarrow> ('s, unit) kop" where
  "kmod f s = Ok () (f s)"

definition kwhen :: "bool \<Rightarrow> ('s, unit) kop \<Rightarrow> ('s, unit) kop" where
  "kwhen c m = (if c then m else ret ())"

text \<open>A read that C leaves undefined outside its object.\<close>

definition klift :: "'a option \<Rightarrow> ('s, 'a) kop" where
  "klift x = (case x of Some a \<Rightarrow> ret a | None \<Rightarrow> stop Fault)"

text \<open>A counted loop: the body runs for each element in order.\<close>

primrec kfor :: "'i list \<Rightarrow> ('i \<Rightarrow> ('s, unit) kop) \<Rightarrow> ('s, unit) kop" where
  "kfor [] body = ret ()"
| "kfor (i # is) body = kthen (body i) (kfor is body)"

declare kfor.simps [simp del]

named_theorems kexec \<open>one-step execution of the combinators on a given state\<close>

lemma ret_exec [kexec]: "ret a s = Ok a s"
  by (simp add: ret_def)

lemma stop_exec [kexec]: "stop h s = Stop h s"
  by (simp add: stop_def)

lemma panic_exec [kexec]: "panic msg s = Stop (Panic msg) s"
  by (simp add: panic_def stop_def)

lemma kget_exec [kexec]: "kget f s = Ok (f s) s"
  by (simp add: kget_def)

lemma kmod_exec [kexec]: "kmod f s = Ok () (f s)"
  by (simp add: kmod_def)

lemma kbind_exec [kexec]: "kbind m f s = (case m s of Ok a t \<Rightarrow> f a t | Stop h t \<Rightarrow> Stop h t)"
  by (simp add: kbind_def)

lemma kthen_exec [kexec]: "kthen m n s = (case m s of Ok a t \<Rightarrow> n t | Stop h t \<Rightarrow> Stop h t)"
  by (simp add: kthen_def kbind_def)

lemma kwhen_exec [kexec]: "kwhen c m s = (if c then m s else Ok () s)"
  by (simp add: kwhen_def ret_def)

lemma klift_exec [kexec]:
  "klift x s = (case x of Some a \<Rightarrow> Ok a s | None \<Rightarrow> Stop Fault s)"
  by (simp add: klift_def ret_def stop_def split: option.split)

lemma kfor_Nil_exec [kexec]: "kfor [] body s = Ok () s"
  by (simp add: ret_def kfor.simps)

lemma kfor_Cons_exec [kexec]: "kfor (i # is) body s =
    (case body i s of Ok a t \<Rightarrow> kfor is body t | Stop h t \<Rightarrow> Stop h t)"
  by (simp add: kthen_exec kfor.simps)

lemma kbind_assoc: "kbind (kbind m f) g = kbind m (\<lambda>a. kbind (f a) g)"
  by (rule ext) (simp add: kbind_def split: res.split)

lemma kthen_assoc: "kthen (kthen m n) p = kthen m (kthen n p)"
  by (simp add: kthen_def kbind_assoc)

lemma kfor_append: "kfor (xs @ ys) body = kthen (kfor xs body) (kfor ys body)"
proof (induction xs)
  case Nil
  show ?case by (rule ext) (simp add: kexec)
next
  case (Cons x xs)
  then show ?case by (intro ext) (simp add: kexec split: res.split)
qed

section \<open>Relations every step obeys\<close>

text \<open>
  An operation obeys a relation between states when the state it ends in, by returning
  or by stopping, is related to the state it started in. For a reflexive and transitive
  relation this is closed under the combinators; the two instances used below are the
  preservation of an invariant and the frame property that a projection of the state is
  unchanged.
\<close>

definition obeys :: "('s \<Rightarrow> 's \<Rightarrow> bool) \<Rightarrow> ('s, 'a) kop \<Rightarrow> bool" where
  "obeys R m \<longleftrightarrow> (\<forall>s. R s (res_state (m s)))"

definition keeps :: "('s \<Rightarrow> bool) \<Rightarrow> ('s, 'a) kop \<Rightarrow> bool" where
  "keeps I m \<longleftrightarrow> (\<forall>s. I s \<longrightarrow> I (res_state (m s)))"

definition frame :: "('s \<Rightarrow> 'b) \<Rightarrow> ('s, 'a) kop \<Rightarrow> bool" where
  "frame f m \<longleftrightarrow> (\<forall>s. f (res_state (m s)) = f s)"

locale step_rel =
  fixes R :: "'s \<Rightarrow> 's \<Rightarrow> bool"
  assumes step_refl: "R s s"
    and step_trans: "R s t \<Longrightarrow> R t u \<Longrightarrow> R s u"
begin

lemma rel_ret: "obeys R (ret a)"
  by (simp add: obeys_def ret_def step_refl)

lemma rel_stop: "obeys R (stop h)"
  by (simp add: obeys_def stop_def step_refl)

lemma rel_panic: "obeys R (panic msg)"
  by (simp add: panic_def rel_stop)

lemma rel_kget: "obeys R (kget f)"
  by (simp add: obeys_def kget_def step_refl)

lemma rel_klift: "obeys R (klift x)"
  by (simp add: obeys_def klift_def ret_def stop_def step_refl split: option.split)

lemma rel_kmod: "(\<And>s. R s (f s)) \<Longrightarrow> obeys R (kmod f)"
  by (simp add: obeys_def kmod_def)

lemma rel_kbind:
  assumes "obeys R m" and "\<And>a. obeys R (f a)"
  shows "obeys R (kbind m f)"
  unfolding obeys_def
proof
  fix s
  show "R s (res_state (kbind m f s))"
  proof (cases "m s")
    case (Ok a t)
    with assms(1) have "R s t" unfolding obeys_def by (metis res_state.simps(1))
    moreover have "R t (res_state (f a t))" using assms(2) by (simp add: obeys_def)
    ultimately show ?thesis using Ok by (auto simp: kbind_def intro: step_trans)
  next
    case (Stop h t)
    with assms(1) show ?thesis by (auto simp: obeys_def kbind_def) (metis res_state.simps(2))
  qed
qed

lemma rel_kthen: "obeys R m \<Longrightarrow> obeys R n \<Longrightarrow> obeys R (kthen m n)"
  unfolding kthen_def by (rule rel_kbind)

lemma rel_kwhen: "(c \<Longrightarrow> obeys R m) \<Longrightarrow> obeys R (kwhen c m)"
  by (simp add: kwhen_def rel_ret)

lemma rel_if: "(c \<Longrightarrow> obeys R m) \<Longrightarrow> (\<not> c \<Longrightarrow> obeys R n) \<Longrightarrow>
    obeys R (if c then m else n)"
  by simp

lemma rel_kfor: "(\<And>i. i \<in> set is \<Longrightarrow> obeys R (body i)) \<Longrightarrow> obeys R (kfor is body)"
  by (induction "is") (simp_all add: rel_ret rel_kthen kfor.simps)

lemma rel_option:
  "(\<And>a. x = Some a \<Longrightarrow> obeys R (f a)) \<Longrightarrow> obeys R n \<Longrightarrow>
    obeys R (case x of Some a \<Rightarrow> f a | None \<Rightarrow> n)"
  by (cases x) auto

lemmas rel_intros =
  rel_ret rel_stop rel_panic rel_kget rel_klift rel_kmod rel_kbind rel_kthen rel_kwhen
  rel_if rel_kfor rel_option

end

interpretation keep: step_rel "\<lambda>s t. I s \<longrightarrow> I t" for I :: "'s \<Rightarrow> bool"
  by unfold_locales auto

interpretation fram: step_rel "\<lambda>s t. f t = f s" for f :: "'s \<Rightarrow> 'b"
  by unfold_locales auto

lemma keeps_obeys: "keeps I m = obeys (\<lambda>s t. I s \<longrightarrow> I t) m"
  by (simp add: keeps_def obeys_def)

lemma frame_obeys: "frame f m = obeys (\<lambda>s t. f t = f s) m"
  by (simp add: frame_def obeys_def)

lemmas keeps_intros [intro] = keep.rel_intros [folded keeps_obeys]
lemmas frame_intros [intro] = fram.rel_intros [folded frame_obeys]

lemma keeps_Ok: "keeps I m \<Longrightarrow> I s \<Longrightarrow> m s = Ok a t \<Longrightarrow> I t"
  unfolding keeps_def by (metis res_state.simps(1))

lemma frame_Ok: "frame f m \<Longrightarrow> m s = Ok a t \<Longrightarrow> f t = f s"
  unfolding frame_def by (metis res_state.simps(1))

lemma frame_Stop: "frame f m \<Longrightarrow> m s = Stop h t \<Longrightarrow> f t = f s"
  unfolding frame_def by (metis res_state.simps(2))

text \<open>An invariant that reads only a framed projection is preserved.\<close>

lemma frame_keeps: "frame f m \<Longrightarrow> keeps (\<lambda>s. P (f s)) m"
  by (simp add: frame_def keeps_def)

section \<open>Lists as C arrays\<close>

text \<open>Index of the first element from \<open>i\<close> on that satisfies \<open>P\<close>: the linear searches
  over the kernel's tables.\<close>

primrec first_from :: "nat \<Rightarrow> ('a \<Rightarrow> bool) \<Rightarrow> 'a list \<Rightarrow> nat option" where
  "first_from i P [] = None"
| "first_from i P (x # xs) = (if P x then Some i else first_from (Suc i) P xs)"

lemma first_from_Some:
  "first_from i P xs = Some j \<Longrightarrow>
    i \<le> j \<and> j < i + length xs \<and> P (xs ! (j - i)) \<and> (\<forall>k. i \<le> k \<and> k < j \<longrightarrow> \<not> P (xs ! (k - i)))"
proof (induction xs arbitrary: i)
  case Nil
  then show ?case by simp
next
  case (Cons x xs)
  show ?case
  proof (cases "P x")
    case True
    with Cons.prems show ?thesis by auto
  next
    case False
    with Cons.prems have rec: "first_from (Suc i) P xs = Some j" by simp
    note IH = Cons.IH [OF rec]
    have "\<not> P ((x # xs) ! (k - i))" if "i \<le> k" "k < j" for k
      using that IH False by (cases "k = i") (auto simp: nth_Cons' Suc_diff_le)
    with IH False show ?thesis by (auto simp: nth_Cons' simp del: nth_Cons_Suc)
  qed
qed

lemma first_from_0_Some:
  assumes "first_from 0 P xs = Some j"
  shows "j < length xs" and "P (xs ! j)" and "\<And>k. k < j \<Longrightarrow> \<not> P (xs ! k)"
  using first_from_Some [OF assms] by auto

lemma first_from_None: "first_from i P xs = None \<longleftrightarrow> (\<forall>x \<in> set xs. \<not> P x)"
  by (induction xs arbitrary: i) auto

lemma map_nth_update_id: "i < length xs \<Longrightarrow> f x = f (xs ! i) \<Longrightarrow> map f (xs[i := x]) = map f xs"
  by (simp add: map_update list_update_same_conv)

lemma list_all_update: "list_all P xs \<Longrightarrow> P x \<Longrightarrow> list_all P (xs[i := x])"
  by (auto simp: list_all_iff dest: set_update_subset_insert [THEN subsetD])

end
