(* ===== verification/CString.thy ===== *)
theory CString
  imports Prelude
begin

text \<open>
  \<^verbatim>\<open>string.c\<close>: the kernel's memory and string routines. A character array is the list of
  its bytes starting at the pointer the routine is given; reading or writing past the end of
  the list is \<open>None\<close>. The \<open>mem\<close> routines work on the byte-addressed memory, a function
  from 32-bit addresses, so that overlapping arguments and address wrap-around are visible.
\<close>

section \<open>Character arrays\<close>

abbreviation NUL :: char where "NUL \<equiv> CHR 0x00"

definition uchar :: "char \<Rightarrow> int" where
  "uchar c = int (of_char c)"

fun strncmp :: "char list \<Rightarrow> char list \<Rightarrow> nat \<Rightarrow> int option" where
  "strncmp p q 0 = Some 0"
| "strncmp (a # p) (b # q) (Suc n) =
     (if a \<noteq> NUL \<and> a = b then strncmp p q n else Some (uchar a - uchar b))"
| "strncmp p q (Suc n) = None"

fun fill0 :: "char list \<Rightarrow> nat \<Rightarrow> char list option" where
  "fill0 s 0 = Some s"
| "fill0 (_ # s) (Suc n) = map_option (Cons NUL) (fill0 s n)"
| "fill0 [] (Suc n) = None"

fun strncpy :: "char list \<Rightarrow> char list \<Rightarrow> nat \<Rightarrow> char list option" where
  "strncpy s t 0 = Some s"
| "strncpy (_ # s) (c # t) (Suc n) =
     map_option (Cons c) (if c \<noteq> NUL then strncpy s t n else fill0 s n)"
| "strncpy s t (Suc n) = None"

fun safestrcpy_loop :: "char list \<Rightarrow> char list \<Rightarrow> nat \<Rightarrow> char list option" where
  "safestrcpy_loop (_ # s) t 0 = Some (NUL # s)"
| "safestrcpy_loop (_ # s) (c # t) (Suc n) =
     map_option (Cons c)
       (if c \<noteq> NUL then safestrcpy_loop s t n
        else (case s of [] \<Rightarrow> None | _ # s' \<Rightarrow> Some (NUL # s')))"
| "safestrcpy_loop s t n = None"

definition safestrcpy :: "char list \<Rightarrow> char list \<Rightarrow> int \<Rightarrow> char list option" where
  "safestrcpy s t n = (if n \<le> 0 then Some s else safestrcpy_loop s t (nat n - 1))"

fun strlen :: "char list \<Rightarrow> nat option" where
  "strlen [] = None"
| "strlen (c # s) = (if c = NUL then Some 0 else map_option Suc (strlen s))"

text \<open>The string an array holds: its bytes up to the first NUL.\<close>

definition cstr :: "char list \<Rightarrow> char list" where
  "cstr s = takeWhile (\<lambda>c. c \<noteq> NUL) s"

definition terminated :: "char list \<Rightarrow> bool" where
  "terminated s \<longleftrightarrow> NUL \<in> set s"

definition cstring :: "char list \<Rightarrow> char list" where
  "cstring s = s @ [NUL]"

lemma cstr_Cons [simp]: "cstr (c # s) = (if c = NUL then [] else c # cstr s)"
  and cstr_Nil [simp]: "cstr [] = []"
  by (simp_all add: cstr_def)

lemma terminated_Cons [simp]: "terminated (c # s) \<longleftrightarrow> c = NUL \<or> terminated s"
  and terminated_Nil [simp]: "\<not> terminated []"
  by (auto simp: terminated_def)

lemma cstr_cstring: "NUL \<notin> set s \<Longrightarrow> cstr (cstring s) = s"
  by (induction s) (auto simp: cstring_def)

lemma terminated_cstring [simp]: "terminated (cstring s)"
  by (simp add: terminated_def cstring_def)

lemma strlen_cstr: "terminated s \<Longrightarrow> strlen s = Some (length (cstr s))"
  by (induction s) auto

lemma strlen_None: "\<not> terminated s \<Longrightarrow> strlen s = None"
  by (induction s) auto

lemma uchar_inject [simp]: "uchar a = uchar b \<longleftrightarrow> a = b"
  by (simp add: uchar_def)

lemma strncmp_terminated:
  "terminated p \<Longrightarrow> terminated q \<Longrightarrow> \<exists>r. strncmp p q n = Some r"
  by (induction p q n rule: strncmp.induct) auto

lemma strncmp_0_iff:
  "terminated p \<Longrightarrow> terminated q \<Longrightarrow>
    strncmp p q n = Some 0 \<longleftrightarrow> take n (cstr p) = take n (cstr q)"
  by (induction p q n rule: strncmp.induct) auto

lemma strncpy_length: "strncpy s t n = Some r \<Longrightarrow> length r = length s"
proof (induction s t n arbitrary: r rule: strncpy.induct)
  case (2 u s c t n)
  have "fill0 s n = Some r' \<Longrightarrow> length r' = length s" for s n r'
    by (induction s n arbitrary: r' rule: fill0.induct) auto
  with 2 show ?case by (auto split: if_splits)
qed auto

lemma fill0_Some: "n \<le> length s \<Longrightarrow> fill0 s n = Some (replicate n NUL @ drop n s)"
  by (induction s n rule: fill0.induct) auto

lemma strncpy_Some:
  "n \<le> length s \<Longrightarrow> terminated t \<Longrightarrow>
    strncpy s t n =
      Some (take n (cstr t) @ replicate (n - length (cstr t)) NUL @ drop n s)"
  by (induction s t n rule: strncpy.induct) (auto simp: fill0_Some)

lemma safestrcpy_loop_Some:
  "n < length s \<Longrightarrow> terminated t \<Longrightarrow>
    \<exists>r. safestrcpy_loop s t n = Some r \<and> length r = length s \<and>
        cstr r = take n (cstr t) \<and> terminated (take (Suc n) r)"
proof (induction s t n rule: safestrcpy_loop.induct)
  case (2 u s c t n)
  then show ?case by (cases s) (auto split: list.split)
qed auto

text \<open>
  \<open>safestrcpy\<close> never leaves the destination without a terminator and copies the longest
  prefix of the source that fits: for a destination of at least \<open>n\<close> bytes, \<open>0 < n\<close>,
  it succeeds, keeps the array's length, and the array then holds the first \<open>n - 1\<close>
  characters of the source string, with a NUL among its first \<open>n\<close> bytes.
\<close>

lemma safestrcpy_terminates:
  assumes "0 < n" and "nat n \<le> length s" and "terminated t"
  shows "\<exists>r. safestrcpy s t n = Some r \<and> length r = length s \<and>
    cstr r = take (nat n - 1) (cstr t) \<and> terminated (take (nat n) r)"
  using safestrcpy_loop_Some [of "nat n - 1" s t] assms by (auto simp: safestrcpy_def)

section \<open>Memory\<close>

type_synonym memory = "uint \<Rightarrow> byte"

fun stosb :: "memory \<Rightarrow> uint \<Rightarrow> byte \<Rightarrow> nat \<Rightarrow> memory" where
  "stosb m a c 0 = m"
| "stosb m a c (Suc n) = stosb (m(a := c)) (a + 1) c n"

text \<open>Storing and loading a 32-bit word, low byte first.\<close>

definition st32 :: "memory \<Rightarrow> uint \<Rightarrow> uint \<Rightarrow> memory" where
  "st32 m a v = m(a := ucast v, a + 1 := ucast (drop_bit 8 v),
     a + 2 := ucast (drop_bit 16 v), a + 3 := ucast (drop_bit 24 v))"

definition ld32 :: "memory \<Rightarrow> uint \<Rightarrow> uint" where
  "ld32 m a = word_cat (m (a + 3))
     (word_cat (m (a + 2)) (word_cat (m (a + 1)) (m a) :: 16 word) :: 24 word)"

fun stosl :: "memory \<Rightarrow> uint \<Rightarrow> uint \<Rightarrow> nat \<Rightarrow> memory" where
  "stosl m a v 0 = m"
| "stosl m a v (Suc n) = stosl (st32 m a v) (a + 4) v n"

definition memset :: "memory \<Rightarrow> uint \<Rightarrow> int \<Rightarrow> uint \<Rightarrow> memory" where
  "memset m dst c n =
     (let b = (word_of_int c :: byte); w = (ucast b :: uint) in
      if unat dst mod 4 = 0 \<and> unat n mod 4 = 0
      then stosl m dst (or (or (or (push_bit 24 w) (push_bit 16 w)) (push_bit 8 w)) w)
             (unat n div 4)
      else stosb m dst b (unat n))"

fun memcmp_loop :: "memory \<Rightarrow> uint \<Rightarrow> uint \<Rightarrow> nat \<Rightarrow> int" where
  "memcmp_loop m s1 s2 0 = 0"
| "memcmp_loop m s1 s2 (Suc n) =
     (if m s1 \<noteq> m s2 then uint (m s1) - uint (m s2) else memcmp_loop m (s1 + 1) (s2 + 1) n)"

definition memcmp :: "memory \<Rightarrow> uint \<Rightarrow> uint \<Rightarrow> uint \<Rightarrow> int" where
  "memcmp m v1 v2 n = memcmp_loop m v1 v2 (unat n)"

fun move_up :: "memory \<Rightarrow> uint \<Rightarrow> uint \<Rightarrow> nat \<Rightarrow> memory" where
  "move_up m d s 0 = m"
| "move_up m d s (Suc n) = move_up (m(d := m s)) (d + 1) (s + 1) n"

fun move_down :: "memory \<Rightarrow> uint \<Rightarrow> uint \<Rightarrow> nat \<Rightarrow> memory" where
  "move_down m d s 0 = m"
| "move_down m d s (Suc n) = move_down (m(d - 1 := m (s - 1))) (d - 1) (s - 1) n"

definition memmove :: "memory \<Rightarrow> uint \<Rightarrow> uint \<Rightarrow> uint \<Rightarrow> memory" where
  "memmove m dst src n =
     (if src < dst \<and> dst < src + n then move_down m (dst + n) (src + n) (unat n)
      else move_up m dst src (unat n))"

definition memcpy :: "memory \<Rightarrow> uint \<Rightarrow> uint \<Rightarrow> uint \<Rightarrow> memory" where
  "memcpy m dst src n = memmove m dst src n"


lemma unat_plus1: "unat (a :: uint) + Suc n \<le> 2 ^ 32 \<Longrightarrow> 0 < n \<Longrightarrow> unat (a + 1) = unat a + 1"
  by (simp add: unat_word_ariths)

lemma unat_eq_plus: "unat (a :: uint) = unat d + k \<Longrightarrow> a = d + of_nat k"
proof -
  assume "unat a = unat d + k"
  then have "(of_nat (unat a) :: uint) = of_nat (unat d) + of_nat k" by simp
  then show "a = d + of_nat k" by simp
qed

lemma move_up_spec:
  assumes "unat d + n \<le> 2 ^ 32" and "unat s + n \<le> 2 ^ 32"
    and "unat d \<le> unat s \<or> unat s + n \<le> unat d"
  shows "move_up m d s n a =
    (if unat d \<le> unat a \<and> unat a < unat d + n then m (s + (a - d)) else m a)"
  using assms
proof (induction n arbitrary: m d s)
  case 0
  then show ?case by auto
next
  case (Suc n)
  define m' where "m' = m(d := m s)"
  have m'_app: "m' d = m s" "x \<noteq> d \<Longrightarrow> m' x = m x" for x by (simp_all add: m'_def)
  have step: "move_up m d s (Suc n) = move_up m' (d + 1) (s + 1) n" by (simp add: m'_def)
  show ?case
  proof (cases "n = 0")
    case True
    then have "unat d \<le> unat a \<and> unat a < unat d + Suc n \<longleftrightarrow> a = d"
      by (auto simp: word_unat_eq_iff)
    with True show ?thesis by (simp add: step m'_app)
  next
    case False
    then have d1: "unat (d + 1) = unat d + 1" and s1: "unat (s + 1) = unat s + 1"
      using Suc.prems unat_plus1 by blast+
    have IH: "move_up m' (d + 1) (s + 1) n a =
      (if unat d + 1 \<le> unat a \<and> unat a < unat d + 1 + n then m' (s + (a - d)) else m' a)"
      using Suc.IH [of "d + 1" "s + 1" m'] Suc.prems d1 s1 by (auto simp: algebra_simps)
    have src: "s + (a - d) \<noteq> d" if "unat d + 1 \<le> unat a" "unat a < unat d + 1 + n"
    proof -
      define k where "k = unat a - unat d"
      have k: "0 < k" "k \<le> n" "unat a = unat d + k" using that by (auto simp: k_def)
      then have "s + (a - d) = s + of_nat k" using unat_eq_plus [of a d k] by simp
      moreover have "unat (s + of_nat k) = unat s + k"
        using k Suc.prems by (simp add: unat_word_ariths unat_of_nat)
      ultimately show ?thesis using Suc.prems(3) k by auto
    qed
    have "unat d \<le> unat a \<and> unat a < unat d + Suc n \<longleftrightarrow>
        a = d \<or> (unat d + 1 \<le> unat a \<and> unat a < unat d + 1 + n)"
      by (auto simp: word_unat_eq_iff)
    with IH src show ?thesis by (auto simp: step m'_app simp del: move_up.simps)
  qed
qed

lemma unat_minus1: "0 < unat (a :: uint) \<Longrightarrow> unat (a - 1) = unat a - 1"
  by (metis unat_eq_0 neq0_conv unat_minus_one)

lemma move_down_spec:
  assumes "n \<le> unat d" and "n \<le> unat s" and "unat s \<le> unat d"
  shows "move_down m d s n a =
    (if unat d - n \<le> unat a \<and> unat a < unat d then m (s - (d - a)) else m a)"
  using assms
proof (induction n arbitrary: m d s)
  case 0
  then show ?case by auto
next
  case (Suc n)
  define m' where "m' = m(d - 1 := m (s - 1))"
  have m'_app: "m' (d - 1) = m (s - 1)" "x \<noteq> d - 1 \<Longrightarrow> m' x = m x" for x
    by (simp_all add: m'_def)
  have step: "move_down m d s (Suc n) = move_down m' (d - 1) (s - 1) n" by (simp add: m'_def)
  have d1: "unat (d - 1) = unat d - 1" and s1: "unat (s - 1) = unat s - 1"
    using Suc.prems by (simp_all add: unat_minus1)
  have IH: "move_down m' (d - 1) (s - 1) n a =
    (if unat d - 1 - n \<le> unat a \<and> unat a < unat d - 1 then m' (s - (d - a)) else m' a)"
    using Suc.IH [of "d - 1" "s - 1" m'] Suc.prems d1 s1 by (auto simp: algebra_simps)
  have src: "s - (d - a) \<noteq> d - 1" if "unat d - 1 - n \<le> unat a" "unat a < unat d - 1"
  proof -
    define k where "k = unat d - unat a"
    have k: "1 < k" "k \<le> Suc n" "unat d = unat a + k" using that Suc.prems by (auto simp: k_def)
    then have eq: "s - (d - a) = s - of_nat k" using unat_eq_plus [of d a k] by simp
    have "unat (s - of_nat k) = unat s - k"
      using k Suc.prems unsigned_less [of s, where ?'a = nat]
      by (simp add: unat_sub unat_of_nat word_le_nat_alt)
    then have "unat (s - (d - a)) = unat s - k" by (simp only: eq)
    then have "unat (s - (d - a)) < unat (d - 1)" using Suc.prems k d1 by simp
    then show ?thesis by (metis less_irrefl)
  qed
  have "unat d - Suc n \<le> unat a \<and> unat a < unat d \<longleftrightarrow>
      a = d - 1 \<or> (unat d - 1 - n \<le> unat a \<and> unat a < unat d - 1)"
    using d1 Suc.prems by (auto simp: word_unat_eq_iff)
  with IH src show ?case by (auto simp: step m'_app simp del: move_down.simps)
qed

text \<open>
  C31. \<open>memmove\<close> copies correctly whether or not source and destination overlap: for ranges
  that do not wrap around the address space, every destination byte afterwards holds what the
  corresponding source byte held before the call, and no other byte changes.
\<close>

theorem memmove_copies:
  assumes "unat src + unat n < 2 ^ 32" and "unat dst + unat n < 2 ^ 32"
  shows "memmove m dst src n a =
    (if unat dst \<le> unat a \<and> unat a < unat dst + unat n then m (src + (a - dst)) else m a)"
proof (cases "src < dst \<and> dst < src + n")
  case True
  have "unat (src + n) = unat src + unat n" "unat (dst + n) = unat dst + unat n"
    using assms by (simp_all add: unat_word_ariths)
  with True show ?thesis
    using move_down_spec [of "unat n" "dst + n" "src + n" m a]
    by (auto simp: memmove_def word_less_nat_alt algebra_simps)
next
  case False
  have "unat (src + n) = unat src + unat n"
    using assms by (simp add: unat_word_ariths)
  with False have "unat dst \<le> unat src \<or> unat src + unat n \<le> unat dst"
    by (auto simp: word_less_nat_alt)
  with False assms show ?thesis
    using move_up_spec [of dst "unat n" src m a] by (auto simp: memmove_def)
qed

theorem memmove_copies_witness:
  "memmove (\<lambda>a. ucast a) 101 100 4 103 = 102 \<and> memmove (\<lambda>a. ucast a) 101 100 4 105 = 105"
  using memmove_copies [of 100 4 101 "\<lambda>a. ucast a" 103]
    memmove_copies [of 100 4 101 "\<lambda>a. ucast a" 105]
  by simp

lemma replicated_bytes:
  fixes b :: byte
  defines "v \<equiv> or (or (or (push_bit 24 (ucast b :: uint)) (push_bit 16 (ucast b)))
    (push_bit 8 (ucast b))) (ucast b)"
  shows "(ucast v :: byte) = b" "(ucast (drop_bit 8 v) :: byte) = b"
    "(ucast (drop_bit 16 v) :: byte) = b" "(ucast (drop_bit 24 v) :: byte) = b"
  unfolding v_def
  by (rule bit_word_eqI; auto simp: bit_simps dest: bit_imp_le_length)+

lemma stosl_stosb:
  assumes "(ucast v :: byte) = b" "(ucast (drop_bit 8 v) :: byte) = b"
    "(ucast (drop_bit 16 v) :: byte) = b" "(ucast (drop_bit 24 v) :: byte) = b"
  shows "stosl m a v n = stosb m a b (4 * n)"
proof (induction n arbitrary: m a)
  case 0
  show ?case by simp
next
  case (Suc n)
  have "4 * Suc n = Suc (Suc (Suc (Suc (4 * n))))" by simp
  then have "stosb m a b (4 * Suc n) =
      stosb (m(a := b, a + 1 := b, a + 2 := b, a + 3 := b)) (a + 4) b (4 * n)"
    by (simp only: stosb.simps add.assoc) simp
  moreover have "st32 m a v = m(a := b, a + 1 := b, a + 2 := b, a + 3 := b)"
    by (simp only: st32_def assms)
  ultimately show ?case by (simp only: stosl.simps Suc.IH)
qed

lemma stosb_spec:
  "unat a + n \<le> 2 ^ 32 \<Longrightarrow>
    stosb m a c n x = (if unat a \<le> unat x \<and> unat x < unat a + n then c else m x)"
proof (induction n arbitrary: m a)
  case 0
  then show ?case by auto
next
  case (Suc n)
  define m' where "m' = m(a := c)"
  have m'_app: "m' a = c" "y \<noteq> a \<Longrightarrow> m' y = m y" for y by (simp_all add: m'_def)
  have step: "stosb m a c (Suc n) = stosb m' (a + 1) c n" by (simp add: m'_def)
  have range: "unat a \<le> unat x \<and> unat x < unat a + Suc n \<longleftrightarrow>
      x = a \<or> (unat a + 1 \<le> unat x \<and> unat x < unat a + 1 + n)"
    by (auto simp: word_unat_eq_iff)
  show ?case
  proof (cases "n = 0")
    case True
    with range show ?thesis by (auto simp: step m'_app)
  next
    case False
    then have "unat (a + 1) = unat a + 1" using Suc.prems unat_plus1 by blast
    with Suc.IH [of "a + 1" m'] Suc.prems range show ?thesis
      by (auto simp: step m'_app simp del: stosb.simps)
  qed
qed

lemma memset_spec:
  assumes "unat dst + unat n \<le> 2 ^ 32"
  shows "memset m dst c n a =
    (if unat dst \<le> unat a \<and> unat a < unat dst + unat n then word_of_int c else m a)"
proof (cases "unat dst mod 4 = 0 \<and> unat n mod 4 = 0")
  case True
  then have "4 * (unat n div 4) = unat n" by auto
  with True assms show ?thesis
    by (simp add: memset_def Let_def stosl_stosb [OF replicated_bytes] stosb_spec)
next
  case False
  then show ?thesis using assms by (simp only: memset_def Let_def if_False stosb_spec)
qed

lemma ld32_st32: "ld32 (st32 m a v) a = v"
  by (rule bit_word_eqI) (auto simp: ld32_def st32_def bit_simps)

lemma ld32_cong:
  "m a = m' a \<Longrightarrow> m (a + 1) = m' (a + 1) \<Longrightarrow> m (a + 2) = m' (a + 2) \<Longrightarrow> m (a + 3) = m' (a + 3) \<Longrightarrow>
    ld32 m a = ld32 m' a"
  by (simp add: ld32_def)

end
