(* ===== verification/Spinlock.thy ===== *)
theory Spinlock
  imports CString
begin

text \<open>
  \<^verbatim>\<open>spinlock.c\<close> and \<^verbatim>\<open>sleeplock.h\<close>: the spin locks every other component
  uses. The first part is the view the rest of the kernel has of them, on one processor: the
  list of the locks this processor holds (\<open>held\<close>), whose length is the depth of
  \<open>pushcli\<close> nesting. The second part is the code of \<^verbatim>\<open>spinlock.c\<close> itself on the
  state of all processors (interrupt flag, \<open>ncli\<close>, \<open>intena\<close>, the lock words), and a
  refinement between the two. The third part splits \<open>acquire\<close> and \<open>release\<close> into
  their atomic memory steps and shows mutual exclusion for any number of processors.
\<close>

section \<open>Locks as the kernel's components see them\<close>

datatype slid = InodeLock nat | BufLock nat

datatype lockid =
    Lctable | Lptable | Lkmem | Lbcache | Lide | Llog | Licache | Lftable | Lcons | Ltickslock
  | Lpipe uint | Lsleep slid

record kcore =
  held :: "lockid list"

definition holding :: "lockid \<Rightarrow> ('z kcore_scheme, bool) kop" where
  "holding lk = kget (\<lambda>s. lk \<in> set (held s))"

definition acquire :: "lockid \<Rightarrow> ('z kcore_scheme, unit) kop" where
  "acquire lk =
     kbind (holding lk) (\<lambda>h.
     if h then panic ''acquire''
     else kmod (\<lambda>s. s\<lparr>held := lk # held s\<rparr>))"

definition release :: "lockid \<Rightarrow> ('z kcore_scheme, unit) kop" where
  "release lk =
     kbind (holding lk) (\<lambda>h.
     if \<not> h then panic ''release''
     else kmod (\<lambda>s. s\<lparr>held := remove1 lk (held s)\<rparr>))"

lemma holding_exec [kexec]: "holding lk s = Ok (lk \<in> set (held s)) s"
  by (simp add: holding_def kget_def)

lemma acquire_exec [kexec]: "acquire lk s =
    (if lk \<in> set (held s) then Stop (Panic ''acquire'') s else Ok () (s\<lparr>held := lk # held s\<rparr>))"
  by (simp add: acquire_def kexec)

lemma release_exec [kexec]: "release lk s =
    (if lk \<in> set (held s) then Ok () (s\<lparr>held := remove1 lk (held s)\<rparr>)
     else Stop (Panic ''release'') s)"
  by (simp add: release_def kexec)

lemma frame_acquire [intro]: "(\<And>s g. f (s\<lparr>held := g\<rparr>) = f s) \<Longrightarrow> frame f (acquire lk)"
  by (simp add: frame_def acquire_exec)

lemma frame_release [intro]: "(\<And>s g. f (s\<lparr>held := g\<rparr>) = f s) \<Longrightarrow> frame f (release lk)"
  by (simp add: frame_def release_exec)

lemma keeps_acquire [intro]: "(\<And>s g. I s \<Longrightarrow> I (s\<lparr>held := g\<rparr>)) \<Longrightarrow> keeps I (acquire lk)"
  by (simp add: keeps_def acquire_exec)

lemma keeps_release [intro]: "(\<And>s g. I s \<Longrightarrow> I (s\<lparr>held := g\<rparr>)) \<Longrightarrow> keeps I (release lk)"
  by (simp add: keeps_def release_exec)

section \<open>The code of \<^verbatim>\<open>spinlock.c\<close> on all processors\<close>

record spinlock =
  locked :: bool
  lock_cpu :: "nat option"
  pcs :: "uint list"

record smp =
  fl_if :: "nat \<Rightarrow> bool"          \<comment> \<open>the interrupt flag of each processor\<close>
  ncli :: "nat \<Rightarrow> int"
  intena :: "nat \<Rightarrow> bool"
  locks :: "lockid \<Rightarrow> spinlock"
  stack_mem :: memory              \<comment> \<open>what the \<open>ebp\<close> chain of getcallerpcs is read from\<close>

definition initlock :: "lockid \<Rightarrow> (smp, unit) kop" where
  "initlock lk = kmod (\<lambda>s. s\<lparr>locks := (locks s)(lk := (locks s lk)\<lparr>locked := False, lock_cpu := None\<rparr>)\<rparr>)"

definition sl_holding :: "nat \<Rightarrow> lockid \<Rightarrow> smp \<Rightarrow> bool" where
  "sl_holding c lk s \<longleftrightarrow> locked (locks s lk) \<and> lock_cpu (locks s lk) = Some c"

definition pushcli :: "nat \<Rightarrow> (smp, unit) kop" where
  "pushcli c =
     kbind (kget (\<lambda>s. fl_if s c)) (\<lambda>eflags.
     kthen (kmod (\<lambda>s. s\<lparr>fl_if := (fl_if s)(c := False)\<rparr>))
     (kmod (\<lambda>s.
        let s' = (if ncli s c = 0 then s\<lparr>intena := (intena s)(c := eflags)\<rparr> else s)
        in s'\<lparr>ncli := (ncli s')(c := ncli s' c + 1)\<rparr>)))"

definition popcli :: "nat \<Rightarrow> (smp, unit) kop" where
  "popcli c =
     kbind (kget (\<lambda>s. fl_if s c)) (\<lambda>eflags.
     if eflags then panic ''popcli - interruptible''
     else kthen (kmod (\<lambda>s. s\<lparr>ncli := (ncli s)(c := ncli s c - 1)\<rparr>))
       (kbind (kget (\<lambda>s. (ncli s c, intena s c))) (\<lambda>(n, ena).
        if n < 0 then panic ''popcli''
        else if n = 0 \<and> ena then kmod (\<lambda>s. s\<lparr>fl_if := (fl_if s)(c := True)\<rparr>)
        else ret ())))"

text \<open>The call stack recorded for debugging: at most ten return addresses along the
  \<open>ebp\<close> chain, the rest of the array zeroed.\<close>

fun callerpcs :: "memory \<Rightarrow> uint \<Rightarrow> nat \<Rightarrow> uint list" where
  "callerpcs m ebp 0 = []"
| "callerpcs m ebp (Suc n) =
     (if ebp = 0 \<or> ebp < 0x80000000 \<or> ebp = 0xffffffff then replicate (Suc n) 0
      else ld32 m (ebp + 4) # callerpcs m (ld32 m ebp) n)"

definition getcallerpcs :: "memory \<Rightarrow> uint \<Rightarrow> uint list" where
  "getcallerpcs m v = callerpcs m (v - 8) 10"

definition sl_acquire :: "nat \<Rightarrow> uint \<Rightarrow> lockid \<Rightarrow> (smp, unit) kop" where
  "sl_acquire c arg lk =
     kthen (pushcli c)
     (kbind (kget (sl_holding c lk)) (\<lambda>h.
      if h then panic ''acquire''
      else kbind (kget (\<lambda>s. locked (locks s lk))) (\<lambda>old.
           if old then stop Spin
           else kthen (kmod (\<lambda>s. s\<lparr>locks := (locks s)(lk := (locks s lk)\<lparr>locked := True\<rparr>)\<rparr>))
                (kmod (\<lambda>s. s\<lparr>locks := (locks s)(lk :=
                    (locks s lk)\<lparr>lock_cpu := Some c, pcs := getcallerpcs (stack_mem s) arg\<rparr>)\<rparr>)))))"

definition sl_release :: "nat \<Rightarrow> lockid \<Rightarrow> (smp, unit) kop" where
  "sl_release c lk =
     kbind (kget (sl_holding c lk)) (\<lambda>h.
     if \<not> h then panic ''release''
     else kthen (kmod (\<lambda>s. s\<lparr>locks := (locks s)(lk :=
               (locks s lk)\<lparr>pcs := (pcs (locks s lk))[0 := 0], lock_cpu := None\<rparr>)\<rparr>))
          (kthen (kmod (\<lambda>s. s\<lparr>locks := (locks s)(lk := (locks s lk)\<lparr>locked := False\<rparr>)\<rparr>))
          (popcli c)))"

lemma pushcli_exec [kexec]: "pushcli c s =
    Ok () (s\<lparr>fl_if := (fl_if s)(c := False),
             intena := (if ncli s c = 0 then (intena s)(c := fl_if s c) else intena s),
             ncli := (ncli s)(c := ncli s c + 1)\<rparr>)"
  by (simp add: pushcli_def kexec Let_def)

lemma popcli_exec [kexec]: "popcli c s =
    (if fl_if s c then Stop (Panic ''popcli - interruptible'') s
     else let t = s\<lparr>ncli := (ncli s)(c := ncli s c - 1)\<rparr> in
       if ncli s c - 1 < 0 then Stop (Panic ''popcli'') t
       else if ncli s c = 1 \<and> intena s c then Ok () (t\<lparr>fl_if := (fl_if s)(c := True)\<rparr>)
       else Ok () t)"
  by (simp add: popcli_def kexec Let_def)

lemma length_callerpcs [simp]: "length (callerpcs m ebp n) = n"
  by (induction m ebp n rule: callerpcs.induct) auto

text \<open>The view of processor \<open>c\<close> and the machine agree: the locks it holds are the listed
  ones, \<open>ncli\<close> counts them, and interrupts are off while there is one.\<close>

definition lock_view :: "nat \<Rightarrow> smp \<Rightarrow> lockid list \<Rightarrow> bool" where
  "lock_view c m ls \<longleftrightarrow>
     distinct ls \<and> (\<forall>lk. sl_holding c lk m \<longleftrightarrow> lk \<in> set ls) \<and>
     ncli m c = int (length ls) \<and> (ls \<noteq> [] \<longrightarrow> \<not> fl_if m c)"

text \<open>All processors idle with interrupts enabled, all locks free.\<close>

definition smp_idle :: smp where
  "smp_idle = \<lparr>fl_if = (\<lambda>_. True), ncli = (\<lambda>_. 0), intena = (\<lambda>_. False),
     locks = (\<lambda>_. \<lparr>locked = False, lock_cpu = None, pcs = replicate 10 0\<rparr>), stack_mem = (\<lambda>_. 0)\<rparr>"

lemma smp_idle_view: "lock_view 0 smp_idle []"
  by (simp add: lock_view_def smp_idle_def sl_holding_def)

lemma sl_acquire_exec: "sl_acquire c arg lk m =
    (let m1 = m\<lparr>fl_if := (fl_if m)(c := False),
             intena := (if ncli m c = 0 then (intena m)(c := fl_if m c) else intena m),
             ncli := (ncli m)(c := ncli m c + 1)\<rparr> in
     if sl_holding c lk m then Stop (Panic ''acquire'') m1
     else if locked (locks m lk) then Stop Spin m1
     else Ok () (m1\<lparr>locks := (locks m)(lk := (locks m lk)\<lparr>locked := True, lock_cpu := Some c,
            pcs := getcallerpcs (stack_mem m) arg\<rparr>)\<rparr>))"
  by (simp add: sl_acquire_def kexec sl_holding_def Let_def)

text \<open>
  C26. The code of \<open>acquire\<close> refines the lock list the other components are modelled with:
  from a machine state that agrees with the list, it panics exactly when the model's
  \<open>acquire\<close> does, with the same message; otherwise it either spins, because another
  processor holds the lock, or it returns in a state that agrees with the model's new list.
\<close>

theorem acquire_refines:
  assumes "lock_view c m (held s)"
  shows "case sl_acquire c arg lk m of
      Ok _ m' \<Rightarrow> (\<exists>s'. acquire lk s = Ok () s' \<and> lock_view c m' (held s'))
    | Stop h m' \<Rightarrow>
        if h = Spin then locked (locks m lk) \<and> lock_cpu (locks m lk) \<noteq> Some c
        else (\<exists>s'. acquire lk s = Stop h s')"
proof (cases "sl_holding c lk m")
  case True
  with assms show ?thesis by (simp add: sl_acquire_exec acquire_exec lock_view_def)
next
  case False
  with assms have "lk \<notin> set (held s)" by (simp add: lock_view_def)
  with False assms show ?thesis
    by (cases "locked (locks m lk)")
      (simp_all add: sl_acquire_exec acquire_exec lock_view_def sl_holding_def Let_def)
qed

theorem acquire_refines_witness:
  "lock_view 0 smp_idle (held \<lparr>held = []\<rparr>) \<and>
   (case sl_acquire 0 0 Lkmem smp_idle of
      Ok _ m' \<Rightarrow> (\<exists>s'. acquire Lkmem \<lparr>held = []\<rparr> = Ok () s' \<and> lock_view 0 m' (held s'))
    | Stop h m' \<Rightarrow> False)"
proof -
  have view: "lock_view 0 smp_idle (held \<lparr>held = []\<rparr>)" by (simp add: smp_idle_view)
  have "\<exists>m'. sl_acquire 0 0 Lkmem smp_idle = Ok () m'"
    by (simp add: sl_acquire_exec smp_idle_def sl_holding_def Let_def)
  with view acquire_refines [OF view, of Lkmem 0] show ?thesis by auto
qed

lemma sl_release_exec: "sl_release c lk m =
    (if sl_holding c lk m
     then popcli c (m\<lparr>locks := (locks m)(lk := (locks m lk)\<lparr>
            pcs := (pcs (locks m lk))[0 := 0], lock_cpu := None, locked := False\<rparr>)\<rparr>)
     else Stop (Panic ''release'') m)"
  by (simp add: sl_release_def kexec)

lemma lock_view_release:
  assumes "lock_view c m (lk # ls)"
  shows "\<exists>m'. sl_release c lk m = Ok () m' \<and> lock_view c m' ls \<and>
    (ls = [] \<longrightarrow> fl_if m' c = intena m c)"
  using assms
  by (cases "ls = [] \<and> intena m c")
    (auto simp: sl_release_exec popcli_exec lock_view_def sl_holding_def)

text \<open>
  C27. The code of \<open>release\<close> refines the lock list in the same way; and when the last lock
  is released, the processor's interrupt flag is back to what \<open>intena\<close> recorded.
\<close>

theorem release_refines:
  assumes "lock_view c m (held s)"
  shows "case sl_release c lk m of
      Ok _ m' \<Rightarrow> (\<exists>s'. release lk s = Ok () s' \<and> lock_view c m' (held s') \<and>
                    (held s' = [] \<longrightarrow> fl_if m' c = intena m c))
    | Stop h m' \<Rightarrow> (\<exists>s'. release lk s = Stop h s')"
proof (cases "lk \<in> set (held s)")
  case True
  then have "length (held s) = Suc (length (remove1 lk (held s)))"
    by (auto simp: length_remove1 dest: length_pos_if_in_set)
  with assms True have "lock_view c m (lk # remove1 lk (held s))"
    by (auto simp: lock_view_def in_set_remove1)
  from lock_view_release [OF this] True show ?thesis
    by (auto simp: release_exec)
next
  case False
  with assms show ?thesis by (simp add: sl_release_exec release_exec lock_view_def)
qed

theorem release_refines_witness:
  "case sl_acquire 0 0 Lkmem smp_idle of Stop h m \<Rightarrow> False
   | Ok _ m \<Rightarrow> lock_view 0 m (held \<lparr>held = [Lkmem]\<rparr>) \<and>
       (case sl_release 0 Lkmem m of Stop h m' \<Rightarrow> False
        | Ok _ m' \<Rightarrow> (\<exists>s'. release Lkmem \<lparr>held = [Lkmem]\<rparr> = Ok () s' \<and> lock_view 0 m' (held s')))"
proof -
  define m where "m = res_state (sl_acquire 0 0 Lkmem smp_idle)"
  have acq: "sl_acquire 0 0 Lkmem smp_idle = Ok () m"
    by (simp add: m_def sl_acquire_exec smp_idle_def sl_holding_def Let_def)
  have view: "lock_view 0 m (held \<lparr>held = [Lkmem]\<rparr>)"
    by (auto simp: m_def sl_acquire_exec smp_idle_def sl_holding_def Let_def lock_view_def)
  from view have "sl_holding 0 Lkmem m" by (simp add: lock_view_def)
  with release_refines [OF view, of Lkmem] show ?thesis
    using view lock_view_release [of 0 m Lkmem "[]"] by (auto simp: acq)
qed

section \<open>Mutual exclusion, step by step\<close>

text \<open>
  One lock and any number of processors. Each processor is between two of the memory
  operations of \<open>acquire\<close> and \<open>release\<close>: outside, in the \<open>xchg\<close> loop, past it but
  before \<open>lk->cpu\<close> is recorded, in the critical section, or between the two stores of
  \<open>release\<close>. Every step is one atomic operation, in any order among the processors.
\<close>

datatype lpc = Outside | Spinning | Taken | Inside | Leaving

record lkstate =
  word :: bool
  owner :: "nat option"
  at :: "nat \<Rightarrow> lpc"

definition lk_init :: lkstate where
  "lk_init = \<lparr>word = False, owner = None, at = (\<lambda>_. Outside)\<rparr>"

inductive lk_step :: "lkstate \<Rightarrow> lkstate \<Rightarrow> bool" where
  enter: "at s c = Outside \<Longrightarrow> \<not> (word s \<and> owner s = Some c) \<Longrightarrow>
    lk_step s (s\<lparr>at := (at s)(c := Spinning)\<rparr>)"
| xchg_busy: "at s c = Spinning \<Longrightarrow> word s \<Longrightarrow> lk_step s (s\<lparr>word := True\<rparr>)"
| xchg_free: "at s c = Spinning \<Longrightarrow> \<not> word s \<Longrightarrow>
    lk_step s (s\<lparr>word := True, at := (at s)(c := Taken)\<rparr>)"
| record_cpu: "at s c = Taken \<Longrightarrow>
    lk_step s (s\<lparr>owner := Some c, at := (at s)(c := Inside)\<rparr>)"
| clear_cpu: "at s c = Inside \<Longrightarrow> word s \<Longrightarrow> owner s = Some c \<Longrightarrow>
    lk_step s (s\<lparr>owner := None, at := (at s)(c := Leaving)\<rparr>)"
| store_zero: "at s c = Leaving \<Longrightarrow>
    lk_step s (s\<lparr>word := False, at := (at s)(c := Outside)\<rparr>)"

inductive lk_reach :: "lkstate \<Rightarrow> bool" where
  reach_init: "lk_reach lk_init"
| reach_step: "lk_reach s \<Longrightarrow> lk_step s t \<Longrightarrow> lk_reach t"

definition in_section :: "lpc \<Rightarrow> bool" where
  "in_section p \<longleftrightarrow> p = Taken \<or> p = Inside \<or> p = Leaving"

definition lk_inv :: "lkstate \<Rightarrow> bool" where
  "lk_inv s \<longleftrightarrow>
     (\<forall>c d. in_section (at s c) \<and> in_section (at s d) \<longrightarrow> c = d) \<and>
     (word s \<longleftrightarrow> (\<exists>c. in_section (at s c))) \<and>
     (\<forall>c. owner s = Some c \<longleftrightarrow> at s c = Inside)"

lemma lk_inv_init: "lk_inv lk_init"
  by (simp add: lk_inv_def lk_init_def in_section_def)

lemma lk_inv_step: "lk_step s t \<Longrightarrow> lk_inv s \<Longrightarrow> lk_inv t"
proof (induction rule: lk_step.induct)
  case (enter s c)
  then have "in_section (((at s)(c := Spinning)) d) = in_section (at s d)" for d
    by (simp add: in_section_def)
  with enter show ?case by (auto simp: lk_inv_def)
next
  case (xchg_busy s c)
  then show ?case by (simp add: lk_inv_def)
next
  case (xchg_free s c)
  then show ?case by (auto simp: lk_inv_def in_section_def)
next
  case (record_cpu s c)
  then have "in_section (((at s)(c := Inside)) d) = in_section (at s d)" for d
    by (simp add: in_section_def)
  with record_cpu show ?case by (auto simp: lk_inv_def in_section_def)
next
  case (clear_cpu s c)
  then have "in_section (((at s)(c := Leaving)) d) = in_section (at s d)" for d
    by (simp add: in_section_def)
  with clear_cpu show ?case by (auto simp: lk_inv_def in_section_def)
next
  case (store_zero s c)
  then show ?case by (fastforce simp: lk_inv_def in_section_def)
qed

lemma lk_reach_inv: "lk_reach s \<Longrightarrow> lk_inv s"
  by (induction rule: lk_reach.induct) (auto intro: lk_inv_init lk_inv_step)

text \<open>
  C21. Mutual exclusion: in every state reachable by the atomic steps of any processors, at
  most one processor is between its successful \<open>xchg\<close> and the store that frees the lock;
  and a processor in its critical section passes the \<open>holding\<close> test of \<open>release\<close>,
  while one outside never fails the \<open>holding\<close> test of \<open>acquire\<close>.
\<close>

theorem spinlock_mutual_exclusion:
  assumes "lk_reach s"
  shows "(in_section (at s c) \<and> in_section (at s d) \<longrightarrow> c = d) \<and>
    (at s c = Inside \<longrightarrow> word s \<and> owner s = Some c) \<and>
    (at s c = Outside \<longrightarrow> \<not> (word s \<and> owner s = Some c))"
  using lk_reach_inv [OF assms] by (auto simp: lk_inv_def in_section_def)

lemma lk_reach_example: "lk_reach (lk_init\<lparr>at := (at lk_init)(0 := Inside), word := True, owner := Some 0\<rparr>)"
proof -
  have 1: "lk_reach (lk_init\<lparr>at := (at lk_init)(0 := Spinning)\<rparr>)"
    by (rule reach_step [OF reach_init]) (rule enter, simp_all add: lk_init_def)
  have 2: "lk_reach (lk_init\<lparr>word := True, at := (at lk_init)(0 := Taken)\<rparr>)"
    using reach_step [OF 1 xchg_free [of _ 0]] by (simp add: lk_init_def)
  show ?thesis
    using reach_step [OF 2 record_cpu [of _ 0]] by (simp add: lk_init_def)
qed

theorem spinlock_mutual_exclusion_witness:
  "let s = lk_init\<lparr>at := (at lk_init)(0 := Inside), word := True, owner := Some 0\<rparr> in
   at s 0 = Inside \<and> at s 1 = Outside \<and> (word s \<and> owner s = Some 0) \<and>
   \<not> (word s \<and> owner s = Some 1) \<and> (in_section (at s 0) \<longrightarrow> \<not> in_section (at s 1))"
  using spinlock_mutual_exclusion [OF lk_reach_example, of 0 1]
    spinlock_mutual_exclusion [OF lk_reach_example, of 1 0]
  by (auto simp: Let_def lk_init_def)

end
