(* ===== verification/Ctable.thy ===== *)
theory Ctable
  imports Spinlock "HOL-Library.Sublist"
begin

text \<open>
  The container and process tables: the data of \<^verbatim>\<open>param.h\<close>, \<^verbatim>\<open>container.h\<close>,
  \<^verbatim>\<open>proc.h\<close>, \<^verbatim>\<open>continfo.h\<close> and the trap frame of \<^verbatim>\<open>x86.h\<close>, and the part of
  \<^verbatim>\<open>container.c\<close> that works on the tables alone: \<open>alloccont\<close>, \<open>cid2cont\<close>,
  \<open>name2cont\<close>, \<open>ckill\<close>, \<open>cexit\<close>, \<open>cstop\<close>, \<open>cpause\<close> and \<open>cresume\<close>.

  A pointer to a container is its index in \<open>ctable.cont\<close>. \<open>ptable.proc\<close> is one
  two-dimensional array, so a pointer to a process is its index in the flattened array, and
  the address arithmetic \<open>&cont->ptable[k]\<close> that leaves the array is a \<open>Fault\<close>; within
  the array it can reach the row of the next container, as it can in C.
\<close>

section \<open>Constants of \<^verbatim>\<open>param.h\<close>\<close>

abbreviation (input) NCONT :: nat where "NCONT \<equiv> 8"
abbreviation (input) NPROC :: nat where "NPROC \<equiv> 64"
abbreviation (input) NOFILE :: nat where "NOFILE \<equiv> 16"
abbreviation (input) ROOTCONT :: int where "ROOTCONT \<equiv> 1"
abbreviation (input) KSTACKSIZE :: uint where "KSTACKSIZE \<equiv> 4096"
abbreviation (input) PGSIZE :: uint where "PGSIZE \<equiv> 4096"
abbreviation (input) MAX_CONT_MEM :: uint where "MAX_CONT_MEM \<equiv> 268435456"
abbreviation (input) MAX_CONT_DSK :: uint where "MAX_CONT_DSK \<equiv> 268435456"

section \<open>Data\<close>

datatype contstate =
  CUNUSED | CEMBRYO | CREADY | CRUNNABLE | CRUNNING | CPAUSED | CSTOPPING

datatype procstate = UNUSED | EMBRYO | SLEEPING | RUNNABLE | RUNNING | ZOMBIE

record cont =
  msz :: uint
  mdsk :: uint
  mproc :: int
  upg :: int
  udsk :: uint
  uproc :: int
  cid :: int
  rootdir :: "nat option"      \<comment> \<open>inode in the inode cache\<close>
  cstate :: contstate
  cname :: "char list"         \<comment> \<open>\<open>char name[16]\<close>\<close>
  cptable :: "nat option"      \<comment> \<open>first process of this container's row\<close>
  nextproc :: int

record trapframe =
  tf_edi :: uint
  tf_esi :: uint
  tf_ebp :: uint
  tf_oesp :: uint
  tf_ebx :: uint
  tf_edx :: uint
  tf_ecx :: uint
  tf_eax :: uint
  tf_gs :: ushort
  tf_fs :: ushort
  tf_es :: ushort
  tf_ds :: ushort
  tf_trapno :: uint
  tf_err :: uint
  tf_eip :: uint
  tf_cs :: ushort
  tf_eflags :: uint
  tf_esp :: uint
  tf_ss :: ushort

record ctxt =
  cx_edi :: uint
  cx_esi :: uint
  cx_ebx :: uint
  cx_ebp :: uint
  cx_eip :: uint

datatype chan =
    ChProc nat | ChLog | ChTicks | ChPipeRead uint | ChPipeWrite uint | ChInput | ChBuf nat
  | ChSleepLock slid

record proc =
  sz :: uint
  pgdir :: uint
  kstack :: uint
  pstate :: procstate
  pid :: int
  parent :: "nat option"
  tf :: trapframe
  pcontext :: ctxt
  chan :: "chan option"
  killed :: bool
  ofile :: "nat \<Rightarrow> nat option"  \<comment> \<open>\<open>struct file *ofile[NOFILE]\<close>\<close>
  cwd :: "nat option"
  pname :: "char list"
  ticks :: uint
  pcont :: "nat option"

record ctab = kcore +
  conts :: "nat \<Rightarrow> cont"        \<comment> \<open>\<open>ctable.cont\<close>, indices below \<open>NCONT\<close>\<close>
  procs :: "nat \<Rightarrow> proc"        \<comment> \<open>\<open>ptable.proc\<close>, indices below \<open>NCONT * NPROC\<close>\<close>
  nextcid :: int
  nextpid :: int
  initproc :: "nat option"
  cur :: "nat option"           \<comment> \<open>\<open>mycpu()->proc\<close>\<close>
  cr3 :: uint                   \<comment> \<open>page table register\<close>
  kpgdir :: uint

section \<open>Access\<close>

definition upd_cont :: "nat \<Rightarrow> (cont \<Rightarrow> cont) \<Rightarrow> ('z ctab_scheme, unit) kop" where
  "upd_cont i f = kmod (\<lambda>s. s\<lparr>conts := (conts s)(i := f (conts s i))\<rparr>)"

definition upd_proc :: "nat \<Rightarrow> (proc \<Rightarrow> proc) \<Rightarrow> ('z ctab_scheme, unit) kop" where
  "upd_proc p f = kmod (\<lambda>s. s\<lparr>procs := (procs s)(p := f (procs s p))\<rparr>)"

definition myproc :: "('z ctab_scheme, nat option) kop" where
  "myproc = kget cur"

text \<open>\<open>myproc()->cont\<close>\<close>

definition mycont :: "('z ctab_scheme, nat) kop" where
  "mycont =
     kbind myproc (\<lambda>mp.
     kbind (klift mp) (\<lambda>p.
     kbind (kget (\<lambda>s. pcont (procs s p))) klift))"

text \<open>\<open>&c->ptable[k]\<close>\<close>

definition proc_at :: "cont \<Rightarrow> int \<Rightarrow> nat option" where
  "proc_at c k = (case cptable c of None \<Rightarrow> None | Some b \<Rightarrow>
     if 0 \<le> int b + k \<and> int b + k < int (NCONT * NPROC) then Some (nat (int b + k)) else None)"

definition acquireptable :: "('z ctab_scheme, unit) kop" where
  "acquireptable = acquire Lptable"

definition releaseptable :: "('z ctab_scheme, unit) kop" where
  "releaseptable = release Lptable"

section \<open>The container table\<close>

definition alloccont :: "('z ctab_scheme, nat option) kop" where
  "alloccont =
     kthen (acquire Lctable)
     (kbind (kget (\<lambda>s. find (\<lambda>i. cstate (conts s i) = CUNUSED) [0..<NCONT])) (\<lambda>found.
      case found of
        None \<Rightarrow> kthen (release Lctable) (ret None)
      | Some i \<Rightarrow>
          kthen (upd_cont i (\<lambda>c. c\<lparr>cstate := CEMBRYO\<rparr>))
          (kbind (kget nextcid) (\<lambda>n.
           kthen (upd_cont i (\<lambda>c. c\<lparr>cid := n\<rparr>))
          (kthen (kmod (\<lambda>s. s\<lparr>nextcid := n + 1\<rparr>))
          (kthen (release Lctable)
          (ret (Some i))))))))"

definition cid2cont :: "int \<Rightarrow> ('z ctab_scheme, nat option) kop" where
  "cid2cont n =
     kget (\<lambda>s. find (\<lambda>i. cid (conts s i) = n \<and> cstate (conts s i) \<noteq> CUNUSED) [0..<NCONT])"

primrec name2cont_loop :: "char list \<Rightarrow> nat list \<Rightarrow> ('z ctab_scheme, nat option) kop" where
  "name2cont_loop name [] = ret None"
| "name2cont_loop name (i # is) =
     kbind (kget (\<lambda>s. conts s i)) (\<lambda>c.
     kbind (klift (strlen name)) (\<lambda>n.
     kbind (klift (strncmp name (cname c) n)) (\<lambda>r.
     if r = 0 \<and> cstate c \<noteq> CUNUSED then ret (Some i) else name2cont_loop name is)))"

definition name2cont :: "char list \<Rightarrow> ('z ctab_scheme, nat option) kop" where
  "name2cont name = name2cont_loop name [0..<NCONT]"

definition ckill :: "nat \<Rightarrow> ('z ctab_scheme, int) kop" where
  "ckill c =
     kthen (acquire Lctable)
     (kthen (upd_cont c (\<lambda>c. c\<lparr>cstate := CSTOPPING\<rparr>))
     (kthen (release Lctable)
     (ret 1)))"

definition cexit :: "nat \<Rightarrow> ('z ctab_scheme, int) kop" where
  "cexit c =
     kthen (acquire Lctable)
     (kthen (upd_cont c (\<lambda>c. c\<lparr>cname := (cname c)[0 := NUL], msz := 0, mdsk := 0, mproc := 0,
        upg := 0, udsk := 0, rootdir := None, nextproc := 0, cid := 0, cstate := CUNUSED\<rparr>))
     (kthen (release Lctable)
     (ret 1)))"

text \<open>The permission checks and the lookup shared in form by the three calls below are
  written out in each, as in the source.\<close>

definition cstop :: "char list \<Rightarrow> ('z ctab_scheme, int) kop" where
  "cstop name =
     kbind mycont (\<lambda>me.
     kbind (kget (\<lambda>s. cid (conts s me))) (\<lambda>mycid.
     if mycid \<noteq> ROOTCONT then ret (-1)
     else kbind (name2cont name) (\<lambda>found.
       case found of None \<Rightarrow> ret (-1)
       | Some c \<Rightarrow> kbind (kget (\<lambda>s. cstate (conts s c))) (\<lambda>st.
           if st \<noteq> CRUNNABLE \<and> st \<noteq> CPAUSED then ret (-1)
           else ckill c))))"

definition cpause :: "char list \<Rightarrow> ('z ctab_scheme, int) kop" where
  "cpause name =
     kbind mycont (\<lambda>me.
     kbind (kget (\<lambda>s. cid (conts s me))) (\<lambda>mycid.
     if mycid \<noteq> ROOTCONT then ret (-1)
     else kbind (name2cont name) (\<lambda>found.
       case found of None \<Rightarrow> ret (-1)
       | Some c \<Rightarrow> kbind (kget (\<lambda>s. cstate (conts s c))) (\<lambda>st.
           if st \<noteq> CRUNNABLE then ret (-1)
           else kthen (acquire Lctable)
                (kthen (upd_cont c (\<lambda>c. c\<lparr>cstate := CPAUSED\<rparr>))
                (kthen (release Lctable)
                (ret 1)))))))"

definition cresume :: "char list \<Rightarrow> ('z ctab_scheme, int) kop" where
  "cresume name =
     kbind mycont (\<lambda>me.
     kbind (kget (\<lambda>s. cid (conts s me))) (\<lambda>mycid.
     if mycid \<noteq> ROOTCONT then ret (-1)
     else kbind (name2cont name) (\<lambda>found.
       case found of None \<Rightarrow> ret (-1)
       | Some c \<Rightarrow> kbind (kget (\<lambda>s. cstate (conts s c))) (\<lambda>st.
           if st \<noteq> CPAUSED then ret (-1)
           else kthen (acquire Lctable)
                (kthen (upd_cont c (\<lambda>c. c\<lparr>cstate := CRUNNABLE\<rparr>))
                (kthen (release Lctable)
                (ret 1)))))))"

section \<open>Execution lemmas\<close>

lemma upd_cont_exec [kexec]: "upd_cont i f s = Ok () (s\<lparr>conts := (conts s)(i := f (conts s i))\<rparr>)"
  by (simp add: upd_cont_def kexec)

lemma upd_proc_exec [kexec]: "upd_proc p f s = Ok () (s\<lparr>procs := (procs s)(p := f (procs s p))\<rparr>)"
  by (simp add: upd_proc_def kexec)

lemma myproc_exec [kexec]: "myproc s = Ok (cur s) s"
  by (simp add: myproc_def kexec)

lemma mycont_exec [kexec]: "mycont s =
    (case cur s of None \<Rightarrow> Stop Fault s | Some p \<Rightarrow>
      (case pcont (procs s p) of None \<Rightarrow> Stop Fault s | Some c \<Rightarrow> Ok c s))"
  by (simp add: mycont_def kexec split: option.split)

lemmas table_defs = acquireptable_def releaseptable_def

definition curcont :: "'z ctab_scheme \<Rightarrow> nat option" where
  "curcont s = (case cur s of None \<Rightarrow> None | Some p \<Rightarrow> pcont (procs s p))"

lemma curcont_upd [simp]:
  "curcont (s\<lparr>held := h\<rparr>) = curcont s" "curcont (s\<lparr>conts := c\<rparr>) = curcont s"
  by (simp_all add: curcont_def cong: option.case_cong)

lemma mycont_curcont: "curcont s = Some c \<Longrightarrow> mycont s = Ok c s"
  by (auto simp: curcont_def kexec split: option.splits)

lemma find_upt_Some:
  "find P [0..<n] = Some i \<longleftrightarrow> i < n \<and> P i \<and> (\<forall>k < i. \<not> P k)"
  by (auto simp: find_Some_iff)

lemma find_upt_None: "find P [0..<n] = None \<longleftrightarrow> (\<forall>k < n. \<not> P k)"
  by (auto simp: find_None_iff)

section \<open>Names and ids of containers\<close>

lemma alloccont_exec: "Lctable \<notin> set (held s) \<Longrightarrow> alloccont s =
    (case find (\<lambda>i. cstate (conts s i) = CUNUSED) [0..<NCONT] of
       None \<Rightarrow> Ok None s
     | Some i \<Rightarrow> Ok (Some i) (s\<lparr>conts := (conts s)(i := (conts s i)\<lparr>cstate := CEMBRYO, cid := nextcid s\<rparr>),
                              nextcid := nextcid s + 1\<rparr>))"
  by (simp add: alloccont_def kexec split: option.split)

definition live :: "cont \<Rightarrow> bool" where
  "live c \<longleftrightarrow> cstate c \<noteq> CUNUSED"

text \<open>Container ids: every live container has an id below the counter, and no two live
  containers share one.\<close>

definition cids_ok :: "'z ctab_scheme \<Rightarrow> bool" where
  "cids_ok s \<longleftrightarrow>
     (\<forall>i < NCONT. live (conts s i) \<longrightarrow> cid (conts s i) < nextcid s) \<and>
     (\<forall>i < NCONT. \<forall>j < NCONT. live (conts s i) \<and> live (conts s j) \<and>
        cid (conts s i) = cid (conts s j) \<longrightarrow> i = j)"

lemma cids_ok_upd:
  assumes "cids_ok s" and "live (f (conts s i)) \<Longrightarrow> live (conts s i) \<and> cid (f (conts s i)) = cid (conts s i)"
  shows "cids_ok (s\<lparr>conts := (conts s)(i := f (conts s i))\<rparr>)"
  using assms by (auto simp: cids_ok_def)

lemma cids_ok_held [simp]: "cids_ok (s\<lparr>held := g\<rparr>) = cids_ok s"
  by (simp add: cids_ok_def)

lemma keeps_upd_cont_cids:
  "(\<And>c. cstate (f c) = CUNUSED \<or> (live c \<and> cid (f c) = cid c)) \<Longrightarrow> keeps cids_ok (upd_cont i f)"
  unfolding keeps_def upd_cont_exec res_state.simps
  by (intro allI impI cids_ok_upd) (auto simp: live_def)

definition names_ok :: "'z ctab_scheme \<Rightarrow> bool" where
  "names_ok s \<longleftrightarrow> (\<forall>i < NCONT. terminated (cname (conts s i)))"

section \<open>Example states\<close>

text \<open>The tables as the C loader leaves them (all bytes zero, \<open>nextcid\<close> and
  \<open>nextpid\<close> one), and a running system: the root container with its first process on the
  processor, and a second container called \<open>ctest\<close>.\<close>

definition tf0 :: trapframe where
  "tf0 = \<lparr>tf_edi = 0, tf_esi = 0, tf_ebp = 0, tf_oesp = 0, tf_ebx = 0, tf_edx = 0, tf_ecx = 0,
     tf_eax = 0, tf_gs = 0, tf_fs = 0, tf_es = 0, tf_ds = 0, tf_trapno = 0, tf_err = 0, tf_eip = 0,
     tf_cs = 0, tf_eflags = 0, tf_esp = 0, tf_ss = 0\<rparr>"

definition ctxt0 :: ctxt where
  "ctxt0 = \<lparr>cx_edi = 0, cx_esi = 0, cx_ebx = 0, cx_ebp = 0, cx_eip = 0\<rparr>"

definition cont0 :: cont where
  "cont0 = \<lparr>msz = 0, mdsk = 0, mproc = 0, upg = 0, udsk = 0, uproc = 0, cid = 0, rootdir = None,
     cstate = CUNUSED, cname = replicate 16 NUL, cptable = None, nextproc = 0\<rparr>"

definition proc0 :: proc where
  "proc0 = \<lparr>sz = 0, pgdir = 0, kstack = 0, pstate = UNUSED, pid = 0, parent = None, tf = tf0,
     pcontext = ctxt0, chan = None, killed = False, ofile = (\<lambda>_. None), cwd = None,
     pname = replicate 16 NUL, ticks = 0, pcont = None\<rparr>"

definition ctab_boot :: ctab where
  "ctab_boot = \<lparr>held = [], conts = (\<lambda>_. cont0), procs = (\<lambda>_. proc0), nextcid = 1, nextpid = 1,
     initproc = None, cur = None, cr3 = 0, kpgdir = 0\<rparr>"

definition root_cont :: cont where
  "root_cont = cont0\<lparr>msz := MAX_CONT_MEM, mdsk := MAX_CONT_DSK, mproc := 64, uproc := 1, cid := 1,
     rootdir := Some 0, cstate := CRUNNABLE, cname := ''initcont'' @ replicate 8 NUL,
     cptable := Some 0\<rparr>"

definition ctest_cont :: cont where
  "ctest_cont = cont0\<lparr>msz := 65536, mdsk := 65536, mproc := 4, uproc := 1, cid := 2,
     rootdir := Some 1, cstate := CRUNNABLE, cname := ''ctest'' @ replicate 11 NUL,
     cptable := Some 64\<rparr>"

definition init_proc :: proc where
  "init_proc = proc0\<lparr>sz := 4096, pgdir := 0x80400000, kstack := 0x80401000, pstate := RUNNING,
     pid := 1, cwd := Some 0, pcont := Some 0\<rparr>"

definition ctest_proc :: proc where
  "ctest_proc = proc0\<lparr>sz := 4096, pgdir := 0x80402000, kstack := 0x80403000, pstate := RUNNABLE,
     pid := 2, parent := Some 0, cwd := Some 1, pcont := Some 1\<rparr>"

definition ctab_ex :: ctab where
  "ctab_ex = ctab_boot\<lparr>conts := (\<lambda>_. cont0)(0 := root_cont, 1 := ctest_cont),
     procs := (\<lambda>_. proc0)(0 := init_proc, 64 := ctest_proc),
     nextcid := 3, nextpid := 3, initproc := Some 0, cur := Some 0\<rparr>"

lemmas example_defs = tf0_def ctxt0_def cont0_def proc0_def ctab_boot_def root_cont_def
  ctest_cont_def init_proc_def ctest_proc_def ctab_ex_def

lemma ctab_ex_cids: "cids_ok ctab_ex"
  by (simp add: cids_ok_def live_def example_defs)

lemma ctab_ex_names: "names_ok ctab_ex"
  by (simp add: names_ok_def terminated_def example_defs)

lemma ctab_ex_curcont: "curcont ctab_ex = Some 0"
  by (simp add: curcont_def example_defs)

section \<open>Allocation and lookup\<close>



lemma strncmp_prefix:
  assumes "terminated p" and "terminated q"
  shows "strncmp p q (length (cstr p)) = Some 0 \<longleftrightarrow> prefix (cstr p) (cstr q)"
  using strncmp_0_iff [OF assms, of "length (cstr p)"]
  by (auto simp: prefix_def) (metis append_take_drop_id)

lemma name2cont_loop_exec:
  assumes "terminated name" and "\<forall>i \<in> set is. terminated (cname (conts s i))"
  shows "name2cont_loop name is s =
    Ok (find (\<lambda>i. prefix (cstr name) (cstr (cname (conts s i))) \<and> live (conts s i)) is) s"
  using assms(2)
proof (induction "is")
  case Nil
  show ?case by (simp add: kexec)
next
  case (Cons i "is")
  then obtain r where r: "strncmp name (cname (conts s i)) (length (cstr name)) = Some r"
    using strncmp_terminated assms(1) by (metis list.set_intros(1))
  with strncmp_prefix [of name "cname (conts s i)"] Cons.prems assms(1)
  have "r = 0 \<longleftrightarrow> prefix (cstr name) (cstr (cname (conts s i)))" by simp
  with Cons r assms(1) show ?case by (simp add: kexec strlen_cstr live_def)
qed

definition name_match :: "char list \<Rightarrow> cont \<Rightarrow> bool" where
  "name_match name c \<longleftrightarrow> prefix (cstr name) (cstr (cname c)) \<and> live c"

lemma name2cont_exec:
  assumes "terminated name" and "names_ok s"
  shows "name2cont name s = Ok (find (\<lambda>i. name_match name (conts s i)) [0..<NCONT]) s"
  using name2cont_loop_exec [OF assms(1), of "[0..<NCONT]" s] assms(2)
  by (simp add: name2cont_def names_ok_def name_match_def)

text \<open>
  C33. Containers are looked up by prefix, not by name: when the stored names are terminated,
  \<open>name2cont\<close> returns, without changing anything, the first live container whose name
  \<^emph>\<open>starts with\<close> the given string, and no container exactly when none does. In
  particular the empty name finds the first live container, whatever it is called.
\<close>

theorem name2cont_prefix:
  assumes "terminated name" and "names_ok s"
  shows "\<exists>r. name2cont name s = Ok r s \<and>
    (\<forall>i. r = Some i \<longleftrightarrow> i < NCONT \<and> live (conts s i) \<and> prefix (cstr name) (cstr (cname (conts s i))) \<and>
       (\<forall>k < i. live (conts s k) \<longrightarrow> \<not> prefix (cstr name) (cstr (cname (conts s k))))) \<and>
    (cstr name = [] \<longrightarrow> (\<forall>i. r = Some i \<longleftrightarrow> i < NCONT \<and> live (conts s i) \<and> (\<forall>k < i. \<not> live (conts s k))))"
  unfolding name2cont_exec [OF assms]
  by (rule exI, rule conjI, rule refl) (auto simp: find_upt_Some name_match_def)

theorem name2cont_prefix_witness:
  "name2cont (cstring ''ct'') ctab_ex = Ok (Some 1) ctab_ex \<and>
   name2cont (cstring []) ctab_ex = Ok (Some 0) ctab_ex"
proof -
  have live: "live (conts ctab_ex 0)" "live (conts ctab_ex 1)"
    by (simp_all add: example_defs live_def)
  obtain r where r: "name2cont (cstring ''ct'') ctab_ex = Ok r ctab_ex"
    "r = Some 1 \<longleftrightarrow> 1 < NCONT \<and> live (conts ctab_ex 1) \<and>
       prefix (cstr (cstring ''ct'')) (cstr (cname (conts ctab_ex 1))) \<and>
       (\<forall>k < 1. live (conts ctab_ex k) \<longrightarrow>
          \<not> prefix (cstr (cstring ''ct'')) (cstr (cname (conts ctab_ex k))))"
    using name2cont_prefix [OF terminated_cstring ctab_ex_names, of "''ct''"] by blast
  obtain q where q: "name2cont (cstring []) ctab_ex = Ok q ctab_ex"
    "cstr (cstring []) = [] \<longrightarrow> (q = Some 0 \<longleftrightarrow> 0 < NCONT \<and> live (conts ctab_ex 0) \<and>
       (\<forall>k < 0. \<not> live (conts ctab_ex k)))"
    using name2cont_prefix [OF terminated_cstring ctab_ex_names, of "[]"] by blast
  have "r = Some 1" using r(2) live by (simp add: example_defs cstring_def)
  moreover have "q = Some 0" using q(2) live by (simp add: cstring_def)
  ultimately show ?thesis using r q by simp
qed

section \<open>Administration\<close>

text \<open>
  Only the root container administers containers: for a process of a container whose id
  is not \<open>ROOTCONT\<close>, \<open>cstop\<close>, \<open>cpause\<close> and \<open>cresume\<close> return -1 and leave the
  whole kernel state as it was, whatever the name.
\<close>

lemma admin_root_only:
  assumes "curcont s = Some me" and "cid (conts s me) \<noteq> ROOTCONT"
  shows "cstop name s = Ok (-1) s \<and> cpause name s = Ok (-1) s \<and> cresume name s = Ok (-1) s"
  using assms mycont_curcont [OF assms(1)]
  by (simp add: cstop_def cpause_def cresume_def kbind_exec kget_exec ret_exec)

lemma ckill_exec: "Lctable \<notin> set (held s) \<Longrightarrow>
    ckill c s = Ok 1 (s\<lparr>conts := (conts s)(c := (conts s c)\<lparr>cstate := CSTOPPING\<rparr>)\<rparr>)"
  by (simp add: ckill_def kexec)

lemma cexit_exec: "Lctable \<notin> set (held s) \<Longrightarrow>
    cexit c s = Ok 1 (s\<lparr>conts := (conts s)(c := (conts s c)\<lparr>cname := (cname (conts s c))[0 := NUL],
      msz := 0, mdsk := 0, mproc := 0, upg := 0, udsk := 0, rootdir := None, nextproc := 0,
      cid := 0, cstate := CUNUSED\<rparr>)\<rparr>)"
  by (simp add: cexit_def kexec)

text \<open>What the three administrative calls have in common: in the root container, the
  container found by name, if its state is one of \<open>from\<close>, goes to state \<open>to\<close> and 1 is
  returned; otherwise -1 is returned and nothing changes.\<close>

definition admin_spec :: "contstate set \<Rightarrow> contstate \<Rightarrow> char list \<Rightarrow> 'z ctab_scheme \<Rightarrow> ('z ctab_scheme, int) res" where
  "admin_spec from to name s =
     (case find (\<lambda>i. name_match name (conts s i)) [0..<NCONT] of
        None \<Rightarrow> Ok (-1) s
      | Some c \<Rightarrow> if cstate (conts s c) \<in> from
          then Ok 1 (s\<lparr>conts := (conts s)(c := (conts s c)\<lparr>cstate := to\<rparr>)\<rparr>)
          else Ok (-1) s)"

text \<open>
  The administrative calls of the root container behave as specified on every branch:
  \<open>cstop\<close> takes a runnable or paused container to \<open>CSTOPPING\<close>, \<open>cpause\<close> a
  runnable one to \<open>CPAUSED\<close>, \<open>cresume\<close> a paused one to \<open>CRUNNABLE\<close>; any other
  case returns -1 and changes nothing; the lock is released on every path.
\<close>

lemma admin_calls_spec:
  assumes "curcont s = Some me" and "cid (conts s me) = ROOTCONT"
    and "terminated name" and "names_ok s" and "Lctable \<notin> set (held s)"
  shows "cstop name s = admin_spec {CRUNNABLE, CPAUSED} CSTOPPING name s \<and>
    cpause name s = admin_spec {CRUNNABLE} CPAUSED name s \<and>
    cresume name s = admin_spec {CPAUSED} CRUNNABLE name s"
proof -
  note run = mycont_curcont [OF assms(1)] name2cont_exec [OF assms(3,4)]
  show ?thesis
    using assms(2,5)
    by (auto simp: cstop_def cpause_def cresume_def admin_spec_def run ckill_exec kexec
        simp del: mycont_exec split: option.split)
qed

end
