(* ===== verification/Sched.thy ===== *)
theory Sched
  imports Ctable
begin

text \<open>
  The rest of the table code of \<^verbatim>\<open>container.c\<close>, and the parts of \<^verbatim>\<open>proc.c\<close> and
  \<^verbatim>\<open>vm.c\<close> it calls: waking sleeping processes, entering the scheduler, the scheduler's
  round over the containers, and the container information call.
\<close>

section \<open>Sleeping processes\<close>

text \<open>The inner and the outer loop body of \<open>wakeup1\<close>.\<close>

definition wake_slot :: "chan option \<Rightarrow> cont \<Rightarrow> nat \<Rightarrow> ('z ctab_scheme, unit) kop" where
  "wake_slot ch c k =
     kbind (klift (proc_at c (int k))) (\<lambda>p.
     kbind (kget (\<lambda>s. procs s p)) (\<lambda>pr.
     kwhen (pstate pr = SLEEPING \<and> chan pr = ch)
       (upd_proc p (\<lambda>pr. pr\<lparr>pstate := RUNNABLE\<rparr>))))"

definition wake_row :: "chan option \<Rightarrow> nat \<Rightarrow> ('z ctab_scheme, unit) kop" where
  "wake_row ch i =
     kbind (kget (\<lambda>s. conts s i)) (\<lambda>c. kfor [0..<nat (mproc c)] (wake_slot ch c))"

definition wakeup1 :: "chan option \<Rightarrow> ('z ctab_scheme, unit) kop" where
  "wakeup1 ch = kfor [0..<NCONT] (wake_row ch)"

definition wakeup :: "chan option \<Rightarrow> ('z ctab_scheme, unit) kop" where
  "wakeup ch = kthen acquireptable (kthen (wakeup1 ch) releaseptable)"

text \<open>\<open>sched\<close> up to the context switch. With a lock held interrupts are off (the
  invariant \<open>lock_view\<close> of the lock code), so its last test cannot fail.\<close>

definition sched :: "('z ctab_scheme, unit) kop" where
  "sched =
     kbind myproc (\<lambda>mp.
     kbind (holding Lptable) (\<lambda>h.
     if \<not> h then panic ''sched ptable.lock''
     else kbind (kget (\<lambda>s. length (held s))) (\<lambda>n.
       if n \<noteq> 1 then panic ''sched locks''
       else kbind (klift mp) (\<lambda>p.
         kbind (kget (\<lambda>s. pstate (procs s p))) (\<lambda>st.
         if st = RUNNING then panic ''sched running''
         else stop Switch)))))"

section \<open>The scheduler\<close>

abbreviation (input) KERNBASE :: uint where "KERNBASE \<equiv> 0x80000000"

definition V2P :: "uint \<Rightarrow> uint" where "V2P a = a - KERNBASE"
definition P2V :: "uint \<Rightarrow> uint" where "P2V a = a + KERNBASE"

definition switchuvm :: "nat option \<Rightarrow> ('z ctab_scheme, unit) kop" where
  "switchuvm mp =
     (case mp of None \<Rightarrow> panic ''switchuvm: no process''
      | Some p \<Rightarrow>
          kbind (kget (\<lambda>s. procs s p)) (\<lambda>pr.
          if kstack pr = 0 then panic ''switchuvm: no kstack''
          else if pgdir pr = 0 then panic ''switchuvm: no pgdir''
          else kmod (\<lambda>s. s\<lparr>cr3 := V2P (pgdir pr)\<rparr>)))"

definition switchkvm :: "('z ctab_scheme, unit) kop" where
  "switchkvm = kmod (\<lambda>s. s\<lparr>cr3 := V2P (kpgdir s)\<rparr>)"

text \<open>
  One container of the scheduler's loop. The switch to the chosen process and back is the
  parameter \<open>run\<close>: everything the process does until it calls \<open>sched\<close>.
\<close>

definition sched_visit :: "(nat \<Rightarrow> ('z ctab_scheme, unit) kop) \<Rightarrow> nat \<Rightarrow> ('z ctab_scheme, unit) kop" where
  "sched_visit run i =
     kbind (kget (\<lambda>s. conts s i)) (\<lambda>c.
     if cstate c \<noteq> CRUNNABLE \<and> cstate c \<noteq> CSTOPPING then ret ()
     else kbind (klift (proc_at c (nextproc c))) (\<lambda>p.
       kthen (upd_cont i (\<lambda>c. c\<lparr>nextproc := nextproc c + 1\<rparr>))
       (kthen (upd_cont i (\<lambda>c. if nextproc c = mproc c then c\<lparr>nextproc := 0\<rparr> else c))
       (kbind (kget (\<lambda>s. pstate (procs s p))) (\<lambda>st.
        if st \<noteq> RUNNABLE then ret ()
        else
          kthen (kwhen (cstate c = CSTOPPING)
            (kthen (upd_proc p (\<lambda>pr. pr\<lparr>killed := True\<rparr>))
            (kbind (kget (\<lambda>s. pstate (procs s p))) (\<lambda>st'.
             kwhen (st' = SLEEPING) (upd_proc p (\<lambda>pr. pr\<lparr>pstate := RUNNABLE\<rparr>))))))
          (kthen (kmod (\<lambda>s. s\<lparr>cur := Some p\<rparr>))
          (kthen (switchuvm (Some p))
          (kthen (upd_proc p (\<lambda>pr. pr\<lparr>pstate := RUNNING\<rparr>))
          (kthen (run p)
          (kthen switchkvm
          (kthen (kmod (\<lambda>s. s\<lparr>cur := None\<rparr>))
          (kbind (kget (\<lambda>s. uproc (conts s i))) (\<lambda>n.
           kwhen (n = 0) (kthen (cexit i) (ret ())))))))))))))))"

definition scheduler_round :: "(nat \<Rightarrow> ('z ctab_scheme, unit) kop) \<Rightarrow> ('z ctab_scheme, unit) kop" where
  "scheduler_round run =
     kthen acquireptable
     (kthen (kfor [0..<NCONT] (sched_visit run))
     releaseptable)"

text \<open>The scheduler never returns; \<open>scheduler run n\<close> is its first \<open>n\<close> rounds.\<close>

definition scheduler :: "(nat \<Rightarrow> ('z ctab_scheme, unit) kop) \<Rightarrow> nat \<Rightarrow> ('z ctab_scheme, unit) kop" where
  "scheduler run n =
     kthen (kmod (\<lambda>s. s\<lparr>cur := None\<rparr>)) (kfor [0..<n] (\<lambda>_. scheduler_round run))"

section \<open>Container information\<close>

record pinfo =
  pi_state :: procstate
  pi_pid :: int
  pi_name :: "char list"
  pi_ticks :: uint

record cinfo_t =
  ci_msz :: uint
  ci_mdsk :: uint
  ci_mproc :: int
  ci_usz :: int
  ci_udsk :: uint
  ci_cid :: int
  ci_state :: contstate
  ci_name :: "char list"
  ci_procs :: "nat \<Rightarrow> pinfo"

record continfo =
  ci_conts :: "nat \<Rightarrow> cinfo_t"
  ci_root :: bool

text \<open>The process entries of one container: the source index \<open>k\<close>, the next free entry
  \<open>l\<close>.\<close>

primrec cinfo_procs :: "cont \<Rightarrow> (nat \<Rightarrow> proc) \<Rightarrow> nat list \<Rightarrow> nat \<Rightarrow> (nat \<Rightarrow> pinfo) \<Rightarrow> (nat \<Rightarrow> pinfo) option"
where
  "cinfo_procs c ps [] l out = Some out"
| "cinfo_procs c ps (k # ks) l out =
     (case proc_at c (int k) of None \<Rightarrow> None
      | Some p \<Rightarrow>
          if pstate (ps p) = UNUSED then cinfo_procs c ps ks l out
          else (case safestrcpy (pi_name (out l)) (pname (ps p)) 16 of None \<Rightarrow> None
                | Some nm \<Rightarrow> cinfo_procs c ps ks (Suc l)
                    (out(l := \<lparr>pi_state = pstate (ps p), pi_pid = pid (ps p), pi_name = nm,
                               pi_ticks = ticks (ps p)\<rparr>))))"

primrec cinfo_conts :: "int \<Rightarrow> (nat \<Rightarrow> cont) \<Rightarrow> (nat \<Rightarrow> proc) \<Rightarrow> nat list \<Rightarrow> nat \<Rightarrow>
    (nat \<Rightarrow> cinfo_t) \<Rightarrow> (nat \<Rightarrow> cinfo_t) option"
where
  "cinfo_conts me cs ps [] j out = Some out"
| "cinfo_conts me cs ps (i # is) j out =
     (if (me \<noteq> ROOTCONT \<and> me \<noteq> cid (cs i)) \<or> cstate (cs i) = CUNUSED
      then cinfo_conts me cs ps is j out
      else (case safestrcpy (ci_name (out j)) (cname (cs i)) 16 of None \<Rightarrow> None
        | Some nm \<Rightarrow>
            (case cinfo_procs (cs i) ps [0..<nat (mproc (cs i))] 0 (ci_procs (out j)) of None \<Rightarrow> None
             | Some pp \<Rightarrow> cinfo_conts me cs ps is (Suc j)
                 (out(j := \<lparr>ci_msz = msz (cs i), ci_mdsk = mdsk (cs i), ci_mproc = mproc (cs i),
                    ci_usz = upg (cs i) * 4096, ci_udsk = udsk (cs i), ci_cid = cid (cs i),
                    ci_state = cstate (cs i), ci_name = nm, ci_procs = pp\<rparr>)))))"

definition cinfo :: "continfo \<Rightarrow> ('z ctab_scheme, continfo) kop" where
  "cinfo ci =
     kbind mycont (\<lambda>me.
     kbind (kget (\<lambda>s. cid (conts s me))) (\<lambda>mycid.
     kthen acquireptable
     (kbind (kget (\<lambda>s. (conts s, procs s))) (\<lambda>(cs, ps).
      kbind (klift (cinfo_conts mycid cs ps [0..<NCONT] 0 (ci_conts ci))) (\<lambda>out.
      kthen releaseptable
      (ret (ci\<lparr>ci_root := (mycid = ROOTCONT), ci_conts := out\<rparr>)))))))"

section \<open>Waking sleepers\<close>

text \<open>After \<open>initcontainer\<close> every container's \<open>ptable\<close> is its row of the process
  array, and no container is allowed more than \<open>NPROC\<close> processes.\<close>

definition rows_ok :: "'z ctab_scheme \<Rightarrow> bool" where
  "rows_ok s \<longleftrightarrow> (\<forall>i < NCONT. cptable (conts s i) = Some (NPROC * i) \<and> mproc (conts s i) \<le> int NPROC)"

definition in_row :: "cont \<Rightarrow> nat \<Rightarrow> bool" where
  "in_row c p \<longleftrightarrow> (\<exists>b. cptable c = Some b \<and> b \<le> p \<and> int p < int b + mproc c)"

definition woken :: "chan option \<Rightarrow> proc \<Rightarrow> proc" where
  "woken ch pr = (if pstate pr = SLEEPING \<and> chan pr = ch then pr\<lparr>pstate := RUNNABLE\<rparr> else pr)"

lemma woken_idem [simp]: "woken ch (woken ch pr) = woken ch pr"
  by (simp add: woken_def)

lemma proc_at_row:
  "cptable c = Some b \<Longrightarrow> b + k < NCONT * NPROC \<Longrightarrow> proc_at c (int k) = Some (b + k)"
  by (simp add: proc_at_def nat_add_distrib)

lemma wake_slot_exec:
  "proc_at c (int k) = Some p \<Longrightarrow>
    wake_slot ch c k s = Ok () (s\<lparr>procs := (procs s)(p := woken ch (procs s p))\<rparr>)"
  by (simp add: wake_slot_def woken_def kexec)

lemma wake_slots_exec:
  assumes "cptable c = Some b" and "b + n \<le> NCONT * NPROC"
  shows "kfor [0..<n] (wake_slot ch c) s =
    Ok () (s\<lparr>procs := (\<lambda>p. if b \<le> p \<and> p < b + n then woken ch (procs s p) else procs s p)\<rparr>)"
  using assms(2)
proof (induction n)
  case 0
  have "(\<lambda>p. if b \<le> p \<and> p < b then woken ch (procs s p) else procs s p) = procs s"
    by (auto simp: fun_eq_iff)
  then show ?case by (simp add: kexec)
next
  case (Suc n)
  then have at: "proc_at c (int n) = Some (b + n)" using assms(1) by (simp add: proc_at_row)
  let ?f = "\<lambda>n p. if b \<le> p \<and> p < b + n then woken ch (procs s p) else procs s p"
  have "(?f n)(b + n := woken ch (?f n (b + n))) = ?f (Suc n)" by (auto simp: fun_eq_iff)
  with Suc show ?case by (simp add: kfor_append kexec wake_slot_exec [OF at])
qed

lemma wake_row_exec:
  assumes "i < NCONT" and "rows_ok s"
  shows "wake_row ch i s =
    Ok () (s\<lparr>procs := (\<lambda>p. if in_row (conts s i) p then woken ch (procs s p) else procs s p)\<rparr>)"
proof -
  from assms have row: "cptable (conts s i) = Some (NPROC * i)" "mproc (conts s i) \<le> int NPROC"
    by (simp_all add: rows_ok_def)
  have bound: "NPROC * i + nat (mproc (conts s i)) \<le> NCONT * NPROC" using row(2) assms(1) by simp
  have "in_row (conts s i) p \<longleftrightarrow> NPROC * i \<le> p \<and> p < NPROC * i + nat (mproc (conts s i))" for p
    using row(1) by (auto simp: in_row_def)
  then show ?thesis by (simp add: wake_row_def kbind_exec kget_exec wake_slots_exec [OF row(1) bound])
qed

lemma wake_rows_exec:
  assumes "rows_ok s" and "m \<le> NCONT"
  shows "kfor [0..<m] (wake_row ch) s =
    Ok () (s\<lparr>procs := (\<lambda>p. if \<exists>i < m. in_row (conts s i) p then woken ch (procs s p) else procs s p)\<rparr>)"
  using assms(2)
proof (induction m)
  case 0
  show ?case by (simp add: kexec)
next
  case (Suc m)
  let ?f = "\<lambda>m p. if \<exists>i < m. in_row (conts s i) p then woken ch (procs s p) else procs s p"
  have "rows_ok (s\<lparr>procs := ?f m\<rparr>)" using assms(1) by (simp add: rows_ok_def)
  then have row: "wake_row ch m (s\<lparr>procs := ?f m\<rparr>) = Ok () (s\<lparr>procs :=
      (\<lambda>p. if in_row (conts s m) p then woken ch (?f m p) else ?f m p)\<rparr>)"
    using Suc.prems wake_row_exec [of m "s\<lparr>procs := ?f m\<rparr>" ch] by (simp cong: if_cong)
  have "(\<lambda>p. if in_row (conts s m) p then woken ch (?f m p) else ?f m p) = ?f (Suc m)"
    by (auto simp: fun_eq_iff less_Suc_eq)
  with Suc row show ?case by (simp add: kfor_append kexec)
qed

lemma wakeup1_exec:
  "rows_ok s \<Longrightarrow> wakeup1 ch s =
    Ok () (s\<lparr>procs := (\<lambda>p. if \<exists>i < NCONT. in_row (conts s i) p then woken ch (procs s p) else procs s p)\<rparr>)"
  by (simp only: wakeup1_def wake_rows_exec order_refl)

lemma wakeup_exec:
  assumes "rows_ok s" and "Lptable \<notin> set (held s)"
  shows "wakeup ch s =
    Ok () (s\<lparr>procs := (\<lambda>p. if \<exists>i < NCONT. in_row (conts s i) p then woken ch (procs s p) else procs s p)\<rparr>)"
proof -
  have "rows_ok (s\<lparr>held := Lptable # held s\<rparr>)" using assms(1) by (simp add: rows_ok_def)
  with assms(2) show ?thesis
    by (simp add: wakeup_def table_defs kexec wakeup1_exec cong: if_cong)
qed

text \<open>
  C22. \<open>wakeup\<close> wakes every sleeper on its channel and nobody else, in every container: a
  process in the table of some container that sleeps on the channel becomes runnable with its
  other fields unchanged, every other process, every container and the set of held locks are
  left as they were.
\<close>

theorem wakeup_exact:
  assumes "rows_ok s" and "Lptable \<notin> set (held s)"
  shows "\<exists>t. wakeup ch s = Ok () t \<and> conts t = conts s \<and> held t = held s \<and> cur t = cur s \<and>
    (\<forall>p. procs t p =
       (if (\<exists>i < NCONT. in_row (conts s i) p) \<and> pstate (procs s p) = SLEEPING \<and> chan (procs s p) = ch
        then (procs s p)\<lparr>pstate := RUNNABLE\<rparr> else procs s p))"
proof -
  have "rows_ok (s\<lparr>held := Lptable # held s\<rparr>)" using assms(1) by (simp add: rows_ok_def)
  with assms(2) show ?thesis
    by (auto simp: wakeup_def table_defs kexec wakeup1_exec woken_def)
qed

section \<open>Scheduling\<close>

lemma sched_visit_skip:
  "cstate (conts s i) \<noteq> CRUNNABLE \<Longrightarrow> cstate (conts s i) \<noteq> CSTOPPING \<Longrightarrow> sched_visit run i s = Ok () s"
  by (simp add: sched_visit_def kexec)

definition advance :: "cont \<Rightarrow> cont" where
  "advance c = c\<lparr>nextproc := (if nextproc c + 1 = mproc c then 0 else nextproc c + 1)\<rparr>"

text \<open>A process that gives up the processor at once.\<close>

definition run_idle :: "nat \<Rightarrow> ('z ctab_scheme, unit) kop" where
  "run_idle p = upd_proc p (\<lambda>pr. pr\<lparr>pstate := RUNNABLE\<rparr>)"

text \<open>
  The scheduler stops only runnable processes: when the slot whose turn it is does not
  hold a \<open>RUNNABLE\<close> process, the visit only moves on to the next slot. So in a container
  that is being stopped a sleeping process is neither marked killed nor woken, although the
  code has a statement to wake it.
\<close>

lemma sched_visit_not_runnable:
  assumes "cstate (conts s i) = CRUNNABLE \<or> cstate (conts s i) = CSTOPPING"
    and "proc_at (conts s i) (nextproc (conts s i)) = Some p"
    and "pstate (procs s p) \<noteq> RUNNABLE"
  shows "sched_visit run i s = Ok () (s\<lparr>conts := (conts s)(i := advance (conts s i))\<rparr>)"
  using assms by (auto simp: sched_visit_def kexec advance_def)

section \<open>Round robin over the slots of a container\<close>

text \<open>What the scheduler reads of a container to choose its next process.\<close>

definition sched_view :: "cont \<Rightarrow> contstate \<times> int \<times> nat option \<times> int" where
  "sched_view c = (cstate c, mproc c, cptable c, nextproc c)"

definition viewed :: "nat \<Rightarrow> contstate \<times> int \<times> nat option \<times> int \<Rightarrow> 'z ctab_scheme \<Rightarrow> bool" where
  "viewed i v s \<longleftrightarrow> sched_view (conts s i) = v \<and> uproc (conts s i) \<noteq> 0"

text \<open>While processes run, container \<open>i\<close> is neither stopped nor paused nor emptied, and
  nobody else moves its position.\<close>

definition run_keeps :: "nat \<Rightarrow> (nat \<Rightarrow> ('z ctab_scheme, unit) kop) \<Rightarrow> bool" where
  "run_keeps i run \<longleftrightarrow> (\<forall>p v s t. viewed i v s \<and> run p s = Ok () t \<longrightarrow> viewed i v t)"

definition sched_tail :: "(nat \<Rightarrow> ('z ctab_scheme, unit) kop) \<Rightarrow> nat \<Rightarrow> nat \<Rightarrow> ('z ctab_scheme, unit) kop" where
  "sched_tail run i p =
     kthen (run p) (kthen switchkvm (kthen (kmod (\<lambda>s. s\<lparr>cur := None\<rparr>))
       (kbind (kget (\<lambda>s. uproc (conts s i))) (\<lambda>n.
        kwhen (n = 0) (kthen (cexit i) (ret ()))))))"

lemma sched_visit_runnable:
  assumes "cstate (conts s i) = CRUNNABLE \<or> cstate (conts s i) = CSTOPPING"
    and "proc_at (conts s i) (nextproc (conts s i)) = Some p"
    and "pstate (procs s p) = RUNNABLE"
    and "kstack (procs s p) \<noteq> 0" and "pgdir (procs s p) \<noteq> 0"
  shows "sched_visit run i s = sched_tail run i p
    (s\<lparr>conts := (conts s)(i := advance (conts s i)), cur := Some p, cr3 := V2P (pgdir (procs s p)),
       procs := (procs s)(p := (procs s p)\<lparr>
         killed := (killed (procs s p) \<or> cstate (conts s i) = CSTOPPING), pstate := RUNNING\<rparr>)\<rparr>)"
  using assms
  by (auto simp: sched_visit_def sched_tail_def switchuvm_def advance_def kexec)

lemma sched_tail_view:
  assumes "run_keeps i run" and "viewed i v s" and "sched_tail run j p s = Ok () t"
  shows "viewed i v t"
proof -
  from assms(3) obtain u where run: "run p s = Ok () u"
    by (auto simp: sched_tail_def kexec split: res.splits)
  with assms(1,2) have u: "viewed i v u" unfolding run_keeps_def by blast
  with assms(3) run show ?thesis
    by (auto simp: sched_tail_def switchkvm_def cexit_def kexec viewed_def split: if_splits res.splits)
qed

lemma sched_visit_cases:
  assumes "sched_visit run j s = Ok () t"
  obtains "t = s" and "cstate (conts s j) \<noteq> CRUNNABLE" and "cstate (conts s j) \<noteq> CSTOPPING"
  | "t = s\<lparr>conts := (conts s)(j := advance (conts s j))\<rparr>"
  | p u where "sched_tail run j p u = Ok () t" "conts u = (conts s)(j := advance (conts s j))"
proof (cases "cstate (conts s j) = CRUNNABLE \<or> cstate (conts s j) = CSTOPPING")
  case False
  with assms that(1) show ?thesis by (simp add: sched_visit_skip)
next
  case st: True
  with assms obtain p where p: "proc_at (conts s j) (nextproc (conts s j)) = Some p"
    by (auto simp: sched_visit_def kexec split: option.splits)
  show ?thesis
  proof (cases "pstate (procs s p) = RUNNABLE")
    case False
    with st p assms that(2) show ?thesis
      by (auto simp: sched_visit_def kexec advance_def)
  next
    case True
    have "kstack (procs s p) \<noteq> 0 \<and> pgdir (procs s p) \<noteq> 0"
      using assms st p True
      by (auto simp: sched_visit_def switchuvm_def kexec split: if_splits)
    with sched_visit_runnable [OF st p True, of run] assms that(3) show ?thesis by auto
  qed
qed

lemma viewed_upd_other: "i \<noteq> j \<Longrightarrow> viewed i v (s\<lparr>conts := (conts s)(j := c)\<rparr>) = viewed i v s"
  by (simp add: viewed_def)

lemma sched_visit_other:
  assumes "run_keeps i run" and "i \<noteq> j" and "viewed i v s" and "sched_visit run j s = Ok () t"
  shows "viewed i v t"
  using assms(4)
proof (cases rule: sched_visit_cases)
  case (3 p u)
  then have "viewed i v u" using assms(2,3) by (simp add: viewed_def)
  with 3 assms(1) show ?thesis by (auto intro: sched_tail_view)
qed (use assms(2,3) in \<open>simp_all add: viewed_upd_other\<close>)

lemma sched_visits_other:
  assumes "run_keeps i run" and "i \<notin> set js" and "viewed i v s"
    and "kfor js (sched_visit run) s = Ok () t"
  shows "viewed i v t"
  using assms(2-4)
proof (induction js arbitrary: s)
  case Nil
  then show ?case by (simp add: kexec)
next
  case (Cons j js)
  then obtain u where "sched_visit run j s = Ok () u" "kfor js (sched_visit run) u = Ok () t"
    by (auto simp: kfor_Cons_exec split: res.splits)
  with Cons assms(1) show ?case by (auto intro: sched_visit_other)
qed

definition next_slot :: "int \<Rightarrow> int \<Rightarrow> int" where
  "next_slot m n = (if n + 1 = m then 0 else n + 1)"

lemma next_slot_mod: "0 \<le> n \<Longrightarrow> n < m \<Longrightarrow> next_slot m n = (n + 1) mod m"
  by (auto simp: next_slot_def)

lemma sched_visit_self:
  assumes "run_keeps i run" and "viewed i (CRUNNABLE, m, b, n) s" and "sched_visit run i s = Ok () t"
  shows "viewed i (CRUNNABLE, m, b, next_slot m n) t"
  using assms(3)
proof (cases rule: sched_visit_cases)
  case 1
  with assms(2) show ?thesis by (simp add: viewed_def sched_view_def)
next
  case 2
  with assms(2) show ?thesis
    by (auto simp: viewed_def sched_view_def advance_def next_slot_def)
next
  case (3 p u)
  then have "viewed i (CRUNNABLE, m, b, next_slot m n) u"
    using assms(2) by (auto simp: viewed_def sched_view_def advance_def next_slot_def)
  with 3 assms(1) show ?thesis by (auto intro: sched_tail_view)
qed

lemma upt_split3: "i < n \<Longrightarrow> [0..<n] = [0..<i] @ i # [Suc i..<n]"
  by (metis le_add2 le_add_same_cancel2 less_imp_add_positive upt_add_eq_append upt_conv_Cons)

lemma viewed_held [simp]: "viewed i v (s\<lparr>held := h\<rparr>) = viewed i v s"
  by (simp add: viewed_def)

lemma scheduler_round_view:
  assumes "run_keeps i run" and "i < NCONT" and "viewed i (CRUNNABLE, m, b, n) s"
    and "scheduler_round run s = Ok () t"
  shows "viewed i (CRUNNABLE, m, b, next_slot m n) t"
proof -
  let ?s = "s\<lparr>held := Lptable # held s\<rparr>"
  from assms(4) obtain w where
    loop: "kfor [0..<NCONT] (sched_visit run) ?s = Ok () w" and t: "release Lptable w = Ok () t"
    by (auto simp: scheduler_round_def table_defs kexec split: if_splits res.splits)
  from loop obtain u v where
    1: "kfor [0..<i] (sched_visit run) ?s = Ok () u" and 2: "sched_visit run i u = Ok () v"
    and 3: "kfor [Suc i..<NCONT] (sched_visit run) v = Ok () w"
    unfolding upt_split3 [OF assms(2)] kfor_append
    by (auto simp: kthen_exec kfor_Cons_exec split: res.splits)
  from sched_visits_other [OF assms(1) _ _ 1, of "(CRUNNABLE, m, b, n)"] assms(3)
  have "viewed i (CRUNNABLE, m, b, n) u" by simp
  from sched_visit_self [OF assms(1) this 2]
  have "viewed i (CRUNNABLE, m, b, next_slot m n) v" .
  from sched_visits_other [OF assms(1) _ this 3]
  have "viewed i (CRUNNABLE, m, b, next_slot m n) w" by simp
  with t show ?thesis by (auto simp: release_exec split: if_splits)
qed

lemma scheduler_rounds_view:
  assumes "run_keeps i run" and "i < NCONT" and "0 \<le> n" and "n < m"
    and "viewed i (CRUNNABLE, m, b, n) s" and "kfor [0..<r] (\<lambda>_. scheduler_round run) s = Ok () t"
  shows "viewed i (CRUNNABLE, m, b, (n + int r) mod m) t"
  using assms(6)
proof (induction r arbitrary: t)
  case 0
  with assms(3-5) show ?case by (simp add: kexec)
next
  case (Suc r)
  then obtain u where u: "kfor [0..<r] (\<lambda>_. scheduler_round run) s = Ok () u"
    and t: "scheduler_round run u = Ok () t"
    by (auto simp: kfor_append kexec split: res.splits)
  let ?k = "(n + int r) mod m"
  have "viewed i (CRUNNABLE, m, b, next_slot m ?k) t"
    using scheduler_round_view [OF assms(1,2) Suc.IH [OF u] t] .
  moreover have "next_slot m ?k = (n + int (Suc r)) mod m"
    using assms(3,4) next_slot_mod [of ?k m] by (simp add: mod_simps ac_simps)
  ultimately show ?case by simp
qed


lemma run_idle_keeps: "run_keeps i run_idle"
  by (simp add: run_keeps_def run_idle_def upd_proc_exec viewed_def)


section \<open>What a container can learn\<close>

lemma cinfo_conts_own:
  assumes "cinfo_conts me cs ps is j out = Some out'" and "me \<noteq> ROOTCONT"
  shows "out' l = out l \<or> ci_cid (out' l) = me \<and> (\<exists>i \<in> set is. live (cs i) \<and> cid (cs i) = me)"
  using assms(1)
proof (induction "is" arbitrary: j out)
  case Nil
  then show ?case by simp
next
  case (Cons i "is")
  show ?case
  proof (cases "me \<noteq> cid (cs i) \<or> cstate (cs i) = CUNUSED")
    case True
    with Cons assms(2) show ?thesis by auto
  next
    case False
    with Cons.prems assms(2) obtain nm pp where
      rec: "cinfo_conts me cs ps is (Suc j) (out(j := \<lparr>ci_msz = msz (cs i), ci_mdsk = mdsk (cs i),
         ci_mproc = mproc (cs i), ci_usz = upg (cs i) * 4096, ci_udsk = udsk (cs i),
         ci_cid = cid (cs i), ci_state = cstate (cs i), ci_name = nm, ci_procs = pp\<rparr>)) = Some out'"
      by (auto split: option.splits)
    from Cons.IH [OF this] False show ?thesis
      by (cases "l = j") (auto simp: live_def)
  qed
qed


theorem wakeup_exact_witness:
  "let s = ctab_ex\<lparr>conts := (\<lambda>i. (conts ctab_ex i)\<lparr>cptable := Some (64 * i)\<rparr>),
       procs := (procs ctab_ex)(64 := ctest_proc\<lparr>pstate := SLEEPING, chan := Some ChTicks\<rparr>)\<rparr> in
   \<exists>t. wakeup (Some ChTicks) s = Ok () t \<and> pstate (procs t 64) = RUNNABLE \<and> pstate (procs t 0) = RUNNING"
proof -
  let ?s = "ctab_ex\<lparr>conts := (\<lambda>i. (conts ctab_ex i)\<lparr>cptable := Some (64 * i)\<rparr>),
       procs := (procs ctab_ex)(64 := ctest_proc\<lparr>pstate := SLEEPING, chan := Some ChTicks\<rparr>)\<rparr>"
  have rows: "rows_ok ?s" and free: "Lptable \<notin> set (held ?s)"
    by (simp_all add: rows_ok_def example_defs)
  from wakeup_exact [OF rows free, of "Some ChTicks"] obtain t where
    t: "wakeup (Some ChTicks) ?s = Ok () t"
    and ps: "\<And>p. procs t p =
       (if (\<exists>i < NCONT. in_row (conts ?s i) p) \<and> pstate (procs ?s p) = SLEEPING \<and>
           chan (procs ?s p) = Some ChTicks
        then (procs ?s p)\<lparr>pstate := RUNNABLE\<rparr> else procs ?s p)"
    by blast
  have "in_row (conts ?s 1) 64" by (simp add: in_row_def example_defs)
  then have "\<exists>i < NCONT. in_row (conts ?s i) 64" by (intro exI [of _ 1]) simp
  with ps [of 64] ps [of 0] have "pstate (procs t 64) = RUNNABLE" "pstate (procs t 0) = RUNNING"
    by (simp_all add: example_defs)
  with t show ?thesis by (auto simp: Let_def)
qed

definition cinfo_zero :: continfo where
  "cinfo_zero = \<lparr>ci_conts = (\<lambda>_. \<lparr>ci_msz = 0, ci_mdsk = 0, ci_mproc = 0, ci_usz = 0, ci_udsk = 0,
     ci_cid = 0, ci_state = CUNUSED, ci_name = replicate 16 NUL,
     ci_procs = (\<lambda>_. \<lparr>pi_state = UNUSED, pi_pid = 0, pi_name = replicate 16 NUL, pi_ticks = 0\<rparr>)\<rparr>),
     ci_root = False\<rparr>"


end
