(* ===== verification/Kalloc.thy ===== *)
theory Kalloc
  imports Sched
begin

text \<open>
  \<^verbatim>\<open>kalloc.c\<close>: the physical page allocator with the containers' memory accounting. The
  free list is threaded through the free pages themselves, so it is modelled in the
  byte-addressed memory: the list head is an address, and the link of a free page is the
  32-bit word at its start. \<open>free_pages\<close> relates this to a list of addresses, and the
  contract \<open>page_allocator\<close> states over it what the users of the allocator rely on.
\<close>

section \<open>State and code\<close>

record kmem = ctab +
  mem :: memory
  freelist :: uint
  use_lock :: bool
  userinited :: bool
  kend :: uint        \<comment> \<open>the linker's symbol \<open>end\<close>: first address after the kernel\<close>

abbreviation (input) PHYSTOP :: uint where "PHYSTOP \<equiv> 0xE000000"

definition PGROUNDUP :: "uint \<Rightarrow> uint" where
  "PGROUNDUP a = and (a + PGSIZE - 1) (not (PGSIZE - 1))"

definition PGROUNDDOWN :: "uint \<Rightarrow> uint" where
  "PGROUNDDOWN a = and a (not (PGSIZE - 1))"

definition kfree :: "uint \<Rightarrow> ('z kmem_scheme, unit) kop" where
  "kfree v =
     kbind (kget userinited) (\<lambda>ui.
     kbind (if ui then mycont else ret 0) (\<lambda>c.
     kbind (kget kend) (\<lambda>e.
     if v mod PGSIZE \<noteq> 0 \<or> v < e \<or> PHYSTOP \<le> V2P v then panic ''kfree''
     else
       kthen (kmod (\<lambda>s. s\<lparr>mem := memset (mem s) v 1 PGSIZE\<rparr>))
       (kbind (kget use_lock) (\<lambda>lk.
        kthen (kwhen lk (acquire Lkmem))
       (kthen (kmod (\<lambda>s. s\<lparr>mem := st32 (mem s) v (freelist s)\<rparr>))
       (kthen (kmod (\<lambda>s. s\<lparr>freelist := v\<rparr>))
       (kbind (kget (\<lambda>s. upg (conts s c))) (\<lambda>n.
        kthen (kwhen (ui \<and> n > 0) (upd_cont c (\<lambda>c. c\<lparr>upg := upg c - 1\<rparr>)))
       (kwhen lk (release Lkmem)))))))))))"

definition kalloc :: "('z kmem_scheme, uint) kop" where
  "kalloc =
     kbind (kget userinited) (\<lambda>ui.
     kbind (if ui then mycont else ret 0) (\<lambda>c.
     kbind (kget (\<lambda>s. conts s c)) (\<lambda>cc.
     if ui \<and> msz cc < word_of_int (upg cc * 4096 + 4096)
     then kbind mycont (\<lambda>c'. kthen (ckill c') (ret 0))
     else
       kbind (kget use_lock) (\<lambda>lk.
       kthen (kwhen lk (acquire Lkmem))
       (kbind (kget freelist) (\<lambda>r.
        kthen (kwhen (r \<noteq> 0)
          (kthen (kmod (\<lambda>s. s\<lparr>freelist := ld32 (mem s) r\<rparr>))
          (kwhen ui (upd_cont c (\<lambda>c. c\<lparr>upg := upg c + 1\<rparr>)))))
       (kthen (kwhen lk (release Lkmem))
       (ret r))))))))"

text \<open>The loop of \<open>freerange\<close>. Pointer arithmetic past the end of the address space is
  undefined in C.\<close>

function freerange_loop :: "uint \<Rightarrow> uint \<Rightarrow> ('z kmem_scheme, unit) kop" where
  "freerange_loop p vend =
     (if p + PGSIZE < p then stop Fault
      else if p + PGSIZE \<le> vend then kthen (kfree p) (freerange_loop (p + PGSIZE) vend)
      else ret ())"
  by pat_completeness auto
termination
  by (relation "measure (\<lambda>(p, vend). 2 ^ 32 - unat p)")
    (auto simp: word_less_nat_alt unat_plus_if' split: if_splits)

declare freerange_loop.simps [simp del]

definition freerange :: "uint \<Rightarrow> uint \<Rightarrow> ('z kmem_scheme, unit) kop" where
  "freerange vstart vend = freerange_loop (PGROUNDUP vstart) vend"

definition kinit1 :: "uint \<Rightarrow> uint \<Rightarrow> ('z kmem_scheme, unit) kop" where
  "kinit1 vstart vend = kthen (kmod (\<lambda>s. s\<lparr>use_lock := False\<rparr>)) (freerange vstart vend)"

definition kinit2 :: "uint \<Rightarrow> uint \<Rightarrow> ('z kmem_scheme, unit) kop" where
  "kinit2 vstart vend = kthen (freerange vstart vend) (kmod (\<lambda>s. s\<lparr>use_lock := True\<rparr>))"

lemma curcont_kmem [simp]:
  "curcont (s\<lparr>mem := m\<rparr>) = curcont s" "curcont (s\<lparr>freelist := p\<rparr>) = curcont s"
  "curcont (s\<lparr>use_lock := b\<rparr>) = curcont s"
  by (simp_all add: curcont_def cong: option.case_cong)

section \<open>Pages\<close>

lemma unat_mod_4096: "(v :: uint) mod 4096 = 0 \<longleftrightarrow> unat v mod 4096 = 0"
  by (simp add: word_unat_eq_iff unat_mod)

lemma PGROUNDUP_mod: "PGROUNDUP a mod 4096 = 0"
proof -
  have "PGROUNDUP a = and (a + 4095) (not (mask 12))"
    by (simp add: PGROUNDUP_def mask_eq_exp_minus_1 add.commute)
  moreover have "and (a + 4095) (not (mask 12)) mod 4096 = take_bit 12 (and (a + 4095) (not (mask 12)))"
    by (simp add: take_bit_eq_mod)
  moreover have "take_bit 12 (and (a + 4095) (not (mask 12))) = 0"
    by (rule bit_word_eqI) (auto simp: bit_simps)
  ultimately show ?thesis by simp
qed

text \<open>The addresses \<open>kfree\<close> accepts.\<close>

definition page_ok :: "uint \<Rightarrow> uint \<Rightarrow> bool" where
  "page_ok e v \<longleftrightarrow> v mod PGSIZE = 0 \<and> e \<le> v \<and> V2P v < PHYSTOP \<and> v \<noteq> 0"

fun flist :: "memory \<Rightarrow> uint \<Rightarrow> uint list \<Rightarrow> bool" where
  "flist m p [] \<longleftrightarrow> p = 0"
| "flist m p (x # xs) \<longleftrightarrow> p = x \<and> x \<noteq> 0 \<and> flist m (ld32 m x) xs"

definition free_pages :: "'z kmem_scheme \<Rightarrow> uint list \<Rightarrow> bool" where
  "free_pages s ps \<longleftrightarrow> flist (mem s) (freelist s) ps \<and> distinct ps \<and> (\<forall>x \<in> set ps. page_ok (kend s) x)"

lemma flist_cong: "(\<And>x. x \<in> set ps \<Longrightarrow> ld32 m' x = ld32 m x) \<Longrightarrow> flist m' p ps = flist m p ps"
  by (induction ps arbitrary: p) auto

text \<open>Writing inside one page does not change the link of another.\<close>

lemma page_disjoint:
  assumes "x mod 4096 = (0 :: uint)" and "v mod 4096 = (0 :: uint)" and "x \<noteq> v" and "k < 4096"
  shows "\<not> (unat v \<le> unat (x + of_nat k) \<and> unat (x + of_nat k) < unat v + 4096)"
proof -
  from assms(1,2) obtain a b where ab: "unat x = 4096 * a" "unat v = 4096 * b"
    unfolding unat_mod_4096 by (metis mod_0_imp_dvd dvdE)
  with assms(3) have "a \<noteq> b" by (auto simp: word_unat_eq_iff)
  have "unat x < 2 ^ 32" using unsigned_less [of x, where ?'a = nat] by simp
  with ab have "4096 * a < 4096 * 2 ^ 20" by simp
  then have "a < 2 ^ 20" by simp
  then have "4096 * a + k < 2 ^ 32" using assms(4) by simp
  then have "unat (x + of_nat k) = 4096 * a + k"
    using ab assms(4) by (simp add: unat_word_ariths unat_of_nat)
  with ab \<open>a \<noteq> b\<close> assms(4) show ?thesis by (cases a b rule: linorder_cases) auto
qed

lemma ld32_other_page:
  assumes "x mod 4096 = (0 :: uint)" and "v mod 4096 = (0 :: uint)" and "x \<noteq> v"
    and "\<And>a. \<not> (unat v \<le> unat a \<and> unat a < unat v + 4096) \<Longrightarrow> m' a = m a"
  shows "ld32 m' x = ld32 m x"
  using page_disjoint [OF assms(1-3), of 0] page_disjoint [OF assms(1-3), of 1]
    page_disjoint [OF assms(1-3), of 2] page_disjoint [OF assms(1-3), of 3]
  by (intro ld32_cong assms(4)) simp_all

lemma unat_page: "v mod 4096 = (0 :: uint) \<Longrightarrow> unat v + 4096 \<le> 2 ^ 32"
proof -
  assume "v mod 4096 = (0 :: uint)"
  then obtain b where b: "unat v = 4096 * b" unfolding unat_mod_4096 by (metis mod_0_imp_dvd dvdE)
  have "unat v < 2 ^ 32" using unsigned_less [of v, where ?'a = nat] by simp
  with b have "b < 2 ^ 20" by simp
  with b show ?thesis by simp
qed

lemma st32_in_page:
  assumes "v mod 4096 = (0 :: uint)" and "\<not> (unat v \<le> unat a \<and> unat a < unat v + 4096)"
  shows "st32 m v w a = m a"
proof -
  have "unat (v + of_nat k) = unat v + k" if "k < 4096" for k
    using unat_page [OF assms(1)] that by (simp add: unat_word_ariths unat_of_nat)
  from this [of 0] this [of 1] this [of 2] this [of 3]
  have "a \<noteq> v" "a \<noteq> v + 1" "a \<noteq> v + 2" "a \<noteq> v + 3" using assms(2) by (auto simp: word_unat_eq_iff)
  then show ?thesis by (simp add: st32_def)
qed

section \<open>Execution\<close>

text \<open>What the allocator expects of its caller: its locks are free, and once user space is
  initialised there is a current process in a container.\<close>

definition kready :: "'z kmem_scheme \<Rightarrow> bool" where
  "kready s \<longleftrightarrow> Lkmem \<notin> set (held s) \<and> Lctable \<notin> set (held s) \<and> (userinited s \<longrightarrow> curcont s \<noteq> None)"

definition charge :: "int \<Rightarrow> 'z kmem_scheme \<Rightarrow> nat \<Rightarrow> cont" where
  "charge d s =
     (if userinited s
      then (conts s)(the (curcont s) := (conts s (the (curcont s)))\<lparr>upg := upg (conts s (the (curcont s))) + d\<rparr>)
      else conts s)"

definition over_limit :: "'z kmem_scheme \<Rightarrow> bool" where
  "over_limit s \<longleftrightarrow> userinited s \<and>
     msz (conts s (the (curcont s))) < word_of_int (upg (conts s (the (curcont s))) * 4096 + 4096)"

lemma kready_mycont: "kready s \<Longrightarrow> userinited s \<Longrightarrow> mycont s = Ok (the (curcont s)) s"
  by (auto simp: kready_def intro: mycont_curcont)

lemma kfree_exec:
  assumes "kready s" and "page_ok (kend s) v"
  shows "kfree v s = Ok () (s\<lparr>mem := st32 (memset (mem s) v 1 4096) v (freelist s), freelist := v,
    conts := (if userinited s \<and> 0 < upg (conts s (the (curcont s))) then charge (-1) s else conts s)\<rparr>)"
proof -
  have pg: "\<not> (v mod 4096 \<noteq> 0 \<or> v < kend s \<or> PHYSTOP \<le> V2P v)"
    using assms(2) by (auto simp: page_ok_def)
  show ?thesis
  proof (cases "userinited s")
    case True
    show ?thesis using True pg kready_mycont [OF assms(1) True] assms(1)
      by (simp add: kfree_def kexec charge_def kready_def del: mycont_exec)
  next
    case False
    then show ?thesis using pg assms(1) by (simp add: kfree_def kexec kready_def)
  qed
qed

lemma kfree_panic:
  assumes "kready s" and "v \<noteq> 0" and "\<not> page_ok (kend s) v"
  shows "kfree v s = Stop (Panic ''kfree'') s"
proof -
  have pg: "v mod 4096 \<noteq> 0 \<or> v < kend s \<or> PHYSTOP \<le> V2P v"
    using assms(2,3) unfolding page_ok_def by (metis not_less)
  show ?thesis
    using pg assms(1) kready_mycont [OF assms(1)]
    by (cases "userinited s") (auto simp: kfree_def kbind_exec kget_exec ret_exec panic_exec)
qed

lemma kalloc_exec:
  assumes "kready s"
  shows "kalloc s =
    (if over_limit s
     then Ok 0 (s\<lparr>conts := (conts s)(the (curcont s) := (conts s (the (curcont s)))\<lparr>cstate := CSTOPPING\<rparr>)\<rparr>)
     else if freelist s = 0 then Ok 0 s
     else Ok (freelist s) (s\<lparr>freelist := ld32 (mem s) (freelist s), conts := charge 1 s\<rparr>))"
proof (cases "userinited s")
  case True
  show ?thesis using True kready_mycont [OF assms True] assms
    by (simp add: kalloc_def kexec charge_def kready_def over_limit_def ckill_exec del: mycont_exec)
next
  case False
  then show ?thesis using assms by (simp add: kalloc_def kexec kready_def over_limit_def charge_def)
qed

section \<open>Refinement to a list of free pages\<close>

lemma kfree_mem_other:
  assumes "v mod 4096 = (0 :: uint)" and "\<not> (unat v \<le> unat a \<and> unat a < unat v + 4096)"
  shows "st32 (memset m v 1 4096) v w a = m a"
  using st32_in_page [OF assms] memset_spec [of v 4096 m 1 a] unat_page [OF assms(1)] assms(2) by auto

lemma flist_free:
  assumes "flist m p ps" and "\<forall>x \<in> set ps. page_ok e x" and "page_ok e v" and "v \<notin> set ps"
  shows "flist (st32 (memset m v 1 4096) v p) v (v # ps)"
proof -
  have v: "v mod 4096 = 0" "v \<noteq> 0" using assms(3) by (simp_all add: page_ok_def del: mod_eq_0_iff_dvd)
  have "ld32 (st32 (memset m v 1 4096) v p) x = ld32 m x" if "x \<in> set ps" for x
  proof (rule ld32_other_page [of x v])
    show "x mod 4096 = 0" "x \<noteq> v" using that assms(2,4) by (auto simp: page_ok_def)
  qed (use v kfree_mem_other in auto)
  then have "flist (st32 (memset m v 1 4096) v p) p ps = flist m p ps" by (rule flist_cong)
  with v assms(1) show ?thesis by (simp add: ld32_st32)
qed

lemma kfree_free_pages:
  assumes "kready s" and "free_pages s ps" and "page_ok (kend s) v" and "v \<notin> set ps"
    and "kfree v s = Ok u t"
  shows "free_pages t (v # ps)"
  using assms flist_free [of "mem s" "freelist s" ps "kend s" v]
  by (auto simp: free_pages_def kfree_exec)

lemma kalloc_free_pages:
  assumes "kready s" and "free_pages s ps"
  shows "\<exists>r t. kalloc s = Ok r t \<and>
    (r = 0 \<and> free_pages t ps \<and> (over_limit s \<or> ps = []) \<or>
     r \<noteq> 0 \<and> \<not> over_limit s \<and> (\<exists>qs. ps = r # qs \<and> free_pages t qs))"
  using assms by (cases ps) (auto simp: free_pages_def kalloc_exec)

text \<open>
  C6. \<open>kalloc\<close> and \<open>kfree\<close> implement a stack of free pages. When the state's free
  list, followed through the links stored in the pages, is the list \<open>ps\<close> of distinct
  valid pages, then \<open>kalloc\<close> returns the head of \<open>ps\<close> and leaves its tail, or returns 0 and leaves
  \<open>ps\<close> when there is no page or the container is at its limit; freeing a valid page that is not
  free pushes it, although the whole page is overwritten, no other link is damaged; and
  freeing an address that is not a page of allocatable memory panics and changes nothing.
\<close>

theorem kalloc_kfree_refine:
  assumes "kready s" and "free_pages s ps"
  shows "(\<exists>r t. kalloc s = Ok r t \<and>
      (r = 0 \<and> free_pages t ps \<and> (over_limit s \<or> ps = []) \<or>
       r \<noteq> 0 \<and> \<not> over_limit s \<and> (\<exists>qs. ps = r # qs \<and> free_pages t qs)))
    \<and> (\<forall>v. page_ok (kend s) v \<and> v \<notin> set ps \<longrightarrow> (\<exists>t. kfree v s = Ok () t \<and> free_pages t (v # ps)))
    \<and> (\<forall>v. v \<noteq> 0 \<and> \<not> page_ok (kend s) v \<longrightarrow> kfree v s = Stop (Panic ''kfree'') s)"
  using kalloc_free_pages [OF assms] kfree_panic [OF assms(1)] kfree_free_pages [OF assms]
    kfree_exec [OF assms(1)]
  by blast

definition kmem_ex :: "bool \<Rightarrow> kmem" where
  "kmem_ex ui = ctab.extend ctab_ex \<lparr>mem = st32 (\<lambda>_. 0) 0x80500000 0x80600000, freelist = 0x80500000,
     use_lock = True, userinited = ui, kend = 0x80400000\<rparr>"

lemmas kmem_ex_defs = kmem_ex_def ctab.defs example_defs

lemma kmem_ex_kready: "kready (kmem_ex ui)"
  by (simp add: kready_def curcont_def kmem_ex_defs)

lemma kmem_ex_pages: "free_pages (kmem_ex ui) [0x80500000, 0x80600000]"
proof -
  have "ld32 (st32 (\<lambda>_. 0) 0x80500000 0x80600000) 0x80600000 = 0"
    by (simp add: ld32_def st32_def)
  then show ?thesis
    by (simp add: free_pages_def kmem_ex_defs ld32_st32 page_ok_def V2P_def)
qed

theorem kalloc_kfree_refine_witness:
  "\<exists>t u. kalloc (kmem_ex True) = Ok 0x80500000 t \<and> free_pages t [0x80600000] \<and>
     kfree 0x80700000 (kmem_ex True) = Ok () u \<and> free_pages u [0x80700000, 0x80500000, 0x80600000] \<and>
     kfree 0x80700001 (kmem_ex True) = Stop (Panic ''kfree'') (kmem_ex True)"
proof -
  have "\<not> over_limit (kmem_ex True)"
    by (simp add: over_limit_def curcont_def kmem_ex_defs)
  moreover have "page_ok (kend (kmem_ex True)) 0x80700000"
    "\<not> page_ok (kend (kmem_ex True)) 0x80700001"
    by (simp_all add: page_ok_def V2P_def kmem_ex_defs)
  ultimately show ?thesis
    using kalloc_kfree_refine [OF kmem_ex_kready kmem_ex_pages, of True] by auto
qed

section \<open>Accounting\<close>

text \<open>Every container is within its memory limit, and its limit is one \<open>ccreate\<close> grants.\<close>

definition mem_acct :: "'z kmem_scheme \<Rightarrow> bool" where
  "mem_acct s \<longleftrightarrow> (\<forall>i. 0 \<le> upg (conts s i) \<and> upg (conts s i) * 4096 \<le> uint (msz (conts s i)) \<and>
     msz (conts s i) \<le> MAX_CONT_MEM)"

lemma over_limit_exact:
  assumes "mem_acct s" and "userinited s" and "curcont s = Some c"
  shows "over_limit s \<longleftrightarrow> uint (msz (conts s c)) < upg (conts s c) * 4096 + 4096"
proof -
  have m: "0 \<le> upg (conts s c)" "upg (conts s c) * 4096 \<le> uint (msz (conts s c))"
    "msz (conts s c) \<le> MAX_CONT_MEM"
    using assms(1) by (auto simp: mem_acct_def)
  from m(3) have "uint (msz (conts s c)) \<le> 268435456" by (simp add: word_le_def)
  with m(1,2) have "uint (word_of_int (upg (conts s c) * 4096 + 4096) :: uint) = upg (conts s c) * 4096 + 4096"
    by (subst uint_word_of_int) simp
  then show ?thesis using assms(2,3) by (simp add: over_limit_def word_less_def)
qed

lemma mem_acct_upd:
  assumes "mem_acct s" and "0 \<le> upg c'" and "upg c' * 4096 \<le> uint (msz c')" and "msz c' \<le> MAX_CONT_MEM"
    and "conts t = (conts s)(i := c')"
  shows "mem_acct t"
  using assms by (simp add: mem_acct_def)

lemma kalloc_acct:
  assumes "kready s" and "mem_acct s" and "kalloc s = Ok r t"
  shows "mem_acct t"
proof (cases "userinited s")
  case False
  with assms show ?thesis
    by (auto simp: kalloc_exec mem_acct_def over_limit_def charge_def split: if_splits)
next
  case True
  then obtain c where c: "curcont s = Some c" using assms(1) by (auto simp: kready_def)
  have m: "0 \<le> upg (conts s c)" "upg (conts s c) * 4096 \<le> uint (msz (conts s c))"
    "msz (conts s c) \<le> MAX_CONT_MEM"
    using assms(2) by (auto simp: mem_acct_def)
  show ?thesis
  proof (cases "over_limit s \<or> freelist s = 0")
    case True
    then show ?thesis using assms c m by (auto simp: kalloc_exec mem_acct_def split: if_splits)
  next
    case False
    then have "conts t = (conts s)(c := (conts s c)\<lparr>upg := upg (conts s c) + 1\<rparr>)"
      using assms(1,3) True c by (auto simp: kalloc_exec charge_def split: if_splits)
    moreover have "upg (conts s c) * 4096 + 4096 \<le> uint (msz (conts s c))"
      using over_limit_exact [OF assms(2) True c] False by simp
    ultimately show ?thesis using m by (intro mem_acct_upd [OF assms(2)]) auto
  qed
qed

lemma kfree_acct:
  assumes "kready s" and "mem_acct s" and "page_ok (kend s) v" and "kfree v s = Ok u t"
  shows "mem_acct t"
proof (cases "userinited s \<and> 0 < upg (conts s (the (curcont s)))")
  case True
  define c where "c = the (curcont s)"
  have "conts t = (conts s)(c := (conts s c)\<lparr>upg := upg (conts s c) - 1\<rparr>)"
    using assms True by (auto simp: kfree_exec charge_def c_def)
  moreover have "upg (conts s c) * 4096 \<le> uint (msz (conts s c))" "msz (conts s c) \<le> MAX_CONT_MEM"
    using assms(2) by (auto simp: mem_acct_def)
  ultimately show ?thesis using True by (intro mem_acct_upd [OF assms(2)]) (auto simp: c_def)
next
  case False
  then show ?thesis using assms by (auto simp: kfree_exec mem_acct_def)
qed

text \<open>
  C5. The memory limit is enforced exactly. With every container within its limit, a page
  is handed out only if the pages of the calling container, the new one included, fit into its
  \<open>msz\<close>; the counter goes up by one and every other container is unchanged. At the limit
  \<open>kalloc\<close> returns 0 and the container is stopped. In every case all containers are
  within their limits afterwards, so no sequence of allocations gets past a limit.
\<close>

theorem kalloc_limit:
  assumes "kready s" and "mem_acct s" and "userinited s" and "curcont s = Some c"
  shows "\<exists>r t. kalloc s = Ok r t \<and> mem_acct t \<and> (\<forall>i. i \<noteq> c \<longrightarrow> conts t i = conts s i) \<and>
    (if uint (msz (conts s c)) < upg (conts s c) * 4096 + 4096
     then r = 0 \<and> conts t c = (conts s c)\<lparr>cstate := CSTOPPING\<rparr> \<and> freelist t = freelist s
     else r = freelist s \<and>
       conts t c = (if r = 0 then conts s c else (conts s c)\<lparr>upg := upg (conts s c) + 1\<rparr>))"
  using kalloc_acct [OF assms(1,2)] assms
  by (auto simp: kalloc_exec over_limit_exact [OF assms(2-4)] charge_def)

lemma kmem_ex_acct: "mem_acct (kmem_ex ui)"
  by (simp add: mem_acct_def kmem_ex_defs)

theorem kalloc_limit_witness:
  "\<exists>t. kalloc (kmem_ex True) = Ok 0x80500000 t \<and> upg (conts t 0) = 1 \<and> mem_acct t"
proof -
  have "curcont (kmem_ex True) = Some 0" "userinited (kmem_ex True)"
    "freelist (kmem_ex True) = 0x80500000" "conts (kmem_ex True) 0 = root_cont"
    by (simp_all add: curcont_def kmem_ex_defs)
  with kalloc_limit [OF kmem_ex_kready kmem_ex_acct this(2,1)] show ?thesis
    by (auto simp: root_cont_def cont0_def)
qed

text \<open>
  Allocating a page and freeing it again in the same container is neutral: the free list
  is the one it was, the containers' accounts are the ones they were, and the page is again the
  next one to be handed out.
\<close>

lemma kalloc_kfree_roundtrip:
  assumes "kready s" and "mem_acct s" and "free_pages s ps" and "kalloc s = Ok r t" and "r \<noteq> 0"
  shows "\<exists>u. kfree r t = Ok () u \<and> free_pages u ps \<and> conts u = conts s \<and> freelist u = r"
proof -
  obtain qs where qs: "ps = r # qs" "free_pages t qs"
    using kalloc_free_pages [OF assms(1,3)] assms(4,5) by auto
  have t: "t = s\<lparr>freelist := ld32 (mem s) (freelist s), conts := charge 1 s\<rparr>"
    using assms(1,4,5) by (auto simp: kalloc_exec split: if_splits)
  have ready: "kready t" using assms(1) t by (simp add: kready_def)
  have page: "page_ok (kend t) r" "r \<notin> set qs" using assms(3) qs(1) t by (auto simp: free_pages_def)
  obtain u where u: "kfree r t = Ok () u" using kfree_exec [OF ready page(1)] by blast
  have pos: "0 \<le> upg (conts s (the (curcont s)))" using assms(2) by (simp add: mem_acct_def)
  have "curcont t = curcont s" using t by simp
  then have "conts u = conts s" "freelist u = r"
    using u kfree_exec [OF ready page(1)] t pos by (auto simp: charge_def)
  moreover have "free_pages u ps" using kfree_free_pages [OF ready qs(2) page u] qs(1) by simp
  ultimately show ?thesis using u by blast
qed

section \<open>Initialisation\<close>

definition pages_from :: "uint \<Rightarrow> nat \<Rightarrow> uint list" where
  "pages_from p n = map (\<lambda>k. p + of_nat (4096 * k)) [0..<n]"

lemma pages_from_Suc: "pages_from p (Suc n) = p # pages_from (p + 4096) n"
  unfolding pages_from_def
  by (rule nth_equalityI) (auto simp: nth_Cons' algebra_simps of_nat_diff simp del: upt_Suc)

lemma kready_kfree: "kready s \<Longrightarrow> page_ok (kend s) v \<Longrightarrow> kfree v s = Ok u t \<Longrightarrow> kready t \<and> kend t = kend s \<and> use_lock t = use_lock s"
  by (auto simp: kfree_exec kready_def)

lemma set_pages_from: "x \<in> set (pages_from p n) \<longleftrightarrow> (\<exists>k < n. x = p + of_nat (4096 * k))"
  by (auto simp: pages_from_def)

lemma unat_pages_from:
  assumes "unat p + 4096 * n < 2 ^ 32" and "k < n"
  shows "unat (p + of_nat (4096 * k)) = unat (p :: uint) + 4096 * k"
  using assms by (simp add: unat_word_ariths unat_of_nat)

lemma distinct_pages_from:
  assumes "unat p + 4096 * n < 2 ^ 32"
  shows "distinct (pages_from p n)"
proof -
  have "inj_on (\<lambda>k. p + of_nat (4096 * k)) {0..<n}"
  proof (rule inj_onI)
    fix i j assume "i \<in> {0..<n}" "j \<in> {0..<n}" "p + of_nat (4096 * i) = p + of_nat (4096 * j)"
    then have "unat p + 4096 * i = unat p + 4096 * j"
      using unat_pages_from [OF assms, of i] unat_pages_from [OF assms, of j] by simp
    then show "i = j" by simp
  qed
  then show ?thesis by (simp add: pages_from_def distinct_map)
qed

text \<open>With \<open>n\<close> whole pages between \<open>p\<close> and \<open>vend\<close>.\<close>

lemma freerange_loop_spec:
  assumes "unat p + 4096 * n \<le> unat vend" and "unat vend < unat p + 4096 * Suc n"
    and "unat p + 4096 * Suc n < 2 ^ 32"
    and "kready s" and "free_pages s ps"
    and "\<forall>x \<in> set (pages_from p n). page_ok (kend s) x \<and> x \<notin> set ps" and "distinct (pages_from p n)"
  shows "\<exists>t. freerange_loop p vend s = Ok () t \<and> free_pages t (rev (pages_from p n) @ ps) \<and>
    kready t \<and> kend t = kend s"
  using assms
proof (induction n arbitrary: p s ps)
  case 0
  have u: "unat (p + 4096) = unat p + 4096" using 0 by (simp add: unat_word_ariths)
  then have "\<not> p + 4096 < p" "\<not> p + 4096 \<le> vend" using 0 by (simp_all add: word_less_nat_alt word_le_nat_alt)
  then show ?case using 0 by (subst freerange_loop.simps) (simp add: kexec pages_from_def)
next
  case (Suc n)
  have u: "unat (p + 4096) = unat p + 4096" using Suc.prems(3) by (simp add: unat_word_ariths)
  then have le: "\<not> p + 4096 < p" "p + 4096 \<le> vend"
    using Suc.prems by (simp_all add: word_less_nat_alt word_le_nat_alt)
  note pf = pages_from_Suc [of p n]
  have page: "page_ok (kend s) p" "p \<notin> set ps" using Suc.prems(6) pf by auto
  obtain t where t: "kfree p s = Ok () t" using kfree_exec [OF Suc.prems(4) page(1)] by blast
  have t': "free_pages t (p # ps)" "kready t" "kend t = kend s"
    using kfree_free_pages [OF Suc.prems(4,5) page t] kready_kfree [OF Suc.prems(4) page(1) t] by auto
  have "\<exists>w. freerange_loop (p + 4096) vend t = Ok () w \<and>
      free_pages w (rev (pages_from (p + 4096) n) @ (p # ps)) \<and> kready w \<and> kend w = kend t"
    using Suc.prems t' pf by (intro Suc.IH) (auto simp: u)
  then show ?case using le t t'(3) pf by (subst freerange_loop.simps) (auto simp: kexec)
qed

lemma page_ok_range:
  assumes "p mod 4096 = (0 :: uint)" and "e \<le> p" and "KERNBASE \<le> p"
    and "unat p + 4096 * n \<le> 0x8E000000" and "k < n"
  shows "page_ok e (p + of_nat (4096 * k))"
proof -
  define x where "x = p + of_nat (4096 * k)"
  have u: "unat x = unat p + 4096 * k"
    unfolding x_def using assms(4,5) by (intro unat_pages_from [of p n]) auto
  have "0x80000000 \<le> unat p" using assms(3) by (simp add: word_le_nat_alt)
  then have x0: "0x80000000 \<le> unat x" using u by simp
  have "unat (x - 0x80000000) = unat x - 0x80000000"
    using x0 by (subst unat_sub) (simp_all add: word_le_nat_alt)
  then have "unat (x - 0x80000000) < 0xE000000" using u assms(4,5) by simp
  then have "V2P x < PHYSTOP" by (simp add: V2P_def word_less_nat_alt)
  moreover have "x mod 4096 = 0" using assms(1) u by (simp add: unat_mod_4096 del: unsigned_0)
  moreover have "e \<le> x" using assms(2) u by (simp add: word_le_nat_alt)
  moreover have "x \<noteq> 0" using x0 by auto
  ultimately show ?thesis by (simp add: page_ok_def x_def)
qed

text \<open>
  C25. \<open>freerange\<close> terminates and gives the allocator every whole page between its bounds, each exactly once,
  and nothing else: the free list afterwards is those pages in reverse, in front of
  what it was. The bounds are those of the two calls in \<open>main\<close>: kernel addresses after
  the kernel's end and up to the top of physical memory.
\<close>

theorem freerange_adds:
  assumes "kready s" and "free_pages s ps"
    and "kend s \<le> PGROUNDUP vstart" and "KERNBASE \<le> PGROUNDUP vstart"
    and "PGROUNDUP vstart \<le> vend" and "vend \<le> P2V PHYSTOP"
    and "\<forall>x \<in> set ps. x < PGROUNDUP vstart \<or> vend \<le> x"
  shows "\<exists>t. freerange vstart vend s = Ok () t \<and>
    free_pages t (rev (pages_from (PGROUNDUP vstart) ((unat vend - unat (PGROUNDUP vstart)) div 4096)) @ ps)"
proof -
  define p where "p = PGROUNDUP vstart"
  define n where "n = (unat vend - unat p) div 4096"
  have v: "unat vend \<le> 0x8E000000" "unat p \<le> unat vend"
    using assms(5,6) by (simp_all add: P2V_def word_le_nat_alt p_def)
  have "4096 * n \<le> unat vend - unat p" "unat vend - unat p < 4096 * Suc n"
    unfolding n_def using div_mult_mod_eq [of "unat vend - unat p" 4096]
      mod_less_divisor [of 4096 "unat vend - unat p"] by simp_all
  then have n: "unat p + 4096 * n \<le> unat vend" "unat vend < unat p + 4096 * Suc n" using v by simp_all
  have mod: "p mod 4096 = 0" unfolding p_def by (rule PGROUNDUP_mod)
  have pages: "page_ok (kend s) x \<and> x \<notin> set ps" if "x \<in> set (pages_from p n)" for x
  proof -
    from that obtain k where k: "k < n" "x = p + of_nat (4096 * k)" unfolding set_pages_from by blast
    have "unat x = unat p + 4096 * k"
      unfolding k(2) using n(1) v k(1) by (intro unat_pages_from) auto
    then have "p \<le> x" "x < vend" using n(1) k(1) by (simp_all add: word_le_nat_alt word_less_nat_alt)
    then have "x \<notin> set ps" using assms(7) unfolding p_def by (meson not_less)
    moreover have "page_ok (kend s) x"
      unfolding k(2) using assms(3,4) mod n(1) v(1) k(1) by (intro page_ok_range [of p _ n]) (simp_all add: p_def)
    ultimately show ?thesis by blast
  qed
  have "\<exists>t. freerange_loop p vend s = Ok () t \<and> free_pages t (rev (pages_from p n) @ ps) \<and> kready t \<and> kend t = kend s"
    using n v pages distinct_pages_from [of p n] assms(1,2)
    by (intro freerange_loop_spec) auto
  then show ?thesis unfolding freerange_def p_def [symmetric] n_def [symmetric] by blast
qed

theorem freerange_adds_witness:
  "\<exists>t. freerange 0x80700001 0x80703000 (kmem_ex False) = Ok () t \<and>
     free_pages t [0x80702000, 0x80701000, 0x80500000, 0x80600000]"
proof -
  have p: "PGROUNDUP 0x80700001 = 0x80701000" by (simp add: PGROUNDUP_def)
  have "pages_from 0x80701000 2 = [0x80701000, 0x80702000]" by (simp add: pages_from_def upt_rec numeral_2_eq_2)
  moreover have "(unat (0x80703000 :: uint) - unat (0x80701000 :: uint)) div 4096 = 2" by simp
  moreover have "kend (kmem_ex False) = 0x80400000" by (simp add: kmem_ex_defs)
  ultimately show ?thesis
    using freerange_adds [OF kmem_ex_kready kmem_ex_pages, of False "0x80700001" "0x80703000"] p
    by (simp add: P2V_def)
qed

section \<open>The allocator's contract\<close>

text \<open>
  What the users of the allocator rely on: in a ready state an allocation returns a free
  page, which then is no longer free, or 0; freeing a page in use makes it free. The lemmas
  state what follows for a series of allocations, as in \<open>allocuvm\<close> and \<open>setupkvm\<close>.
\<close>

locale page_allocator =
  fixes alloc :: "('s, uint) kop" and free :: "uint \<Rightarrow> ('s, unit) kop"
    and ready :: "'s \<Rightarrow> bool" and pool :: "'s \<Rightarrow> uint list \<Rightarrow> bool" and page :: "'s \<Rightarrow> uint \<Rightarrow> bool"
  assumes alloc_ok: "ready s \<Longrightarrow> pool s ps \<Longrightarrow> \<exists>r t. alloc s = Ok r t \<and> ready t \<and>
      (\<forall>x. page t x = page s x) \<and> (r = 0 \<and> pool t ps \<or> r \<noteq> 0 \<and> (\<exists>qs. ps = r # qs \<and> pool t qs))"
    and free_ok: "ready s \<Longrightarrow> pool s ps \<Longrightarrow> page s v \<Longrightarrow> v \<notin> set ps \<Longrightarrow> \<exists>t. free v s = Ok () t \<and> ready t \<and>
      (\<forall>x. page t x = page s x) \<and> pool t (v # ps)"
    and pool_ok: "pool s ps \<Longrightarrow> distinct ps \<and> (\<forall>x \<in> set ps. page s x)"
begin

primrec alloc_n :: "nat \<Rightarrow> ('s, uint list) kop" where
  "alloc_n 0 = ret []"
| "alloc_n (Suc n) = kbind alloc (\<lambda>r.
     if r = 0 then ret [] else kbind (alloc_n n) (\<lambda>rs. ret (r # rs)))"

lemma alloc_n_fresh:
  "ready s \<Longrightarrow> pool s ps \<Longrightarrow> \<exists>rs qs t. alloc_n n s = Ok rs t \<and> ready t \<and> ps = rs @ qs \<and> pool t qs \<and>
     length rs \<le> n \<and> (\<forall>x. page t x = page s x)"
proof (induction n arbitrary: s ps)
  case 0
  then show ?case by (auto simp: kexec)
next
  case (Suc n)
  obtain r t where t: "alloc s = Ok r t" "ready t" "\<forall>x. page t x = page s x"
    "r = 0 \<and> pool t ps \<or> r \<noteq> 0 \<and> (\<exists>qs. ps = r # qs \<and> pool t qs)"
    using alloc_ok [OF Suc.prems] by blast
  show ?case
  proof (cases "r = 0")
    case True
    with t show ?thesis by (auto simp: kexec)
  next
    case False
    with t(4) obtain qs where qs: "ps = r # qs" "pool t qs" by blast
    from Suc.IH [OF t(2) qs(2)] obtain rs qs' u where "alloc_n n t = Ok rs u" "ready u" "qs = rs @ qs'"
      "pool u qs'" "length rs \<le> n" "\<forall>x. page u x = page t x" by blast
    with t False qs show ?thesis by (auto simp: kexec)
  qed
qed

lemma alloc_n_distinct:
  assumes "ready s" and "pool s ps" and "alloc_n n s = Ok rs t"
  shows "distinct rs" and "\<forall>x \<in> set rs. page s x" and "\<exists>qs. pool t qs \<and> set rs \<inter> set qs = {}"
proof -
  obtain qs where "ps = rs @ qs" "pool t qs" using alloc_n_fresh [OF assms(1,2), of n] assms(3) by auto
  then show "distinct rs" "\<forall>x \<in> set rs. page s x" "\<exists>qs. pool t qs \<and> set rs \<inter> set qs = {}"
    using pool_ok [OF assms(2)] by auto
qed

end

interpretation kpages: page_allocator kalloc kfree kready free_pages "\<lambda>s. page_ok (kend s)"
proof
  fix s :: "'a kmem_scheme" and ps v
  assume *: "kready s" "free_pages s ps"
  show "\<exists>r t. kalloc s = Ok r t \<and> kready t \<and> (\<forall>x. page_ok (kend t) x = page_ok (kend s) x) \<and>
      (r = 0 \<and> free_pages t ps \<or> r \<noteq> 0 \<and> (\<exists>qs. ps = r # qs \<and> free_pages t qs))"
    using kalloc_free_pages [OF *] kalloc_exec [OF *(1)] *(1)
    by (auto simp: kready_def split: if_splits)
  assume v: "page_ok (kend s) v" "v \<notin> set ps"
  show "\<exists>t. kfree v s = Ok () t \<and> kready t \<and> (\<forall>x. page_ok (kend t) x = page_ok (kend s) x) \<and>
      free_pages t (v # ps)"
    using kfree_exec [OF *(1) v(1)] kfree_free_pages [OF * v] kready_kfree [OF *(1) v(1)] by auto
qed (auto simp: free_pages_def)

end
