(* ===== verification/Sleep.thy ===== *)
theory Sleep
  imports Kalloc
begin

text \<open>
  Giving up the processor (\<open>sleep\<close>, \<open>yield\<close> and \<open>kill\<close> of \<^verbatim>\<open>proc.c\<close>) and the sleeping
  locks of \<^verbatim>\<open>sleeplock.c\<close>. \<open>sched\<close> stops with \<open>Switch\<close>; what the process does when it is
  scheduled again is the definition with suffix \<open>_resume\<close>. A loop \<open>while(c) sleep(..)\<close> is
  one test per activation: the process is either past the loop or asleep.
\<close>

section \<open>\<^verbatim>\<open>proc.c\<close>\<close>

definition sleep_resume :: "nat \<Rightarrow> lockid \<Rightarrow> ('z ctab_scheme, unit) kop" where
  "sleep_resume p lk =
     kthen (upd_proc p (\<lambda>pr. pr\<lparr>chan := None\<rparr>))
     (kwhen (lk \<noteq> Lptable) (kthen releaseptable (acquire lk)))"

definition sleep :: "chan option \<Rightarrow> lockid option \<Rightarrow> ('z ctab_scheme, unit) kop" where
  "sleep ch mlk =
     kbind myproc (\<lambda>mp.
     case mp of None \<Rightarrow> panic ''sleep''
     | Some p \<Rightarrow>
        (case mlk of None \<Rightarrow> panic ''sleep without lk''
         | Some lk \<Rightarrow>
             kthen (kwhen (lk \<noteq> Lptable) (kthen acquireptable (release lk)))
             (kthen (upd_proc p (\<lambda>pr. pr\<lparr>chan := ch\<rparr>))
             (kthen (upd_proc p (\<lambda>pr. pr\<lparr>pstate := SLEEPING\<rparr>))
             (kthen sched
             (sleep_resume p lk))))))"

definition yield :: "('z ctab_scheme, unit) kop" where
  "yield =
     kthen acquireptable
     (kbind myproc (\<lambda>mp. kbind (klift mp) (\<lambda>p.
      kthen (upd_proc p (\<lambda>pr. pr\<lparr>pstate := RUNNABLE\<rparr>))
     (kthen sched
      releaseptable))))"

text \<open>The search of \<open>kill\<close> through the caller's own row.\<close>

primrec kill_loop :: "cont \<Rightarrow> int \<Rightarrow> nat list \<Rightarrow> ('z ctab_scheme, int) kop" where
  "kill_loop c n [] = kthen releaseptable (ret (-1))"
| "kill_loop c n (k # ks) =
     kbind (klift (proc_at c (int k))) (\<lambda>p.
     kbind (kget (\<lambda>s. procs s p)) (\<lambda>pr.
     if pid pr = n
     then kthen (upd_proc p (\<lambda>pr. pr\<lparr>killed := True\<rparr>))
         (kthen (kwhen (pstate pr = SLEEPING) (upd_proc p (\<lambda>pr. pr\<lparr>pstate := RUNNABLE\<rparr>)))
         (kthen releaseptable
         (ret 0)))
     else kill_loop c n ks))"

definition kill :: "int \<Rightarrow> ('z ctab_scheme, int) kop" where
  "kill n =
     kthen acquireptable
     (kbind mycont (\<lambda>me.
      kbind (kget (\<lambda>s. conts s me)) (\<lambda>c.
      kill_loop c n [0..<nat (mproc c)])))"

section \<open>\<^verbatim>\<open>sleeplock.c\<close>\<close>

record sleeplock =
  sl_locked :: bool
  sl_pid :: int

record slk = kmem +
  slocks :: "slid \<Rightarrow> sleeplock"    \<comment> \<open>the locks inside the buffers and the inodes\<close>

definition upd_slock :: "slid \<Rightarrow> (sleeplock \<Rightarrow> sleeplock) \<Rightarrow> ('z slk_scheme, unit) kop" where
  "upd_slock l f = kmod (\<lambda>s. s\<lparr>slocks := (slocks s)(l := f (slocks s l))\<rparr>)"

definition initsleeplock :: "slid \<Rightarrow> ('z slk_scheme, unit) kop" where
  "initsleeplock l =
     kthen (upd_slock l (\<lambda>k. k\<lparr>sl_locked := False\<rparr>)) (upd_slock l (\<lambda>k. k\<lparr>sl_pid := 0\<rparr>))"

definition acquiresleep :: "slid \<Rightarrow> ('z slk_scheme, unit) kop" where
  "acquiresleep l =
     kthen (acquire (Lsleep l))
     (kbind (kget (\<lambda>s. sl_locked (slocks s l))) (\<lambda>b.
      kthen (kwhen b (sleep (Some (ChSleepLock l)) (Some (Lsleep l))))
     (kthen (upd_slock l (\<lambda>k. k\<lparr>sl_locked := True\<rparr>))
     (kbind myproc (\<lambda>mp. kbind (klift mp) (\<lambda>p.
      kbind (kget (\<lambda>s. pid (procs s p))) (\<lambda>n.
      kthen (upd_slock l (\<lambda>k. k\<lparr>sl_pid := n\<rparr>))
     (release (Lsleep l)))))))))"

definition releasesleep :: "slid \<Rightarrow> ('z slk_scheme, unit) kop" where
  "releasesleep l =
     kthen (acquire (Lsleep l))
     (kthen (upd_slock l (\<lambda>k. k\<lparr>sl_locked := False\<rparr>))
     (kthen (upd_slock l (\<lambda>k. k\<lparr>sl_pid := 0\<rparr>))
     (kthen (wakeup (Some (ChSleepLock l)))
     (release (Lsleep l)))))"

definition holdingsleep :: "slid \<Rightarrow> ('z slk_scheme, bool) kop" where
  "holdingsleep l =
     kthen (acquire (Lsleep l))
     (kbind (kget (\<lambda>s. sl_locked (slocks s l))) (\<lambda>r.
     (kthen (release (Lsleep l)) (ret r))))"

lemma upd_slock_exec [kexec]:
  "upd_slock l f s = Ok () (s\<lparr>slocks := (slocks s)(l := f (slocks s l))\<rparr>)"
  by (simp add: upd_slock_def kexec)

lemma holdingsleep_exec:
  "Lsleep l \<notin> set (held s) \<Longrightarrow> holdingsleep l s = Ok (sl_locked (slocks s l)) s"
  by (simp add: holdingsleep_def kexec)

section \<open>No wake-up is lost\<close>

lemma sleep_exec:
  assumes "cur s = Some p" and "held s = [lk]" and "lk \<noteq> Lptable"
  shows "sleep (Some ch) (Some lk) s = Stop Switch (s\<lparr>held := [Lptable],
    procs := (procs s)(p := (procs s p)\<lparr>chan := Some ch, pstate := SLEEPING\<rparr>)\<rparr>)"
  using assms by (simp add: sleep_def sched_def table_defs kexec)


definition rows_ex :: ctab where
  "rows_ex = ctab_ex\<lparr>conts := \<lambda>i. (conts ctab_ex i)\<lparr>cptable := Some (64 * i)\<rparr>\<rparr>"

lemma rows_ex_facts:
  "rows_ok rows_ex" "curcont rows_ex = Some 0" "cur rows_ex = Some 0" "held rows_ex = []"
  "in_row (conts rows_ex 0) p \<longleftrightarrow> p < 64" "procs rows_ex = procs ctab_ex"
  by (auto simp: rows_ex_def rows_ok_def in_row_def curcont_def example_defs)


section \<open>Killing\<close>

definition killed_proc :: "proc \<Rightarrow> proc" where
  "killed_proc pr = pr\<lparr>killed := True, pstate := (if pstate pr = SLEEPING then RUNNABLE else pstate pr)\<rparr>"

lemma kill_loop_exec:
  assumes "cptable c = Some b" and "\<forall>k \<in> set ks. b + k < NCONT * NPROC" and "Lptable \<in> set (held s)"
  shows "kill_loop c n ks s =
    (case find (\<lambda>k. pid (procs s (b + k)) = n) ks of
       None \<Rightarrow> Ok (-1) (s\<lparr>held := remove1 Lptable (held s)\<rparr>)
     | Some k \<Rightarrow> Ok 0 (s\<lparr>procs := (procs s)(b + k := killed_proc (procs s (b + k))),
                          held := remove1 Lptable (held s)\<rparr>))"
  using assms(2)
proof (induction ks)
  case Nil
  then show ?case using assms(3) by (simp add: kexec table_defs)
next
  case (Cons k ks)
  then have at: "proc_at c (int k) = Some (b + k)" using assms(1) by (simp add: proc_at_row)
  show ?case
  proof (cases "pid (procs s (b + k)) = n")
    case True
    have "pr\<lparr>killed := True\<rparr> = killed_proc pr" if "pstate pr \<noteq> SLEEPING" for pr
      using that by (simp add: killed_proc_def)
    with at True assms(3) show ?thesis by (simp add: kexec table_defs killed_proc_def)
  next
    case False
    with at Cons show ?thesis by (simp add: kbind_exec klift_exec kget_exec)
  qed
qed

text \<open>
  C30. \<open>kill\<close> is confined to the caller's container: it marks the first process of the caller's own row with
  the given id, wakes it if it sleeps, and changes no other process; if the row has none it returns -1 and
  changes nothing. The search does not look at the state of a slot, so the id 0 of
  the unused slots finds the first unused slot and marks it as killed.
\<close>

theorem kill_confined:
  assumes "rows_ok s" and "curcont s = Some me" and "me < NCONT" and "Lptable \<notin> set (held s)"
  shows "\<exists>r t. kill n s = Ok r t \<and> held t = held s \<and> conts t = conts s \<and>
    (if \<exists>p. in_row (conts s me) p \<and> pid (procs s p) = n
     then r = 0 \<and> (\<exists>p. in_row (conts s me) p \<and> pid (procs s p) = n \<and>
       (\<forall>q < p. in_row (conts s me) q \<longrightarrow> pid (procs s q) \<noteq> n) \<and>
       procs t = (procs s)(p := (procs s p)\<lparr>killed := True,
         pstate := (if pstate (procs s p) = SLEEPING then RUNNABLE else pstate (procs s p))\<rparr>))
     else r = -1 \<and> t = s)"
proof -
  define b where "b = NPROC * me"
  define m where "m = nat (mproc (conts s me))"
  have row: "cptable (conts s me) = Some b" "m \<le> NPROC"
    using assms(1,3) by (auto simp: rows_ok_def b_def m_def)
  have in_row: "in_row (conts s me) p \<longleftrightarrow> b \<le> p \<and> p < b + m" for p
    using row(1) by (auto simp: in_row_def m_def)
  have ks: "\<forall>k \<in> set [0..<m]. b + k < NCONT * NPROC" using row(2) assms(3) by (auto simp: b_def)
  let ?s = "s\<lparr>held := Lptable # held s\<rparr>"
  have ex: "kill n s = kill_loop (conts s me) n [0..<m] ?s"
    using assms(4) mycont_curcont [of ?s me] assms(2)
    by (simp add: kill_def table_defs kthen_exec kbind_exec kget_exec acquire_exec m_def)
  note ex = ex [unfolded kill_loop_exec [OF row(1) ks, of ?s, simplified]]
  show ?thesis
  proof (cases "find (\<lambda>k. pid (procs s (b + k)) = n) [0..<m]")
    case None
    then have "\<not> (\<exists>p. in_row (conts s me) p \<and> pid (procs s p) = n)"
      unfolding in_row find_None_iff by (auto simp: le_iff_add)
    with None ex show ?thesis by simp
  next
    case (Some k)
    then have k: "k < m" "pid (procs s (b + k)) = n" "\<forall>j < k. pid (procs s (b + j)) \<noteq> n"
      by (auto simp: find_upt_Some)
    have "in_row (conts s me) (b + k)" using k(1) by (simp add: in_row)
    moreover have "\<forall>q < b + k. in_row (conts s me) q \<longrightarrow> pid (procs s q) \<noteq> n"
      unfolding in_row using k(3) by (auto simp: le_iff_add)
    ultimately show ?thesis using Some ex k(2) by (auto simp: killed_proc_def)
  qed
qed

theorem kill_confined_witness:
  "(\<exists>t. kill 2 rows_ex = Ok (-1) t \<and> procs t = procs rows_ex) \<and>
   (\<exists>t. kill 0 rows_ex = Ok 0 t \<and> killed (procs t 1))"
proof
  have held: "Lptable \<notin> set (held rows_ex)" by (simp add: rows_ex_facts)
  note K = kill_confined [OF rows_ex_facts(1,2) _ held, unfolded rows_ex_facts(5,6)]
  have "\<not> (\<exists>p. p < 64 \<and> pid (procs ctab_ex p) = 2)" by (auto simp: example_defs)
  with K [of 2] show "\<exists>t. kill 2 rows_ex = Ok (-1) t \<and> procs t = procs rows_ex" by auto
  have one: "pid (procs ctab_ex 1) = 0" "pid (procs ctab_ex 0) \<noteq> 0" by (simp_all add: example_defs)
  then have "\<exists>p. p < 64 \<and> pid (procs ctab_ex p) = 0" by (intro exI [of _ 1]) simp
  with K [of 0] obtain t p where t: "kill 0 rows_ex = Ok 0 t" "pid (procs ctab_ex p) = 0"
    "\<forall>q < p. q < 64 \<longrightarrow> pid (procs ctab_ex q) \<noteq> 0" "killed (procs t p)"
    by (simp only: if_True) auto
  have "\<not> 1 < p" using t(3) one(1) by (metis one_less_numeral_iff semiring_norm(76))
  moreover have "p \<noteq> 0" using t(2) one(2) by metis
  ultimately have "p = 1" by simp
  with t(1,4) show "\<exists>t. kill 0 rows_ex = Ok 0 t \<and> killed (procs t 1)" by blast
qed

end
