(* ===== verification/Bio.thy ===== *)
theory Bio
  imports Sleep
begin

text \<open>
  The buffer cache \<^verbatim>\<open>bio.c\<close> over the memory disk \<^verbatim>\<open>memide.c\<close>. The buffers form a doubly
  linked list in most-recently-used order through the list head, here the buffer with index
  \<open>NBUF\<close>; the pointer updates are the ones of the code. \<open>ring\<close> relates the pointers
  to the list, \<open>bc_ok\<close> is the cache's invariant, and \<open>view\<close> is the content of a block as the kernel
  sees it: the cached copy if there is one, the disk's otherwise.
\<close>

section \<open>State\<close>

abbreviation (input) NBUF :: nat where "NBUF \<equiv> 30"
abbreviation (input) BSIZE :: nat where "BSIZE \<equiv> 512"
abbreviation (input) FSSIZE :: nat where "FSSIZE \<equiv> 100000"

type_synonym block = "nat \<Rightarrow> byte"

record buf =
  b_valid :: bool          \<comment> \<open>\<open>B_VALID\<close> in \<open>flags\<close>\<close>
  b_dirty :: bool          \<comment> \<open>\<open>B_DIRTY\<close> in \<open>flags\<close>\<close>
  bdev :: uint
  blockno :: uint
  refcnt :: uint
  bprev :: nat
  bnext :: nat
  qnext :: "nat option"
  bdata :: block

record bio = slk +
  bufs :: "nat \<Rightarrow> buf"       \<comment> \<open>\<open>bcache.buf\<close>; \<open>bcache.head\<close> at \<open>NBUF\<close>\<close>
  disk :: "nat \<Rightarrow> block"
  disksize :: int
  issued :: "(nat \<times> block) list"   \<comment> \<open>the writes the device has performed, in order\<close>

definition upd_buf :: "nat \<Rightarrow> (buf \<Rightarrow> buf) \<Rightarrow> ('z bio_scheme, unit) kop" where
  "upd_buf b f = kmod (\<lambda>s. s\<lparr>bufs := (bufs s)(b := f (bufs s b))\<rparr>)"

section \<open>\<^verbatim>\<open>memide.c\<close>\<close>

definition ideinit :: "int \<Rightarrow> ('z bio_scheme, unit) kop" where
  "ideinit imgsize = kmod (\<lambda>s. s\<lparr>disksize := imgsize div 512\<rparr>)"

definition disk_write :: "nat \<Rightarrow> block \<Rightarrow> ('z bio_scheme, unit) kop" where
  "disk_write n d = kmod (\<lambda>s. s\<lparr>disk := (disk s)(n := d), issued := issued s @ [(n, d)]\<rparr>)"

definition iderw :: "nat \<Rightarrow> ('z bio_scheme, unit) kop" where
  "iderw b =
     kbind (holdingsleep (BufLock b)) (\<lambda>h.
     kbind (kget (\<lambda>s. bufs s b)) (\<lambda>bf.
     kbind (kget disksize) (\<lambda>n.
     if \<not> h then panic ''iderw: buf not locked''
     else if b_valid bf \<and> \<not> b_dirty bf then panic ''iderw: nothing to do''
     else if bdev bf \<noteq> 1 then panic ''iderw: request not for disk 1''
     else if word_of_int n \<le> blockno bf then panic ''iderw: block out of range''
     else
       kthen (if b_dirty bf
              then kthen (upd_buf b (\<lambda>bf. bf\<lparr>b_dirty := False\<rparr>)) (disk_write (unat (blockno bf)) (bdata bf))
              else kbind (kget (\<lambda>s. disk s (unat (blockno bf)))) (\<lambda>d. upd_buf b (\<lambda>bf. bf\<lparr>bdata := d\<rparr>)))
       (upd_buf b (\<lambda>bf. bf\<lparr>b_valid := True\<rparr>)))))"

section \<open>\<^verbatim>\<open>bio.c\<close>\<close>

definition link_front :: "nat \<Rightarrow> (nat \<Rightarrow> buf) \<Rightarrow> (nat \<Rightarrow> buf)" where
  "link_front b B0 =
     (let B1 = B0(b := (B0 b)\<lparr>bnext := bnext (B0 NBUF)\<rparr>);
          B2 = B1(b := (B1 b)\<lparr>bprev := NBUF\<rparr>);
          B3 = B2(bnext (B2 NBUF) := (B2 (bnext (B2 NBUF)))\<lparr>bprev := b\<rparr>)
      in B3(NBUF := (B3 NBUF)\<lparr>bnext := b\<rparr>))"

definition unlink :: "nat \<Rightarrow> (nat \<Rightarrow> buf) \<Rightarrow> (nat \<Rightarrow> buf)" where
  "unlink b B0 =
     (let B1 = B0(bnext (B0 b) := (B0 (bnext (B0 b)))\<lparr>bprev := bprev (B0 b)\<rparr>)
      in B1(bprev (B1 b) := (B1 (bprev (B1 b)))\<lparr>bnext := bnext (B1 b)\<rparr>))"

definition binit_body :: "nat \<Rightarrow> ('z bio_scheme, unit) kop" where
  "binit_body b = kthen (kmod (\<lambda>s. s\<lparr>bufs := link_front b (bufs s)\<rparr>)) (initsleeplock (BufLock b))"

definition binit :: "('z bio_scheme, unit) kop" where
  "binit =
     kthen (upd_buf NBUF (\<lambda>b. b\<lparr>bprev := NBUF\<rparr>))
     (kthen (upd_buf NBUF (\<lambda>b. b\<lparr>bnext := NBUF\<rparr>))
     (kfor [0..<NBUF] binit_body))"

text \<open>A walk along the list from \<open>b\<close> until the head, with the number of steps bounded.\<close>

fun bscan :: "nat \<Rightarrow> (nat \<Rightarrow> nat) \<Rightarrow> (nat \<Rightarrow> bool) \<Rightarrow> nat \<Rightarrow> nat option option" where
  "bscan 0 nx P b = None"
| "bscan (Suc n) nx P b =
     (if b = NBUF then Some None else if P b then Some (Some b) else bscan n nx P (nx b))"

definition walk :: "nat option option \<Rightarrow> ('s, nat option) kop" where
  "walk r = (case r of None \<Rightarrow> stop Spin | Some x \<Rightarrow> ret x)"

definition bget :: "uint \<Rightarrow> uint \<Rightarrow> ('z bio_scheme, nat) kop" where
  "bget dev bn =
     kthen (acquire Lbcache)
     (kbind (kget bufs) (\<lambda>B.
      kbind (walk (bscan (Suc NBUF) (\<lambda>b. bnext (B b)) (\<lambda>b. bdev (B b) = dev \<and> blockno (B b) = bn) (bnext (B NBUF)))) (\<lambda>r.
      case r of
        Some b \<Rightarrow>
          kthen (upd_buf b (\<lambda>bf. bf\<lparr>refcnt := refcnt bf + 1\<rparr>))
          (kthen (release Lbcache)
          (kthen (acquiresleep (BufLock b))
          (ret b)))
      | None \<Rightarrow>
          kbind (walk (bscan (Suc NBUF) (\<lambda>b. bprev (B b)) (\<lambda>b. refcnt (B b) = 0 \<and> \<not> b_dirty (B b)) (bprev (B NBUF)))) (\<lambda>r.
          case r of
            Some b \<Rightarrow>
              kthen (upd_buf b (\<lambda>bf. bf\<lparr>bdev := dev, blockno := bn, b_valid := False, b_dirty := False, refcnt := 1\<rparr>))
              (kthen (release Lbcache)
              (kthen (acquiresleep (BufLock b))
              (ret b)))
          | None \<Rightarrow> panic ''bget: no buffers''))))"

definition bread :: "uint \<Rightarrow> uint \<Rightarrow> ('z bio_scheme, nat) kop" where
  "bread dev bn =
     kbind (bget dev bn) (\<lambda>b.
     kbind (kget (\<lambda>s. b_valid (bufs s b))) (\<lambda>v.
     kthen (kwhen (\<not> v) (iderw b))
     (ret b)))"

definition bwrite :: "nat \<Rightarrow> ('z bio_scheme, unit) kop" where
  "bwrite b =
     kbind (holdingsleep (BufLock b)) (\<lambda>h.
     if \<not> h then panic ''bwrite''
     else kthen (upd_buf b (\<lambda>bf. bf\<lparr>b_dirty := True\<rparr>)) (iderw b))"

definition brelse :: "nat \<Rightarrow> ('z bio_scheme, unit) kop" where
  "brelse b =
     kbind (holdingsleep (BufLock b)) (\<lambda>h.
     if \<not> h then panic ''brelse''
     else
       kthen (releasesleep (BufLock b))
       (kthen (acquire Lbcache)
       (kthen (upd_buf b (\<lambda>bf. bf\<lparr>refcnt := refcnt bf - 1\<rparr>))
       (kbind (kget (\<lambda>s. refcnt (bufs s b))) (\<lambda>n.
        kthen (kwhen (n = 0) (kmod (\<lambda>s. s\<lparr>bufs := link_front b (unlink b (bufs s))\<rparr>)))
       (release Lbcache))))))"

lemma upd_buf_exec [kexec]: "upd_buf b f s = Ok () (s\<lparr>bufs := (bufs s)(b := f (bufs s b))\<rparr>)"
  by (simp add: upd_buf_def kexec)

lemma disk_write_exec [kexec]:
  "disk_write n d s = Ok () (s\<lparr>disk := (disk s)(n := d), issued := issued s @ [(n, d)]\<rparr>)"
  by (simp add: disk_write_def kexec)

lemma walk_exec [kexec]: "walk r s = (case r of None \<Rightarrow> Stop Spin s | Some x \<Rightarrow> Ok x s)"
  by (simp add: walk_def kexec split: option.split)

section \<open>The list through the buffers\<close>

fun links :: "(nat \<Rightarrow> nat) \<Rightarrow> (nat \<Rightarrow> nat) \<Rightarrow> nat list \<Rightarrow> bool" where
  "links nx pv (u # v # zs) \<longleftrightarrow> nx u = v \<and> pv v = u \<and> links nx pv (v # zs)"
| "links nx pv _ \<longleftrightarrow> True"

lemma links_append: "links nx pv (as @ u # bs) \<longleftrightarrow> links nx pv (as @ [u]) \<and> links nx pv (u # bs)"
proof (induction as)
  case Nil
  show ?case by simp
next
  case (Cons a as)
  then show ?case by (cases as) auto
qed

lemma links_cong:
  "(\<And>u. u \<in> set (butlast zs) \<Longrightarrow> nx' u = nx u) \<Longrightarrow> (\<And>v. v \<in> set (tl zs) \<Longrightarrow> pv' v = pv v) \<Longrightarrow>
    links nx' pv' zs = links nx pv zs"
  by (induction nx pv zs rule: links.induct) auto

definition ring :: "(nat \<Rightarrow> buf) \<Rightarrow> nat list \<Rightarrow> bool" where
  "ring B xs \<longleftrightarrow> distinct xs \<and> NBUF \<notin> set xs \<and> links (\<lambda>b. bnext (B b)) (\<lambda>b. bprev (B b)) (NBUF # xs @ [NBUF])"

lemma links_rev: "links nx pv zs = links pv nx (rev zs)"
proof (induction nx pv zs rule: links.induct)
  case (1 nx pv u v zs)
  then show ?case using links_append [of pv nx "rev zs" v "[u]"] by auto
qed auto

lemma bscan_links:
  assumes "links nx pv (u # xs @ [NBUF])" and "NBUF \<notin> set xs" and "length xs < n"
  shows "bscan n nx P (nx u) = Some (find P xs)"
  using assms
proof (induction xs arbitrary: u n)
  case Nil
  then show ?case by (cases n) auto
next
  case (Cons x xs)
  then obtain m where n: "n = Suc m" "length xs < m" by (cases n) auto
  with Cons have "bscan m nx P (nx x) = Some (find P xs)" by auto
  with Cons n show ?case by auto
qed

lemma bscan_next:
  "ring B xs \<Longrightarrow> length xs \<le> NBUF \<Longrightarrow>
    bscan 31 (\<lambda>b. bnext (B b)) P (bnext (B NBUF)) = Some (find P xs)"
  unfolding ring_def by (rule bscan_links [where u = NBUF]) auto

lemma bscan_prev:
  assumes "ring B xs" and "length xs \<le> NBUF"
  shows "bscan 31 (\<lambda>b. bprev (B b)) P (bprev (B NBUF)) = Some (find P (rev xs))"
  using assms links_rev [of "\<lambda>b. bnext (B b)" "\<lambda>b. bprev (B b)" "NBUF # xs @ [NBUF]"]
  unfolding ring_def by (intro bscan_links [where u = NBUF]) auto

lemma link_front_ptrs:
  assumes "b \<noteq> NBUF" and "n = bnext (B NBUF)" and "n \<noteq> b"
  shows "bnext (link_front b B x) = (if x = NBUF then b else if x = b then n else bnext (B x))"
    and "bprev (link_front b B x) = (if x = n then b else if x = b then NBUF else bprev (B x))"
  using assms by (auto simp: link_front_def Let_def)

lemma unlink_ptrs:
  assumes "n = bnext (B b)" and "p = bprev (B b)" and "n \<noteq> b" and "p \<noteq> b"
  shows "bnext (unlink b B x) = (if x = p then n else bnext (B x))"
    and "bprev (unlink b B x) = (if x = n then p else bprev (B x))"
  using assms by (auto simp: unlink_def Let_def)

lemma ring_link_front:
  assumes "ring B xs" and "b \<notin> set xs" and "b \<noteq> NBUF"
  shows "ring (link_front b B) (b # xs)"
proof -
  obtain n ys where ny: "xs @ [NBUF] = n # ys" by (cases xs) auto
  have old: "links (\<lambda>b. bnext (B b)) (\<lambda>b. bprev (B b)) (NBUF # n # ys)"
    using assms(1) ny by (simp add: ring_def)
  then have n: "n = bnext (B NBUF)" by simp
  have "n \<in> insert NBUF (set xs)" using ny by (cases xs) auto
  then have nb: "n \<noteq> b" using assms(2,3) by auto
  note ptrs = link_front_ptrs [of b n B, OF assms(3) n nb]
  have "butlast (n # ys) = xs" "set ys = set (tl (xs @ [NBUF]))" using ny by (metis butlast_snoc) (metis list.sel(3) ny)
  then have dis: "\<And>u. u \<in> set (butlast (n # ys)) \<Longrightarrow> u \<noteq> NBUF \<and> u \<noteq> b"
    using assms by (auto simp: ring_def)
  have dn: "n \<notin> set ys" "b \<notin> set ys"
    using assms ny by (cases xs; auto simp: ring_def)+
  have "links (\<lambda>x. bnext (link_front b B x)) (\<lambda>x. bprev (link_front b B x)) (n # ys) =
      links (\<lambda>x. bnext (B x)) (\<lambda>x. bprev (B x)) (n # ys)"
    using dis dn by (intro links_cong) (auto simp: ptrs)
  with old have "links (\<lambda>x. bnext (link_front b B x)) (\<lambda>x. bprev (link_front b B x)) (NBUF # b # n # ys)"
    using nb assms(3) by (simp add: ptrs)
  with assms ny show ?thesis by (simp add: ring_def)
qed

lemma ring_unlink:
  assumes "ring B (ys @ b # zs)"
  shows "ring (unlink b B) (ys @ zs)"
proof -
  obtain as p where ap: "NBUF # ys = as @ [p]" by (metis rev_exhaust list.distinct(1))
  obtain n bs where nb: "zs @ [NBUF] = n # bs" by (cases zs) auto
  have split: "NBUF # (ys @ b # zs) @ [NBUF] = as @ p # b # n # bs" "NBUF # (ys @ zs) @ [NBUF] = as @ p # n # bs"
    using ap nb by auto
  let ?nx = "\<lambda>x. bnext (B x)" and ?pv = "\<lambda>x. bprev (B x)"
  have "links ?nx ?pv (as @ p # b # n # bs)" using assms split(1) by (simp add: ring_def)
  then have old: "links ?nx ?pv (as @ [p])" "links ?nx ?pv (n # bs)" "n = bnext (B b)" "p = bprev (B b)"
    using links_append [of ?nx ?pv as p "b # n # bs"] by auto
  have d: "distinct ys" "distinct zs" "b \<notin> set ys" "b \<notin> set zs" "b \<noteq> NBUF" "set ys \<inter> set zs = {}"
    "NBUF \<notin> set ys" "NBUF \<notin> set zs" using assms by (auto simp: ring_def)
  have p: "p \<in> insert NBUF (set ys)" "p \<notin> set as" "tl (as @ [p]) = ys"
    using ap d by (metis in_set_conv_decomp list.set(2), metis d(1,7) distinct.simps(2) distinct_append list.set_intros(1) disjoint_iff, metis list.sel(3))
  have n: "n \<in> insert NBUF (set zs)" "n \<notin> set bs" "butlast (n # bs) = zs"
    using nb d by (cases zs; auto)+
  have pb: "n \<noteq> b" "p \<noteq> b" using p(1) n(1) d by auto
  note ptrs = unlink_ptrs [of n B b p, OF old(3,4) pb]
  let ?nx' = "\<lambda>x. bnext (unlink b B x)" and ?pv' = "\<lambda>x. bprev (unlink b B x)"
  have "links ?nx' ?pv' (as @ [p])"
    using old(1) p n d by (subst links_cong [of _ _ ?nx _ ?pv]) (auto simp: ptrs)
  moreover have "links ?nx' ?pv' (n # bs)"
    using old(2) p n d by (subst links_cong [of _ _ ?nx _ ?pv]) (auto simp: ptrs)
  ultimately have "links ?nx' ?pv' (as @ p # n # bs)"
    using links_append [of ?nx' ?pv' as p "n # bs"] by (simp add: ptrs)
  then show ?thesis using split(2) d by (auto simp: ring_def)
qed

lemma ring_cong:
  "(\<And>x. bnext (B' x) = bnext (B x)) \<Longrightarrow> (\<And>x. bprev (B' x) = bprev (B x)) \<Longrightarrow> ring B' xs = ring B xs"
  by (simp add: ring_def)

section \<open>Sleeping locks, uncontended\<close>

lemma acquiresleep_exec:
  assumes "Lsleep l \<notin> set (held s)" and "cur s = Some p" and "\<not> sl_locked (slocks s l)"
  shows "acquiresleep l s =
    Ok () (s\<lparr>slocks := (slocks s)(l := (slocks s l)\<lparr>sl_locked := True, sl_pid := pid (procs s p)\<rparr>)\<rparr>)"
  using assms by (simp add: acquiresleep_def kexec)

lemma releasesleep_exec:
  assumes "Lsleep l \<notin> set (held s)" and "Lptable \<notin> set (held s)" and "rows_ok s"
  shows "releasesleep l s = Ok () (s\<lparr>slocks := (slocks s)(l := (slocks s l)\<lparr>sl_locked := False, sl_pid := 0\<rparr>),
    procs := (\<lambda>p. if \<exists>i < NCONT. in_row (conts s i) p then woken (Some (ChSleepLock l)) (procs s p) else procs s p)\<rparr>)"
proof -
  have "rows_ok (s\<lparr>held := Lsleep l # held s, slocks := k\<rparr>)" for k using assms(3) by (simp add: rows_ok_def)
  with assms(1,2) show ?thesis by (simp add: releasesleep_def kexec wakeup_exec cong: if_cong)
qed

section \<open>The invariant and the content of a block\<close>

definition blocked :: "'z bio_scheme \<Rightarrow> nat \<Rightarrow> bool" where
  "blocked s i \<longleftrightarrow> sl_locked (slocks s (BufLock i))"

text \<open>The list order is \<open>xs\<close>; a device block is in at most one buffer; a locked buffer is referenced;
  dirty buffers are valid, and an unlocked clean buffer has the disk's content.\<close>

definition bc_ok :: "nat list \<Rightarrow> 'z bio_scheme \<Rightarrow> bool" where
  "bc_ok xs s \<longleftrightarrow> ring (bufs s) xs \<and> set xs = {..<NBUF} \<and>
     (\<forall>i < NBUF. \<forall>j < NBUF. bdev (bufs s i) = bdev (bufs s j) \<and> blockno (bufs s i) = blockno (bufs s j) \<and>
        bdev (bufs s i) \<noteq> 0 \<longrightarrow> i = j) \<and>
     (\<forall>i < NBUF. blocked s i \<longrightarrow> refcnt (bufs s i) \<noteq> 0) \<and>
     (\<forall>i < NBUF. b_dirty (bufs s i) \<longrightarrow> b_valid (bufs s i)) \<and>
     (\<forall>i < NBUF. b_valid (bufs s i) \<longrightarrow> bdev (bufs s i) = 1) \<and>
     (\<forall>i < NBUF. b_valid (bufs s i) \<and> \<not> b_dirty (bufs s i) \<and> \<not> blocked s i \<longrightarrow>
        bdata (bufs s i) = disk s (unat (blockno (bufs s i))))"

definition caches :: "uint \<Rightarrow> buf \<Rightarrow> bool" where
  "caches b bf \<longleftrightarrow> bdev bf = 1 \<and> blockno bf = b \<and> b_valid bf"

definition view :: "'z bio_scheme \<Rightarrow> uint \<Rightarrow> block" where
  "view s b = (case find (\<lambda>i. caches b (bufs s i)) [0..<NBUF] of
     Some i \<Rightarrow> bdata (bufs s i) | None \<Rightarrow> disk s (unat b))"

lemma view_cached:
  assumes "bc_ok xs s" and "i < NBUF" and "caches b (bufs s i)"
  shows "view s b = bdata (bufs s i)"
proof -
  obtain j where j: "find (\<lambda>i. caches b (bufs s i)) [0..<NBUF] = Some j"
    using assms(2,3) by (cases "find (\<lambda>i. caches b (bufs s i)) [0..<NBUF]") (auto simp: find_None_iff)
  then have "j < NBUF" "caches b (bufs s j)" by (auto simp: find_upt_Some)
  then have "i = j" using assms by (auto simp: bc_ok_def caches_def)
  with j show ?thesis by (simp add: view_def)
qed

lemma view_uncached: "(\<And>i. i < NBUF \<Longrightarrow> \<not> caches b (bufs s i)) \<Longrightarrow> view s b = disk s (unat b)"
  by (cases "find (\<lambda>i. caches b (bufs s i)) [0..<NBUF]") (auto simp: view_def find_upt_Some)

text \<open>A clean buffer nobody holds can be dropped without changing the content of any block.\<close>

lemma view_clean:
  assumes "bc_ok xs s" and "i < NBUF" and "caches b (bufs s i)" and "\<not> b_dirty (bufs s i)" and "\<not> blocked s i"
  shows "view s b = disk s (unat b)"
  using assms view_cached [OF assms(1-3)] by (auto simp: bc_ok_def caches_def)

text \<open>What the cache's operations leave alone: everything but the buffers, their locks, and
  processes they wake.\<close>

definition quiet :: "'z bio_scheme \<Rightarrow> 'z bio_scheme \<Rightarrow> bool" where
  "quiet s t \<longleftrightarrow> (\<exists>P L B. t = s\<lparr>procs := P, slocks := L, bufs := B\<rparr> \<and>
     (\<forall>p. P p = procs s p \<or> (pstate (procs s p) = SLEEPING \<and> P p = (procs s p)\<lparr>pstate := RUNNABLE\<rparr>)) \<and>
     (\<forall>j. L (InodeLock j) = slocks s (InodeLock j)))"

lemma quiet_refl [simp]: "quiet s s"
  unfolding quiet_def by (rule exI [of _ "procs s"], rule exI [of _ "slocks s"], rule exI [of _ "bufs s"]) simp

lemma quietI:
  "t = s\<lparr>slocks := L, bufs := B\<rparr> \<Longrightarrow> (\<And>j. L (InodeLock j) = slocks s (InodeLock j)) \<Longrightarrow> quiet s t"
  unfolding quiet_def by (rule exI [of _ "procs s"], rule exI [of _ L], rule exI [of _ B]) simp

lemma quiet_trans: "quiet s t \<Longrightarrow> quiet t u \<Longrightarrow> quiet s u"
proof -
  assume "quiet s t" "quiet t u"
  then obtain P L B P' L' B' where t: "t = s\<lparr>procs := P, slocks := L, bufs := B\<rparr>"
    "\<forall>p. P p = procs s p \<or> (pstate (procs s p) = SLEEPING \<and> P p = (procs s p)\<lparr>pstate := RUNNABLE\<rparr>)"
    "\<forall>j. L (InodeLock j) = slocks s (InodeLock j)"
    and u: "u = t\<lparr>procs := P', slocks := L', bufs := B'\<rparr>"
    "\<forall>p. P' p = procs t p \<or> (pstate (procs t p) = SLEEPING \<and> P' p = (procs t p)\<lparr>pstate := RUNNABLE\<rparr>)"
    "\<forall>j. L' (InodeLock j) = slocks t (InodeLock j)"
    unfolding quiet_def by blast
  have "u = s\<lparr>procs := P', slocks := L', bufs := B'\<rparr>" using t(1) u(1) by simp
  moreover have "P' p = procs s p \<or> (pstate (procs s p) = SLEEPING \<and> P' p = (procs s p)\<lparr>pstate := RUNNABLE\<rparr>)" for p
    using t(2) [rule_format, of p] u(2) [rule_format, of p] t(1) by auto
  moreover have "\<forall>j. L' (InodeLock j) = slocks s (InodeLock j)" using t(1,3) u(3) by simp
  ultimately show "quiet s u" unfolding quiet_def by blast
qed

lemma quiet_fields:
  assumes "quiet s t"
  shows "held t = held s" "conts t = conts s" "cur t = cur s" "mem t = mem s" "disk t = disk s"
    "disksize t = disksize s" "issued t = issued s" "rows_ok t = rows_ok s" "curcont t = curcont s"
    "bio.more t = bio.more s" "slocks t (InodeLock j) = slocks s (InodeLock j)"
proof -
  obtain P L B where t: "t = s\<lparr>procs := P, slocks := L, bufs := B\<rparr>"
    "\<forall>p. P p = procs s p \<or> (pstate (procs s p) = SLEEPING \<and> P p = (procs s p)\<lparr>pstate := RUNNABLE\<rparr>)"
    using assms unfolding quiet_def by blast
  have "pcont (P p) = pcont (procs s p)" for p using t(2) [rule_format, of p] by auto
  then show "curcont t = curcont s" by (simp add: t(1) curcont_def split: option.split)
qed (use assms in \<open>auto simp: quiet_def rows_ok_def\<close>)

definition bready :: "'z bio_scheme \<Rightarrow> bool" where
  "bready s \<longleftrightarrow> held s = [] \<and> rows_ok s \<and> cur s \<noteq> None"

lemma bready_quiet: "quiet s t \<Longrightarrow> bready s \<Longrightarrow> bready t"
  using quiet_fields [of s t] by (auto simp: bready_def)

section \<open>Finding a buffer\<close>

definition keyed :: "uint \<Rightarrow> uint \<Rightarrow> buf \<Rightarrow> bool" where
  "keyed d b bf \<longleftrightarrow> bdev bf = d \<and> blockno bf = b"

definition unused :: "buf \<Rightarrow> bool" where
  "unused bf \<longleftrightarrow> refcnt bf = 0 \<and> \<not> b_dirty bf"

lemma find_Some_in: "find P xs = Some x \<Longrightarrow> x \<in> set xs \<and> P x"
  by (induction xs) (auto split: if_splits)

lemma bc_ok_length: "bc_ok xs s \<Longrightarrow> length xs = NBUF"
  using distinct_card [of xs] by (simp add: bc_ok_def ring_def)

lemma bget_hit:
  assumes "bready s" and "bc_ok xs s" and "find (\<lambda>i. keyed d b (bufs s i)) xs = Some i" and "\<not> blocked s i"
  shows "\<exists>k. bget d b s = Ok i (s\<lparr>bufs := (bufs s)(i := (bufs s i)\<lparr>refcnt := refcnt (bufs s i) + 1\<rparr>),
    slocks := (slocks s)(BufLock i := k)\<rparr>) \<and> sl_locked k"
proof -
  obtain p where p: "Lbcache \<notin> set (held s)" "Lsleep (BufLock i) \<notin> set (held s)" "cur s = Some p"
    using assms(1) by (auto simp: bready_def)
  have ring: "ring (bufs s) xs" "length xs \<le> NBUF" using assms(2) bc_ok_length [OF assms(2)] by (auto simp: bc_ok_def)
  show ?thesis using p assms(3,4)
    by (simp add: bget_def kexec bscan_next [OF ring] keyed_def blocked_def acquiresleep_exec [where p = p])
      (rule exI, rule conjI, rule refl, simp)
qed

lemma bget_miss:
  assumes "bready s" and "bc_ok xs s" and "find (\<lambda>i. keyed d b (bufs s i)) xs = None"
    and "find (\<lambda>i. unused (bufs s i)) (rev xs) = Some i"
  shows "\<exists>k. bget d b s = Ok i (s\<lparr>bufs := (bufs s)(i := (bufs s i)\<lparr>bdev := d, blockno := b, b_valid := False,
      b_dirty := False, refcnt := 1\<rparr>),
    slocks := (slocks s)(BufLock i := k)\<rparr>) \<and> sl_locked k"
proof -
  obtain p where p: "Lbcache \<notin> set (held s)" "Lsleep (BufLock i) \<notin> set (held s)" "cur s = Some p"
    using assms(1) by (auto simp: bready_def)
  have ring: "ring (bufs s) xs" "length xs \<le> NBUF" using assms(2) bc_ok_length [OF assms(2)] by (auto simp: bc_ok_def)
  have "i \<in> set xs" "unused (bufs s i)" using find_Some_in [OF assms(4)] by auto
  then have "\<not> sl_locked (slocks s (BufLock i))"
    using assms(2) by (auto simp: bc_ok_def unused_def blocked_def)
  then show ?thesis using p assms(3,4)
    by (simp add: bget_def kexec bscan_next [OF ring] bscan_prev [OF ring] keyed_def unused_def
      acquiresleep_exec [where p = p])
      (rule exI, rule conjI, rule refl, simp)
qed

lemma bget_panic:
  assumes "bready s" and "bc_ok xs s" and "find (\<lambda>i. keyed d b (bufs s i)) xs = None"
    and "find (\<lambda>i. unused (bufs s i)) (rev xs) = None"
  shows "bget d b s = Stop (Panic ''bget: no buffers'') (s\<lparr>held := [Lbcache]\<rparr>)"
proof -
  have ring: "ring (bufs s) xs" "length xs \<le> NBUF" using assms(2) bc_ok_length [OF assms(2)] by (auto simp: bc_ok_def)
  show ?thesis using assms(1,3,4) unfolding bready_def
    by (simp add: bget_def kexec bscan_next [OF ring] bscan_prev [OF ring] keyed_def unused_def)
qed


section \<open>The cache's contract\<close>

lemma bc_ok_uniq:
  assumes "bc_ok xs s" and "i < NBUF" and "j < NBUF" and "keyed d b (bufs s i)" and "keyed d b (bufs s j)" and "d \<noteq> 0"
  shows "i = j"
  using assms unfolding bc_ok_def keyed_def by metis

lemma bc_ok_buf:
  assumes "bc_ok xs s" and "i < NBUF"
  shows "blocked s i \<Longrightarrow> refcnt (bufs s i) \<noteq> 0" and "b_dirty (bufs s i) \<Longrightarrow> b_valid (bufs s i)"
    and "b_valid (bufs s i) \<Longrightarrow> bdev (bufs s i) = 1"
    and "b_valid (bufs s i) \<Longrightarrow> \<not> b_dirty (bufs s i) \<Longrightarrow> \<not> blocked s i \<Longrightarrow>
      bdata (bufs s i) = disk s (unat (blockno (bufs s i)))"
  using assms unfolding bc_ok_def by blast+

lemma bc_okI:
  assumes "ring (bufs s) xs" and "set xs = {..<NBUF}"
    and "\<And>i j d b. i < NBUF \<Longrightarrow> j < NBUF \<Longrightarrow> keyed d b (bufs s i) \<Longrightarrow> keyed d b (bufs s j) \<Longrightarrow> d \<noteq> 0 \<Longrightarrow> i = j"
    and "\<And>i. i < NBUF \<Longrightarrow> blocked s i \<Longrightarrow> refcnt (bufs s i) \<noteq> 0"
    and "\<And>i. i < NBUF \<Longrightarrow> b_dirty (bufs s i) \<Longrightarrow> b_valid (bufs s i)"
    and "\<And>i. i < NBUF \<Longrightarrow> b_valid (bufs s i) \<Longrightarrow> bdev (bufs s i) = 1"
    and "\<And>i. i < NBUF \<Longrightarrow> b_valid (bufs s i) \<Longrightarrow> \<not> b_dirty (bufs s i) \<Longrightarrow> \<not> blocked s i \<Longrightarrow>
      bdata (bufs s i) = disk s (unat (blockno (bufs s i)))"
  shows "bc_ok xs s"
proof -
  have "\<forall>i < NBUF. \<forall>j < NBUF. bdev (bufs s i) = bdev (bufs s j) \<and> blockno (bufs s i) = blockno (bufs s j) \<and>
      bdev (bufs s i) \<noteq> 0 \<longrightarrow> i = j"
    using assms(3) unfolding keyed_def by metis
  then show ?thesis unfolding bc_ok_def by (intro conjI) (simp_all only: assms(1,2), use assms(4-7) in simp_all)
qed

lemma bc_ok_upd:
  assumes "bc_ok xs s" and "i < NBUF" and "bufs t = (bufs s)(i := bf)"
    and "bnext bf = bnext (bufs s i)" and "bprev bf = bprev (bufs s i)"
    and "\<And>j. j \<noteq> i \<Longrightarrow> blocked t j = blocked s j" and "disk t = disk s"
    and "\<And>j. j < NBUF \<Longrightarrow> j \<noteq> i \<Longrightarrow> keyed (bdev bf) (blockno bf) (bufs s j) \<Longrightarrow> bdev bf = 0"
    and "blocked t i \<Longrightarrow> refcnt bf \<noteq> 0" and "b_dirty bf \<Longrightarrow> b_valid bf" and "b_valid bf \<Longrightarrow> bdev bf = 1"
    and "b_valid bf \<Longrightarrow> \<not> b_dirty bf \<Longrightarrow> \<not> blocked t i \<Longrightarrow> bdata bf = disk s (unat (blockno bf))"
  shows "bc_ok xs t"
proof (rule bc_okI)
  have "ring (bufs t) xs = ring (bufs s) xs" by (rule ring_cong) (simp_all add: assms(3-5))
  then show "ring (bufs t) xs" "set xs = {..<NBUF}" using assms(1) by (simp_all add: bc_ok_def)
next
  fix j k d b
  assume *: "j < NBUF" "k < NBUF" "keyed d b (bufs t j)" "keyed d b (bufs t k)" "d \<noteq> 0"
  show "j = k"
  proof (cases "j = i \<or> k = i")
    case True
    show ?thesis using True *(3-5) assms(8) [OF *(1)] assms(8) [OF *(2)] unfolding assms(3) keyed_def
      by (cases "j = k") (auto split: if_splits)
  next
    case False
    then show ?thesis using bc_ok_uniq [OF assms(1) *(1,2), of d b] *(3-5) by (simp add: assms(3))
  qed
next
  fix j
  assume j: "j < NBUF"
  note old = bc_ok_buf [OF assms(1) j]
  show "blocked t j \<Longrightarrow> refcnt (bufs t j) \<noteq> 0" "b_dirty (bufs t j) \<Longrightarrow> b_valid (bufs t j)"
    "b_valid (bufs t j) \<Longrightarrow> bdev (bufs t j) = 1"
    "b_valid (bufs t j) \<Longrightarrow> \<not> b_dirty (bufs t j) \<Longrightarrow> \<not> blocked t j \<Longrightarrow>
      bdata (bufs t j) = disk t (unat (blockno (bufs t j)))"
    using old assms(9-12) assms(6) [of j] unfolding assms(3,7) by (cases "j = i"; simp)+
qed

lemma view_upd:
  assumes "bc_ok xs s" and "bc_ok ys t" and "i < NBUF" and "bufs t = (bufs s)(i := bf)" and "disk t = disk s"
  shows "view t c = (if caches c bf then bdata bf else if caches c (bufs s i) then disk s (unat c) else view s c)"
proof -
  consider (new) "caches c bf" | (old) "\<not> caches c bf" "caches c (bufs s i)"
    | (other) j where "\<not> caches c bf" "\<not> caches c (bufs s i)" "j < NBUF" "caches c (bufs s j)"
    | (none) "\<not> caches c bf" "\<forall>j < NBUF. \<not> caches c (bufs s j)" by blast
  then show ?thesis
  proof cases
    case new
    then show ?thesis using view_cached [OF assms(2,3), of c] assms(4) by simp
  next
    case old
    have "\<not> caches c (bufs t j)" if "j < NBUF" for j
      using that old assms(3,4) bc_ok_uniq [OF assms(1,3) that, of 1 c]
      by (cases "j = i") (auto simp: caches_def keyed_def)
    then have "view t c = disk t (unat c)" by (rule view_uncached)
    with old assms(5) show ?thesis by simp
  next
    case other
    then have "j \<noteq> i" by auto
    with other show ?thesis
      using view_cached [OF assms(2) other(3), of c] view_cached [OF assms(1) other(3), of c] assms(4) by simp
  next
    case none
    have "view s c = disk s (unat c)" using none by (intro view_uncached) auto
    moreover have "view t c = disk t (unat c)" using none assms(4) by (intro view_uncached) auto
    ultimately show ?thesis using none assms(3,5) by simp
  qed
qed

lemma iderw_read:
  assumes "Lsleep (BufLock i) \<notin> set (held s)" and "blocked s i" and "\<not> b_valid (bufs s i)" and "\<not> b_dirty (bufs s i)"
    and "bdev (bufs s i) = 1" and "blockno (bufs s i) < word_of_int (disksize s)"
  shows "iderw i s = Ok () (s\<lparr>bufs := (bufs s)(i := (bufs s i)\<lparr>bdata := disk s (unat (blockno (bufs s i))), b_valid := True\<rparr>)\<rparr>)"
  using assms by (simp add: iderw_def kexec holdingsleep_exec blocked_def not_le)

lemma iderw_write:
  assumes "Lsleep (BufLock i) \<notin> set (held s)" and "blocked s i" and "b_dirty (bufs s i)"
    and "bdev (bufs s i) = 1" and "blockno (bufs s i) < word_of_int (disksize s)"
  shows "iderw i s = Ok () (s\<lparr>disk := (disk s)(unat (blockno (bufs s i)) := bdata (bufs s i)),
    issued := issued s @ [(unat (blockno (bufs s i)), bdata (bufs s i))],
    bufs := (bufs s)(i := (bufs s i)\<lparr>b_dirty := False, b_valid := True\<rparr>)\<rparr>)"
  using assms by (simp add: iderw_def kexec holdingsleep_exec blocked_def not_le)

text \<open>The block can be had: its buffer, if there is one, is not locked, and otherwise some buffer can be
  recycled.\<close>

definition bavail :: "uint \<Rightarrow> 'z bio_scheme \<Rightarrow> bool" where
  "bavail b s \<longleftrightarrow> (\<forall>i < NBUF. keyed 1 b (bufs s i) \<longrightarrow> \<not> blocked s i \<and> refcnt (bufs s i) + 1 \<noteq> 0) \<and>
     ((\<exists>i < NBUF. keyed 1 b (bufs s i)) \<or> (\<exists>i < NBUF. unused (bufs s i)))"

lemma bget_spec:
  assumes "bready s" and "bc_ok xs s" and "bavail b s"
  shows "\<exists>i bf t. bget 1 b s = Ok i t \<and> i < NBUF \<and> quiet s t \<and> bc_ok xs t \<and> bufs t = (bufs s)(i := bf) \<and>
    keyed 1 b bf \<and> \<not> blocked s i \<and> blocked t i \<and> (\<forall>j. j \<noteq> i \<longrightarrow> blocked t j = blocked s j) \<and>
    (if keyed 1 b (bufs s i) then bf = (bufs s i)\<lparr>refcnt := refcnt (bufs s i) + 1\<rparr>
     else \<not> b_valid bf \<and> \<not> b_dirty bf \<and> refcnt bf = 1 \<and> unused (bufs s i))
    \<and> (\<forall>j < NBUF. keyed 1 b (bufs s j) \<longrightarrow> j = i)"
proof (cases "find (\<lambda>i. keyed 1 b (bufs s i)) xs")
  case (Some i)
  then have i: "i < NBUF" "keyed 1 b (bufs s i)" using find_Some_in [OF Some] assms(2) by (auto simp: bc_ok_def)
  then have free: "\<not> blocked s i" "refcnt (bufs s i) + 1 \<noteq> 0" using assms(3) by (auto simp: bavail_def)
  let ?bf = "(bufs s i)\<lparr>refcnt := refcnt (bufs s i) + 1\<rparr>"
  obtain k where k: "bget 1 b s = Ok i (s\<lparr>bufs := (bufs s)(i := ?bf), slocks := (slocks s)(BufLock i := k)\<rparr>)" "sl_locked k"
    using bget_hit [OF assms(1,2) Some free(1)] by blast
  define t where "t = s\<lparr>bufs := (bufs s)(i := ?bf), slocks := (slocks s)(BufLock i := k)\<rparr>"
  have t: "bufs t = (bufs s)(i := ?bf)" "disk t = disk s" "blocked t i" "\<And>j. j \<noteq> i \<Longrightarrow> blocked t j = blocked s j"
    using k(2) by (auto simp: t_def blocked_def)
  have "quiet s t" by (rule quietI [where L = "(slocks s)(BufLock i := k)" and B = "(bufs s)(i := ?bf)"]) (simp_all add: t_def)
  moreover have uniq: "\<forall>j < NBUF. keyed 1 b (bufs s j) \<longrightarrow> j = i"
    using bc_ok_uniq [OF assms(2) _ i(1) _ i(2)] by simp
  moreover have "bc_ok xs t"
  proof (rule bc_ok_upd [OF assms(2) i(1) t(1) _ _ t(4) t(2)])
    fix j assume j: "j < NBUF" "j \<noteq> i" "keyed (bdev ?bf) (blockno ?bf) (bufs s j)"
    then have "keyed 1 b (bufs s j)" using i(2) by (simp add: keyed_def)
    with uniq j show "bdev ?bf = 0" by blast
  qed (use bc_ok_buf [OF assms(2) i(1)] free in simp_all)
  moreover have "bget 1 b s = Ok i t" using k(1) by (simp only: t_def)
  moreover have "keyed 1 b ?bf" using i(2) by (simp add: keyed_def)
  moreover have "if keyed 1 b (bufs s i) then ?bf = (bufs s i)\<lparr>refcnt := refcnt (bufs s i) + 1\<rparr>
     else \<not> b_valid ?bf \<and> \<not> b_dirty ?bf \<and> refcnt ?bf = 1 \<and> unused (bufs s i)" using i(2) by simp
  ultimately show ?thesis using i(1) t(1,3,4) free(1) by blast
next
  case None
  then have none: "\<forall>j < NBUF. \<not> keyed 1 b (bufs s j)" using assms(2) by (auto simp: find_None_iff bc_ok_def)
  then obtain j where "j < NBUF" "unused (bufs s j)" using assms(3) by (auto simp: bavail_def)
  then obtain i where find: "find (\<lambda>i. unused (bufs s i)) (rev xs) = Some i"
    using assms(2) by (cases "find (\<lambda>i. unused (bufs s i)) (rev xs)") (auto simp: find_None_iff bc_ok_def)
  then have i: "i < NBUF" "unused (bufs s i)" using find_Some_in [OF find] assms(2) by (auto simp: bc_ok_def)
  then have free: "\<not> blocked s i" using assms(2) by (auto simp: bc_ok_def unused_def)
  let ?bf = "(bufs s i)\<lparr>bdev := 1, blockno := b, b_valid := False, b_dirty := False, refcnt := 1\<rparr>"
  obtain k where k: "bget 1 b s = Ok i (s\<lparr>bufs := (bufs s)(i := ?bf), slocks := (slocks s)(BufLock i := k)\<rparr>)" "sl_locked k"
    using bget_miss [OF assms(1,2) None find] by blast
  define t where "t = s\<lparr>bufs := (bufs s)(i := ?bf), slocks := (slocks s)(BufLock i := k)\<rparr>"
  have t: "bufs t = (bufs s)(i := ?bf)" "disk t = disk s" "blocked t i" "\<And>j. j \<noteq> i \<Longrightarrow> blocked t j = blocked s j"
    using k(2) by (auto simp: t_def blocked_def)
  have "quiet s t" by (rule quietI [where L = "(slocks s)(BufLock i := k)" and B = "(bufs s)(i := ?bf)"]) (simp_all add: t_def)
  moreover have "bc_ok xs t"
    by (rule bc_ok_upd [OF assms(2) i(1) t(1) _ _ t(4) t(2)]) (use none t(3) in simp_all)
  moreover have "bget 1 b s = Ok i t" using k(1) by (simp only: t_def)
  moreover have "keyed 1 b ?bf" by (simp add: keyed_def)
  moreover have "\<not> keyed 1 b (bufs s i)" using none i(1) by blast
  moreover from this have "if keyed 1 b (bufs s i) then ?bf = (bufs s i)\<lparr>refcnt := refcnt (bufs s i) + 1\<rparr>
     else \<not> b_valid ?bf \<and> \<not> b_dirty ?bf \<and> refcnt ?bf = 1 \<and> unused (bufs s i)" using i(2) by simp
  ultimately show ?thesis using i(1) t(1,3,4) free none by blast
qed


lemma view_same:
  assumes "bc_ok xs s" and "bc_ok ys t" and "i < NBUF" and "bufs t = (bufs s)(i := bf)" and "disk t = disk s"
    and "\<And>c. caches c bf \<Longrightarrow> bdata bf = view s c"
    and "\<And>c. caches c (bufs s i) \<Longrightarrow> \<not> caches c bf \<Longrightarrow> view s c = disk s (unat c)"
  shows "view t = view s"
  using view_upd [OF assms(1-5)] assms(6,7) by (auto simp: fun_eq_iff)

text \<open>What holds of the buffer \<open>bread\<close> returns.\<close>

definition bheld :: "uint \<Rightarrow> nat \<Rightarrow> 'z bio_scheme \<Rightarrow> bool" where
  "bheld b i s \<longleftrightarrow> i < NBUF \<and> caches b (bufs s i) \<and> blocked s i"

lemma bread_spec:
  assumes "bready s" and "bc_ok xs s" and "bavail b s" and "b < word_of_int (disksize s)"
  shows "\<exists>i bf t. bread 1 b s = Ok i t \<and> quiet s t \<and> bc_ok xs t \<and> bheld b i t \<and> bdata bf = view s b \<and>
    view t = view s \<and> bufs t = (bufs s)(i := bf) \<and> (\<forall>j. j \<noteq> i \<longrightarrow> blocked t j = blocked s j) \<and> \<not> blocked s i \<and>
    (if keyed 1 b (bufs s i) then refcnt bf = refcnt (bufs s i) + 1 \<and> b_dirty bf = b_dirty (bufs s i)
     else refcnt bf = 1 \<and> \<not> b_dirty bf \<and> unused (bufs s i)) \<and>
    (\<not> b_dirty bf \<longrightarrow> bdata bf = disk s (unat b))"
proof -
  obtain i bf t where g: "bget 1 b s = Ok i t" "i < NBUF" "quiet s t" "bc_ok xs t" "bufs t = (bufs s)(i := bf)"
    "keyed 1 b bf" "\<not> blocked s i" "blocked t i" "\<forall>j. j \<noteq> i \<longrightarrow> blocked t j = blocked s j"
    and bf: "if keyed 1 b (bufs s i) then bf = (bufs s i)\<lparr>refcnt := refcnt (bufs s i) + 1\<rparr>
      else \<not> b_valid bf \<and> \<not> b_dirty bf \<and> refcnt bf = 1 \<and> unused (bufs s i)"
    and uniq: "\<forall>j < NBUF. keyed 1 b (bufs s j) \<longrightarrow> j = i"
    using bget_spec [OF assms(1-3)] by blast
  have disk: "disk t = disk s" "disksize t = disksize s" "held t = []"
    using quiet_fields [OF g(3)] assms(1) by (auto simp: bready_def)
  have old: "caches c (bufs s i) \<Longrightarrow> \<not> caches c bf \<Longrightarrow> view s c = disk s (unat c)" for c
    using bf view_clean [OF assms(2) g(2) _ _ g(7)] by (auto simp: caches_def keyed_def unused_def split: if_splits)
  show ?thesis
  proof (cases "b_valid bf")
    case True
    then have hit: "keyed 1 b (bufs s i)" "bf = (bufs s i)\<lparr>refcnt := refcnt (bufs s i) + 1\<rparr>" using bf by (auto split: if_splits)
    then have c: "caches b (bufs s i)" "caches b bf" using True g(6) by (auto simp: caches_def keyed_def)
    have "bdata bf = view s b" using view_cached [OF assms(2) g(2) c(1)] hit(2) by simp
    moreover have "view t = view s"
      using calculation by (intro view_same [OF assms(2) g(4,2,5) disk(1) _ old]) (use c(2) in \<open>auto simp: caches_def\<close>)
    moreover have "\<not> b_dirty bf \<longrightarrow> bdata bf = disk s (unat b)"
      using view_clean [OF assms(2) g(2) c(1) _ g(7)] calculation(1) hit(2) by auto
    moreover have "bread 1 b s = Ok i t" using g(1,5) True by (simp add: bread_def kexec)
    moreover have "bheld b i t" using g(2,5,8) c(2) by (simp add: bheld_def)
    ultimately show ?thesis using g hit by (intro exI [of _ i] exI [of _ bf] exI [of _ t]) simp
  next
    case False
    have nd: "\<not> b_dirty bf" using bc_ok_buf(2) [OF g(4,2)] False g(5) by auto
    define bf' where "bf' = bf\<lparr>bdata := disk s (unat b), b_valid := True\<rparr>"
    define u where "u = t\<lparr>bufs := (bufs t)(i := bf')\<rparr>"
    have rd: "iderw i t = Ok () u"
      using g(5,6,8) False nd disk assms(4) by (subst iderw_read) (auto simp: keyed_def u_def bf'_def)
    have u: "bufs u = (bufs s)(i := bf')" "disk u = disk s" "\<And>j. blocked u j = blocked t j"
      using g(5) disk by (auto simp: u_def blocked_def)
    have c: "caches b bf'" "\<not> b_dirty bf'" using g(6) nd by (auto simp: caches_def keyed_def bf'_def)
    have q: "quiet s u" by (rule quiet_trans [OF g(3)]) (rule quietI [where L = "slocks t" and B = "(bufs t)(i := bf')"], simp_all add: u_def)
    have ok: "bc_ok xs u"
    proof (rule bc_ok_upd [OF g(4,2)])
      fix j assume j: "j < NBUF" "j \<noteq> i" "keyed (bdev bf') (blockno bf') (bufs t j)"
      have "keyed (bdev bf') (blockno bf') (bufs t i)" using g(5) by (simp add: bf'_def keyed_def)
      with bc_ok_uniq [OF g(4) j(1) g(2) j(3)] j(2) show "bdev bf' = 0" by blast
    qed (use g(5,6,8) nd bc_ok_buf(1) [OF g(4,2)] in \<open>simp_all add: u_def u(3) [unfolded u_def] bf'_def keyed_def blocked_def\<close>)
    have vb: "view s b = disk s (unat b)"
    proof (rule view_uncached)
      fix j assume "j < NBUF"
      then show "\<not> caches b (bufs s j)" using uniq bf False by (auto simp: caches_def keyed_def split: if_splits)
    qed
    have "view u = view s"
      by (rule view_same [OF assms(2) ok g(2) u(1,2)])
        (use c(1) vb old g(6) False in \<open>auto simp: caches_def keyed_def bf'_def\<close>)
    moreover have "bread 1 b s = Ok i u" using g(1,5) False rd by (simp add: bread_def kexec)
    moreover have "bheld b i u" using g(2,8) c(1) u by (simp add: bheld_def)
    moreover have "if keyed 1 b (bufs s i) then refcnt bf' = refcnt (bufs s i) + 1 \<and> b_dirty bf' = b_dirty (bufs s i)
      else refcnt bf' = 1 \<and> \<not> b_dirty bf' \<and> unused (bufs s i)" using bf by (auto simp: bf'_def split: if_splits)
    ultimately show ?thesis using g(7,9) q ok u(1,3) vb
      by (intro exI [of _ i] exI [of _ bf'] exI [of _ u]) (simp add: bf'_def)
  qed
qed

lemma bwrite_exec:
  assumes "Lsleep (BufLock i) \<notin> set (held s)" and "bheld b i s" and "b < word_of_int (disksize s)"
  shows "bwrite i s = Ok () (s\<lparr>disk := (disk s)(unat b := bdata (bufs s i)), issued := issued s @ [(unat b, bdata (bufs s i))],
    bufs := (bufs s)(i := (bufs s i)\<lparr>b_dirty := False, b_valid := True\<rparr>)\<rparr>)"
proof -
  let ?s = "s\<lparr>bufs := (bufs s)(i := (bufs s i)\<lparr>b_dirty := True\<rparr>)\<rparr>"
  have "blocked ?s i" "b_dirty (bufs ?s i)" "bdev (bufs ?s i) = 1" "blockno (bufs ?s i) = b"
    using assms(2) by (auto simp: bheld_def caches_def blocked_def)
  then show ?thesis using assms
    by (simp add: bwrite_def kexec holdingsleep_exec iderw_write bheld_def blocked_def)
qed

text \<open>The fields of a buffer that do not belong to the list.\<close>

definition core :: "buf \<Rightarrow> bool \<times> bool \<times> uint \<times> uint \<times> uint \<times> block" where
  "core bf = (b_valid bf, b_dirty bf, bdev bf, blockno bf, refcnt bf, bdata bf)"

lemma core_link_front: "core (link_front i B x) = core (B x)"
  by (auto simp: core_def link_front_def Let_def)

lemma core_unlink: "core (unlink i B x) = core (B x)"
  by (auto simp: core_def unlink_def Let_def)

lemma to_front_core: "core (link_front i (unlink i B) x) = core (B x)"
  by (simp add: core_link_front core_unlink)

lemma ring_to_front:
  assumes "ring B xs" and "i \<in> set xs"
  shows "ring (link_front i (unlink i B)) (i # remove1 i xs)"
proof -
  obtain ys zs where xs: "xs = ys @ i # zs" using assms(2) by (meson split_list)
  have "i \<notin> set (ys @ zs)" "i \<noteq> NBUF" "remove1 i xs = ys @ zs"
    using assms(1) xs by (auto simp: ring_def remove1_append)
  then show ?thesis using ring_link_front [OF ring_unlink [OF assms(1) [unfolded xs]]] by simp
qed


lemma core_eqs:
  assumes "core bf = core bf'"
  shows "b_valid bf = b_valid bf'" "b_dirty bf = b_dirty bf'" "bdev bf = bdev bf'" "blockno bf = blockno bf'"
    "refcnt bf = refcnt bf'" "bdata bf = bdata bf'" "keyed d b bf = keyed d b bf'" "caches b bf = caches b bf'"
    "unused bf = unused bf'"
  using assms by (auto simp: core_def keyed_def caches_def unused_def)

lemma bc_ok_core:
  assumes "bc_ok xs s" and "ring (bufs t) ys" and "set ys = set xs" and "\<And>j. core (bufs t j) = core (bufs s j)"
    and "\<And>j. blocked t j = blocked s j" and "disk t = disk s"
  shows "bc_ok ys t"
proof (rule bc_okI)
  show "ring (bufs t) ys" by fact
  show "set ys = {..<NBUF}" using assms(1,3) by (simp add: bc_ok_def)
next
  fix i j d b
  assume "i < NBUF" "j < NBUF" "keyed d b (bufs t i)" "keyed d b (bufs t j)" "d \<noteq> 0"
  then show "i = j" using bc_ok_uniq [OF assms(1), of i j d b] core_eqs(7) [OF assms(4)] by blast
next
  fix i assume "i < NBUF"
  note old = bc_ok_buf [OF assms(1) this]
  show "blocked t i \<Longrightarrow> refcnt (bufs t i) \<noteq> 0" "b_dirty (bufs t i) \<Longrightarrow> b_valid (bufs t i)"
    "b_valid (bufs t i) \<Longrightarrow> bdev (bufs t i) = 1"
    "b_valid (bufs t i) \<Longrightarrow> \<not> b_dirty (bufs t i) \<Longrightarrow> \<not> blocked t i \<Longrightarrow>
      bdata (bufs t i) = disk t (unat (blockno (bufs t i)))"
    using old by (simp_all add: core_eqs [OF assms(4)] assms(5,6))
qed

lemma view_core:
  "(\<And>j. core (bufs t j) = core (bufs s j)) \<Longrightarrow> disk t = disk s \<Longrightarrow> view t = view s"
  by (rule ext) (simp add: view_def core_eqs [of "bufs t _" "bufs s _"] cong: option.case_cong)

lemma brelse_run:
  assumes "bready s" and "blocked s i"
  shows "brelse i s = Ok () (s\<lparr>procs := (\<lambda>p. if \<exists>c < NCONT. in_row (conts s c) p then woken (Some (ChSleepLock (BufLock i))) (procs s p) else procs s p),
      slocks := (slocks s)(BufLock i := (slocks s (BufLock i))\<lparr>sl_locked := False, sl_pid := 0\<rparr>),
      bufs := (let B = (bufs s)(i := (bufs s i)\<lparr>refcnt := refcnt (bufs s i) - 1\<rparr>) in
        if refcnt (bufs s i) = 1 then link_front i (unlink i B) else B)\<rparr>)"
proof -
  have l: "Lsleep (BufLock i) \<notin> set (held s)" "Lptable \<notin> set (held s)" "Lbcache \<notin> set (held s)" "rows_ok s"
    using assms(1) by (auto simp: bready_def)
  show ?thesis
    using l(3) assms(2) by (simp add: brelse_def kexec holdingsleep_exec [OF l(1)] releasesleep_exec [OF l(1,2,4)] blocked_def Let_def)
qed

lemma brelse_exec:
  assumes "bready s" and "blocked s i"
  shows "\<exists>P k. brelse i s = Ok () (s\<lparr>procs := P, slocks := (slocks s)(BufLock i := k),
      bufs := (let B = (bufs s)(i := (bufs s i)\<lparr>refcnt := refcnt (bufs s i) - 1\<rparr>) in
        if refcnt (bufs s i) = 1 then link_front i (unlink i B) else B)\<rparr>) \<and> \<not> sl_locked k \<and>
    (\<forall>p. P p = procs s p \<or> (pstate (procs s p) = SLEEPING \<and> P p = (procs s p)\<lparr>pstate := RUNNABLE\<rparr>))"
  by (rule exI, rule exI, rule conjI [OF brelse_run [OF assms]]) (simp add: woken_def)

lemma brelse_spec:
  assumes "bready s" and "bc_ok xs s" and "bheld b i s" and "\<not> b_dirty (bufs s i) \<Longrightarrow> bdata (bufs s i) = disk s (unat b)"
  shows "\<exists>t. brelse i s = Ok () t \<and> quiet s t \<and> bc_ok (if refcnt (bufs s i) = 1 then i # remove1 i xs else xs) t \<and>
    view t = view s \<and> \<not> blocked t i \<and> (\<forall>j. j \<noteq> i \<longrightarrow> blocked t j = blocked s j) \<and>
    (\<forall>j. core (bufs t j) = core (if j = i then (bufs s i)\<lparr>refcnt := refcnt (bufs s i) - 1\<rparr> else bufs s j))"
proof -
  have h: "i < NBUF" "caches b (bufs s i)" "blocked s i" using assms(3) by (auto simp: bheld_def)
  let ?bf = "(bufs s i)\<lparr>refcnt := refcnt (bufs s i) - 1\<rparr>"
  define B where "B = (bufs s)(i := ?bf)"
  define B' where "B' = (if refcnt (bufs s i) = 1 then link_front i (unlink i B) else B)"
  obtain P k where ex: "brelse i s = Ok () (s\<lparr>procs := P, slocks := (slocks s)(BufLock i := k), bufs := B'\<rparr>)" "\<not> sl_locked k"
    "\<forall>p. P p = procs s p \<or> (pstate (procs s p) = SLEEPING \<and> P p = (procs s p)\<lparr>pstate := RUNNABLE\<rparr>)"
    using brelse_exec [OF assms(1) h(3)] unfolding B'_def B_def Let_def by blast
  define t where "t = s\<lparr>procs := P, slocks := (slocks s)(BufLock i := k), bufs := B'\<rparr>"
  define t0 where "t0 = t\<lparr>bufs := B\<rparr>"
  have bl: "\<not> blocked t0 i" "\<And>j. j \<noteq> i \<Longrightarrow> blocked t0 j = blocked s j" "\<And>j. blocked t j = blocked t0 j"
    using ex(2) by (auto simp: t0_def t_def blocked_def)
  have q: "quiet s t"
    unfolding quiet_def t_def
    by (rule exI [of _ P], rule exI [of _ "(slocks s)(BufLock i := k)"], rule exI [of _ B']) (simp add: ex(3))
  have ok0: "bc_ok xs t0"
  proof (rule bc_ok_upd [OF assms(2) h(1)])
    show "bufs t0 = (bufs s)(i := ?bf)" by (simp add: t0_def B_def)
    fix j assume j: "j < NBUF" "j \<noteq> i" "keyed (bdev ?bf) (blockno ?bf) (bufs s j)"
    have "keyed (bdev ?bf) (blockno ?bf) (bufs s i)" by (simp add: keyed_def)
    with bc_ok_uniq [OF assms(2) j(1) h(1) j(3)] j(2) show "bdev ?bf = 0" by blast
  qed (use bl assms(4) h(2) bc_ok_buf(2,3) [OF assms(2) h(1)] in \<open>simp_all add: t0_def t_def caches_def\<close>)
  have "view t0 c = view s c" for c
    using view_upd [OF assms(2) ok0 h(1), of ?bf c] view_cached [OF assms(2) h(1), of c]
    by (auto simp: t0_def t_def B_def caches_def)
  then have v0: "view t0 = view s" by (rule ext)
  have core: "core (bufs t j) = core (bufs t0 j)" for j by (simp add: t_def t0_def B'_def to_front_core)
  have "ring (bufs t0) xs" "i \<in> set xs" using ok0 h(1) by (auto simp: bc_ok_def)
  then have "ring (bufs t) (if refcnt (bufs s i) = 1 then i # remove1 i xs else xs)"
    using ring_to_front [of "bufs t0" xs i] by (simp add: t_def t0_def B'_def)
  moreover have "set (if refcnt (bufs s i) = 1 then i # remove1 i xs else xs) = set xs"
    using \<open>i \<in> set xs\<close> ok0 by (auto simp: bc_ok_def ring_def set_remove1_eq)
  ultimately have "bc_ok (if refcnt (bufs s i) = 1 then i # remove1 i xs else xs) t"
    using core bl(3) by (rule bc_ok_core [OF ok0]) (simp add: t0_def)
  moreover have "view t = view s" using view_core [of t t0] core v0 by (simp add: t0_def)
  moreover have "\<forall>j. core (bufs t j) = core (if j = i then ?bf else bufs s j)" using core by (simp add: t0_def B_def)
  ultimately show ?thesis using ex(1) q bl unfolding t_def [symmetric] by blast
qed


section \<open>Initialisation\<close>

lemma binit_body_exec:
  "binit_body b s = Ok () (s\<lparr>bufs := link_front b (bufs s),
     slocks := (slocks s)(BufLock b := (slocks s (BufLock b))\<lparr>sl_locked := False, sl_pid := 0\<rparr>)\<rparr>)"
  by (simp add: binit_body_def initsleeplock_def kexec)

lemma binit_loop:
  assumes "ring (bufs s) []"
  shows "n \<le> NBUF \<Longrightarrow> \<exists>t. kfor [0..<n] binit_body s = Ok () t \<and> quiet s t \<and> ring (bufs t) (rev [0..<n]) \<and>
    (\<forall>j. core (bufs t j) = core (bufs s j)) \<and> (\<forall>j < n. \<not> blocked t j)"
proof (induction n)
  case 0
  show ?case using assms by (simp add: kexec)
next
  case (Suc n)
  then obtain t where t: "kfor [0..<n] binit_body s = Ok () t" "quiet s t" "ring (bufs t) (rev [0..<n])"
    "\<forall>j. core (bufs t j) = core (bufs s j)" "\<forall>j < n. \<not> blocked t j" by auto
  define u where "u = t\<lparr>bufs := link_front n (bufs t),
    slocks := (slocks t)(BufLock n := (slocks t (BufLock n))\<lparr>sl_locked := False, sl_pid := 0\<rparr>)\<rparr>"
  have "kfor [0..<Suc n] binit_body s = Ok () u"
    using t(1) by (simp add: kfor_append kexec binit_body_exec u_def)
  moreover have "quiet s u"
    by (rule quiet_trans [OF t(2)], rule quietI [where B = "bufs u" and L = "slocks u"]) (simp_all add: u_def)
  moreover have "ring (bufs u) (rev [0..<Suc n])"
    using ring_link_front [OF t(3), of n] Suc.prems by (simp add: u_def)
  moreover have "\<forall>j. core (bufs u j) = core (bufs s j)" using t(4) by (simp add: u_def core_link_front)
  moreover have "\<forall>j < Suc n. \<not> blocked u j" using t(5) by (auto simp: u_def blocked_def less_Suc_eq)
  ultimately show ?case by blast
qed

lemma binit_ok:
  assumes "\<And>j. j < NBUF \<Longrightarrow> bdev (bufs s j) = 0 \<and> \<not> b_valid (bufs s j) \<and> \<not> b_dirty (bufs s j)"
  shows "\<exists>t. binit s = Ok () t \<and> quiet s t \<and> bc_ok (rev [0..<NBUF]) t \<and> (\<forall>j < NBUF. \<not> blocked t j) \<and>
    (\<forall>j < NBUF. core (bufs t j) = core (bufs s j)) \<and> (\<forall>b. view t b = disk s (unat b))"
proof -
  define s1 where "s1 = s\<lparr>bufs := (bufs s)(NBUF := (bufs s NBUF)\<lparr>bprev := NBUF, bnext := NBUF\<rparr>)\<rparr>"
  have "ring (bufs s1) []" by (simp add: ring_def s1_def)
  then obtain t where t: "kfor [0..<NBUF] binit_body s1 = Ok () t" "quiet s1 t" "ring (bufs t) (rev [0..<NBUF])"
    "\<forall>j. core (bufs t j) = core (bufs s1 j)" "\<forall>j < NBUF. \<not> blocked t j"
    using binit_loop [of s1 NBUF] by blast
  have "binit s = kfor [0..<NBUF] binit_body s1"
    by (simp add: binit_def kthen_exec upd_buf_exec s1_def)
  moreover have q: "quiet s t"
    by (rule quiet_trans [OF _ t(2)], rule quietI [where B = "bufs s1" and L = "slocks s1"]) (simp_all add: s1_def)
  moreover have "core (bufs t j) = core (bufs s j)" if "j < NBUF" for j using t(4) that by (simp add: s1_def)
  note core = core_eqs [OF this]
  have "bc_ok (rev [0..<NBUF]) t"
    by (rule bc_okI [OF t(3)]) (use assms core t(5) in \<open>auto simp: atLeast0LessThan keyed_def simp del: upt_rec_numeral\<close>)
  moreover have "view t b = disk s (unat b)" for b
    using view_uncached [of b t] assms core quiet_fields(5) [OF q] by (auto simp: caches_def)
  ultimately show ?thesis using t(1,5) \<open>\<And>j. j < NBUF \<Longrightarrow> core (bufs t j) = core (bufs s j)\<close> by auto
qed

section \<open>Properties\<close>

definition buf0 :: buf where
  "buf0 = \<lparr>b_valid = False, b_dirty = False, bdev = 0, blockno = 0, refcnt = 0, bprev = 0, bnext = 0,
     qnext = None, bdata = (\<lambda>_. 0)\<rparr>"

definition bio_ex :: bio where
  "bio_ex = slk.extend (kmem.extend (ctab.extend rows_ex (kmem.fields (\<lambda>_. 0) 0 True True 0x80400000))
       (slk.fields (\<lambda>_. \<lparr>sl_locked = False, sl_pid = 0\<rparr>)))
     (bio.fields (\<lambda>_. buf0) (\<lambda>n k. if n < 32 then 0 else of_nat (n + k)) 1000 [])"

definition bio_up :: bio where
  "bio_up = res_state (binit bio_ex)"

lemma bio_ex_ready: "bready bio_ex"
  using rows_ex_facts(1,3,4)
  by (simp add: bready_def rows_ok_def bio_ex_def slk.defs kmem.defs ctab.defs bio.defs)

lemma bio_up_facts:
  "bready bio_up" "bc_ok (rev [0..<NBUF]) bio_up" "disksize bio_up = 1000" "view bio_up b = disk bio_up (unat b)"
  "j < NBUF \<Longrightarrow> \<not> blocked bio_up j" "j < NBUF \<Longrightarrow> core (bufs bio_up j) = core buf0" "disk bio_up n k = (if n < 32 then 0 else of_nat (n + k))"
proof -
  have init: "bdev (bufs bio_ex j) = 0 \<and> \<not> b_valid (bufs bio_ex j) \<and> \<not> b_dirty (bufs bio_ex j)"
    "bufs bio_ex j = buf0" "disksize bio_ex = 1000" "disk bio_ex n k = (if n < 32 then 0 else of_nat (n + k))" for j n k
    by (simp_all add: bio_ex_def slk.defs kmem.defs ctab.defs bio.defs buf0_def)
  obtain t where t: "binit bio_ex = Ok () t" "quiet bio_ex t" "bc_ok (rev [0..<NBUF]) t" "\<forall>j < NBUF. \<not> blocked t j"
    "\<forall>j < NBUF. core (bufs t j) = core (bufs bio_ex j)" "\<forall>b. view t b = disk bio_ex (unat b)"
    using binit_ok [of bio_ex] init(1) by blast
  have up: "bio_up = t" using t(1) by (simp add: bio_up_def)
  show "bready bio_up" using bready_quiet [OF t(2) bio_ex_ready] up by simp
  show "bc_ok (rev [0..<NBUF]) bio_up" "disksize bio_up = 1000" "view bio_up b = disk bio_up (unat b)"
    "j < NBUF \<Longrightarrow> \<not> blocked bio_up j" "j < NBUF \<Longrightarrow> core (bufs bio_up j) = core buf0" "disk bio_up n k = (if n < 32 then 0 else of_nat (n + k))"
    using t(3-6) up init quiet_fields(5,6) [OF t(2)] by simp_all
qed

lemma bio_up_tables: "curcont bio_up = Some 0" "conts bio_up = conts rows_ex" "held bio_up = []" "cur bio_up = Some 0"
    "\<not> sl_locked (slocks bio_up (InodeLock ip))"
proof -
  have "bdev (bufs bio_ex j) = 0 \<and> \<not> b_valid (bufs bio_ex j) \<and> \<not> b_dirty (bufs bio_ex j)" for j
    by (simp add: bio_ex_def slk.defs kmem.defs ctab.defs bio.defs buf0_def)
  then obtain t where "binit bio_ex = Ok () t" "quiet bio_ex t" using binit_ok [of bio_ex] by blast
  then have q: "quiet bio_ex bio_up" by (simp add: bio_up_def)
  have "curcont bio_ex = curcont rows_ex" "conts bio_ex = conts rows_ex" "held bio_ex = []" "cur bio_ex = Some 0"
    "\<not> sl_locked (slocks bio_ex (InodeLock ip))"
    using rows_ex_facts(3,4)
    by (simp_all add: curcont_def bio_ex_def slk.defs kmem.defs ctab.defs bio.defs cong: option.case_cong)
  then show "curcont bio_up = Some 0" "conts bio_up = conts rows_ex" "held bio_up = []" "cur bio_up = Some 0"
    "\<not> sl_locked (slocks bio_up (InodeLock ip))"
    using quiet_fields [OF q] rows_ex_facts(2) by simp_all
qed

text \<open>
  C7. \<open>bread\<close> returns the content of the block. In a consistent cache, for a block of the device whose
  buffer is not locked, and with a buffer to recycle if it has none, \<open>bread\<close> returns a locked
  buffer that holds the block's current content: the cached copy, modified or not, or the disk's. The
  content of every block is unchanged, recycling included, the disk is not written, and the cache stays
  consistent. Releasing the buffer unmodified keeps every block's content as well and makes it the most recently used one.
\<close>

theorem bread_returns_block:
  assumes "bready s" and "bc_ok xs s" and "bavail b s" and "b < word_of_int (disksize s)"
  shows "\<exists>i t. bread 1 b s = Ok i t \<and> bc_ok xs t \<and> bheld b i t \<and> bdata (bufs t i) = view s b \<and>
    view t = view s \<and> disk t = disk s \<and> issued t = issued s \<and>
    (\<exists>u ys. brelse i t = Ok () u \<and> bc_ok ys u \<and> view u = view s \<and> disk u = disk s \<and> \<not> blocked u i \<and>
       (refcnt (bufs t i) = 1 \<longrightarrow> ys = i # remove1 i xs))"
proof -
  obtain i bf t where t: "bread 1 b s = Ok i t" "quiet s t" "bc_ok xs t" "bheld b i t" "bdata bf = view s b"
    "view t = view s" "bufs t = (bufs s)(i := bf)" "\<not> b_dirty bf \<longrightarrow> bdata bf = disk s (unat b)"
    using bread_spec [OF assms] by blast
  note f = quiet_fields [OF t(2)]
  have "\<not> b_dirty (bufs t i) \<Longrightarrow> bdata (bufs t i) = disk t (unat b)" using t(7,8) f(5) by simp
  with brelse_spec [OF bready_quiet [OF t(2) assms(1)] t(3,4)] obtain u where u: "brelse i t = Ok () u" "quiet t u"
    "bc_ok (if refcnt (bufs t i) = 1 then i # remove1 i xs else xs) u" "view u = view t" "\<not> blocked u i" by blast
  then have "\<exists>u ys. brelse i t = Ok () u \<and> bc_ok ys u \<and> view u = view s \<and> disk u = disk s \<and> \<not> blocked u i \<and>
       (refcnt (bufs t i) = 1 \<longrightarrow> ys = i # remove1 i xs)"
    using t(6) f(5) quiet_fields(5) [OF u(2)] by (intro exI [of _ u] exI [of _ "if refcnt (bufs t i) = 1 then i # remove1 i xs else xs"]) simp
  then show ?thesis using t f(5,7) by (intro exI [of _ i] exI [of _ t]) simp
qed

theorem bread_returns_block_witness:
  "\<exists>i t. bread 1 47 bio_up = Ok i t \<and> bdata (bufs t i) 3 = 50 \<and> view t = view bio_up"
proof -
  have core: "\<not> keyed 1 47 (bufs bio_up j)" "unused (bufs bio_up j)" if "j < NBUF" for j
    using core_eqs(7,9) [OF bio_up_facts(6) [OF that]] by (simp_all add: keyed_def unused_def buf0_def)
  have "\<exists>i < NBUF. unused (bufs bio_up i)" using core(2) [of 0] by (intro exI [of _ 0]) simp
  then have "bavail 47 bio_up" using core(1) unfolding bavail_def by blast
  moreover have "47 < (word_of_int (disksize bio_up) :: uint)" by (simp add: bio_up_facts)
  ultimately obtain i t where "bread 1 47 bio_up = Ok i t" "bdata (bufs t i) = view bio_up 47" "view t = view bio_up"
    using bread_returns_block [OF bio_up_facts(1,2)] by blast
  then show ?thesis using bio_up_facts(4) [of 47] bio_up_facts(7) [of 47 3] by auto
qed

text \<open>
  C29. Replacement is least recently used among what may be replaced. When the block is in no buffer,
  \<open>bget\<close> takes the last buffer in the list order that is neither referenced nor dirty, gives it the new
  identity and marks it invalid; it panics exactly when there is no such buffer. A dirty buffer, which
  the log still needs, is never taken.
\<close>

theorem bget_lru:
  assumes "bready s" and "bc_ok xs s" and "\<forall>j \<in> set xs. \<not> (bdev (bufs s j) = d \<and> blockno (bufs s j) = b)"
  shows "if \<forall>j \<in> set xs. refcnt (bufs s j) \<noteq> 0 \<or> b_dirty (bufs s j)
    then \<exists>t. bget d b s = Stop (Panic ''bget: no buffers'') t
    else \<exists>i t ys zs. bget d b s = Ok i t \<and> xs = ys @ i # zs \<and>
      refcnt (bufs s i) = 0 \<and> \<not> b_dirty (bufs s i) \<and>
      (\<forall>j \<in> set zs. refcnt (bufs s j) \<noteq> 0 \<or> b_dirty (bufs s j)) \<and>
      bdev (bufs t i) = d \<and> blockno (bufs t i) = b \<and> \<not> b_valid (bufs t i) \<and> refcnt (bufs t i) = 1 \<and> blocked t i \<and>
      (\<forall>j. j \<noteq> i \<longrightarrow> bufs t j = bufs s j)"
proof -
  have miss: "find (\<lambda>i. keyed d b (bufs s i)) xs = None" using assms(3) by (auto simp: find_None_iff keyed_def)
  show ?thesis
  proof (cases "find (\<lambda>i. unused (bufs s i)) (rev xs)")
    case None
    then have "\<forall>j \<in> set xs. refcnt (bufs s j) \<noteq> 0 \<or> b_dirty (bufs s j)" by (auto simp: find_None_iff unused_def)
    with bget_panic [OF assms(1,2) miss None] show ?thesis by auto
  next
    case (Some i)
    then obtain n where n: "n < length xs" "i = rev xs ! n" "unused (bufs s i)" "\<forall>m < n. \<not> unused (bufs s (rev xs ! m))"
      unfolding find_Some_iff by auto
    define k where "k = length xs - Suc n"
    have k: "k < length xs" "i = xs ! k" using n(1,2) by (auto simp: k_def rev_nth)
    have xs: "xs = take k xs @ i # drop (Suc k) xs" using k by (simp add: id_take_nth_drop)
    have "\<forall>j \<in> set (drop (Suc k) xs). \<not> unused (bufs s j)"
    proof
      fix j assume "j \<in> set (drop (Suc k) xs)"
      then obtain m where "m < length (drop (Suc k) xs)" "j = drop (Suc k) xs ! m" by (metis in_set_conv_nth)
      then have m: "Suc k + m < length xs" "j = xs ! (Suc k + m)" by auto
      have "length xs - Suc (n - Suc m) = Suc k + m" "n - Suc m < n" "n - Suc m < length xs"
        using m(1) n(1) unfolding k_def by simp_all
      then have "rev xs ! (n - Suc m) = j" "n - Suc m < n" using m(2) by (simp_all add: rev_nth)
      with n(4) show "\<not> unused (bufs s j)" by blast
    qed
    moreover have "\<not> (\<forall>j \<in> set xs. refcnt (bufs s j) \<noteq> 0 \<or> b_dirty (bufs s j))"
      using n(3) k by (auto simp: unused_def)
    moreover obtain l where l: "bget d b s = Ok i (s\<lparr>bufs := (bufs s)(i := (bufs s i)\<lparr>bdev := d, blockno := b, b_valid := False,
        b_dirty := False, refcnt := 1\<rparr>), slocks := (slocks s)(BufLock i := l)\<rparr>)" "sl_locked l"
      using bget_miss [OF assms(1,2) miss Some] by blast
    moreover define t where "t = s\<lparr>bufs := (bufs s)(i := (bufs s i)\<lparr>bdev := d, blockno := b, b_valid := False,
        b_dirty := False, refcnt := 1\<rparr>), slocks := (slocks s)(BufLock i := l)\<rparr>"
    moreover have "bdev (bufs t i) = d \<and> blockno (bufs t i) = b \<and> \<not> b_valid (bufs t i) \<and> refcnt (bufs t i) = 1 \<and>
      blocked t i \<and> (\<forall>j. j \<noteq> i \<longrightarrow> bufs t j = bufs s j)"
      using l(2) by (simp add: t_def blocked_def)
    ultimately show ?thesis using n(3) xs unfolding unused_def by (simp only: if_False) blast
  qed
qed

theorem bget_lru_witness:
  "\<exists>t. bget 1 7 bio_up = Ok 0 t \<and> blockno (bufs t 0) = 7"
proof -
  have core: "bdev (bufs bio_up j) = 0" "refcnt (bufs bio_up j) = 0" "\<not> b_dirty (bufs bio_up j)" if "j < NBUF" for j
    using core_eqs(2,3,5) [OF bio_up_facts(6) [OF that]] by (simp_all add: buf0_def)
  have "\<forall>j \<in> set (rev [0..<NBUF]). \<not> (bdev (bufs bio_up j) = 1 \<and> blockno (bufs bio_up j) = 7)"
    using core(1) by (auto simp del: upt_rec_numeral)
  note L = bget_lru [OF bio_up_facts(1,2) this]
  have "0 \<in> set (rev [0..<NBUF])" by (simp del: upt_rec_numeral)
  moreover have "refcnt (bufs bio_up 0) = 0" "\<not> b_dirty (bufs bio_up 0)" using core [of 0] by simp_all
  ultimately have "\<not> (\<forall>j \<in> set (rev [0..<NBUF]). refcnt (bufs bio_up j) \<noteq> 0 \<or> b_dirty (bufs bio_up j))" by blast
  with L obtain i t ys zs where i: "bget 1 7 bio_up = Ok i t" "rev [0..<NBUF] = ys @ i # zs" "blockno (bufs t i) = 7"
    "\<forall>j \<in> set zs. refcnt (bufs bio_up j) \<noteq> 0 \<or> b_dirty (bufs bio_up j)" by (simp only: if_False) blast
  have "zs = []"
  proof (rule ccontr)
    assume "zs \<noteq> []"
    then obtain j where j: "j \<in> set zs" by (meson list.set_sel(1))
    then have "j \<in> set (rev [0..<NBUF])" using i(2) by simp
    then have "j < NBUF" by (simp del: upt_rec_numeral)
    with i(4) j core show False by blast
  qed
  with i(2) have "i = last (rev [0..<NBUF])" by simp
  then have "i = 0" by (simp add: upt_rec)
  with i show ?thesis by blast
qed

end
