(* ===== verification/Layout.thy ===== *)
theory Layout
  imports Bio
begin

text \<open>
  The on-disk structures of \<^verbatim>\<open>fs.h\<close> and of the log header as the C compiler lays them out in the
  bytes of a block: little-endian fields of 1, 2 and 4 bytes at fixed offsets. Writing a field
  and reading it back, and writing a field without disturbing the others, are the facts
  the file system and the log rely on.
\<close>

section \<open>Fields\<close>

definition bld16 :: "block \<Rightarrow> nat \<Rightarrow> ushort" where
  "bld16 b i = or (ucast (b i)) (push_bit 8 (ucast (b (i + 1))))"

definition bld32 :: "block \<Rightarrow> nat \<Rightarrow> uint" where
  "bld32 b i = or (or (or (ucast (b i)) (push_bit 8 (ucast (b (i + 1)))))
     (push_bit 16 (ucast (b (i + 2))))) (push_bit 24 (ucast (b (i + 3))))"

definition bst16 :: "block \<Rightarrow> nat \<Rightarrow> ushort \<Rightarrow> block" where
  "bst16 b i v = b(i := ucast v, i + 1 := ucast (drop_bit 8 v))"

definition bst32 :: "block \<Rightarrow> nat \<Rightarrow> uint \<Rightarrow> block" where
  "bst32 b i v = b(i := ucast v, i + 1 := ucast (drop_bit 8 v), i + 2 := ucast (drop_bit 16 v),
     i + 3 := ucast (drop_bit 24 v))"

lemma bld16_same [simp]: "bld16 (bst16 b i v) i = v"
  by (rule bit_word_eqI) (auto simp: bld16_def bst16_def bit_simps)

lemma bld32_same [simp]: "bld32 (bst32 b i v) i = v"
proof (rule bit_word_eqI)
  fix n :: nat
  assume "n < LENGTH(32)"
  then show "bit (bld32 (bst32 b i v) i) n = bit v n"
    by (cases "24 \<le> n"; cases "16 \<le> n"; cases "8 \<le> n") (auto simp: bld32_def bst32_def bit_simps)
qed

lemma bst_other:
  "j < i \<or> i + 1 < j \<Longrightarrow> bst16 b i v j = b j"
  "j < i \<or> i + 3 < j \<Longrightarrow> bst32 b i w j = b j"
  by (auto simp: bst16_def bst32_def)

lemma bld32_other [simp]:
  "i + 4 \<le> j \<or> j + 4 \<le> i \<Longrightarrow> bld32 (bst32 b i v) j = bld32 b j"
  "i + 2 \<le> j \<or> j + 4 \<le> i \<Longrightarrow> bld32 (bst16 b i w) j = bld32 b j"
  by (auto simp: bld32_def bst_other)

lemma bld16_other [simp]:
  "i + 4 \<le> j \<or> j + 2 \<le> i \<Longrightarrow> bld16 (bst32 b i v) j = bld16 b j"
  "i + 2 \<le> j \<or> j + 2 \<le> i \<Longrightarrow> bld16 (bst16 b i w) j = bld16 b j"
  by (auto simp: bld16_def bst_other)

lemma bld_cong:
  "(\<And>k. k < 4 \<Longrightarrow> b (i + k) = b' (i + k)) \<Longrightarrow> bld32 b i = bld32 b' i"
  "(\<And>k. k < 2 \<Longrightarrow> b (i + k) = b' (i + k)) \<Longrightarrow> bld16 b i = bld16 b' i"
proof -
  assume *: "\<And>k. k < 4 \<Longrightarrow> b (i + k) = b' (i + k)"
  show "bld32 b i = bld32 b' i" using * [of 0] * [of 1] * [of 2] * [of 3] by (simp add: bld32_def)
next
  assume *: "\<And>k. k < 2 \<Longrightarrow> b (i + k) = b' (i + k)"
  show "bld16 b i = bld16 b' i" using * [of 0] * [of 1] by (simp add: bld16_def)
qed

section \<open>The superblock\<close>

record superblock =
  sb_size :: uint
  sb_nblocks :: uint
  sb_ninodes :: uint
  sb_nlog :: uint
  sb_logstart :: uint
  sb_inodestart :: uint
  sb_bmapstart :: uint

definition get_sb :: "block \<Rightarrow> superblock" where
  "get_sb b = \<lparr>sb_size = bld32 b 0, sb_nblocks = bld32 b 4, sb_ninodes = bld32 b 8, sb_nlog = bld32 b 12,
     sb_logstart = bld32 b 16, sb_inodestart = bld32 b 20, sb_bmapstart = bld32 b 24\<rparr>"

definition readsb :: "uint \<Rightarrow> ('z bio_scheme, superblock) kop" where
  "readsb dev =
     kbind (bread dev 1) (\<lambda>bp.
     kbind (kget (\<lambda>s. get_sb (bdata (bufs s bp)))) (\<lambda>sb.
     kthen (brelse bp) (ret sb)))"

section \<open>The log header\<close>

definition hdr_n :: "block \<Rightarrow> int" where
  "hdr_n b = sint (bld32 b 0)"

definition hdr_block :: "block \<Rightarrow> nat \<Rightarrow> int" where
  "hdr_block b i = sint (bld32 b (4 + 4 * i))"

primrec put_blocks :: "nat \<Rightarrow> (nat \<Rightarrow> int) \<Rightarrow> block \<Rightarrow> block" where
  "put_blocks 0 bl b = b"
| "put_blocks (Suc k) bl b = bst32 (put_blocks k bl b) (4 + 4 * k) (word_of_int (bl k))"

definition put_hdr :: "int \<Rightarrow> (nat \<Rightarrow> int) \<Rightarrow> block \<Rightarrow> block" where
  "put_hdr n bl b = put_blocks (nat n) bl (bst32 b 0 (word_of_int n))"

lemma put_blocks_n: "bld32 (put_blocks k bl b) 0 = bld32 b 0"
  by (induction k) auto

lemma put_blocks_block:
  "bld32 (put_blocks k bl b) (4 + 4 * i) = (if i < k then word_of_int (bl i) else bld32 b (4 + 4 * i))"
proof (induction k)
  case 0
  show ?case by simp
next
  case (Suc k)
  show ?case
  proof (cases "i = k")
    case True
    then show ?thesis by simp
  next
    case False
    then have "4 + 4 * k + 4 \<le> 4 + 4 * i \<or> 4 + 4 * i + 4 \<le> 4 + 4 * k" by auto
    with Suc False show ?thesis by (auto simp: less_Suc_eq)
  qed
qed

lemma sint_word_of_int: "- (2 ^ 31) \<le> n \<Longrightarrow> n < 2 ^ 31 \<Longrightarrow> sint (word_of_int n :: uint) = n"
  by (simp add: signed_of_int signed_take_bit_int_eq_self)

lemma hdr_put:
  assumes "0 \<le> n" and "n \<le> 30" and "\<And>i. i < nat n \<Longrightarrow> 0 \<le> bl i \<and> bl i < 2 ^ 31"
  shows "hdr_n (put_hdr n bl b) = n" and "\<And>i. i < nat n \<Longrightarrow> hdr_block (put_hdr n bl b) i = bl i"
proof -
  show "hdr_n (put_hdr n bl b) = n"
    using assms(1,2) by (simp add: hdr_n_def put_hdr_def put_blocks_n sint_word_of_int)
  fix i assume "i < nat n"
  with assms(3) [OF this] show "hdr_block (put_hdr n bl b) i = bl i"
    by (simp add: hdr_block_def put_hdr_def put_blocks_block sint_word_of_int)
qed

section \<open>On-disk inodes\<close>

abbreviation (input) NDIRECT :: nat where "NDIRECT \<equiv> 12"
abbreviation (input) NINDIRECT :: nat where "NINDIRECT \<equiv> 128"
abbreviation (input) IPB :: nat where "IPB \<equiv> 8"

record dinode =
  di_type :: ushort
  di_major :: ushort
  di_minor :: ushort
  di_nlink :: ushort
  di_size :: uint
  di_addrs :: "nat \<Rightarrow> uint"

definition get_dinode :: "block \<Rightarrow> nat \<Rightarrow> dinode" where
  "get_dinode b k =
     (let o1 = 64 * k in
      \<lparr>di_type = bld16 b o1, di_major = bld16 b (o1 + 2), di_minor = bld16 b (o1 + 4),
       di_nlink = bld16 b (o1 + 6), di_size = bld32 b (o1 + 8),
       di_addrs = (\<lambda>i. if i \<le> NDIRECT then bld32 b (o1 + 12 + 4 * i) else 0)\<rparr>)"

primrec put_addrs :: "nat \<Rightarrow> nat \<Rightarrow> (nat \<Rightarrow> uint) \<Rightarrow> block \<Rightarrow> block" where
  "put_addrs 0 o1 a b = b"
| "put_addrs (Suc n) o1 a b = bst32 (put_addrs n o1 a b) (o1 + 4 * n) (a n)"

definition put_dinode :: "block \<Rightarrow> nat \<Rightarrow> dinode \<Rightarrow> block" where
  "put_dinode b k d =
     (let o1 = 64 * k;
          b1 = bst16 b o1 (di_type d);
          b2 = bst16 b1 (o1 + 2) (di_major d);
          b3 = bst16 b2 (o1 + 4) (di_minor d);
          b4 = bst16 b3 (o1 + 6) (di_nlink d);
          b5 = bst32 b4 (o1 + 8) (di_size d)
      in put_addrs (NDIRECT + 1) (o1 + 12) (di_addrs d) b5)"

lemma put_addrs_other: "j < o1 \<or> o1 + 4 * n \<le> j \<Longrightarrow> put_addrs n o1 a b j = b j"
  by (induction n) (auto simp: bst_other)

lemma put_addrs_get: "i < n \<Longrightarrow> bld32 (put_addrs n o1 a b) (o1 + 4 * i) = a i"
proof (induction n)
  case 0
  then show ?case by simp
next
  case (Suc n)
  show ?case
  proof (cases "i = n")
    case True
    then show ?thesis by simp
  next
    case False
    then have "o1 + 4 * i + 4 \<le> o1 + 4 * n" using Suc.prems by simp
    with False Suc show ?thesis by simp
  qed
qed

lemma put_dinode_outside: "j < 64 * k \<or> 64 * k + 64 \<le> j \<Longrightarrow> put_dinode b k d j = b j"
  by (auto simp: put_dinode_def Let_def put_addrs_other bst_other simp del: put_addrs.simps)

text \<open>Writing an inode and reading it back; the addresses are the ones the structure has room for.\<close>

lemma get_put_dinode_same:
  "get_dinode (put_dinode b k d) k = d\<lparr>di_addrs := (\<lambda>i. if i \<le> NDIRECT then di_addrs d i else 0)\<rparr>"
proof -
  have low: "bld16 (put_addrs n (64 * k + 12) a b') (64 * k + j) = bld16 b' (64 * k + j)" if "j \<le> 10" for j n a b'
    using that by (intro bld_cong) (auto simp: put_addrs_other)
  have low32: "bld32 (put_addrs n (64 * k + 12) a b') (64 * k + 8) = bld32 b' (64 * k + 8)" for n a b'
    by (intro bld_cong) (auto simp: put_addrs_other)
  have adr: "bld32 (put_addrs 13 (64 * k + 12) a b') (64 * k + 12 + 4 * i) = a i" if "i \<le> NDIRECT" for i a b'
    using that by (intro put_addrs_get) simp
  show ?thesis
    using low [of 0, simplified] low [of 2, simplified] low [of 4] low [of 6] adr low32
    by (simp add: get_dinode_def put_dinode_def Let_def del: put_addrs.simps cong: if_cong)
qed

lemma get_put_dinode_other:
  assumes "k \<noteq> m"
  shows "get_dinode (put_dinode b k d) m = get_dinode b m"
proof -
  have "64 * m + 64 \<le> 64 * k \<or> 64 * k + 64 \<le> 64 * m" using assms by auto
  then have eq: "put_dinode b k d (64 * m + j) = b (64 * m + j)" if "j < 64" for j
    using that by (intro put_dinode_outside) auto
  have f16: "bld16 (put_dinode b k d) (64 * m + j) = bld16 b (64 * m + j)" if "j < 63" for j
    using that eq [of "j + _"] by (intro bld_cong) (simp add: add.assoc)
  have f32: "bld32 (put_dinode b k d) (64 * m + j) = bld32 b (64 * m + j)" if "j < 61" for j
    using that eq [of "j + _"] by (intro bld_cong) (simp add: add.assoc)
  have adr: "bld32 (put_dinode b k d) (64 * m + 12 + 4 * i) = bld32 b (64 * m + 12 + 4 * i)" if "i \<le> NDIRECT" for i
    using f32 [of "12 + 4 * i"] that by (simp only: add.assoc)
  have "(\<lambda>i. if i \<le> NDIRECT then bld32 (put_dinode b k d) (64 * m + 12 + 4 * i) else 0) =
      (\<lambda>i. if i \<le> NDIRECT then bld32 b (64 * m + 12 + 4 * i) else 0)"
    by (rule ext) (simp only: adr cong: if_cong)
  then show ?thesis
    using f16 [of 0] f16 [of 2] f16 [of 4] f16 [of 6] f32 [of 8] by (simp only: get_dinode_def Let_def) simp
qed

section \<open>Directory entries\<close>

abbreviation (input) DIRSIZ :: nat where "DIRSIZ \<equiv> 14"

record dirent =
  de_inum :: ushort
  de_name :: "char list"     \<comment> \<open>\<open>char name[DIRSIZ]\<close>\<close>

end
