(* ===== verification/Log.thy ===== *)
theory Log
  imports Layout
begin

text \<open>
  The write-ahead log \<^verbatim>\<open>log.c\<close>. The model follows the code down to the individual buffer
  operations. The properties: a commit installs exactly the blocks of the transaction, and a crash
  after any number of the disk writes of a commit, followed by recovery, leaves either
  all or none of the transaction's updates.
\<close>

section \<open>State and code\<close>

abbreviation (input) MAXOPBLOCKS :: int where "MAXOPBLOCKS \<equiv> 10"
abbreviation (input) LOGSIZE :: int where "LOGSIZE \<equiv> 30"

record logst = bio +
  log_start :: int
  log_size :: int
  outstanding :: int
  committing :: bool
  log_dev :: int
  lh_n :: int
  lh_block :: "nat \<Rightarrow> int"

definition log_buf :: "int \<Rightarrow> ('z logst_scheme, nat) kop" where
  "log_buf bn = kbind (kget log_dev) (\<lambda>dev. bread (word_of_int dev) (word_of_int bn))"

text \<open>The entry \<open>log.lh.block[i]\<close>; outside the array the access is undefined.\<close>

definition lh_at :: "nat \<Rightarrow> ('z logst_scheme, int) kop" where
  "lh_at i = (if int i < LOGSIZE then kget (\<lambda>s. lh_block s i) else stop Fault)"

text \<open>\<open>memmove(to->data, from->data, BSIZE); bwrite(to)\<close> and the two releases, the common end of
  the loop bodies of \<open>install_trans\<close> and \<open>write_log\<close>.\<close>

definition copy_buf :: "nat \<Rightarrow> nat \<Rightarrow> ('z bio_scheme, unit) kop" where
  "copy_buf from to =
     kbind (kget (\<lambda>s. bdata (bufs s from))) (\<lambda>d.
     kthen (upd_buf to (\<lambda>bf. bf\<lparr>bdata := d\<rparr>))
     (kthen (bwrite to)
     (kthen (brelse from)
     (brelse to))))"

definition install_step :: "nat \<Rightarrow> ('z logst_scheme, unit) kop" where
  "install_step tail =
     kbind (kget log_start) (\<lambda>st.
     kbind (log_buf (st + int tail + 1)) (\<lambda>lbuf.
     kbind (lh_at tail) (\<lambda>bn.
     kbind (log_buf bn) (\<lambda>dbuf.
     copy_buf lbuf dbuf))))"

definition install_trans :: "('z logst_scheme, unit) kop" where
  "install_trans = kbind (kget lh_n) (\<lambda>n. kfor [0..<nat n] install_step)"

definition read_head_step :: "block \<Rightarrow> nat \<Rightarrow> ('z logst_scheme, unit) kop" where
  "read_head_step d i =
     (if int i < LOGSIZE then kmod (\<lambda>s. s\<lparr>lh_block := (lh_block s)(i := hdr_block d i)\<rparr>) else stop Fault)"

definition read_head :: "('z logst_scheme, unit) kop" where
  "read_head =
     kbind (kget log_start) (\<lambda>st.
     kbind (log_buf st) (\<lambda>b.
     kbind (kget (\<lambda>s. bdata (bufs s b))) (\<lambda>d.
     kthen (kmod (\<lambda>s. s\<lparr>lh_n := hdr_n d\<rparr>))
     (kthen (kfor [0..<nat (hdr_n d)] (read_head_step d))
     (brelse b)))))"

definition write_head :: "('z logst_scheme, unit) kop" where
  "write_head =
     kbind (kget log_start) (\<lambda>st.
     kbind (log_buf st) (\<lambda>b.
     kbind (kget (\<lambda>s. (lh_n s, lh_block s))) (\<lambda>(n, bl).
     if n > LOGSIZE then stop Fault
     else
       kthen (upd_buf b (\<lambda>bf. bf\<lparr>bdata := put_hdr n bl (bdata bf)\<rparr>))
       (kthen (bwrite b)
       (brelse b)))))"

definition recover_from_log :: "('z logst_scheme, unit) kop" where
  "recover_from_log =
     kthen read_head
     (kthen install_trans
     (kthen (kmod (\<lambda>s. s\<lparr>lh_n := 0\<rparr>))
     write_head))"

definition initlog :: "int \<Rightarrow> ('z logst_scheme, unit) kop" where
  "initlog dev =
     kbind (readsb (word_of_int dev)) (\<lambda>sb.
     kthen (kmod (\<lambda>s. s\<lparr>log_start := sint (sb_logstart sb), log_size := sint (sb_nlog sb), log_dev := dev\<rparr>))
     recover_from_log)"

definition begin_op :: "('z logst_scheme, unit) kop" where
  "begin_op =
     kthen (acquire Llog)
     (kbind (kget (\<lambda>s. (committing s, lh_n s, outstanding s))) (\<lambda>(c, n, out).
      if c then sleep (Some ChLog) (Some Llog)
      else if n + (out + 1) * MAXOPBLOCKS > LOGSIZE then sleep (Some ChLog) (Some Llog)
      else kthen (kmod (\<lambda>s. s\<lparr>outstanding := outstanding s + 1\<rparr>)) (release Llog)))"

definition write_log_step :: "nat \<Rightarrow> ('z logst_scheme, unit) kop" where
  "write_log_step tail =
     kbind (kget log_start) (\<lambda>st.
     kbind (log_buf (st + int tail + 1)) (\<lambda>to.
     kbind (lh_at tail) (\<lambda>bn.
     kbind (log_buf bn) (\<lambda>from.
     copy_buf from to))))"

definition write_log :: "('z logst_scheme, unit) kop" where
  "write_log = kbind (kget lh_n) (\<lambda>n. kfor [0..<nat n] write_log_step)"

definition commit :: "('z logst_scheme, unit) kop" where
  "commit =
     kbind (kget lh_n) (\<lambda>n.
     kwhen (n > 0)
       (kthen write_log
       (kthen write_head
       (kthen install_trans
       (kthen (kmod (\<lambda>s. s\<lparr>lh_n := 0\<rparr>))
       write_head)))))"

definition end_op :: "('z logst_scheme, unit) kop" where
  "end_op =
     kthen (acquire Llog)
     (kthen (kmod (\<lambda>s. s\<lparr>outstanding := outstanding s - 1\<rparr>))
     (kbind (kget (\<lambda>s. (committing s, outstanding s))) (\<lambda>(c, out).
      if c then panic ''log.committing''
      else
        kthen (if out = 0 then kmod (\<lambda>s. s\<lparr>committing := True\<rparr>) else wakeup (Some ChLog))
        (kthen (release Llog)
        (kwhen (out = 0)
          (kthen commit
          (kthen (acquire Llog)
          (kthen (kmod (\<lambda>s. s\<lparr>committing := False\<rparr>))
          (kthen (wakeup (Some ChLog))
          (release Llog))))))))))"

text \<open>The index of a block in the in-memory header, or the header's length: log absorption.\<close>

definition lh_find :: "'z logst_scheme \<Rightarrow> uint \<Rightarrow> nat" where
  "lh_find s b = (case find (\<lambda>i. word_of_int (lh_block s i) = b) [0..<nat (lh_n s)] of
     Some i \<Rightarrow> i | None \<Rightarrow> nat (lh_n s))"

definition log_write :: "nat \<Rightarrow> ('z logst_scheme, unit) kop" where
  "log_write b =
     kbind (kget (\<lambda>s. (lh_n s, log_size s, outstanding s))) (\<lambda>(n, sz, out).
     if n \<ge> LOGSIZE \<or> n \<ge> sz - 1 then panic ''too big a transaction''
     else if out < 1 then panic ''log_write outside of trans''
     else
       kthen (acquire Llog)
       (kbind (kget (\<lambda>s. (lh_find s (blockno (bufs s b)), blockno (bufs s b)))) (\<lambda>(i, bn).
        kthen (kmod (\<lambda>s. s\<lparr>lh_block := (lh_block s)(i := sint bn)\<rparr>))
       (kthen (kwhen (int i = n) (kmod (\<lambda>s. s\<lparr>lh_n := lh_n s + 1\<rparr>)))
       (kthen (upd_buf b (\<lambda>bf. bf\<lparr>b_dirty := True\<rparr>))
       (release Llog))))))"

section \<open>Copying a block through the cache\<close>

text \<open>Everything but buffers, their locks, woken processes and the disk is left alone.\<close>

definition calm :: "'z bio_scheme \<Rightarrow> 'z bio_scheme \<Rightarrow> bool" where
  "calm s t \<longleftrightarrow> (\<exists>P L B D I. t = s\<lparr>procs := P, slocks := L, bufs := B, disk := D, issued := I\<rparr> \<and>
     (\<forall>p. P p = procs s p \<or> (pstate (procs s p) = SLEEPING \<and> P p = (procs s p)\<lparr>pstate := RUNNABLE\<rparr>)) \<and>
     (\<forall>j. L (InodeLock j) = slocks s (InodeLock j)))"

lemma quiet_calm: "quiet s t \<Longrightarrow> calm s t"
proof -
  assume "quiet s t"
  then obtain P L B where t: "t = s\<lparr>procs := P, slocks := L, bufs := B\<rparr>"
    "\<forall>p. P p = procs s p \<or> (pstate (procs s p) = SLEEPING \<and> P p = (procs s p)\<lparr>pstate := RUNNABLE\<rparr>)"
    "\<forall>j. L (InodeLock j) = slocks s (InodeLock j)"
    unfolding quiet_def by blast
  have "t = s\<lparr>procs := P, slocks := L, bufs := B, disk := disk s, issued := issued s\<rparr>" using t(1) by simp
  with t(2,3) show "calm s t" unfolding calm_def by blast
qed

lemma calmI: "t = s\<lparr>bufs := B, disk := D, issued := I\<rparr> \<Longrightarrow> calm s t"
  unfolding calm_def
  by (rule exI [of _ "procs s"], rule exI [of _ "slocks s"], rule exI [of _ B], rule exI [of _ D], rule exI [of _ I]) simp

lemma calm_refl [simp]: "calm s s"
  by (simp add: quiet_calm)

lemma calm_trans: "calm s t \<Longrightarrow> calm t u \<Longrightarrow> calm s u"
proof -
  assume "calm s t" "calm t u"
  then obtain P L B D I P' L' B' D' I' where t: "t = s\<lparr>procs := P, slocks := L, bufs := B, disk := D, issued := I\<rparr>"
    "\<forall>p. P p = procs s p \<or> (pstate (procs s p) = SLEEPING \<and> P p = (procs s p)\<lparr>pstate := RUNNABLE\<rparr>)"
    "\<forall>j. L (InodeLock j) = slocks s (InodeLock j)"
    and u: "u = t\<lparr>procs := P', slocks := L', bufs := B', disk := D', issued := I'\<rparr>"
    "\<forall>p. P' p = procs t p \<or> (pstate (procs t p) = SLEEPING \<and> P' p = (procs t p)\<lparr>pstate := RUNNABLE\<rparr>)"
    "\<forall>j. L' (InodeLock j) = slocks t (InodeLock j)"
    unfolding calm_def by blast
  have "u = s\<lparr>procs := P', slocks := L', bufs := B', disk := D', issued := I'\<rparr>" using t(1) u(1) by simp
  moreover have "P' p = procs s p \<or> (pstate (procs s p) = SLEEPING \<and> P' p = (procs s p)\<lparr>pstate := RUNNABLE\<rparr>)" for p
    using t(2) [rule_format, of p] u(2) [rule_format, of p] t(1) by auto
  moreover have "\<forall>j. L' (InodeLock j) = slocks s (InodeLock j)" using t(1,3) u(3) by simp
  ultimately show "calm s u" unfolding calm_def by blast
qed

lemma calm_fields:
  assumes "calm s t"
  shows "held t = held s" "conts t = conts s" "cur t = cur s" "mem t = mem s" "disksize t = disksize s"
    "rows_ok t = rows_ok s" "bready t = bready s" "slocks t (InodeLock j) = slocks s (InodeLock j)"
  using assms by (auto simp: calm_def rows_ok_def bready_def)

definition idle :: "'z bio_scheme \<Rightarrow> bool" where
  "idle s \<longleftrightarrow> (\<forall>i < NBUF. \<not> blocked s i \<and> refcnt (bufs s i) = 0)"

definition dset :: "'z bio_scheme \<Rightarrow> nat set" where
  "dset s = {i. i < NBUF \<and> b_dirty (bufs s i)}"

definition dirtyb :: "'z bio_scheme \<Rightarrow> uint \<Rightarrow> bool" where
  "dirtyb s c \<longleftrightarrow> (\<exists>i \<in> dset s. caches c (bufs s i))"

text \<open>Room for two buffers at a time: two clean ones, or one if the second block is pinned.\<close>

definition room :: "'z bio_scheme \<Rightarrow> uint \<Rightarrow> bool" where
  "room s b \<longleftrightarrow> (\<exists>i < NBUF. i \<notin> dset s \<and> (dirtyb s b \<or> (\<exists>j < NBUF. j \<noteq> i \<and> j \<notin> dset s)))"

lemma idle_avail:
  assumes "idle s" and "i < NBUF" and "i \<notin> dset s"
  shows "bavail b s"
  using assms by (auto simp: bavail_def idle_def dset_def unused_def)

lemma dirtyb_bread2:
  assumes "dset t = dset s" and "bheld a i t" and "bheld b j t"
    and "\<forall>k < NBUF. k \<noteq> i \<and> k \<noteq> j \<longrightarrow> bufs t k = bufs s k"
    and "i \<in> dset s \<Longrightarrow> caches a (bufs s i)" and "j \<in> dset s \<Longrightarrow> caches b (bufs s j)"
  shows "dirtyb t c = dirtyb s c"
proof -
  have "caches c (bufs t k) = caches c (bufs s k)" if "k \<in> dset s" for k
  proof -
    have "k < NBUF" using that by (simp add: dset_def)
    then show ?thesis using assms(2-6) that by (cases "k = i"; cases "k = j") (auto simp: bheld_def caches_def)
  qed
  then show ?thesis unfolding dirtyb_def assms(1) by blast
qed

lemma bread2_spec:
  assumes "bready s" and "bc_ok xs s" and "idle s" and "a \<noteq> b" and "room s b"
    and "a < word_of_int (disksize s)" and "b < word_of_int (disksize s)"
  shows "\<exists>i j s1 t. bread 1 a s = Ok i s1 \<and> bread 1 b s1 = Ok j t \<and> quiet s s1 \<and> quiet s t \<and> bc_ok xs t \<and>
    bheld a i t \<and> bheld b j t \<and> i \<noteq> j \<and> view t = view s \<and> dset t = dset s \<and>
    refcnt (bufs t i) = 1 \<and> refcnt (bufs t j) = 1 \<and>
    (\<not> b_dirty (bufs t i) \<longrightarrow> bdata (bufs t i) = disk t (unat a)) \<and>
    (\<not> b_dirty (bufs t j) \<longrightarrow> bdata (bufs t j) = disk t (unat b)) \<and>
    (\<forall>k < NBUF. k \<noteq> i \<and> k \<noteq> j \<longrightarrow> bufs t k = bufs s k \<and> \<not> blocked t k) \<and> (\<forall>c. dirtyb t c = dirtyb s c)"
proof -
  obtain c0 where c0: "c0 < NBUF" "c0 \<notin> dset s" "dirtyb s b \<or> (\<exists>j < NBUF. j \<noteq> c0 \<and> j \<notin> dset s)"
    using assms(5) unfolding room_def by blast
  obtain i bf s1 where a: "bread 1 a s = Ok i s1" "quiet s s1" "bc_ok xs s1" "bheld a i s1" "view s1 = view s"
    "bufs s1 = (bufs s)(i := bf)" "\<forall>k. k \<noteq> i \<longrightarrow> blocked s1 k = blocked s k"
    and abf: "if keyed 1 a (bufs s i) then refcnt bf = refcnt (bufs s i) + 1 \<and> b_dirty bf = b_dirty (bufs s i)
      else refcnt bf = 1 \<and> \<not> b_dirty bf \<and> unused (bufs s i)" "\<not> b_dirty bf \<longrightarrow> bdata bf = disk s (unat a)"
    using bread_spec [OF assms(1,2) idle_avail [OF assms(3) c0(1,2)] assms(6)] by blast
  have i: "i < NBUF" "caches a bf" "blocked s1 i" using a(4,6) by (auto simp: bheld_def)
  have ds1: "dset s1 = dset s" using a(6) abf(1) by (auto simp: dset_def unused_def split: if_splits)
  have ref1: "refcnt bf = 1" using abf(1) assms(3) i(1) by (auto simp: idle_def split: if_splits)
  have f1: "disk s1 = disk s" "disksize s1 = disksize s" using quiet_fields [OF a(2)] by auto
  have "bavail b s1"
  proof -
    have nb: "k \<noteq> i" if "keyed 1 b (bufs s1 k)" for k using that i(2) a(6) assms(4) by (auto simp: caches_def keyed_def)
    have "\<not> blocked s1 k \<and> refcnt (bufs s1 k) + 1 \<noteq> 0" if "k < NBUF" "keyed 1 b (bufs s1 k)" for k
      using that nb [OF that(2)] a(6,7) assms(3) by (auto simp: idle_def)
    moreover have "(\<exists>k < NBUF. keyed 1 b (bufs s1 k)) \<or> (\<exists>k < NBUF. unused (bufs s1 k))"
    proof (cases "dirtyb s b")
      case True
      then obtain k where k: "k < NBUF" "b_dirty (bufs s k)" "caches b (bufs s k)" by (auto simp: dirtyb_def dset_def)
      have "k \<noteq> i" using k(2,3) abf(1) assms(4) by (auto simp: caches_def keyed_def unused_def split: if_splits)
      then show ?thesis using k a(6) by (auto simp: caches_def keyed_def)
    next
      case False
      then obtain k where "k < NBUF" "k \<noteq> i" "k \<notin> dset s" using c0 by metis
      then show ?thesis using a(6) assms(3) by (auto simp: dset_def unused_def idle_def)
    qed
    ultimately show ?thesis unfolding bavail_def by blast
  qed
  then obtain j bg t where b: "bread 1 b s1 = Ok j t" "quiet s1 t" "bc_ok xs t" "bheld b j t" "view t = view s1"
    "bufs t = (bufs s1)(j := bg)" "\<forall>k. k \<noteq> j \<longrightarrow> blocked t k = blocked s1 k" "\<not> blocked s1 j"
    and bbf: "if keyed 1 b (bufs s1 j) then refcnt bg = refcnt (bufs s1 j) + 1 \<and> b_dirty bg = b_dirty (bufs s1 j)
      else refcnt bg = 1 \<and> \<not> b_dirty bg \<and> unused (bufs s1 j)" "\<not> b_dirty bg \<longrightarrow> bdata bg = disk s1 (unat b)"
    using bread_spec [OF bready_quiet [OF a(2) assms(1)] a(3), of b] f1(2) assms(7) by auto
  have j: "j < NBUF" "i \<noteq> j" using b(4,8) i(3) by (auto simp: bheld_def)
  have ds2: "dset t = dset s1" using b(6) bbf(1) by (auto simp: dset_def unused_def split: if_splits)
  have "refcnt bg = 1" using bbf(1) assms(3) j a(6) by (auto simp: idle_def split: if_splits)
  moreover have hi: "bheld a i t" using i j a(6) b(6,7) by (auto simp: bheld_def)
  moreover have "disk t = disk s" using quiet_fields(5) [OF b(2)] f1(1) by simp
  moreover have "i \<in> dset s \<Longrightarrow> caches a (bufs s i)"
    using abf(1) bc_ok_buf(2) [OF assms(2) i(1)] by (auto simp: dset_def unused_def caches_def keyed_def split: if_splits)
  moreover have "j \<in> dset s \<Longrightarrow> caches b (bufs s j)"
    using bbf(1) bc_ok_buf(2) [OF assms(2) j(1)] a(6) j(2) by (auto simp: dset_def unused_def caches_def keyed_def split: if_splits)
  moreover have rest: "\<forall>k < NBUF. k \<noteq> i \<and> k \<noteq> j \<longrightarrow> bufs t k = bufs s k \<and> \<not> blocked t k"
    using a(6,7) b(6,7) assms(3) by (simp add: idle_def)
  moreover from calculation have "dirtyb t c = dirtyb s c" for c
    using ds1 ds2 b(4) by (intro dirtyb_bread2 [of t s a i b j]) auto
  ultimately show ?thesis
    using a b j ref1 abf(2) bbf(2) f1(1) ds1 ds2 quiet_trans [OF a(2) b(2)]
    by (intro exI [of _ i] exI [of _ j] exI [of _ s1] exI [of _ t]) simp
qed


lemma bwrite_spec:
  assumes "bready s" and "bc_ok xs s" and "bheld b j s" and "b < word_of_int (disksize s)"
  shows "\<exists>t. kthen (upd_buf j (\<lambda>bf. bf\<lparr>bdata := d\<rparr>)) (bwrite j) s = Ok () t \<and> calm s t \<and> bc_ok xs t \<and> bheld b j t \<and>
    disk t = (disk s)(unat b := d) \<and> issued t = issued s @ [(unat b, d)] \<and> view t = (view s)(b := d) \<and>
    bufs t = (bufs s)(j := (bufs s j)\<lparr>bdata := d, b_dirty := False, b_valid := True\<rparr>) \<and> (\<forall>k. blocked t k = blocked s k)"
proof -
  have h: "j < NBUF" "caches b (bufs s j)" "blocked s j" using assms(3) by (auto simp: bheld_def)
  let ?bf = "(bufs s j)\<lparr>bdata := d, b_dirty := False, b_valid := True\<rparr>"
  define s1 where "s1 = s\<lparr>bufs := (bufs s)(j := (bufs s j)\<lparr>bdata := d\<rparr>)\<rparr>"
  define t where "t = s\<lparr>bufs := (bufs s)(j := ?bf), disk := (disk s)(unat b := d), issued := issued s @ [(unat b, d)]\<rparr>"
  have "bheld b j s1" using h by (auto simp: s1_def bheld_def caches_def blocked_def)
  moreover have "Lsleep (BufLock j) \<notin> set (held s1)" using assms(1) by (auto simp: s1_def bready_def)
  ultimately have "bwrite j s1 = Ok () t" using bwrite_exec [of j s1 b] assms(4) by (simp add: s1_def t_def)
  then have ex: "kthen (upd_buf j (\<lambda>bf. bf\<lparr>bdata := d\<rparr>)) (bwrite j) s = Ok () t" by (simp add: kexec s1_def)
  have bl: "\<And>k. blocked t k = blocked s k" by (simp add: t_def blocked_def)
  have other: "k < NBUF \<Longrightarrow> k \<noteq> j \<Longrightarrow> b_valid (bufs s k) \<Longrightarrow> blockno (bufs s k) \<noteq> b" for k
    using bc_ok_uniq [OF assms(2) _ h(1), of k 1 b] bc_ok_buf(3) [OF assms(2), of k] h(2)
    by (auto simp: keyed_def caches_def)
  have "bc_ok xs t"
  proof (rule bc_okI)
    have "ring (bufs t) xs = ring (bufs s) xs" by (rule ring_cong) (simp_all add: t_def)
    then show "ring (bufs t) xs" "set xs = {..<NBUF}" using assms(2) by (simp_all add: bc_ok_def)
    fix i k d' b' assume "i < NBUF" "k < NBUF" "keyed d' b' (bufs t i)" "keyed d' b' (bufs t k)" "d' \<noteq> 0"
    moreover have "keyed d' b' (bufs t i) = keyed d' b' (bufs s i)" for i by (simp add: t_def keyed_def)
    ultimately show "i = k" using bc_ok_uniq [OF assms(2), of i k d' b'] by blast
  next
    fix k assume k: "k < NBUF"
    note old = bc_ok_buf [OF assms(2) k]
    show "blocked t k \<Longrightarrow> refcnt (bufs t k) \<noteq> 0" "b_dirty (bufs t k) \<Longrightarrow> b_valid (bufs t k)"
      "b_valid (bufs t k) \<Longrightarrow> bdev (bufs t k) = 1"
      using old h(2) by (cases "k = j"; simp add: bl; simp add: t_def caches_def)+
    show "bdata (bufs t k) = disk t (unat (blockno (bufs t k)))"
      if "b_valid (bufs t k)" "\<not> b_dirty (bufs t k)" "\<not> blocked t k"
    proof (cases "k = j")
      case True
      then show ?thesis using h(2) by (simp add: t_def caches_def)
    next
      case False
      then have "bufs t k = bufs s k" by (simp add: t_def)
      moreover have "disk t (unat (blockno (bufs s k))) = disk s (unat (blockno (bufs s k)))"
        using other [OF k False] that(1) calculation by (simp add: t_def word_unat_eq_iff)
      ultimately show ?thesis using that(1,2) that(3) [unfolded bl] old(4) by simp
    qed
  qed
  moreover have hj: "bheld b j t" using h by (simp add: bheld_def bl) (simp add: t_def caches_def)
  moreover have "view t c = ((view s)(b := d)) c" for c
  proof (cases "c = b")
    case True
    then show ?thesis using view_cached [OF calculation(1), of j b] hj by (simp add: bheld_def) (simp add: t_def)
  next
    case False
    have same: "caches c (bufs t k) = caches c (bufs s k)" for k using False h(2) by (auto simp: t_def caches_def)
    show ?thesis
    proof (cases "\<exists>k < NBUF. caches c (bufs s k)")
      case True
      then obtain k where k: "k < NBUF" "caches c (bufs s k)" by blast
      have "k \<noteq> j" using k(2) h(2) False by (auto simp: caches_def)
      then show ?thesis using view_cached [OF assms(2) k] view_cached [OF calculation(1) k(1)] k(2) same False
        by (simp add: t_def)
    next
      case none: False
      then have "view t c = disk t (unat c)" "view s c = disk s (unat c)" using same by (auto intro!: view_uncached)
      then show ?thesis using False by (simp add: t_def word_unat_eq_iff)
    qed
  qed
  moreover have "calm s t" by (rule calmI [where B = "bufs t" and D = "disk t" and I = "issued t"]) (simp add: t_def)
  ultimately show ?thesis using ex bl by (intro exI [of _ t]) (auto simp: t_def)
qed

text \<open>Block \<open>dst\<close> has been written through to the disk with content \<open>d\<close>.\<close>

definition stored :: "'z bio_scheme \<Rightarrow> uint \<Rightarrow> block \<Rightarrow> 'z bio_scheme \<Rightarrow> bool" where
  "stored s dst d u \<longleftrightarrow> calm s u \<and> (\<exists>ys. bc_ok ys u) \<and> idle u \<and> disk u = (disk s)(unat dst := d) \<and>
     issued u = issued s @ [(unat dst, d)] \<and> view u = (view s)(dst := d) \<and>
     dset u \<subseteq> dset s \<and> (\<forall>c. dirtyb u c \<longleftrightarrow> dirtyb s c \<and> c \<noteq> dst)"

lemma dirtyb_core:
  assumes "\<And>k. k < NBUF \<Longrightarrow> core (bufs t k) = core (bufs s k)"
  shows "dset t = dset s" "dirtyb t c = dirtyb s c"
proof -
  show *: "dset t = dset s" using core_eqs(2) [OF assms] by (auto simp: dset_def)
  show "dirtyb t c = dirtyb s c"
    unfolding dirtyb_def * using core_eqs(8) [OF assms] by (auto simp: dset_def)
qed

lemma copy_buf_spec:
  assumes "bready s" and "bc_ok xs s" and "bheld a i s" and "bheld b j s" and "i \<noteq> j" and "a \<noteq> b"
    and "b < word_of_int (disksize s)" and "refcnt (bufs s i) = 1" and "refcnt (bufs s j) = 1"
    and "\<not> b_dirty (bufs s i) \<Longrightarrow> bdata (bufs s i) = disk s (unat a)"
    and "\<And>k. k < NBUF \<Longrightarrow> k \<noteq> i \<Longrightarrow> k \<noteq> j \<Longrightarrow> \<not> blocked s k \<and> refcnt (bufs s k) = 0"
  shows "\<exists>u. copy_buf i j s = Ok () u \<and> stored s b (view s a) u"
proof -
  have h: "i < NBUF" "j < NBUF" "caches a (bufs s i)" "caches b (bufs s j)" using assms(3,4) by (auto simp: bheld_def)
  define d where "d = view s a"
  have d: "bdata (bufs s i) = d" using view_cached [OF assms(2) h(1,3)] by (simp add: d_def)
  obtain t where t: "kthen (upd_buf j (\<lambda>bf. bf\<lparr>bdata := d\<rparr>)) (bwrite j) s = Ok () t" "calm s t" "bc_ok xs t" "bheld b j t"
    "disk t = (disk s)(unat b := d)" "issued t = issued s @ [(unat b, d)]" "view t = (view s)(b := d)"
    "bufs t = (bufs s)(j := (bufs s j)\<lparr>bdata := d, b_dirty := False, b_valid := True\<rparr>)" "\<forall>k. blocked t k = blocked s k"
    using bwrite_spec [OF assms(1,2,4,7), of d] by blast
  have rt: "bready t" using assms(1) calm_fields(7) [OF t(2)] by simp
  have hi: "bheld a i t" using assms(3,5) t(8,9) by (simp add: bheld_def)
  have "\<not> b_dirty (bufs t i) \<Longrightarrow> bdata (bufs t i) = disk t (unat a)"
    using assms(5,6,10) t(5,8) by (simp add: word_unat_eq_iff)
  with brelse_spec [OF rt t(3) hi] obtain v where v: "brelse i t = Ok () v" "quiet t v" "bc_ok (if refcnt (bufs t i) = 1 then i # remove1 i xs else xs) v"
    "view v = view t" "\<not> blocked v i" "\<forall>k. k \<noteq> i \<longrightarrow> blocked v k = blocked t k"
    "\<forall>k. core (bufs v k) = core (if k = i then (bufs t i)\<lparr>refcnt := refcnt (bufs t i) - 1\<rparr> else bufs t k)" by blast
  have cj: "core (bufs v j) = core (bufs t j)" using v(7) assms(5) by simp
  have hj: "bheld b j v" using t(4) v(6) assms(5) core_eqs(8) [OF cj] by (simp add: bheld_def)
  have "bdata (bufs v j) = disk v (unat b)"
    using core_eqs(6) [OF cj] t(5,8) quiet_fields(5) [OF v(2)] by simp
  with brelse_spec [OF bready_quiet [OF v(2) rt] v(3) hj] obtain u ys where u: "brelse j v = Ok () u" "quiet v u" "bc_ok ys u"
    "view u = view v" "\<not> blocked u j" "\<forall>k. k \<noteq> j \<longrightarrow> blocked u k = blocked v k"
    "\<forall>k. core (bufs u k) = core (if k = j then (bufs v j)\<lparr>refcnt := refcnt (bufs v j) - 1\<rparr> else bufs v k)" by blast
  have core: "core (bufs u k) = core ((bufs t k)\<lparr>refcnt := (if k = i \<or> k = j then 0 else refcnt (bufs t k))\<rparr>)" for k
    using u(7) [rule_format, of k] v(7) [rule_format, of k] cj assms(5,8,9) t(8) by (auto simp: core_def)
  have "idle u"
    unfolding idle_def
  proof (intro allI impI)
    fix k assume "k < NBUF"
    then show "\<not> blocked u k \<and> refcnt (bufs u k) = 0"
      using core_eqs(5) [OF core, of k] assms(11) [of k] t(8,9) u(5,6) v(5,6) by auto
  qed
  moreover have "copy_buf i j s = Ok () u"
    using t(1) v(1) u(1) d by (simp add: copy_buf_def kexec split: res.splits)
  moreover have "calm s u" by (rule calm_trans [OF calm_trans [OF t(2) quiet_calm [OF v(2)]] quiet_calm [OF u(2)]])
  moreover have "disk u = (disk s)(unat b := d)" "issued u = issued s @ [(unat b, d)]" "view u = (view s)(b := d)"
    using t(5-7) u(4) v(4) quiet_fields [OF v(2)] quiet_fields [OF u(2)] by simp_all
  moreover have ds: "dset u = dset s - {j}"
    using core_eqs(2) [OF core] t(8) by (auto simp: dset_def)
  moreover have "dirtyb u c \<longleftrightarrow> dirtyb s c \<and> c \<noteq> b" for c
  proof -
    have "caches c (bufs u k) = caches c (bufs s k)" if "k \<in> dset u" for k
      using that ds core_eqs(8) [OF core, of c k] t(8) by (auto simp: caches_def)
    moreover have "k = j" if "k \<in> dset s" "caches b (bufs s k)" for k
      using that bc_ok_uniq [OF assms(2) _ h(2), of k 1 b] h(4) by (auto simp: dset_def caches_def keyed_def)
    ultimately show ?thesis using ds h(4) unfolding dirtyb_def caches_def by blast
  qed
  ultimately show ?thesis using u(3) unfolding stored_def d_def by blast
qed

lemma stored_quiet:
  assumes "quiet s t" and "stored t b d u" and "view t = view s" and "dset t = dset s" and "\<And>c. dirtyb t c = dirtyb s c"
  shows "stored s b d u"
  using assms quiet_fields(5,7) [OF assms(1)] calm_trans [OF quiet_calm [OF assms(1)]] unfolding stored_def by simp

lemma calm_log:
  assumes "calm s t"
  shows "log_start t = log_start s" "log_size t = log_size s" "outstanding t = outstanding s"
    "committing t = committing s" "log_dev t = log_dev s" "lh_n t = lh_n s" "lh_block t = lh_block s"
  using assms by (auto simp: calm_def)

lemma log_upd_simps [simp]:
  "bready (s\<lparr>lh_n := n\<rparr>) = bready s" "bready (s\<lparr>lh_block := bl\<rparr>) = bready s"
  "bc_ok xs (s\<lparr>lh_n := n\<rparr>) = bc_ok xs s" "bc_ok xs (s\<lparr>lh_block := bl\<rparr>) = bc_ok xs s"
  "view (s\<lparr>lh_n := n\<rparr>) = view s" "view (s\<lparr>lh_block := bl\<rparr>) = view s"
  "blocked (s\<lparr>lh_n := n\<rparr>) = blocked s" "blocked (s\<lparr>lh_block := bl\<rparr>) = blocked s"
  "idle (s\<lparr>lh_n := n\<rparr>) = idle s" "idle (s\<lparr>lh_block := bl\<rparr>) = idle s"
  "dset (s\<lparr>lh_n := n\<rparr>) = dset s" "dset (s\<lparr>lh_block := bl\<rparr>) = dset s"
  "dirtyb (s\<lparr>lh_n := n\<rparr>) = dirtyb s" "dirtyb (s\<lparr>lh_block := bl\<rparr>) = dirtyb s"
  "bheld b i (s\<lparr>lh_n := n\<rparr>) = bheld b i s" "bheld b i (s\<lparr>lh_block := bl\<rparr>) = bheld b i s"
  by (auto simp: bready_def rows_ok_def bc_ok_def view_def blocked_def idle_def dset_def dirtyb_def bheld_def fun_eq_iff
    cong: option.case_cong)

text \<open>Both steps copy one block, between a block of the log and its home.\<close>

lemma install_step_spec:
  assumes "bready s" and "bc_ok xs s" and "idle s" and "log_dev s = 1" and "int tail < LOGSIZE"
    and "src = word_of_int (log_start s + int tail + 1)" and "dst = word_of_int (lh_block s tail)"
    and "src \<noteq> dst" and "src < word_of_int (disksize s)" and "dst < word_of_int (disksize s)" and "room s dst"
  shows "\<exists>u. install_step tail s = Ok () u \<and> stored s dst (view s src) u"
proof -
  obtain i j s1 t where r: "bread 1 src s = Ok i s1" "bread 1 dst s1 = Ok j t" "quiet s s1" "quiet s t" "bc_ok xs t"
    "bheld src i t" "bheld dst j t" "i \<noteq> j" "view t = view s" "dset t = dset s" "refcnt (bufs t i) = 1" "refcnt (bufs t j) = 1"
    "\<not> b_dirty (bufs t i) \<longrightarrow> bdata (bufs t i) = disk t (unat src)"
    "\<forall>k < NBUF. k \<noteq> i \<and> k \<noteq> j \<longrightarrow> bufs t k = bufs s k \<and> \<not> blocked t k" "\<forall>c. dirtyb t c = dirtyb s c"
    using bread2_spec [OF assms(1-3,8,11,9,10)] by blast
  have "refcnt (bufs t k) = 0" if "k < NBUF" "k \<noteq> i" "k \<noteq> j" for k using r(14) assms(3) that by (simp add: idle_def)
  then obtain u where u: "copy_buf i j t = Ok () u" "stored t dst (view t src) u"
    using copy_buf_spec [OF bready_quiet [OF r(4) assms(1)] r(5-8) assms(8) _ r(11,12)] r(13,14)
      quiet_fields(6) [OF r(4)] assms(10) by auto
  have "install_step tail s = Ok () u"
    using r(1,2) u(1) assms(4-7) calm_log [OF quiet_calm [OF r(3)]]
    by (simp add: install_step_def log_buf_def lh_at_def kexec)
  moreover have "stored s dst (view s src) u" using stored_quiet [OF r(4) u(2) r(9,10)] r(15) r(9) by simp
  ultimately show ?thesis by blast
qed

lemma write_log_step_spec:
  assumes "bready s" and "bc_ok xs s" and "idle s" and "log_dev s = 1" and "int tail < LOGSIZE"
    and "dst = word_of_int (log_start s + int tail + 1)" and "src = word_of_int (lh_block s tail)"
    and "src \<noteq> dst" and "src < word_of_int (disksize s)" and "dst < word_of_int (disksize s)" and "room s src"
  shows "\<exists>u. write_log_step tail s = Ok () u \<and> stored s dst (view s src) u"
proof -
  obtain i j s1 t where r: "bread 1 dst s = Ok i s1" "bread 1 src s1 = Ok j t" "quiet s s1" "quiet s t" "bc_ok xs t"
    "bheld dst i t" "bheld src j t" "i \<noteq> j" "view t = view s" "dset t = dset s" "refcnt (bufs t i) = 1" "refcnt (bufs t j) = 1"
    "\<not> b_dirty (bufs t j) \<longrightarrow> bdata (bufs t j) = disk t (unat src)"
    "\<forall>k < NBUF. k \<noteq> i \<and> k \<noteq> j \<longrightarrow> bufs t k = bufs s k \<and> \<not> blocked t k" "\<forall>c. dirtyb t c = dirtyb s c"
    using bread2_spec [OF assms(1-3) assms(8) [symmetric] assms(11,10,9)] by blast
  have "refcnt (bufs t k) = 0" if "k < NBUF" "k \<noteq> i" "k \<noteq> j" for k using r(14) assms(3) that by (simp add: idle_def)
  then obtain u where u: "copy_buf j i t = Ok () u" "stored t dst (view t src) u"
    using copy_buf_spec [OF bready_quiet [OF r(4) assms(1)] r(5,7,6) r(8) [symmetric] assms(8) _ r(12,11)] r(13,14)
      quiet_fields(6) [OF r(4)] assms(10) by auto
  have "write_log_step tail s = Ok () u"
    using r(1,2) u(1) assms(4-7) calm_log [OF quiet_calm [OF r(3)]]
    by (simp add: write_log_step_def log_buf_def lh_at_def kexec)
  moreover have "stored s dst (view s src) u" using stored_quiet [OF r(4) u(2) r(9,10)] r(15) r(9) by simp
  ultimately show ?thesis by blast
qed


section \<open>Sequences of block writes\<close>

definition apply_writes :: "(nat \<times> block) list \<Rightarrow> (nat \<Rightarrow> block) \<Rightarrow> (nat \<Rightarrow> block)" where
  "apply_writes ws d = foldl (\<lambda>d (n, b). d(n := b)) d ws"

lemma apply_writes_simps [simp]:
  "apply_writes [] d = d" "apply_writes (xs @ ys) d = apply_writes ys (apply_writes xs d)"
  "apply_writes [(n, b)] d = d(n := b)"
  by (simp_all add: apply_writes_def)

lemma apply_writes_other: "n \<notin> fst ` set ws \<Longrightarrow> apply_writes ws d n = d n"
  by (induction ws rule: rev_induct) auto

lemma apply_writes_map:
  assumes "inj_on f {..<n}" and "i < n"
  shows "apply_writes (map (\<lambda>i. (f i, g i)) [0..<n]) d (f i) = g i"
  using assms
proof (induction n)
  case 0
  then show ?case by simp
next
  case (Suc n)
  show ?case
  proof (cases "i = n")
    case True
    then show ?thesis by simp
  next
    case False
    then have "f i \<noteq> f n" using Suc.prems by (auto simp: inj_on_def)
    with Suc False show ?thesis by (simp add: inj_on_def)
  qed
qed

text \<open>After \<open>k\<close> copies from \<open>src i\<close> to \<open>dst i\<close>.\<close>

definition copies :: "'z bio_scheme \<Rightarrow> (nat \<Rightarrow> uint) \<Rightarrow> (nat \<Rightarrow> uint) \<Rightarrow> nat \<Rightarrow> 'z bio_scheme \<Rightarrow> bool" where
  "copies s src dst k u \<longleftrightarrow> calm s u \<and> (\<exists>ys. bc_ok ys u) \<and> idle u \<and>
     disk u = apply_writes (map (\<lambda>i. (unat (dst i), view s (src i))) [0..<k]) (disk s) \<and>
     issued u = issued s @ map (\<lambda>i. (unat (dst i), view s (src i))) [0..<k] \<and>
     (\<forall>i < k. view u (dst i) = view s (src i)) \<and> (\<forall>c. c \<notin> dst ` {..<k} \<longrightarrow> view u c = view s c) \<and>
     dset u \<subseteq> dset s \<and> (\<forall>c. dirtyb u c \<longleftrightarrow> dirtyb s c \<and> c \<notin> dst ` {..<k})"

lemma copies_Suc:
  assumes "copies s src dst k t" and "stored t (dst k) (view t (src k)) u" and "src k \<notin> dst ` {..<k}" and "dst k \<notin> dst ` {..<k}"
  shows "copies s src dst (Suc k) u"
proof -
  let ?W = "\<lambda>n. map (\<lambda>i. (unat (dst i), view s (src i))) [0..<n]"
  have t: "calm s t" "disk t = apply_writes (?W k) (disk s)" "issued t = issued s @ ?W k"
    "\<And>i. i < k \<Longrightarrow> view t (dst i) = view s (src i)" "\<And>c. c \<notin> dst ` {..<k} \<Longrightarrow> view t c = view s c"
    "dset t \<subseteq> dset s" "\<And>c. dirtyb t c \<longleftrightarrow> dirtyb s c \<and> c \<notin> dst ` {..<k}"
    using assms(1) unfolding copies_def by blast+
  have u: "calm t u" "\<exists>ys. bc_ok ys u" "idle u" "disk u = (disk t)(unat (dst k) := view t (src k))"
    "issued u = issued t @ [(unat (dst k), view t (src k))]" "view u = (view t)(dst k := view t (src k))"
    "dset u \<subseteq> dset t" "\<And>c. dirtyb u c \<longleftrightarrow> dirtyb t c \<and> c \<noteq> dst k"
    using assms(2) unfolding stored_def by blast+
  have v: "view t (src k) = view s (src k)" by (rule t(5) [OF assms(3)])
  have "calm s u" by (rule calm_trans [OF t(1) u(1)])
  moreover have "view u (dst i) = view s (src i)" if "i < Suc k" for i
  proof (cases "i = k")
    case True
    then show ?thesis by (simp add: u(6) v)
  next
    case False
    then have "i < k" using that by simp
    moreover from this have "dst i \<noteq> dst k" using assms(4) by (metis imageI lessThan_iff)
    ultimately show ?thesis by (simp add: u(6) t(4))
  qed
  moreover have "view u c = view s c" if "c \<notin> dst ` {..<Suc k}" for c
    using that t(5) [of c] by (simp add: u(6) lessThan_Suc)
  moreover have "dirtyb u c \<longleftrightarrow> dirtyb s c \<and> c \<notin> dst ` {..<Suc k}" for c
    using t(7) u(8) by (auto simp: lessThan_Suc)
  moreover have "disk u = apply_writes (?W (Suc k)) (disk s)" "issued u = issued s @ ?W (Suc k)"
    using t(2,3) u(4,5) v by simp_all
  moreover have "dset u \<subseteq> dset s" using t(6) u(7) by blast
  ultimately show ?thesis using u(2,3) unfolding copies_def by blast
qed

lemma copies_loop:
  assumes "bready s" and "bc_ok xs s" and "idle s" and "inj_on dst {..<n}" and "\<And>i j. i < n \<Longrightarrow> j < n \<Longrightarrow> src i \<noteq> dst j"
    and step: "\<And>i t ys. i < n \<Longrightarrow> copies s src dst i t \<Longrightarrow> bready t \<Longrightarrow> bc_ok ys t \<Longrightarrow> idle t \<Longrightarrow>
      \<exists>u. step i t = Ok () u \<and> stored t (dst i) (view t (src i)) u"
  shows "\<exists>u. kfor [0..<n] step s = Ok () u \<and> copies s src dst n u"
proof -
  have "k \<le> n \<Longrightarrow> \<exists>u. kfor [0..<k] step s = Ok () u \<and> copies s src dst k u" for k
  proof (induction k)
    case 0
    show ?case using assms(2,3) by (auto simp: kexec copies_def)
  next
    case (Suc k)
    then obtain t where t: "kfor [0..<k] step s = Ok () t" "copies s src dst k t" by auto
    then obtain ys where ys: "bc_ok ys t" "idle t" "bready t"
      using assms(1) calm_fields(7) unfolding copies_def by blast
    obtain u where u: "step k t = Ok () u" "stored t (dst k) (view t (src k)) u"
      using step [OF _ t(2) ys(3,1,2)] Suc.prems by auto
    have "dst k \<noteq> dst x" if "x < k" for x using inj_onD [OF assms(4), of k x] Suc.prems that by auto
    then have "dst k \<notin> dst ` {..<k}" by auto
    moreover have "src k \<notin> dst ` {..<k}" using assms(5) Suc.prems by auto
    ultimately have "copies s src dst (Suc k) u" by (intro copies_Suc [OF t(2) u(2)])
    with t(1) u(1) show ?case by (auto simp: kfor_append kexec)
  qed
  then show ?thesis by simp
qed

section \<open>The header\<close>

lemma bread_one:
  assumes "bready s" and "bc_ok xs s" and "idle s" and "b < word_of_int (disksize s)" and "i0 < NBUF" and "i0 \<notin> dset s"
  shows "\<exists>i t. bread 1 b s = Ok i t \<and> quiet s t \<and> bc_ok xs t \<and> bheld b i t \<and> bdata (bufs t i) = view s b \<and> view t = view s \<and>
    dset t = dset s \<and> refcnt (bufs t i) = 1 \<and> (\<not> b_dirty (bufs t i) \<longrightarrow> bdata (bufs t i) = disk s (unat b)) \<and>
    (\<forall>k < NBUF. k \<noteq> i \<longrightarrow> bufs t k = bufs s k \<and> \<not> blocked t k) \<and> (\<forall>c. dirtyb t c = dirtyb s c)"
proof -
  obtain i bf t where a: "bread 1 b s = Ok i t" "quiet s t" "bc_ok xs t" "bheld b i t" "bdata bf = view s b" "view t = view s"
    "bufs t = (bufs s)(i := bf)" "\<forall>k. k \<noteq> i \<longrightarrow> blocked t k = blocked s k"
    and abf: "if keyed 1 b (bufs s i) then refcnt bf = refcnt (bufs s i) + 1 \<and> b_dirty bf = b_dirty (bufs s i)
      else refcnt bf = 1 \<and> \<not> b_dirty bf \<and> unused (bufs s i)" "\<not> b_dirty bf \<longrightarrow> bdata bf = disk s (unat b)"
    using bread_spec [OF assms(1,2) idle_avail [OF assms(3,5,6)] assms(4)] by blast
  have i: "i < NBUF" using a(4) by (simp add: bheld_def)
  have ds: "dset t = dset s" using a(7) abf(1) by (auto simp: dset_def unused_def split: if_splits)
  have ref: "refcnt bf = 1" using abf(1) assms(3) i by (auto simp: idle_def split: if_splits)
  have "i \<in> dset s \<Longrightarrow> caches b (bufs s i)"
    using abf(1) bc_ok_buf(2) [OF assms(2) i] by (auto simp: dset_def unused_def caches_def keyed_def split: if_splits)
  then have "dirtyb t c = dirtyb s c" for c
    using ds a(4,7) by (intro dirtyb_bread2 [of t s b i b i]) auto
  moreover have "\<forall>k < NBUF. k \<noteq> i \<longrightarrow> bufs t k = bufs s k \<and> \<not> blocked t k" using a(7,8) assms(3) by (simp add: idle_def)
  ultimately show ?thesis using a ds ref abf(2) by (intro exI [of _ i] exI [of _ t]) simp
qed

lemma store_one:
  assumes "bready s" and "bc_ok xs s" and "bheld b i s" and "b < word_of_int (disksize s)" and "refcnt (bufs s i) = 1"
    and "\<And>k. k < NBUF \<Longrightarrow> k \<noteq> i \<Longrightarrow> \<not> blocked s k \<and> refcnt (bufs s k) = 0"
  shows "\<exists>u. kthen (upd_buf i (\<lambda>bf. bf\<lparr>bdata := d\<rparr>)) (kthen (bwrite i) (brelse i)) s = Ok () u \<and> stored s b d u"
proof -
  have h: "i < NBUF" "caches b (bufs s i)" using assms(3) by (auto simp: bheld_def)
  obtain t where t: "kthen (upd_buf i (\<lambda>bf. bf\<lparr>bdata := d\<rparr>)) (bwrite i) s = Ok () t" "calm s t" "bc_ok xs t" "bheld b i t"
    "disk t = (disk s)(unat b := d)" "issued t = issued s @ [(unat b, d)]" "view t = (view s)(b := d)"
    "bufs t = (bufs s)(i := (bufs s i)\<lparr>bdata := d, b_dirty := False, b_valid := True\<rparr>)" "\<forall>k. blocked t k = blocked s k"
    using bwrite_spec [OF assms(1-4), of d] by blast
  have rt: "bready t" using assms(1) calm_fields(7) [OF t(2)] by simp
  have "bdata (bufs t i) = disk t (unat b)" using t(5,8) by simp
  with brelse_spec [OF rt t(3,4)] obtain u ys where u: "brelse i t = Ok () u" "quiet t u" "bc_ok ys u" "view u = view t"
    "\<not> blocked u i" "\<forall>k. k \<noteq> i \<longrightarrow> blocked u k = blocked t k"
    "\<forall>k. core (bufs u k) = core (if k = i then (bufs t i)\<lparr>refcnt := refcnt (bufs t i) - 1\<rparr> else bufs t k)" by blast
  have core: "core (bufs u k) = core ((bufs t k)\<lparr>refcnt := (if k = i then 0 else refcnt (bufs t k))\<rparr>)" for k
    using u(7) [rule_format, of k] assms(5) t(8) by (auto simp: core_def)
  have "idle u"
    unfolding idle_def
  proof (intro allI impI)
    fix k assume "k < NBUF"
    then show "\<not> blocked u k \<and> refcnt (bufs u k) = 0"
      using core_eqs(5) [OF core, of k] assms(6) [of k] t(8,9) u(5,6) by auto
  qed
  moreover have ds: "dset u = dset s - {i}" using core_eqs(2) [OF core] t(8) by (auto simp: dset_def)
  moreover have "dirtyb u c \<longleftrightarrow> dirtyb s c \<and> c \<noteq> b" for c
  proof -
    have "caches c (bufs u k) = caches c (bufs s k)" if "k \<in> dset u" for k
      using that ds core_eqs(8) [OF core, of c k] t(8) by (auto simp: caches_def)
    moreover have "k = i" if "k \<in> dset s" "caches b (bufs s k)" for k
      using that bc_ok_uniq [OF assms(2) _ h(1), of k 1 b] h(2) by (auto simp: dset_def caches_def keyed_def)
    ultimately show ?thesis using ds h(2) unfolding dirtyb_def caches_def by blast
  qed
  moreover have "calm s u" by (rule calm_trans [OF t(2) quiet_calm [OF u(2)]])
  moreover have "kthen (upd_buf i (\<lambda>bf. bf\<lparr>bdata := d\<rparr>)) (kthen (bwrite i) (brelse i)) s = Ok () u"
    using t(1) u(1) by (simp add: kexec split: res.splits)
  ultimately show ?thesis
    using u(3,4) t(5-7) quiet_fields(5,7) [OF u(2)] unfolding stored_def by (intro exI [of _ u]) auto
qed

lemma write_head_spec:
  assumes "bready s" and "bc_ok xs s" and "idle s" and "log_dev s = 1" and "b = word_of_int (log_start s)"
    and "b < word_of_int (disksize s)" and "i0 < NBUF" and "i0 \<notin> dset s" and "lh_n s \<le> LOGSIZE"
  shows "\<exists>u. write_head s = Ok () u \<and> stored s b (put_hdr (lh_n s) (lh_block s) (view s b)) u"
proof -
  obtain i t where t: "bread 1 b s = Ok i t" "quiet s t" "bc_ok xs t" "bheld b i t" "bdata (bufs t i) = view s b" "view t = view s"
    "dset t = dset s" "refcnt (bufs t i) = 1" "\<forall>k < NBUF. k \<noteq> i \<longrightarrow> bufs t k = bufs s k \<and> \<not> blocked t k"
    "\<forall>c. dirtyb t c = dirtyb s c"
    using bread_one [OF assms(1-3,6-8)] by blast
  define d where "d = put_hdr (lh_n s) (lh_block s) (view s b)"
  have others: "k < NBUF \<Longrightarrow> k \<noteq> i \<Longrightarrow> \<not> blocked t k \<and> refcnt (bufs t k) = 0" for k
    using t(9) assms(3) by (simp add: idle_def)
  have "b < word_of_int (disksize t)" using assms(6) quiet_fields(6) [OF t(2)] by simp
  from store_one [OF bready_quiet [OF t(2) assms(1)] t(3,4) this t(8) others, of d]
  obtain u where u: "kthen (upd_buf i (\<lambda>bf. bf\<lparr>bdata := d\<rparr>)) (kthen (bwrite i) (brelse i)) t = Ok () u" "stored t b d u" by blast
  have "upd_buf i (\<lambda>bf. bf\<lparr>bdata := put_hdr (lh_n s) (lh_block s) (bdata bf)\<rparr>) t = upd_buf i (\<lambda>bf. bf\<lparr>bdata := d\<rparr>) t"
    by (simp add: kexec d_def t(5))
  then have "write_head s = Ok () u"
    using t(1) u(1) assms(4,5,9) calm_log [OF quiet_calm [OF t(2)]]
    by (simp add: write_head_def log_buf_def kexec)
  moreover have "stored s b d u" using stored_quiet [OF t(2) u(2) t(6,7)] t(10) by simp
  ultimately show ?thesis by (auto simp: d_def)
qed

lemma read_head_loop:
  "n \<le> 30 \<Longrightarrow> kfor [0..<n] (read_head_step d) s =
    Ok () (s\<lparr>lh_block := (\<lambda>i. if i < n then hdr_block d i else lh_block s i)\<rparr>)"
proof (induction n)
  case 0
  show ?case by (simp add: kexec)
next
  case (Suc n)
  have "(\<lambda>i. if i < n then hdr_block d i else lh_block s i)(n := hdr_block d n) =
      (\<lambda>i. if i < Suc n then hdr_block d i else lh_block s i)" by (auto simp: fun_eq_iff less_Suc_eq)
  with Suc show ?case by (simp add: kfor_append kexec read_head_step_def)
qed

lemma read_head_spec:
  assumes "bready s" and "bc_ok xs s" and "idle s" and "log_dev s = 1" and "b = word_of_int (log_start s)"
    and "b < word_of_int (disksize s)" and "dset s = {}" and "0 \<le> hdr_n (view s b)" and "hdr_n (view s b) \<le> LOGSIZE"
  shows "\<exists>ys u. read_head s = Ok () u \<and> quiet (s\<lparr>lh_n := hdr_n (view s b), lh_block := (\<lambda>i. if i < nat (hdr_n (view s b)) then hdr_block (view s b) i else lh_block s i)\<rparr>) u \<and>
    bc_ok ys u \<and> idle u \<and> view u = view s \<and> dset u = {}"
proof -
  have "0 < NBUF" "0 \<notin> dset s" using assms(7) by simp_all
  from bread_one [OF assms(1-3,6) this] obtain i t where t: "bread 1 b s = Ok i t" "quiet s t" "bc_ok xs t" "bheld b i t"
    "bdata (bufs t i) = view s b" "view t = view s" "dset t = dset s" "refcnt (bufs t i) = 1"
    "\<not> b_dirty (bufs t i) \<longrightarrow> bdata (bufs t i) = disk s (unat b)"
    "\<forall>k < NBUF. k \<noteq> i \<longrightarrow> bufs t k = bufs s k \<and> \<not> blocked t k" by blast
  define d where "d = view s b"
  define bl where "bl = (\<lambda>i. if i < nat (hdr_n d) then hdr_block d i else lh_block s i)"
  define t1 where "t1 = t\<lparr>lh_n := hdr_n d, lh_block := bl\<rparr>"
  have lh: "lh_block t = lh_block s" "log_start t = log_start s" using calm_log [OF quiet_calm [OF t(2)]] by auto
  have loop: "kfor [0..<nat (hdr_n d)] (read_head_step d) (t\<lparr>lh_n := hdr_n d\<rparr>) = Ok () t1"
    using assms(8,9) by (simp add: read_head_loop t1_def bl_def d_def lh cong: if_cong)
  have i: "i < NBUF" "\<not> b_dirty (bufs t i)" using t(4,7) assms(7) by (auto simp: bheld_def dset_def)
  have "bready t1" "bc_ok xs t1" "bheld b i t1" using t(3,4) bready_quiet [OF t(2) assms(1)] by (simp_all add: t1_def)
  moreover have "bdata (bufs t1 i) = disk t1 (unat b)"
    using t(9) i(2) quiet_fields(5) [OF t(2)] by (simp add: t1_def)
  ultimately obtain u ys where u: "brelse i t1 = Ok () u" "quiet t1 u" "bc_ok ys u" "view u = view t1" "\<not> blocked u i"
    "\<forall>k. k \<noteq> i \<longrightarrow> blocked u k = blocked t1 k"
    "\<forall>k. core (bufs u k) = core (if k = i then (bufs t1 i)\<lparr>refcnt := refcnt (bufs t1 i) - 1\<rparr> else bufs t1 k)"
    using brelse_spec [of t1 xs b i] by blast
  have "read_head s = Ok () u"
    using t(1,5) loop u(1) assms(4,5) by (simp add: read_head_def log_buf_def kexec d_def)
  moreover have "quiet (s\<lparr>lh_n := hdr_n d, lh_block := bl\<rparr>) t1"
  proof -
    obtain P L B where "t = s\<lparr>procs := P, slocks := L, bufs := B\<rparr>"
      "\<forall>p. P p = procs s p \<or> (pstate (procs s p) = SLEEPING \<and> P p = (procs s p)\<lparr>pstate := RUNNABLE\<rparr>)"
      "\<forall>j. L (InodeLock j) = slocks s (InodeLock j)"
      using t(2) unfolding quiet_def by blast
    then show ?thesis unfolding quiet_def t1_def by (intro exI [of _ P] exI [of _ L] exI [of _ B]) simp
  qed
  moreover have "idle u"
    unfolding idle_def
  proof (intro allI impI)
    fix k assume "k < NBUF"
    then show "\<not> blocked u k \<and> refcnt (bufs u k) = 0"
      using core_eqs(5) [OF u(7) [rule_format], of k] t(8,10) assms(3) u(5,6) by (auto simp: t1_def idle_def split: if_splits)
  qed
  moreover have "dset u = {}"
    using core_eqs(2) [OF u(7) [rule_format]] t(7) assms(7) i by (auto simp: dset_def t1_def split: if_splits)
  ultimately show ?thesis using u(3,4) t(6) quiet_trans [OF _ u(2)] unfolding d_def bl_def
    by (intro exI [of _ ys] exI [of _ u]) (simp add: t1_def)
qed


section \<open>Commit\<close>

lemma uint_of_int_bound: "0 \<le> x \<Longrightarrow> x < 2 ^ 31 \<Longrightarrow> uint (word_of_int x :: uint) = x"
  by (simp add: uint_word_of_int)

lemma unat_of_int_bound: "0 \<le> x \<Longrightarrow> x < 2 ^ 31 \<Longrightarrow> unat (word_of_int x :: uint) = nat x"
  by (simp add: uint_of_int_bound flip: nat_uint_eq)

lemma word_of_int_less: "0 \<le> x \<Longrightarrow> x < y \<Longrightarrow> y < 2 ^ 31 \<Longrightarrow> (word_of_int x :: uint) < word_of_int y"
  by (simp add: word_less_def uint_of_int_bound)

lemma word_of_int_eq_bound:
  "0 \<le> x \<Longrightarrow> x < 2 ^ 31 \<Longrightarrow> 0 \<le> y \<Longrightarrow> y < 2 ^ 31 \<Longrightarrow> (word_of_int x :: uint) = word_of_int y \<longleftrightarrow> x = y"
  by (metis uint_of_int_bound)

text \<open>The log lies on the device, and the blocks of the in-memory header are different home
  blocks outside the log.\<close>

definition log_geom :: "'z logst_scheme \<Rightarrow> bool" where
  "log_geom s \<longleftrightarrow> log_dev s = 1 \<and> 0 \<le> log_start s \<and> log_start s + LOGSIZE \<le> disksize s \<and> disksize s < 2 ^ 31"

definition in_log :: "'z logst_scheme \<Rightarrow> int \<Rightarrow> bool" where
  "in_log s b \<longleftrightarrow> log_start s \<le> b \<and> b < log_start s + LOGSIZE"

definition homes_ok :: "'z logst_scheme \<Rightarrow> bool" where
  "homes_ok s \<longleftrightarrow> 0 \<le> lh_n s \<and> lh_n s < LOGSIZE \<and> inj_on (lh_block s) {..<nat (lh_n s)} \<and>
     (\<forall>i < nat (lh_n s). 0 \<le> lh_block s i \<and> lh_block s i < disksize s \<and> \<not> in_log s (lh_block s i))"

definition home :: "'z logst_scheme \<Rightarrow> nat \<Rightarrow> uint" where
  "home s i = word_of_int (lh_block s i)"

definition slot :: "'z logst_scheme \<Rightarrow> nat \<Rightarrow> uint" where
  "slot s i = word_of_int (log_start s + int i + 1)"

lemma home_slot_facts:
  assumes "log_geom s" and "homes_ok s" and "i < nat (lh_n s)"
  shows "unat (home s i) = nat (lh_block s i)" "unat (slot s i) = nat (log_start s + int i + 1)"
    "home s i < word_of_int (disksize s)" "slot s i < word_of_int (disksize s)"
    "int i < LOGSIZE"
proof -
  define x where "x = log_start s + int i + 1"
  have x: "0 \<le> x" "x < disksize s" "disksize s < 2 ^ 31" "slot s i = word_of_int x" "int i < LOGSIZE"
    using assms by (auto simp: log_geom_def homes_ok_def x_def slot_def)
  then show "unat (slot s i) = nat (log_start s + int i + 1)" "slot s i < word_of_int (disksize s)"
    by (simp_all add: unat_of_int_bound word_of_int_less flip: x_def)
  show "unat (home s i) = nat (lh_block s i)" "home s i < word_of_int (disksize s)" "int i < LOGSIZE"
    using assms x(3,5) by (auto simp: home_def homes_ok_def unat_of_int_bound intro!: word_of_int_less)
qed

lemma home_slot_inj:
  assumes "log_geom s" and "homes_ok s"
  shows "inj_on (home s) {..<nat (lh_n s)}" "inj_on (slot s) {..<nat (lh_n s)}"
    "\<And>i j. i < nat (lh_n s) \<Longrightarrow> j < nat (lh_n s) \<Longrightarrow> home s i \<noteq> slot s j"
    "\<And>i. i < nat (lh_n s) \<Longrightarrow> home s i \<noteq> word_of_int (log_start s)"
    "\<And>i. i < nat (lh_n s) \<Longrightarrow> slot s i \<noteq> word_of_int (log_start s)"
proof -
  have g: "0 \<le> log_start s" "log_start s + LOGSIZE \<le> disksize s" "disksize s < 2 ^ 31" using assms(1) by (auto simp: log_geom_def)
  have h: "0 \<le> lh_block s i" "lh_block s i < 2 ^ 31" "\<not> in_log s (lh_block s i)" "int i < LOGSIZE" if "i < nat (lh_n s)" for i
    using that assms(2) g by (auto simp: homes_ok_def)
  show "inj_on (home s) {..<nat (lh_n s)}"
  proof (rule inj_onI)
    fix i j assume "i \<in> {..<nat (lh_n s)}" "j \<in> {..<nat (lh_n s)}" "home s i = home s j"
    then have "lh_block s i = lh_block s j" using h word_of_int_eq_bound [of "lh_block s i" "lh_block s j"] by (simp add: home_def)
    then show "i = j" using assms(2) \<open>i \<in> _\<close> \<open>j \<in> _\<close> by (auto simp: homes_ok_def inj_on_def)
  qed
  have slot: "slot s i = slot s j \<longleftrightarrow> i = j" "home s j \<noteq> slot s i" "slot s i \<noteq> word_of_int (log_start s)"
    if ij: "i < nat (lh_n s)" "j < nat (lh_n s)" for i j
  proof -
    define x y where "x = log_start s + int i + 1" and "y = log_start s + int j + 1"
    have x: "0 \<le> x" "x < 2 ^ 31" "0 \<le> y" "y < 2 ^ 31" "slot s i = word_of_int x" "slot s j = word_of_int y" "in_log s x"
      using g h(4) [OF ij(1)] h(4) [OF ij(2)] assms(2) ij by (auto simp: x_def y_def slot_def in_log_def homes_ok_def)
    show "slot s i = slot s j \<longleftrightarrow> i = j" using x word_of_int_eq_bound [of x y] by (auto simp: x_def y_def)
    show "home s j \<noteq> slot s i" using x h [OF ij(2)] word_of_int_eq_bound [of "lh_block s j" x] by (auto simp: home_def)
    show "slot s i \<noteq> word_of_int (log_start s)" using x g word_of_int_eq_bound [of x "log_start s"] by (auto simp: x_def)
  qed
  show "inj_on (slot s) {..<nat (lh_n s)}" using slot(1) by (auto simp: inj_on_def)
  show "home s i \<noteq> slot s j" if "i < nat (lh_n s)" "j < nat (lh_n s)" for i j by (rule slot(2) [OF that(2,1)])
  show "slot s i \<noteq> word_of_int (log_start s)" if "i < nat (lh_n s)" for i by (rule slot(3) [OF that that])
  show "home s i \<noteq> word_of_int (log_start s)" if "i < nat (lh_n s)" for i
    using h [OF that] g word_of_int_eq_bound [of "lh_block s i" "log_start s"] by (auto simp: home_def in_log_def)
qed

lemma calm_home_slot:
  assumes "calm s t"
  shows "home t = home s" "slot t = slot s" "log_geom t = log_geom s" "homes_ok t = homes_ok s" "in_log t = in_log s"
  using calm_log [OF assms] calm_fields(5) [OF assms]
  by (simp_all add: home_def [abs_def] slot_def [abs_def] log_geom_def homes_ok_def in_log_def [abs_def])

lemma install_trans_spec:
  assumes "bready s" and "bc_ok xs s" and "idle s" and "log_geom s" and "homes_ok s"
    and "dset s = {} \<or> (\<forall>i < nat (lh_n s). dirtyb s (home s i)) \<and> (\<exists>i < NBUF. i \<notin> dset s)"
  shows "\<exists>u. install_trans s = Ok () u \<and> copies s (slot s) (home s) (nat (lh_n s)) u"
proof -
  note inj = home_slot_inj [OF assms(4,5)]
  have "\<exists>u. kfor [0..<nat (lh_n s)] install_step s = Ok () u \<and> copies s (slot s) (home s) (nat (lh_n s)) u"
  proof (rule copies_loop [OF assms(1-3) inj(1)])
    show "slot s i \<noteq> home s j" if "i < nat (lh_n s)" "j < nat (lh_n s)" for i j using inj(3) [OF that(2,1)] by simp
    fix i t ys
    assume i: "i < nat (lh_n s)" and t: "copies s (slot s) (home s) i t" and ok: "bready t" "bc_ok ys t" "idle t"
    have c: "calm s t" "dset t \<subseteq> dset s" "\<And>c. dirtyb t c \<longleftrightarrow> dirtyb s c \<and> c \<notin> home s ` {..<i}"
      using t unfolding copies_def by blast+
    have new: "home s i \<notin> home s ` {..<i}" using inj(1) i by (force simp: inj_on_def)
    have "room t (home s i)"
    proof (cases "dset s = {}")
      case True
      then have "dset t = {}" using c(2) by blast
      then show ?thesis unfolding room_def by (intro exI [of _ 0] exI [of _ 1] conjI disjI2) simp_all
    next
      case False
      then show ?thesis using assms(6) i c(2,3) new unfolding room_def by blast
    qed
    then show "\<exists>u. install_step i t = Ok () u \<and> stored t (home s i) (view t (slot s i)) u"
      using ok home_slot_facts [OF assms(4,5) i] inj(3) [OF i i] assms(4) calm_log [OF c(1)] calm_fields(5) [OF c(1)]
      by (intro install_step_spec) (auto simp: log_geom_def slot_def home_def)
  qed
  then show ?thesis by (simp add: install_trans_def kexec)
qed

lemma write_log_spec:
  assumes "bready s" and "bc_ok xs s" and "idle s" and "log_geom s" and "homes_ok s"
    and "\<forall>i < nat (lh_n s). dirtyb s (home s i)" and "\<exists>i < NBUF. i \<notin> dset s"
  shows "\<exists>u. write_log s = Ok () u \<and> copies s (home s) (slot s) (nat (lh_n s)) u"
proof -
  note inj = home_slot_inj [OF assms(4,5)]
  have "\<exists>u. kfor [0..<nat (lh_n s)] write_log_step s = Ok () u \<and> copies s (home s) (slot s) (nat (lh_n s)) u"
  proof (rule copies_loop [OF assms(1-3) inj(2)])
    show "home s i \<noteq> slot s j" if "i < nat (lh_n s)" "j < nat (lh_n s)" for i j by (rule inj(3) [OF that])
    fix i t ys
    assume i: "i < nat (lh_n s)" and t: "copies s (home s) (slot s) i t" and ok: "bready t" "bc_ok ys t" "idle t"
    have c: "calm s t" "dset t \<subseteq> dset s" "\<And>c. dirtyb t c \<longleftrightarrow> dirtyb s c \<and> c \<notin> slot s ` {..<i}"
      using t unfolding copies_def by blast+
    have "home s i \<notin> slot s ` {..<i}" using inj(3) i by (auto simp: image_def)
    then have "room t (home s i)" using assms(6,7) i c(2,3) unfolding room_def by blast
    then show "\<exists>u. write_log_step i t = Ok () u \<and> stored t (slot s i) (view t (home s i)) u"
      using ok home_slot_facts [OF assms(4,5) i] inj(3) [OF i i] assms(4) calm_log [OF c(1)] calm_fields(5) [OF c(1)]
      by (intro write_log_step_spec) (auto simp: log_geom_def slot_def home_def)
  qed
  then show ?thesis by (simp add: write_log_def kexec)
qed


text \<open>A transaction ready to commit: nobody uses a buffer, and the dirty buffers are exactly those of
  the blocks in the header.\<close>

definition txn :: "'z logst_scheme \<Rightarrow> bool" where
  "txn s \<longleftrightarrow> bready s \<and> (\<exists>xs. bc_ok xs s) \<and> idle s \<and> log_geom s \<and> homes_ok s \<and> 0 < lh_n s \<and>
     (\<forall>c. dirtyb s c \<longleftrightarrow> c \<in> home s ` {..<nat (lh_n s)})"

text \<open>The disk writes of a commit, in order: the blocks into the log, the header, the blocks to their
  homes, the empty header.\<close>

definition commit_writes :: "'z logst_scheme \<Rightarrow> (nat \<times> block) list" where
  "commit_writes s =
     (let n = nat (lh_n s); st = nat (log_start s); h1 = put_hdr (lh_n s) (lh_block s) (disk s st) in
      map (\<lambda>i. (nat (log_start s + int i + 1), view s (home s i))) [0..<n] @ [(st, h1)] @
      map (\<lambda>i. (nat (lh_block s i), view s (home s i))) [0..<n] @ [(st, put_hdr 0 (lh_block s) h1)])"

lemma view_not_dirty:
  assumes "bc_ok xs s" and "idle s" and "\<not> dirtyb s c"
  shows "view s c = disk s (unat c)"
proof (cases "\<exists>i < NBUF. caches c (bufs s i)")
  case True
  then obtain i where i: "i < NBUF" "caches c (bufs s i)" by blast
  then have "\<not> b_dirty (bufs s i)" "\<not> blocked s i" using assms(2,3) by (auto simp: dirtyb_def dset_def idle_def)
  then show ?thesis by (rule view_clean [OF assms(1) i])
next
  case False
  then show ?thesis by (intro view_uncached) auto
qed

lemma txn_clean: "txn s \<Longrightarrow> \<exists>i < NBUF. i \<notin> dset s"
proof (rule ccontr)
  assume *: "txn s" "\<not> (\<exists>i < NBUF. i \<notin> dset s)"
  obtain xs where ok: "bc_ok xs s" "homes_ok s" using *(1) by (auto simp: txn_def)
  have all: "i \<in> dset s" if "i < NBUF" for i using that *(2) by blast
  define f where "f = (\<lambda>i. blockno (bufs s i))"
  have dirty: "b_valid (bufs s i)" "bdev (bufs s i) = 1" if "i < NBUF" for i
    using all [OF that] bc_ok_buf(2,3) [OF ok(1) that] by (auto simp: dset_def)
  have "inj_on f {..<NBUF}"
    using bc_ok_uniq [OF ok(1)] dirty by (intro inj_onI) (auto simp: f_def keyed_def)
  moreover have "f ` {..<NBUF} \<subseteq> home s ` {..<nat (lh_n s)}"
  proof (intro image_subsetI)
    fix i assume "i \<in> {..<NBUF}"
    then have "dirtyb s (f i)" using all dirty by (auto simp: dirtyb_def caches_def f_def intro!: bexI [of _ i])
    then show "f i \<in> home s ` {..<nat (lh_n s)}" using *(1) by (simp add: txn_def)
  qed
  ultimately have "card {..<NBUF} \<le> card (home s ` {..<nat (lh_n s)})" by (intro card_inj_on_le) auto
  also have "\<dots> \<le> nat (lh_n s)" using card_image_le [of "{..<nat (lh_n s)}" "home s"] by simp
  finally have "NBUF \<le> nat (lh_n s)" by simp
  then show False using ok(2) unfolding homes_ok_def by linarith
qed

lemma home_slot_upd [simp]:
  "home (s\<lparr>lh_n := n\<rparr>) = home s" "slot (s\<lparr>lh_n := n\<rparr>) = slot s" "slot (s\<lparr>lh_block := bl\<rparr>) = slot s"
  "log_geom (s\<lparr>lh_n := n\<rparr>) = log_geom s" "log_geom (s\<lparr>lh_block := bl\<rparr>) = log_geom s"
  by (simp_all add: home_def [abs_def] slot_def [abs_def] log_geom_def)

text \<open>The two halves of a commit: up to the header write, and the rest.\<close>

definition log_writes :: "'z logst_scheme \<Rightarrow> (nat \<times> block) list" where
  "log_writes s = map (\<lambda>i. (nat (log_start s + int i + 1), view s (home s i))) [0..<nat (lh_n s)] @
     [(nat (log_start s), put_hdr (lh_n s) (lh_block s) (disk s (nat (log_start s))))]"

definition home_writes :: "'z logst_scheme \<Rightarrow> (nat \<times> block) list" where
  "home_writes s = map (\<lambda>i. (nat (lh_block s i), view s (home s i))) [0..<nat (lh_n s)]"

definition logged :: "'z logst_scheme \<Rightarrow> 'z logst_scheme \<Rightarrow> bool" where
  "logged s t \<longleftrightarrow> calm s t \<and> (\<exists>ys. bc_ok ys t) \<and> idle t \<and> dset t \<subseteq> dset s \<and>
     disk t = apply_writes (log_writes s) (disk s) \<and> issued t = issued s @ log_writes s \<and>
     (\<forall>i < nat (lh_n s). view t (slot s i) = view s (home s i)) \<and>
     view t (word_of_int (log_start s)) = put_hdr (lh_n s) (lh_block s) (disk s (nat (log_start s))) \<and>
     (\<forall>c. c \<notin> slot s ` {..<nat (lh_n s)} \<and> c \<noteq> word_of_int (log_start s) \<longrightarrow> view t c = view s c) \<and>
     (\<forall>c. dirtyb t c \<longleftrightarrow> c \<in> home s ` {..<nat (lh_n s)})"

lemma txn_facts:
  assumes "txn s"
  shows "bready s" "idle s" "log_geom s" "homes_ok s" "0 < lh_n s" "log_dev s = 1" "lh_n s \<le> LOGSIZE"
    "\<And>c. dirtyb s c \<longleftrightarrow> c \<in> home s ` {..<nat (lh_n s)}"
    "unat (word_of_int (log_start s) :: uint) = nat (log_start s)" "(word_of_int (log_start s) :: uint) < word_of_int (disksize s)"
    "home s ` {..<nat (lh_n s)} \<inter> slot s ` {..<nat (lh_n s)} = {}" "word_of_int (log_start s) \<notin> home s ` {..<nat (lh_n s)}"
    "word_of_int (log_start s) \<notin> slot s ` {..<nat (lh_n s)}"
proof -
  show g: "bready s" "idle s" "log_geom s" "homes_ok s" "0 < lh_n s" "\<And>c. dirtyb s c \<longleftrightarrow> c \<in> home s ` {..<nat (lh_n s)}"
    using assms by (auto simp: txn_def)
  then show "log_dev s = 1" "lh_n s \<le> LOGSIZE" "unat (word_of_int (log_start s) :: uint) = nat (log_start s)"
    "(word_of_int (log_start s) :: uint) < word_of_int (disksize s)"
    by (auto simp: log_geom_def homes_ok_def unat_of_int_bound intro!: word_of_int_less)
  show "home s ` {..<nat (lh_n s)} \<inter> slot s ` {..<nat (lh_n s)} = {}" "word_of_int (log_start s) \<notin> home s ` {..<nat (lh_n s)}"
    "word_of_int (log_start s) \<notin> slot s ` {..<nat (lh_n s)}"
    using home_slot_inj(3-5) [OF g(3,4)] by (blast, force, force)
qed

lemma commit_log:
  assumes "txn s"
  shows "\<exists>t. kthen write_log write_head s = Ok () t \<and> logged s t"
proof -
  define n where "n = nat (lh_n s)"
  define hb :: uint where "hb = word_of_int (log_start s)"
  note s = txn_facts [OF assms, folded n_def hb_def]
  obtain xs i0 where ok: "bc_ok xs s" and i0: "i0 < NBUF" "i0 \<notin> dset s"
    using assms txn_clean [OF assms] unfolding txn_def by blast
  note facts = home_slot_facts [OF s(3,4), folded n_def]
  have vhb: "view s hb = disk s (nat (log_start s))" using view_not_dirty [OF ok s(2), of hb] s(8,9,12) by simp
  obtain s1 where s1: "write_log s = Ok () s1" "copies s (home s) (slot s) n s1"
    using write_log_spec [OF s(1) ok s(2-4)] s(8) i0 unfolding n_def by blast
  obtain x1 where c1: "calm s s1" "bc_ok x1 s1" "idle s1" "dset s1 \<subseteq> dset s"
    "disk s1 = apply_writes (map (\<lambda>i. (unat (slot s i), view s (home s i))) [0..<n]) (disk s)"
    "issued s1 = issued s @ map (\<lambda>i. (unat (slot s i), view s (home s i))) [0..<n]"
    "\<And>i. i < n \<Longrightarrow> view s1 (slot s i) = view s (home s i)" "\<And>c. c \<notin> slot s ` {..<n} \<Longrightarrow> view s1 c = view s c"
    "\<And>c. dirtyb s1 c \<longleftrightarrow> dirtyb s c \<and> c \<notin> slot s ` {..<n}" using s1(2) unfolding copies_def by blast
  define h1 where "h1 = put_hdr (lh_n s) (lh_block s) (disk s (nat (log_start s)))"
  have v1: "view s1 hb = disk s (nat (log_start s))" using c1(8) [OF s(13)] vhb by simp
  have r1: "bready s1" "i0 \<notin> dset s1" "hb < word_of_int (disksize s1)"
    using c1(4) calm_fields(5,7) [OF c1(1)] s(1,10) i0 by auto
  obtain t where t: "write_head s1 = Ok () t" "stored s1 hb h1 t"
    using write_head_spec [OF r1(1) c1(2,3) _ _ r1(3) i0(1) r1(2)] calm_log [OF c1(1)] s(6,7) v1 by (auto simp: h1_def hb_def)
  obtain ys where c2: "calm s1 t" "bc_ok ys t" "idle t" "disk t = (disk s1)(unat hb := h1)" "issued t = issued s1 @ [(unat hb, h1)]"
    "view t = (view s1)(hb := h1)" "dset t \<subseteq> dset s1" "\<And>c. dirtyb t c \<longleftrightarrow> dirtyb s1 c \<and> c \<noteq> hb"
    using t(2) unfolding stored_def by blast
  have W: "log_writes s = map (\<lambda>i. (unat (slot s i), view s (home s i))) [0..<n] @ [(unat hb, h1)]"
    using facts(2) s(9) by (simp add: log_writes_def h1_def n_def)
  have "dirtyb t c \<longleftrightarrow> c \<in> home s ` {..<n}" for c
    using c2(8) [of c] c1(9) [of c] s(8) [of c] s(11,12) by blast
  moreover have "view t (slot s i) = view s (home s i)" if "i < n" for i
    using that c2(6) c1(7) s(13) by auto
  ultimately have "logged s t"
    unfolding logged_def n_def [symmetric] hb_def [symmetric] h1_def [symmetric] W
    using c1 c2 calm_trans [OF c1(1) c2(1)] by auto
  then show ?thesis using s1(1) t(1) by (auto simp: kexec)
qed

lemma commit_install:
  assumes "txn s" and "logged s t"
  shows "\<exists>ys u. kthen install_trans (kthen (kmod (\<lambda>s. s\<lparr>lh_n := 0\<rparr>)) write_head) t = Ok () u \<and> bready u \<and> bc_ok ys u \<and> idle u \<and>
    lh_n u = 0 \<and> log_start u = log_start s \<and> (\<forall>c. \<not> dirtyb u c) \<and>
    issued u = issued s @ commit_writes s \<and> disk u = apply_writes (commit_writes s) (disk s) \<and>
    (\<forall>c. c \<notin> slot s ` {..<nat (lh_n s)} \<and> c \<noteq> word_of_int (log_start s) \<longrightarrow> view u c = view s c)"
proof -
  define n where "n = nat (lh_n s)"
  define hb :: uint where "hb = word_of_int (log_start s)"
  note s = txn_facts [OF assms(1), folded n_def hb_def]
  note facts = home_slot_facts [OF s(3,4), folded n_def]
  define h1 where "h1 = put_hdr (lh_n s) (lh_block s) (disk s (nat (log_start s)))"
  obtain xt where t: "calm s t" "bc_ok xt t" "idle t" "dset t \<subseteq> dset s" "disk t = apply_writes (log_writes s) (disk s)"
    "issued t = issued s @ log_writes s" "\<And>i. i < n \<Longrightarrow> view t (slot s i) = view s (home s i)" "view t hb = h1"
    "\<And>c. c \<notin> slot s ` {..<n} \<Longrightarrow> c \<noteq> hb \<Longrightarrow> view t c = view s c" "\<And>c. dirtyb t c \<longleftrightarrow> c \<in> home s ` {..<n}"
    using assms(2) unfolding logged_def n_def hb_def h1_def by blast
  obtain i0 where i0: "i0 < NBUF" "i0 \<notin> dset t" using txn_clean [OF assms(1)] t(4) by blast
  note l = calm_log [OF t(1)] calm_home_slot [OF t(1)]
  have "bready t" using calm_fields(7) [OF t(1)] s(1) by simp
  from install_trans_spec [OF this t(2,3)] obtain v where v: "install_trans t = Ok () v" "copies t (slot s) (home s) n v"
    using s(3,4) l t(10) i0 by (auto simp: n_def)
  obtain xv where c: "calm t v" "bc_ok xv v" "idle v" "dset v \<subseteq> dset t"
    "disk v = apply_writes (map (\<lambda>i. (unat (home s i), view t (slot s i))) [0..<n]) (disk t)"
    "issued v = issued t @ map (\<lambda>i. (unat (home s i), view t (slot s i))) [0..<n]"
    "\<And>i. i < n \<Longrightarrow> view v (home s i) = view t (slot s i)" "\<And>c. c \<notin> home s ` {..<n} \<Longrightarrow> view v c = view t c"
    "\<And>c. dirtyb v c \<longleftrightarrow> dirtyb t c \<and> c \<notin> home s ` {..<n}" using v(2) unfolding copies_def by blast
  have k: "calm s v" by (rule calm_trans [OF t(1) c(1)])
  define w where "w = v\<lparr>lh_n := 0\<rparr>"
  have w: "bready w" "bc_ok xv w" "idle w" "log_dev w = 1" "hb = word_of_int (log_start w)" "hb < word_of_int (disksize w)" "i0 \<notin> dset w"
    "lh_n w = 0" "lh_block w = lh_block s" "view w hb = h1"
    using c(2-4) calm_log [OF k] calm_fields(5,7) [OF k] s(1,6,10) i0 c(8) [OF s(12)] t(8) by (auto simp: w_def hb_def)
  obtain u where u: "write_head w = Ok () u" "stored w hb (put_hdr 0 (lh_block s) h1) u"
    using write_head_spec [OF w(1-6) i0(1) w(7)] w(8-10) by auto
  obtain ys where cu: "calm w u" "bc_ok ys u" "idle u" "disk u = (disk w)(unat hb := put_hdr 0 (lh_block s) h1)"
    "issued u = issued w @ [(unat hb, put_hdr 0 (lh_block s) h1)]" "view u = (view w)(hb := put_hdr 0 (lh_block s) h1)"
    "\<And>c. dirtyb u c \<longleftrightarrow> dirtyb w c \<and> c \<noteq> hb" using u(2) unfolding stored_def by blast
  have W: "commit_writes s = log_writes s @ map (\<lambda>i. (unat (home s i), view t (slot s i))) [0..<n] @ [(unat hb, put_hdr 0 (lh_block s) h1)]"
    using facts(1) s(9) t(7) by (simp add: commit_writes_def log_writes_def Let_def n_def h1_def)
  have "view u c = view s c" if "c \<notin> slot s ` {..<n}" "c \<noteq> hb" for c
    using that cu(6) c(7,8) t(7,9) by (cases "c \<in> home s ` {..<n}") (auto simp: w_def)
  moreover have "\<not> dirtyb u c" for c using cu(7) c(9) t(10) by (simp add: w_def)
  moreover have "disk u = apply_writes (commit_writes s) (disk s)" "issued u = issued s @ commit_writes s"
    unfolding W using cu(4,5) c(5,6) t(5,6) by (simp_all add: w_def)
  moreover have "bready u" "lh_n u = 0" "log_start u = log_start s" "kthen install_trans (kthen (kmod (\<lambda>s. s\<lparr>lh_n := 0\<rparr>)) write_head) t = Ok () u"
    using calm_log [OF cu(1)] calm_log [OF k] w(1) calm_fields(7) [OF cu(1)] v(1) u(1) by (simp_all add: w_def kexec)
  ultimately show ?thesis using cu(2,3) unfolding n_def [symmetric] hb_def [symmetric] by blast
qed

lemma commit_spec:
  assumes "txn s"
  shows "\<exists>ys u. commit s = Ok () u \<and> bready u \<and> bc_ok ys u \<and> idle u \<and> lh_n u = 0 \<and> log_start u = log_start s \<and> (\<forall>c. \<not> dirtyb u c) \<and>
    issued u = issued s @ commit_writes s \<and> disk u = apply_writes (commit_writes s) (disk s) \<and>
    (\<forall>c. c \<notin> slot s ` {..<nat (lh_n s)} \<and> c \<noteq> word_of_int (log_start s) \<longrightarrow> view u c = view s c)"
proof -
  obtain t where t: "kthen write_log write_head s = Ok () t" "logged s t" using commit_log [OF assms] by blast
  obtain s1 where "write_log s = Ok () s1" "write_head s1 = Ok () t" using t(1) by (auto simp: kexec split: res.splits)
  then have "commit s = kthen install_trans (kthen (kmod (\<lambda>s. s\<lparr>lh_n := 0\<rparr>)) write_head) t"
    using txn_facts(5) [OF assms] by (simp add: commit_def kexec)
  with commit_install [OF assms t(2)] show ?thesis by simp
qed

section \<open>Recovery\<close>

text \<open>The state after a restart: an empty cache, and the header on the disk names different
  home blocks outside the log.\<close>

definition loaded :: "'z logst_scheme \<Rightarrow> 'z logst_scheme" where
  "loaded r = (let h = disk r (nat (log_start r)) in
     r\<lparr>lh_n := hdr_n h, lh_block := (\<lambda>i. if i < nat (hdr_n h) then hdr_block h i else lh_block r i)\<rparr>)"

definition booted :: "'z logst_scheme \<Rightarrow> bool" where
  "booted r \<longleftrightarrow> bready r \<and> (\<exists>xs. bc_ok xs r) \<and> idle r \<and> dset r = {} \<and> log_geom r \<and> homes_ok (loaded r)"

lemma recover_spec:
  assumes "booted r" and "h = disk r (nat (log_start r))"
  shows "\<exists>u hd. recover_from_log r = Ok () u \<and> lh_n u = 0 \<and>
    disk u = (apply_writes (map (\<lambda>i. (nat (hdr_block h i), disk r (nat (log_start r + int i + 1)))) [0..<nat (hdr_n h)]) (disk r))
      (nat (log_start r) := hd) \<and> hdr_n hd = 0"
proof -
  define hb :: uint where "hb = word_of_int (log_start r)"
  define l where "l = loaded r"
  define n where "n = nat (hdr_n h)"
  obtain xs where r: "bready r" "bc_ok xs r" "idle r" "dset r = {}" "log_geom r" "homes_ok l"
    using assms(1) by (auto simp: booted_def l_def)
  have g: "log_dev r = 1" "hb < word_of_int (disksize r)" "unat hb = nat (log_start r)"
    using r(5) by (auto simp: log_geom_def hb_def unat_of_int_bound intro!: word_of_int_less)
  have vd: "view r c = disk r (unat c)" for c using view_not_dirty [OF r(2,3)] r(4) by (simp add: dirtyb_def)
  have l: "lh_n l = hdr_n h" "\<And>i. i < n \<Longrightarrow> lh_block l i = hdr_block h i" "log_geom l" "log_start l = log_start r" "slot l = slot r"
    "log_dev l = 1" "disk l = disk r"
    using r(5) g(1) by (simp_all add: l_def loaded_def Let_def assms(2) n_def)
  have hn: "0 \<le> hdr_n h" "hdr_n h \<le> LOGSIZE" using r(6) l(1) by (auto simp: homes_ok_def)
  have h: "view r hb = h" by (simp add: vd g(3) assms(2))
  have eq: "l = r\<lparr>lh_n := hdr_n (view r hb), lh_block := (\<lambda>i. if i < nat (hdr_n (view r hb)) then hdr_block (view r hb) i else lh_block r i)\<rparr>"
    by (simp only: l_def loaded_def Let_def h) (simp only: assms(2))
  obtain ys s1 where s1: "read_head r = Ok () s1" "quiet l s1" "bc_ok ys s1" "idle s1" "view s1 = view r" "dset s1 = {}"
    using read_head_spec [OF r(1-3) g(1) hb_def g(2) r(4)] hn h unfolding eq [symmetric] by auto
  note k1 = quiet_calm [OF s1(2)]
  note f1 = calm_log [OF k1] calm_home_slot [OF k1]
  have rl: "bready l" using r(1) by (simp add: l_def loaded_def Let_def)
  have "bready s1" using calm_fields(7) [OF k1] rl by simp
  from install_trans_spec [OF this s1(3,4)] obtain s2 where s2: "install_trans s1 = Ok () s2" "copies s1 (slot r) (home l) n s2"
    using f1 l r(6) s1(6) by (auto simp: n_def)
  obtain zs where c: "calm s1 s2" "bc_ok zs s2" "idle s2" "dset s2 \<subseteq> dset s1"
    "disk s2 = apply_writes (map (\<lambda>i. (unat (home l i), view s1 (slot r i))) [0..<n]) (disk s1)"
    using s2(2) unfolding copies_def by blast
  have k2: "calm l s2" by (rule calm_trans [OF k1 c(1)])
  define s3 where "s3 = s2\<lparr>lh_n := 0\<rparr>"
  have s3: "bready s3" "bc_ok zs s3" "idle s3" "log_dev s3 = 1" "hb = word_of_int (log_start s3)" "hb < word_of_int (disksize s3)" "0 \<notin> dset s3" "lh_n s3 = 0"
    using c(2-4) calm_log [OF k2] calm_fields(5,7) [OF k2] l(4,6) rl g(2) s1(6) by (auto simp: s3_def hb_def l_def loaded_def Let_def)
  obtain u where u: "write_head s3 = Ok () u" "stored s3 hb (put_hdr 0 (lh_block s3) (view s3 hb)) u"
    using write_head_spec [OF s3(1-6) _ s3(7)] s3(8) by auto
  have W: "map (\<lambda>i. (unat (home l i), view s1 (slot r i))) [0..<n] =
      map (\<lambda>i. (nat (hdr_block h i), disk r (nat (log_start r + int i + 1)))) [0..<n]"
    using home_slot_facts(1,2) [OF l(3) r(6)] l(1,2,4,5) s1(5) vd by (auto simp: n_def)
  have "disk s1 = disk r" using quiet_fields(5) [OF s1(2)] l(7) by simp
  then have "disk u = (apply_writes (map (\<lambda>i. (nat (hdr_block h i), disk r (nat (log_start r + int i + 1)))) [0..<n]) (disk r))
      (nat (log_start r) := put_hdr 0 (lh_block s3) (view s3 hb))"
    using u(2) c(5) [unfolded W] g(3) by (simp add: stored_def s3_def)
  moreover have "lh_n u = 0" using u(2) s3(8) calm_log(6) by (metis stored_def)
  moreover have "hdr_n (put_hdr 0 (lh_block s3) (view s3 hb)) = 0" by (rule hdr_put(1)) auto
  moreover have "recover_from_log r = Ok () u" using s1(1) s2(1) u(1) by (simp add: recover_from_log_def kexec s3_def)
  ultimately show ?thesis unfolding n_def by blast
qed

section \<open>Crashes\<close>

lemma log_writes_in_log:
  assumes "log_geom s" and "homes_ok s" and "b \<in> fst ` set (log_writes s)"
  shows "in_log s (int b)"
proof -
  have "0 \<le> log_start s" using assms(1) by (simp add: log_geom_def)
  moreover have "nat (lh_n s) < 30" using assms(2) unfolding homes_ok_def by linarith
  ultimately show ?thesis using assms(3) by (auto simp: log_writes_def in_log_def image_iff)
qed

lemma fst_home_writes: "fst ` set (home_writes s) = (\<lambda>i. nat (lh_block s i)) ` {..<nat (lh_n s)}"
  by (simp add: home_writes_def image_image lessThan_atLeast0)

lemma commit_writes_split:
  "commit_writes s = log_writes s @ home_writes s @ [(nat (log_start s),
     put_hdr 0 (lh_block s) (put_hdr (lh_n s) (lh_block s) (disk s (nat (log_start s)))))]"
  by (simp add: commit_writes_def log_writes_def home_writes_def Let_def)

lemma log_disk:
  assumes "log_geom s" and "homes_ok s"
  defines "d \<equiv> apply_writes (log_writes s) (disk s)"
  shows "d (nat (log_start s)) = put_hdr (lh_n s) (lh_block s) (disk s (nat (log_start s)))"
    and "\<And>i. i < nat (lh_n s) \<Longrightarrow> d (nat (log_start s + int i + 1)) = view s (home s i)"
proof -
  have g: "0 \<le> log_start s" using assms(1) by (simp add: log_geom_def)
  show "d (nat (log_start s)) = put_hdr (lh_n s) (lh_block s) (disk s (nat (log_start s)))"
    by (simp add: d_def log_writes_def)
  fix i assume i: "i < nat (lh_n s)"
  have "inj_on (\<lambda>i. nat (log_start s + int i + 1)) {..<nat (lh_n s)}" using g by (auto simp: inj_on_def)
  moreover have "nat (log_start s + int i + 1) \<noteq> nat (log_start s)" using g by simp
  ultimately show "d (nat (log_start s + int i + 1)) = view s (home s i)"
    using apply_writes_map [of _ _ i "\<lambda>i. view s (home s i)" "disk s"] i by (simp add: d_def log_writes_def)
qed

lemma home_disk:
  assumes "log_geom s" and "homes_ok s"
  shows "i < nat (lh_n s) \<Longrightarrow> apply_writes (home_writes s) d (nat (lh_block s i)) = view s (home s i)"
    and "in_log s (int b) \<Longrightarrow> apply_writes (take j (home_writes s)) d b = d b"
    and "in_log s (int b) \<Longrightarrow> b \<notin> fst ` set (home_writes s)"
proof -
  have h: "inj_on (lh_block s) {..<nat (lh_n s)}" "\<And>i. i < nat (lh_n s) \<Longrightarrow> 0 \<le> lh_block s i \<and> \<not> in_log s (lh_block s i)"
    using assms(2) by (auto simp: homes_ok_def)
  have inj: "inj_on (\<lambda>i. nat (lh_block s i)) {..<nat (lh_n s)}"
  proof (rule inj_onI)
    fix x y assume "x \<in> {..<nat (lh_n s)}" "y \<in> {..<nat (lh_n s)}" "nat (lh_block s x) = nat (lh_block s y)"
    moreover from this have "lh_block s x = lh_block s y" using h(2) [of x] h(2) [of y] by (simp add: eq_nat_nat_iff)
    ultimately show "x = y" using inj_onD [OF h(1)] by blast
  qed
  show "i < nat (lh_n s) \<Longrightarrow> apply_writes (home_writes s) d (nat (lh_block s i)) = view s (home s i)"
    using apply_writes_map [OF inj] by (simp add: home_writes_def)
  show nb: "in_log s (int b) \<Longrightarrow> b \<notin> fst ` set (home_writes s)" using h(2) unfolding fst_home_writes by force
  show "in_log s (int b) \<Longrightarrow> apply_writes (take j (home_writes s)) d b = d b"
    by (intro apply_writes_other) (use nb in \<open>auto dest: in_set_takeD\<close>)
qed

lemma view_home_or_disk:
  assumes "txn s"
  shows "c \<notin> home s ` {..<nat (lh_n s)} \<Longrightarrow> view s c = disk s (unat c)"
    and "c \<in> home s ` {..<nat (lh_n s)} \<longleftrightarrow> (\<exists>i < nat (lh_n s). unat c = nat (lh_block s i))"
proof -
  obtain xs where "bc_ok xs s" using assms by (auto simp: txn_def)
  then show "c \<notin> home s ` {..<nat (lh_n s)} \<Longrightarrow> view s c = disk s (unat c)"
    using view_not_dirty txn_facts(2,8) [OF assms] by blast
  show "c \<in> home s ` {..<nat (lh_n s)} \<longleftrightarrow> (\<exists>i < nat (lh_n s). unat c = nat (lh_block s i))"
    using home_slot_facts(1) [OF txn_facts(3,4) [OF assms]] by (auto simp: word_unat_eq_iff image_iff)
qed

lemma recovered_old:
  assumes "booted r" and "hdr_n (disk r (nat (log_start r))) = 0"
  shows "\<exists>u. recover_from_log r = Ok () u \<and> (\<forall>c. \<not> in_log r (int c) \<longrightarrow> disk u c = disk r c)"
proof -
  obtain u hd where "recover_from_log r = Ok () u" "disk u = (disk r)(nat (log_start r) := hd)"
    using recover_spec [OF assms(1) refl] assms(2) by auto
  moreover have "in_log r (int (nat (log_start r)))" using assms(1) by (simp add: booted_def log_geom_def in_log_def)
  ultimately show ?thesis by (intro exI [of _ u]) auto
qed

lemma booted_empty:
  "bready r \<Longrightarrow> bc_ok xs r \<Longrightarrow> idle r \<Longrightarrow> dset r = {} \<Longrightarrow> log_geom r \<Longrightarrow> hdr_n (disk r (nat (log_start r))) = 0 \<Longrightarrow> booted r"
  by (auto simp: booted_def homes_ok_def loaded_def)

text \<open>The machine after a crash following the first \<open>k\<close> writes of the commit, and a restart.\<close>

definition rebooted :: "'z logst_scheme \<Rightarrow> nat \<Rightarrow> 'z logst_scheme \<Rightarrow> bool" where
  "rebooted s k r \<longleftrightarrow> bready r \<and> (\<exists>xs. bc_ok xs r) \<and> idle r \<and> dset r = {} \<and> log_dev r = 1 \<and>
     log_start r = log_start s \<and> disksize r = disksize s \<and> disk r = apply_writes (take k (commit_writes s)) (disk s)"

lemma rebooted_facts:
  assumes "txn s" and "rebooted s k r"
  shows "log_geom r" "in_log r = in_log s" "log_start r = log_start s" "disk r = apply_writes (take k (commit_writes s)) (disk s)"
    "hdr_n (disk r (nat (log_start s))) = 0 \<Longrightarrow> booted r" "in_log s (int (nat (log_start s)))"
proof -
  show "log_geom r" using assms txn_facts(3) [OF assms(1)] by (simp add: rebooted_def log_geom_def)
  then show "hdr_n (disk r (nat (log_start s))) = 0 \<Longrightarrow> booted r" using assms(2) booted_empty [of r] by (auto simp: rebooted_def)
  show "in_log r = in_log s" "log_start r = log_start s" "disk r = apply_writes (take k (commit_writes s)) (disk s)"
    using assms(2) by (simp_all add: rebooted_def in_log_def [abs_def])
  show "in_log s (int (nat (log_start s)))" using txn_facts(3) [OF assms(1)] by (simp add: log_geom_def in_log_def)
qed

lemma log_writes_outside:
  assumes "txn s" and "\<not> in_log s (int b)"
  shows "apply_writes (take m (log_writes s)) d b = d b"
  using log_writes_in_log [OF txn_facts(3,4) [OF assms(1)], of b] assms(2) in_set_takeD [of _ m "log_writes s"]
  by (intro apply_writes_other) blast

lemma crash_before:
  assumes "txn s" and "hdr_n (disk s (nat (log_start s))) = 0" and "rebooted s k r" and "k \<le> nat (lh_n s)"
  shows "\<exists>u. recover_from_log r = Ok () u \<and> (\<forall>b. \<not> in_log s (int b) \<longrightarrow> disk u b = disk s b)"
proof -
  note r = rebooted_facts [OF assms(1,3)]
  let ?W = "map (\<lambda>i. (nat (log_start s + int i + 1), view s (home s i))) [0..<nat (lh_n s)]"
  have tk: "take k (commit_writes s) = take k (log_writes s)" "take k (log_writes s) = take k ?W"
    using assms(4) by (simp_all add: commit_writes_split) (simp_all add: log_writes_def)
  have "nat (log_start s) \<notin> fst ` set (take k ?W)"
    using txn_facts(3) [OF assms(1)] by (auto simp: log_geom_def dest!: in_set_takeD)
  then have "disk r (nat (log_start s)) = disk s (nat (log_start s))" unfolding r(4) tk by (rule apply_writes_other)
  then have h0: "hdr_n (disk r (nat (log_start s))) = 0" using assms(2) by simp
  with recovered_old [OF r(5)] obtain u where "recover_from_log r = Ok () u" "\<forall>c. \<not> in_log s (int c) \<longrightarrow> disk u c = disk r c"
    unfolding r(2,3) by blast
  then show ?thesis using log_writes_outside [OF assms(1), of _ k "disk s"] unfolding r(4) tk(1) by auto
qed

lemma new_disk:
  assumes "txn s" and "d = apply_writes (home_writes s) d0" and "\<And>b. \<not> in_log s (int b) \<Longrightarrow> b \<notin> fst ` set (home_writes s) \<Longrightarrow> d0 b = disk s b"
    and "\<not> in_log s (uint c)"
  shows "d (unat c) = view s c"
proof (cases "c \<in> home s ` {..<nat (lh_n s)}")
  case True
  then obtain i where "i < nat (lh_n s)" "c = home s i" by blast
  then show ?thesis using assms(2) home_disk(1) [OF txn_facts(3,4) [OF assms(1)]] home_slot_facts(1) [OF txn_facts(3,4) [OF assms(1)]] by simp
next
  case False
  then have "unat c \<notin> fst ` set (home_writes s)" using view_home_or_disk(2) [OF assms(1), of c] unfolding fst_home_writes by auto
  with assms(2) assms(3) [of "unat c"] assms(4) view_home_or_disk(1) [OF assms(1) False] show ?thesis
    by (simp add: apply_writes_other)
qed

lemma crash_after:
  assumes "txn s" and "rebooted s k r" and "k > Suc (nat (lh_n s)) + nat (lh_n s)"
  shows "\<exists>u. recover_from_log r = Ok () u \<and> (\<forall>c. \<not> in_log s (uint c) \<longrightarrow> disk u (unat c) = view s c)"
proof -
  note r = rebooted_facts [OF assms(1,2)]
  define e where "e = put_hdr 0 (lh_block s) (put_hdr (lh_n s) (lh_block s) (disk s (nat (log_start s))))"
  define d1 where "d1 = apply_writes (home_writes s) (apply_writes (log_writes s) (disk s))"
  have "length (commit_writes s) \<le> k" using assms(3) by (simp add: commit_writes_def Let_def)
  then have "take k (commit_writes s) = commit_writes s" by simp
  then have d: "disk r = d1(nat (log_start s) := e)"
    unfolding r(4) by (simp add: commit_writes_split e_def d1_def)
  have "hdr_n e = 0" unfolding e_def by (rule hdr_put(1)) auto
  then have "hdr_n (disk r (nat (log_start s))) = 0" by (simp add: d)
  with recovered_old [OF r(5)] obtain u where u: "recover_from_log r = Ok () u" "\<forall>c. \<not> in_log s (int c) \<longrightarrow> disk u c = disk r c"
    unfolding r(2,3) by blast
  have "disk u (unat c) = view s c" if "\<not> in_log s (uint c)" for c
  proof -
    have il: "\<not> in_log s (int (unat c))" using that by simp
    then have "unat c \<noteq> nat (log_start s)" using r(6) by metis
    then have "disk u (unat c) = d1 (unat c)" using u(2) il by (simp add: d)
    also have "\<dots> = view s c"
      using log_writes_outside [OF assms(1), of _ "length (log_writes s)" "disk s"]
      by (intro new_disk [OF assms(1) d1_def _ that]) simp
    finally show ?thesis .
  qed
  with u(1) show ?thesis by blast
qed

lemma crash_between:
  assumes "txn s" and "rebooted s k r" and "k = Suc (nat (lh_n s)) + j" and "j \<le> nat (lh_n s)"
  shows "\<exists>u. recover_from_log r = Ok () u \<and> (\<forall>c. \<not> in_log s (uint c) \<longrightarrow> disk u (unat c) = view s c)"
proof -
  note r = rebooted_facts [OF assms(1,2)] and s = txn_facts [OF assms(1)]
  define n where "n = nat (lh_n s)"
  define d1 where "d1 = apply_writes (log_writes s) (disk s)"
  have "length (log_writes s) = Suc n" "length (home_writes s) = n" by (simp_all add: log_writes_def home_writes_def n_def)
  then have "take k (commit_writes s) = log_writes s @ take j (home_writes s)"
    using assms(3,4) by (simp add: commit_writes_split n_def)
  then have d: "disk r = apply_writes (take j (home_writes s)) d1" unfolding r(4) by (simp add: d1_def)
  define h where "h = disk r (nat (log_start s))"
  have h: "h = put_hdr (lh_n s) (lh_block s) (disk s (nat (log_start s)))"
    unfolding h_def d using home_disk(2) [OF s(3,4) r(6)] log_disk(1) [OF s(3,4)] by (simp add: d1_def)
  have bl: "0 \<le> lh_block s i \<and> lh_block s i < 2 ^ 31" if "i < nat (lh_n s)" for i
    using that s(3,4) by (auto simp: homes_ok_def log_geom_def)
  have hdr: "hdr_n h = lh_n s" "\<And>i. i < n \<Longrightarrow> hdr_block h i = lh_block s i"
    unfolding h n_def using s(5,7) bl by (auto intro!: hdr_put)
  have slots: "disk r (nat (log_start s + int i + 1)) = view s (home s i)" if "i < n" for i
  proof -
    have "i < 29" using that s(4) unfolding homes_ok_def n_def by linarith
    then have "in_log s (int (nat (log_start s + int i + 1)))"
      using s(3) by (simp add: in_log_def log_geom_def)
    then show ?thesis unfolding d using home_disk(2) [OF s(3,4)] log_disk(2) [OF s(3,4)] that by (simp add: d1_def n_def)
  qed
  have "homes_ok (loaded r)"
    using s(4) hdr r(3) assms(2) unfolding homes_ok_def loaded_def Let_def h_def [symmetric]
    by (auto simp: in_log_def rebooted_def h_def n_def inj_on_def)
  then have "booted r" using assms(2) r(1) by (auto simp: booted_def rebooted_def)
  from recover_spec [OF this, of h] obtain u hd where u: "recover_from_log r = Ok () u"
    "disk u = (apply_writes (map (\<lambda>i. (nat (hdr_block h i), disk r (nat (log_start s + int i + 1)))) [0..<n]) (disk r))
      (nat (log_start s) := hd)" using r(3) hdr(1) by (auto simp: h_def n_def)
  have W: "map (\<lambda>i. (nat (hdr_block h i), disk r (nat (log_start s + int i + 1)))) [0..<n] = home_writes s"
    using hdr(2) slots by (simp add: home_writes_def n_def)
  have "disk u (unat c) = view s c" if "\<not> in_log s (uint c)" for c
  proof -
    have il: "\<not> in_log s (int (unat c))" using that by simp
    then have "unat c \<noteq> nat (log_start s)" using r(6) by metis
    then have "disk u (unat c) = apply_writes (home_writes s) (disk r) (unat c)" unfolding u(2) W by simp
    also have "\<dots> = view s c"
    proof (rule new_disk [OF assms(1) refl _ that])
      fix b assume b: "\<not> in_log s (int b)" "b \<notin> fst ` set (home_writes s)"
      then have "b \<notin> fst ` set (take j (home_writes s))" by (auto dest: in_set_takeD)
      then show "disk r b = disk s b"
        unfolding d using log_writes_outside [OF assms(1) b(1), of "length (log_writes s)" "disk s"]
        by (simp add: apply_writes_other d1_def)
    qed
    finally show ?thesis .
  qed
  with u(1) show ?thesis by blast
qed


text \<open>An example: one modified block in the cache.\<close>

definition log_ex :: "(nat \<Rightarrow> block) \<Rightarrow> logst" where
  "log_ex d = bio.extend (bio_up\<lparr>disk := d\<rparr>) \<lparr>log_start = 2, log_size = 30, outstanding = 1, committing = False,
     log_dev = 1, lh_n = 0, lh_block = (\<lambda>_. 0)\<rparr>"

definition txn_ex :: logst where
  "txn_ex = (log_ex (disk bio_up))\<lparr>bufs := (bufs bio_up)(0 := (bufs bio_up 0)\<lparr>b_valid := True, b_dirty := True, bdev := 1,
     blockno := 100, bdata := (\<lambda>_. 9)\<rparr>), lh_n := 1, lh_block := (\<lambda>_. 100)\<rparr>"

lemma log_ex_fields:
  "bufs (log_ex d) = bufs bio_up" "disk (log_ex d) = d" "blocked (log_ex d) = blocked bio_up" "disksize (log_ex d) = 1000"
  "log_start (log_ex d) = 2" "log_dev (log_ex d) = 1" "held (log_ex d) = []" "log_size (log_ex d) = 30" "outstanding (log_ex d) = 1"
  "lh_n (log_ex d) = 0" "committing (log_ex d) = False"
  using bio_up_facts(1,3) by (simp_all add: log_ex_def bio.defs blocked_def [abs_def] bready_def)

lemma log_ex_ready: "bready (log_ex d)"
  using bio_up_facts(1) by (simp add: log_ex_def bio.defs bready_def rows_ok_def)

lemma log_ex_ok: "bc_ok (rev [0..<NBUF]) (log_ex d)" "idle (log_ex d)" "dset (log_ex d) = {}"
proof -
  have f: "\<not> b_valid (bufs bio_up j)" "\<not> b_dirty (bufs bio_up j)" "bdev (bufs bio_up j) = 0" "refcnt (bufs bio_up j) = 0" "\<not> blocked bio_up j"
    if "j < NBUF" for j using core_eqs [OF bio_up_facts(6) [OF that]] bio_up_facts(5) [OF that] by (simp_all add: buf0_def)
  have "ring (bufs bio_up) (rev [0..<NBUF])" "set (rev [0..<NBUF]) = {..<NBUF}"
    using bio_up_facts(2) unfolding bc_ok_def by blast+
  then show "bc_ok (rev [0..<NBUF]) (log_ex d)"
    using f by (intro bc_okI) (auto simp: log_ex_fields keyed_def simp del: upt_rec_numeral)
  show "idle (log_ex d)" "dset (log_ex d) = {}" using f by (auto simp: idle_def dset_def log_ex_fields)
qed

lemma txn_ex_ok: "txn txn_ex"
proof -
  let ?bf = "(bufs bio_up 0)\<lparr>b_valid := True, b_dirty := True, bdev := 1, blockno := 100, bdata := (\<lambda>_. 9)\<rparr>"
  define t where "t = (log_ex (disk bio_up))\<lparr>bufs := (bufs bio_up)(0 := ?bf)\<rparr>"
  have tx: "txn_ex = t\<lparr>lh_n := 1, lh_block := (\<lambda>_. 100)\<rparr>" by (simp add: txn_ex_def t_def)
  have bl: "blocked t = blocked bio_up" by (simp add: t_def blocked_def [abs_def] log_ex_fields(3) [unfolded blocked_def [abs_def]])
  have f: "bdev (bufs bio_up j) = 0" "refcnt (bufs bio_up j) = 0" "\<not> b_dirty (bufs bio_up j)" "\<not> blocked bio_up j" if "j < NBUF" for j
    using core_eqs [OF bio_up_facts(6) [OF that]] bio_up_facts(5) [OF that] by (simp_all add: buf0_def)
  have tb: "bufs t = (bufs (log_ex (disk bio_up)))(0 := ?bf)" by (simp add: t_def log_ex_fields)
  have "bc_ok (rev [0..<NBUF]) t"
    using f by (intro bc_ok_upd [OF log_ex_ok(1) _ tb]) (auto simp: bl log_ex_fields keyed_def, simp add: t_def log_ex_fields)
  moreover have "idle t" using f by (auto simp: idle_def bl tb log_ex_fields)
  moreover have "bready t" using log_ex_ready by (simp add: t_def bready_def rows_ok_def)
  moreover have "dset t = {0}" using f(3) by (auto simp: dset_def tb log_ex_fields)
  then have "dirtyb t c \<longleftrightarrow> c = 100" for c by (auto simp: dirtyb_def tb caches_def)
  moreover have "log_dev t = 1" "log_start t = 2" "disksize t = 1000" by (simp_all add: t_def log_ex_fields)
  ultimately show ?thesis
    unfolding txn_def tx by (auto simp: log_geom_def homes_ok_def in_log_def home_def inj_on_def)
qed




section \<open>Recording writes\<close>

lemma lh_find_spec:
  "lh_find s b \<le> nat (lh_n s)" "lh_find s b < nat (lh_n s) \<Longrightarrow> word_of_int (lh_block s (lh_find s b)) = b"
  "lh_find s b = nat (lh_n s) \<Longrightarrow> i < nat (lh_n s) \<Longrightarrow> word_of_int (lh_block s i) \<noteq> b"
proof -
  let ?f = "find (\<lambda>i. word_of_int (lh_block s i) = b) [0..<nat (lh_n s)]"
  have "lh_find s b \<le> nat (lh_n s) \<and> (lh_find s b < nat (lh_n s) \<longrightarrow> word_of_int (lh_block s (lh_find s b)) = b) \<and>
      (lh_find s b = nat (lh_n s) \<longrightarrow> (\<forall>i < nat (lh_n s). word_of_int (lh_block s i) \<noteq> b))"
  proof (cases ?f)
    case None
    then have "lh_find s b = nat (lh_n s)" by (simp add: lh_find_def)
    then show ?thesis using None by (auto simp: find_None_iff)
  next
    case (Some i)
    then have "lh_find s b = i" by (simp add: lh_find_def)
    then show ?thesis using Some [unfolded find_upt_Some] by simp
  qed
  then show "lh_find s b \<le> nat (lh_n s)" "lh_find s b < nat (lh_n s) \<Longrightarrow> word_of_int (lh_block s (lh_find s b)) = b"
    "lh_find s b = nat (lh_n s) \<Longrightarrow> i < nat (lh_n s) \<Longrightarrow> word_of_int (lh_block s i) \<noteq> b" by blast+
qed

text \<open>The block numbers in the in-memory header.\<close>

definition lh_words :: "'z logst_scheme \<Rightarrow> uint set" where
  "lh_words s = (\<lambda>i. word_of_int (lh_block s i)) ` {..<nat (lh_n s)}"

lemma log_write_ok:
  assumes "Llog \<notin> set (held s)" and "0 \<le> lh_n s" and "lh_n s < LOGSIZE" and "lh_n s < log_size s - 1" and "1 \<le> outstanding s"
  shows "\<exists>n bl. let t = s\<lparr>lh_block := bl, lh_n := n, bufs := (bufs s)(b := (bufs s b)\<lparr>b_dirty := True\<rparr>)\<rparr> in
    log_write b s = Ok () t \<and> lh_words t = insert (blockno (bufs s b)) (lh_words s) \<and>
    n = lh_n s + (if blockno (bufs s b) \<in> lh_words s then 0 else 1)"
proof -
  note ok = assms(3-5)
  define bn where "bn = blockno (bufs s b)"
  define i where "i = lh_find s bn"
  define n where "n = nat (lh_n s)"
  define t where "t = s\<lparr>lh_block := (lh_block s)(i := sint bn), lh_n := lh_n s + (if i = n then 1 else 0),
    bufs := (bufs s)(b := (bufs s b)\<lparr>b_dirty := True\<rparr>)\<rparr>"
  have in_n: "int i = lh_n s \<longleftrightarrow> i = n" using assms(2) by (auto simp: n_def)
  have "lh_find (s\<lparr>held := h\<rparr>) bn = i" for h by (simp add: lh_find_def i_def cong: option.case_cong)
  then have "log_write b s = Ok () t"
    using ok assms(1) in_n by (auto simp: log_write_def kexec t_def simp flip: bn_def)
  moreover have i: "i \<le> n" "i < n \<Longrightarrow> word_of_int (lh_block s i) = bn" "i = n \<Longrightarrow> j < n \<Longrightarrow> word_of_int (lh_block s j) \<noteq> bn" for j
    using lh_find_spec [of s bn] by (auto simp: i_def n_def)
  have mem: "bn \<in> lh_words s \<longleftrightarrow> i < n" using i by (cases "i = n") (auto simp: lh_words_def n_def)
  have nt: "nat (lh_n t) = (if i = n then Suc n else n)" using assms(2) by (auto simp: t_def n_def)
  have blk: "(word_of_int (lh_block t j) :: uint) = (if j = i then bn else word_of_int (lh_block s j))" for j by (simp add: t_def)
  have "lh_words t = insert bn (lh_words s)"
  proof (cases "i = n")
    case True
    then have "lh_words t = (\<lambda>j. if j = n then bn else word_of_int (lh_block s j)) ` {..<Suc n}"
      unfolding lh_words_def nt blk by simp
    also have "\<dots> = insert bn ((\<lambda>j. word_of_int (lh_block s j)) ` {..<n})"
      unfolding lessThan_Suc image_insert by auto
    finally show ?thesis by (simp add: lh_words_def n_def)
  next
    case False
    then have "(if j = i then bn else word_of_int (lh_block s j)) = word_of_int (lh_block s j)" for j using i(1,2) by auto
    then have "lh_words t = lh_words s" unfolding lh_words_def nt blk using False by (simp add: n_def)
    then show ?thesis using mem False i(1) by auto
  qed
  ultimately show ?thesis
    using mem i(1) unfolding bn_def [symmetric] t_def Let_def
    by (intro exI [of _ "lh_n s + (if i = n then 1 else 0)"] exI [of _ "(lh_block s)(i := sint bn)"]) auto
qed

text \<open>
  C28. \<open>log_write\<close> on every branch. It panics, changing nothing, when the header already holds
  the smaller of \<open>LOGSIZE\<close> and \<open>log.size - 1\<close> blocks, or outside of a transaction. Otherwise
  it adds the buffer's block to the header, pins the buffer by marking it dirty, and the header grows
  by one exactly when the block was not in it: a block written twice is logged once. For a log of
  \<open>LOGSIZE\<close> blocks it thus panics with 29 blocks, although \<open>begin_op\<close> admits three
  operations that reserve 30.
\<close>

theorem log_write_cases:
  assumes "Llog \<notin> set (held s)" and "0 \<le> lh_n s"
  shows "(lh_n s \<ge> LOGSIZE \<or> lh_n s \<ge> log_size s - 1 \<longrightarrow> log_write b s = Stop (Panic ''too big a transaction'') s) \<and>
    (lh_n s < LOGSIZE \<and> lh_n s < log_size s - 1 \<and> outstanding s < 1 \<longrightarrow>
      log_write b s = Stop (Panic ''log_write outside of trans'') s) \<and>
    (lh_n s < LOGSIZE \<and> lh_n s < log_size s - 1 \<and> 1 \<le> outstanding s \<longrightarrow>
      (\<exists>t. log_write b s = Ok () t \<and> lh_words t = insert (blockno (bufs s b)) (lh_words s) \<and>
        lh_n t = lh_n s + (if blockno (bufs s b) \<in> lh_words s then 0 else 1) \<and>
        bufs t = (bufs s)(b := (bufs s b)\<lparr>b_dirty := True\<rparr>) \<and> disk t = disk s \<and> held t = held s))"
proof (intro conjI impI)
  show "log_write b s = Stop (Panic ''too big a transaction'') s" if "lh_n s \<ge> LOGSIZE \<or> lh_n s \<ge> log_size s - 1"
    using that by (auto simp: log_write_def kexec)
  show "log_write b s = Stop (Panic ''log_write outside of trans'') s"
    if "lh_n s < LOGSIZE \<and> lh_n s < log_size s - 1 \<and> outstanding s < 1"
    using that by (simp add: log_write_def kexec)
next
  assume "lh_n s < LOGSIZE \<and> lh_n s < log_size s - 1 \<and> 1 \<le> outstanding s"
  with log_write_ok [OF assms, of b] show "\<exists>t. log_write b s = Ok () t \<and> lh_words t = insert (blockno (bufs s b)) (lh_words s) \<and>
        lh_n t = lh_n s + (if blockno (bufs s b) \<in> lh_words s then 0 else 1) \<and>
        bufs t = (bufs s)(b := (bufs s b)\<lparr>b_dirty := True\<rparr>) \<and> disk t = disk s \<and> held t = held s"
    by (auto simp: Let_def)
qed

theorem log_write_cases_witness:
  "(\<exists>t. log_write 0 txn_ex = Ok () t \<and> lh_n t = 1) \<and>
   log_write 0 (txn_ex\<lparr>lh_n := 29\<rparr>) = Stop (Panic ''too big a transaction'') (txn_ex\<lparr>lh_n := 29\<rparr>)"
proof -
  have f: "held txn_ex = []" "lh_n txn_ex = 1" "log_size txn_ex = 30" "outstanding txn_ex = 1" "blockno (bufs txn_ex 0) = 100"
    "lh_words txn_ex = {100}"
    by (auto simp: txn_ex_def log_ex_fields lh_words_def)
  then show ?thesis
    using log_write_cases [of txn_ex 0] log_write_cases [of "txn_ex\<lparr>lh_n := 29\<rparr>" 0] by auto
qed

end
