(* ===== verification/Inode.thy ===== *)
theory Inode
  imports Log
begin

text \<open>
  The lower half of \<^verbatim>\<open>fs.c\<close>: the free map with the containers' disk accounts, on-disk inodes, the
  inode cache, and the block map of a file. A pointer to an inode is its index in
  \<open>icache.inode\<close>. The loops over the free map and over the inodes of the disk run through the list
  of the values their counter takes. Messages the kernel prints on the console are not part of the
  state here.
\<close>

section \<open>State\<close>

abbreviation (input) NINODE :: nat where "NINODE \<equiv> 50"
abbreviation (input) BPB :: nat where "BPB \<equiv> 4096"
abbreviation (input) MAXFILE :: nat where "MAXFILE \<equiv> 140"
abbreviation (input) ROOTDEV :: uint where "ROOTDEV \<equiv> 1"
abbreviation (input) ROOTINO :: uint where "ROOTINO \<equiv> 1"
abbreviation (input) T_DIR :: ushort where "T_DIR \<equiv> 1"
abbreviation (input) T_FILE :: ushort where "T_FILE \<equiv> 2"
abbreviation (input) T_DEV :: ushort where "T_DEV \<equiv> 3"

record inode =
  i_dev :: uint
  i_inum :: uint
  i_ref :: int
  i_valid :: bool
  i_type :: ushort
  i_major :: ushort
  i_minor :: ushort
  i_nlink :: ushort
  i_size :: uint
  i_addrs :: "nat \<Rightarrow> uint"     \<comment> \<open>\<open>uint addrs[NDIRECT+1]\<close>\<close>

record stat =
  st_type :: ushort
  st_dev :: int
  st_ino :: uint
  st_nlink :: ushort
  st_size :: uint

record fsst = logst +
  sb :: superblock
  inodes :: "nat \<Rightarrow> inode"     \<comment> \<open>\<open>icache.inode\<close>\<close>

definition upd_inode :: "nat \<Rightarrow> (inode \<Rightarrow> inode) \<Rightarrow> ('z fsst_scheme, unit) kop" where
  "upd_inode ip f = kmod (\<lambda>s. s\<lparr>inodes := (inodes s)(ip := f (inodes s ip))\<rparr>)"

section \<open>Blocks\<close>

text \<open>The block that holds inode \<open>i\<close>, and the block of the free map with the bit of block \<open>b\<close>.\<close>

definition IBLOCK :: "uint \<Rightarrow> superblock \<Rightarrow> uint" where
  "IBLOCK i sbk = i div 8 + sb_inodestart sbk"

definition BBLOCK :: "uint \<Rightarrow> superblock \<Rightarrow> uint" where
  "BBLOCK b sbk = b div 4096 + sb_bmapstart sbk"

text \<open>\<open>memset(bp->data, 0, BSIZE)\<close>\<close>

definition zero_block :: "block \<Rightarrow> block" where
  "zero_block d = (\<lambda>k. if k < BSIZE then 0 else d k)"

text \<open>The common frame of a logged change of a block: read it, change the data, log it, release it.\<close>

definition edit_block :: "uint \<Rightarrow> uint \<Rightarrow> (block \<Rightarrow> block) \<Rightarrow> ('z fsst_scheme, unit) kop" where
  "edit_block dev bno f =
     kbind (bread dev bno) (\<lambda>bp.
     kthen (upd_buf bp (\<lambda>bf. bf\<lparr>bdata := f (bdata bf)\<rparr>))
     (kthen (log_write bp)
     (brelse bp)))"

definition bzero :: "uint \<Rightarrow> uint \<Rightarrow> ('z fsst_scheme, unit) kop" where
  "bzero dev bno = edit_block dev bno zero_block"

text \<open>Bit \<open>bi\<close> of the map block \<open>d\<close>, and the block with the bit set and cleared.\<close>

definition map_bit :: "block \<Rightarrow> nat \<Rightarrow> bool" where
  "map_bit d bi \<longleftrightarrow> and (d (bi div 8)) (push_bit (bi mod 8) 1) \<noteq> 0"

definition map_set :: "nat \<Rightarrow> block \<Rightarrow> block" where
  "map_set bi d = d(bi div 8 := or (d (bi div 8)) (push_bit (bi mod 8) 1))"

definition map_clear :: "nat \<Rightarrow> block \<Rightarrow> block" where
  "map_clear bi d = d(bi div 8 := and (d (bi div 8)) (not (push_bit (bi mod 8) 1)))"

text \<open>The outer loop of \<open>balloc\<close>, over the first blocks \<open>b\<close> the blocks of the map describe.\<close>

primrec balloc_loop :: "uint \<Rightarrow> nat \<Rightarrow> nat list \<Rightarrow> ('z fsst_scheme, uint) kop" where
  "balloc_loop dev c [] = panic ''balloc: out of blocks''"
| "balloc_loop dev c (b # bs) =
     kbind (kget sb) (\<lambda>sbk.
     kbind (bread dev (BBLOCK (word_of_nat b) sbk)) (\<lambda>bp.
     kbind (kget (\<lambda>s. bdata (bufs s bp))) (\<lambda>d.
     case find (\<lambda>bi. \<not> map_bit d bi) [0..<min BPB (unat (sb_size sbk) - b)] of
       Some bi \<Rightarrow>
         kthen (upd_buf bp (\<lambda>bf. bf\<lparr>bdata := map_set bi (bdata bf)\<rparr>))
         (kthen (log_write bp)
         (kthen (brelse bp)
         (kthen (bzero dev (word_of_nat (b + bi)))
         (kthen (upd_cont c (\<lambda>cc. cc\<lparr>udsk := udsk cc + 512\<rparr>))
         (ret (word_of_nat (b + bi)))))))
     | None \<Rightarrow> kthen (brelse bp) (balloc_loop dev c bs))))"

definition balloc :: "uint \<Rightarrow> ('z fsst_scheme, uint) kop" where
  "balloc dev =
     kbind mycont (\<lambda>c.
     kbind (kget (\<lambda>s. (conts s c, sb s))) (\<lambda>(cc, sbk).
     if udsk cc + 512 > mdsk cc then kthen (ckill c) (ret 0)
     else balloc_loop dev c (map (\<lambda>k. BPB * k) [0..<(unat (sb_size sbk) + (BPB - 1)) div BPB])))"

definition bfree :: "uint \<Rightarrow> uint \<Rightarrow> ('z fsst_scheme, unit) kop" where
  "bfree dev b =
     kbind mycont (\<lambda>c.
     kbind (kget (\<lambda>s. udsk (conts s c))) (\<lambda>u.
     kthen (kwhen (u > 512) (upd_cont c (\<lambda>cc. cc\<lparr>udsk := udsk cc - 512\<rparr>)))
     (kbind (readsb dev) (\<lambda>sbk.
      kthen (kmod (\<lambda>s. s\<lparr>sb := sbk\<rparr>))
     (kbind (bread dev (BBLOCK b sbk)) (\<lambda>bp.
      kbind (kget (\<lambda>s. bdata (bufs s bp))) (\<lambda>d.
      if \<not> map_bit d (unat b mod BPB) then panic ''freeing free block''
      else
        kthen (upd_buf bp (\<lambda>bf. bf\<lparr>bdata := map_clear (unat b mod BPB) (bdata bf)\<rparr>))
        (kthen (log_write bp)
        (brelse bp)))))))))"

section \<open>Inodes\<close>

definition iinit :: "uint \<Rightarrow> ('z fsst_scheme, unit) kop" where
  "iinit dev =
     kthen (kfor [0..<NINODE] (\<lambda>i. initsleeplock (InodeLock i)))
     (kbind (readsb dev) (\<lambda>sbk. kmod (\<lambda>s. s\<lparr>sb := sbk\<rparr>)))"

definition iget :: "uint \<Rightarrow> uint \<Rightarrow> ('z fsst_scheme, nat) kop" where
  "iget dev inum =
     kthen (acquire Licache)
     (kbind (kget inodes) (\<lambda>I.
      case find (\<lambda>ip. i_ref (I ip) > 0 \<and> i_dev (I ip) = dev \<and> i_inum (I ip) = inum) [0..<NINODE] of
        Some ip \<Rightarrow>
          kthen (upd_inode ip (\<lambda>i. i\<lparr>i_ref := i_ref i + 1\<rparr>))
          (kthen (release Licache)
          (ret ip))
      | None \<Rightarrow>
          (case find (\<lambda>ip. i_ref (I ip) = 0) [0..<NINODE] of
             None \<Rightarrow> panic ''iget: no inodes''
           | Some ip \<Rightarrow>
               kthen (upd_inode ip (\<lambda>i. i\<lparr>i_dev := dev, i_inum := inum, i_ref := 1, i_valid := False\<rparr>))
               (kthen (release Licache)
               (ret ip)))))"

definition dinode0 :: "ushort \<Rightarrow> dinode" where
  "dinode0 ty = \<lparr>di_type = ty, di_major = 0, di_minor = 0, di_nlink = 0, di_size = 0, di_addrs = (\<lambda>_. 0)\<rparr>"

primrec ialloc_loop :: "uint \<Rightarrow> ushort \<Rightarrow> nat list \<Rightarrow> ('z fsst_scheme, nat) kop" where
  "ialloc_loop dev ty [] = panic ''ialloc: no inodes''"
| "ialloc_loop dev ty (inum # is) =
     kbind (kget sb) (\<lambda>sbk.
     kbind (bread dev (IBLOCK (word_of_nat inum) sbk)) (\<lambda>bp.
     kbind (kget (\<lambda>s. get_dinode (bdata (bufs s bp)) (inum mod IPB))) (\<lambda>dip.
     if di_type dip = 0
     then kthen (upd_buf bp (\<lambda>bf. bf\<lparr>bdata := put_dinode (bdata bf) (inum mod IPB) (dinode0 ty)\<rparr>))
         (kthen (log_write bp)
         (kthen (brelse bp)
         (iget dev (word_of_nat inum))))
     else kthen (brelse bp) (ialloc_loop dev ty is))))"

definition ialloc :: "uint \<Rightarrow> ushort \<Rightarrow> ('z fsst_scheme, nat) kop" where
  "ialloc dev ty = kbind (kget sb) (\<lambda>sbk. ialloc_loop dev ty [1..<unat (sb_ninodes sbk)])"

text \<open>The disk's part of an in-memory inode, and an in-memory inode filled from the disk.\<close>

definition to_dinode :: "inode \<Rightarrow> dinode" where
  "to_dinode i = \<lparr>di_type = i_type i, di_major = i_major i, di_minor = i_minor i, di_nlink = i_nlink i,
     di_size = i_size i, di_addrs = i_addrs i\<rparr>"

definition of_dinode :: "dinode \<Rightarrow> inode \<Rightarrow> inode" where
  "of_dinode d i = i\<lparr>i_type := di_type d, i_major := di_major d, i_minor := di_minor d, i_nlink := di_nlink d,
     i_size := di_size d, i_addrs := di_addrs d\<rparr>"

definition iupdate :: "nat \<Rightarrow> ('z fsst_scheme, unit) kop" where
  "iupdate ip =
     kbind (kget (\<lambda>s. (inodes s ip, sb s))) (\<lambda>(i, sbk).
     edit_block (i_dev i) (IBLOCK (i_inum i) sbk) (\<lambda>d. put_dinode d (unat (i_inum i) mod IPB) (to_dinode i)))"

definition idup :: "nat \<Rightarrow> ('z fsst_scheme, nat) kop" where
  "idup ip =
     kthen (acquire Licache)
     (kthen (upd_inode ip (\<lambda>i. i\<lparr>i_ref := i_ref i + 1\<rparr>))
     (kthen (release Licache)
     (ret ip)))"

definition ilock :: "nat option \<Rightarrow> ('z fsst_scheme, unit) kop" where
  "ilock mip =
     (case mip of None \<Rightarrow> panic ''ilock''
      | Some ip \<Rightarrow>
          kbind (kget (\<lambda>s. inodes s ip)) (\<lambda>i.
          if i_ref i < 1 then panic ''ilock''
          else
            kthen (acquiresleep (InodeLock ip))
            (kbind (kget (\<lambda>s. (inodes s ip, sb s))) (\<lambda>(i, sbk).
             kwhen (\<not> i_valid i)
               (kbind (bread (i_dev i) (IBLOCK (i_inum i) sbk)) (\<lambda>bp.
                kbind (kget (\<lambda>s. get_dinode (bdata (bufs s bp)) (unat (i_inum i) mod IPB))) (\<lambda>dip.
                kthen (upd_inode ip (of_dinode dip))
                (kthen (brelse bp)
                (kthen (upd_inode ip (\<lambda>i. i\<lparr>i_valid := True\<rparr>))
                (kwhen (di_type dip = 0) (panic ''ilock: no type'')))))))))))"

definition iunlock :: "nat option \<Rightarrow> ('z fsst_scheme, unit) kop" where
  "iunlock mip =
     (case mip of None \<Rightarrow> panic ''iunlock''
      | Some ip \<Rightarrow>
          kbind (holdingsleep (InodeLock ip)) (\<lambda>h.
          kbind (kget (\<lambda>s. i_ref (inodes s ip))) (\<lambda>r.
          if \<not> h \<or> r < 1 then panic ''iunlock''
          else releasesleep (InodeLock ip))))"

section \<open>The blocks of a file\<close>

definition bmap :: "nat \<Rightarrow> uint \<Rightarrow> ('z fsst_scheme, uint) kop" where
  "bmap ip bn =
     kbind (kget (\<lambda>s. inodes s ip)) (\<lambda>i.
     if bn < 12
     then (if i_addrs i (unat bn) = 0
           then kbind (balloc (i_dev i)) (\<lambda>addr.
                kthen (upd_inode ip (\<lambda>i. i\<lparr>i_addrs := (i_addrs i)(unat bn := addr)\<rparr>))
                (ret addr))
           else ret (i_addrs i (unat bn)))
     else if bn - 12 < 128
     then kbind (if i_addrs i NDIRECT = 0
                 then kbind (balloc (i_dev i)) (\<lambda>addr.
                      kthen (upd_inode ip (\<lambda>i. i\<lparr>i_addrs := (i_addrs i)(NDIRECT := addr)\<rparr>))
                      (ret addr))
                 else ret (i_addrs i NDIRECT)) (\<lambda>ind.
          kbind (bread (i_dev i) ind) (\<lambda>bp.
          kbind (kget (\<lambda>s. bld32 (bdata (bufs s bp)) (4 * unat (bn - 12)))) (\<lambda>a.
          if a = 0
          then kbind (balloc (i_dev i)) (\<lambda>addr.
               kthen (upd_buf bp (\<lambda>bf. bf\<lparr>bdata := bst32 (bdata bf) (4 * unat (bn - 12)) addr\<rparr>))
               (kthen (log_write bp)
               (kthen (brelse bp)
               (ret addr))))
          else kthen (brelse bp) (ret a))))
     else panic ''bmap: out of range'')"

definition itrunc_direct :: "nat \<Rightarrow> nat \<Rightarrow> ('z fsst_scheme, unit) kop" where
  "itrunc_direct ip k =
     kbind (kget (\<lambda>s. inodes s ip)) (\<lambda>i.
     kwhen (i_addrs i k \<noteq> 0)
       (kthen (bfree (i_dev i) (i_addrs i k))
       (upd_inode ip (\<lambda>i. i\<lparr>i_addrs := (i_addrs i)(k := 0)\<rparr>))))"

definition itrunc_indirect :: "nat \<Rightarrow> nat \<Rightarrow> nat \<Rightarrow> ('z fsst_scheme, unit) kop" where
  "itrunc_indirect ip bp j =
     kbind (kget (\<lambda>s. (i_dev (inodes s ip), bld32 (bdata (bufs s bp)) (4 * j)))) (\<lambda>(dev, a).
     kwhen (a \<noteq> 0) (bfree dev a))"

definition itrunc :: "nat \<Rightarrow> ('z fsst_scheme, unit) kop" where
  "itrunc ip =
     kthen (kfor [0..<NDIRECT] (itrunc_direct ip))
     (kbind (kget (\<lambda>s. inodes s ip)) (\<lambda>i.
      kthen (kwhen (i_addrs i NDIRECT \<noteq> 0)
        (kbind (bread (i_dev i) (i_addrs i NDIRECT)) (\<lambda>bp.
         kthen (kfor [0..<NINDIRECT] (itrunc_indirect ip bp))
         (kthen (brelse bp)
         (kthen (bfree (i_dev i) (i_addrs i NDIRECT))
         (upd_inode ip (\<lambda>i. i\<lparr>i_addrs := (i_addrs i)(NDIRECT := 0)\<rparr>)))))))
     (kthen (upd_inode ip (\<lambda>i. i\<lparr>i_size := 0\<rparr>))
     (iupdate ip))))"

definition iput :: "nat \<Rightarrow> ('z fsst_scheme, unit) kop" where
  "iput ip =
     kthen (acquiresleep (InodeLock ip))
     (kbind (kget (\<lambda>s. inodes s ip)) (\<lambda>i.
      kthen (kwhen (i_valid i \<and> i_nlink i = 0)
        (kthen (acquire Licache)
        (kbind (kget (\<lambda>s. i_ref (inodes s ip))) (\<lambda>r.
         kthen (release Licache)
        (kwhen (r = 1)
          (kthen (itrunc ip)
          (kthen (upd_inode ip (\<lambda>i. i\<lparr>i_type := 0\<rparr>))
          (kthen (iupdate ip)
          (upd_inode ip (\<lambda>i. i\<lparr>i_valid := False\<rparr>))))))))))
     (kthen (releasesleep (InodeLock ip))
     (kthen (acquire Licache)
     (kthen (upd_inode ip (\<lambda>i. i\<lparr>i_ref := i_ref i - 1\<rparr>))
     (release Licache))))))"

definition iunlockput :: "nat \<Rightarrow> ('z fsst_scheme, unit) kop" where
  "iunlockput ip = kthen (iunlock (Some ip)) (iput ip)"

definition stati :: "nat \<Rightarrow> ('z fsst_scheme, stat) kop" where
  "stati ip = kget (\<lambda>s. let i = inodes s ip in
     \<lparr>st_type = i_type i, st_dev = sint (i_dev i), st_ino = i_inum i, st_nlink = i_nlink i, st_size = i_size i\<rparr>)"

section \<open>Changing a block in a transaction\<close>

text \<open>What the operations on blocks leave alone: everything but the buffers with their locks, the
  header of the log in memory, and processes they wake.\<close>

definition mild :: "'z logst_scheme \<Rightarrow> 'z logst_scheme \<Rightarrow> bool" where
  "mild s t \<longleftrightarrow> (\<exists>P L B n bl. t = s\<lparr>procs := P, slocks := L, bufs := B, lh_n := n, lh_block := bl\<rparr> \<and>
     (\<forall>p. P p = procs s p \<or> (pstate (procs s p) = SLEEPING \<and> P p = (procs s p)\<lparr>pstate := RUNNABLE\<rparr>)) \<and>
     (\<forall>j. L (InodeLock j) = slocks s (InodeLock j)))"

lemma mildE:
  assumes "mild s t"
  obtains P L B n bl where "t = s\<lparr>procs := P, slocks := L, bufs := B, lh_n := n, lh_block := bl\<rparr>"
    and "\<And>p. P p = procs s p \<or> (pstate (procs s p) = SLEEPING \<and> P p = (procs s p)\<lparr>pstate := RUNNABLE\<rparr>)"
    and "\<And>j. L (InodeLock j) = slocks s (InodeLock j)"
  using assms unfolding mild_def by blast

lemma quiet_mild: "quiet s t \<Longrightarrow> mild s t"
proof -
  assume "quiet s t"
  then obtain P L B where t: "t = s\<lparr>procs := P, slocks := L, bufs := B\<rparr>"
    "\<forall>p. P p = procs s p \<or> (pstate (procs s p) = SLEEPING \<and> P p = (procs s p)\<lparr>pstate := RUNNABLE\<rparr>)"
    "\<forall>j. L (InodeLock j) = slocks s (InodeLock j)"
    unfolding quiet_def by blast
  have "t = s\<lparr>procs := P, slocks := L, bufs := B, lh_n := lh_n s, lh_block := lh_block s\<rparr>" using t(1) by simp
  with t(2,3) show "mild s t" unfolding mild_def by blast
qed

lemma mild_refl [simp]: "mild s s"
  by (simp add: quiet_mild)

lemma mildI: "t = s\<lparr>bufs := B, lh_n := n, lh_block := bl\<rparr> \<Longrightarrow> mild s t"
  unfolding mild_def
  by (rule exI [of _ "procs s"], rule exI [of _ "slocks s"], rule exI [of _ B], rule exI [of _ n], rule exI [of _ bl]) simp

lemma mild_trans: "mild s t \<Longrightarrow> mild t u \<Longrightarrow> mild s u"
proof -
  assume "mild s t" "mild t u"
  from \<open>mild s t\<close> obtain P L B n bl where t: "t = s\<lparr>procs := P, slocks := L, bufs := B, lh_n := n, lh_block := bl\<rparr>"
    "\<And>p. P p = procs s p \<or> (pstate (procs s p) = SLEEPING \<and> P p = (procs s p)\<lparr>pstate := RUNNABLE\<rparr>)"
    "\<And>j. L (InodeLock j) = slocks s (InodeLock j)" by (rule mildE) blast
  from \<open>mild t u\<close> obtain P' L' B' n' bl' where u: "u = t\<lparr>procs := P', slocks := L', bufs := B', lh_n := n', lh_block := bl'\<rparr>"
    "\<And>p. P' p = procs t p \<or> (pstate (procs t p) = SLEEPING \<and> P' p = (procs t p)\<lparr>pstate := RUNNABLE\<rparr>)"
    "\<And>j. L' (InodeLock j) = slocks t (InodeLock j)" by (rule mildE) blast
  have "u = s\<lparr>procs := P', slocks := L', bufs := B', lh_n := n', lh_block := bl'\<rparr>" using t(1) u(1) by simp
  moreover have "P' p = procs s p \<or> (pstate (procs s p) = SLEEPING \<and> P' p = (procs s p)\<lparr>pstate := RUNNABLE\<rparr>)" for p
    using t(2) [of p] u(2) [of p] t(1) by auto
  moreover have "\<forall>j. L' (InodeLock j) = slocks s (InodeLock j)" using t(1,3) u(3) by simp
  ultimately show "mild s u" unfolding mild_def by blast
qed

lemma mild_fields:
  assumes "mild s t"
  shows "held t = held s" "conts t = conts s" "cur t = cur s" "mem t = mem s" "disk t = disk s"
    "disksize t = disksize s" "issued t = issued s" "rows_ok t = rows_ok s" "curcont t = curcont s"
    "outstanding t = outstanding s" "log_size t = log_size s" "logst.more t = logst.more s"
    "slocks t (InodeLock j) = slocks s (InodeLock j)" "pid (procs t p) = pid (procs s p)"
proof -
  obtain P L B n bl where t: "t = s\<lparr>procs := P, slocks := L, bufs := B, lh_n := n, lh_block := bl\<rparr>"
    "\<And>p. P p = procs s p \<or> (pstate (procs s p) = SLEEPING \<and> P p = (procs s p)\<lparr>pstate := RUNNABLE\<rparr>)"
    "\<And>j. L (InodeLock j) = slocks s (InodeLock j)" using assms by (rule mildE) blast
  have P: "pcont (P p) = pcont (procs s p) \<and> pid (P p) = pid (procs s p)" for p using t(2) [of p] by auto
  show "curcont t = curcont s" by (simp add: t(1) P curcont_def split: option.split)
  show "held t = held s" "conts t = conts s" "cur t = cur s" "mem t = mem s" "disk t = disk s"
    "disksize t = disksize s" "issued t = issued s" "rows_ok t = rows_ok s"
    "outstanding t = outstanding s" "log_size t = log_size s" "logst.more t = logst.more s"
    "slocks t (InodeLock j) = slocks s (InodeLock j)" "pid (procs t p) = pid (procs s p)"
    by (simp_all add: t(1,3) P rows_ok_def)
qed

lemma mild_fs: "mild s t \<Longrightarrow> sb t = sb s \<and> inodes t = inodes s"
  by (erule mildE) simp

text \<open>The block \<open>b\<close> has been changed in the cache to \<open>d\<close> and recorded in the log.\<close>

definition written :: "'z logst_scheme \<Rightarrow> uint \<Rightarrow> block \<Rightarrow> 'z logst_scheme \<Rightarrow> bool" where
  "written s b d u \<longleftrightarrow> mild s u \<and> (\<exists>ys. bc_ok ys u) \<and> idle u \<and> view u = (view s)(b := d) \<and>
     (\<forall>c. dirtyb u c \<longleftrightarrow> dirtyb s c \<or> c = b) \<and> lh_words u = insert b (lh_words s) \<and>
     lh_n u = lh_n s + (if b \<in> lh_words s then 0 else 1)"

lemma log_dirty:
  assumes "bc_ok xs s" and "bheld b i s"
    and "bufs t = (bufs s)(i := (bufs s i)\<lparr>bdata := d, b_dirty := True\<rparr>)" and "slocks t = slocks s" and "disk t = disk s"
  shows "bc_ok xs t" and "bheld b i t" and "view t = (view s)(b := d)" and "dset t = insert i (dset s)"
    and "dirtyb t c \<longleftrightarrow> dirtyb s c \<or> c = b"
proof -
  let ?bf = "(bufs s i)\<lparr>bdata := d, b_dirty := True\<rparr>"
  have h: "i < NBUF" "caches b (bufs s i)" "blocked s i" using assms(2) by (auto simp: bheld_def)
  have bl: "blocked t k = blocked s k" for k by (simp add: blocked_def assms(4))
  show ok: "bc_ok xs t"
  proof (rule bc_ok_upd [OF assms(1) h(1) assms(3)])
    fix j assume j: "j < NBUF" "j \<noteq> i" "keyed (bdev ?bf) (blockno ?bf) (bufs s j)"
    have "keyed (bdev ?bf) (blockno ?bf) (bufs s i)" by (simp add: keyed_def)
    with bc_ok_uniq [OF assms(1) j(1) h(1) j(3)] j(2) show "bdev ?bf = 0" by blast
  qed (use bl assms(5) h bc_ok_buf(1) [OF assms(1) h(1)] in \<open>simp_all add: caches_def\<close>)
  show "bheld b i t" using h bl assms(3) by (simp add: bheld_def caches_def)
  show "view t = (view s)(b := d)"
  proof (rule ext)
    fix c show "view t c = ((view s)(b := d)) c"
      using view_upd [OF assms(1) ok h(1) assms(3,5), of c] h(2) by (auto simp: caches_def)
  qed
  show ds: "dset t = insert i (dset s)" using h(1) assms(3) by (auto simp: dset_def)
  have "caches c (bufs t k) = caches c (bufs s k)" for k using assms(3) by (auto simp: caches_def)
  then show "dirtyb t c \<longleftrightarrow> dirtyb s c \<or> c = b" using h(2) unfolding dirtyb_def ds by (auto simp: caches_def)
qed

lemma log_one:
  assumes "bready s" and "bc_ok xs s" and "bheld b i s" and "refcnt (bufs s i) = 1"
    and "\<And>k. k < NBUF \<Longrightarrow> k \<noteq> i \<Longrightarrow> \<not> blocked s k \<and> refcnt (bufs s k) = 0"
    and "0 \<le> lh_n s" and "lh_n s < LOGSIZE" and "lh_n s < log_size s - 1" and "1 \<le> outstanding s"
  shows "\<exists>u. kthen (upd_buf i (\<lambda>bf. bf\<lparr>bdata := f (bdata bf)\<rparr>)) (kthen (log_write i) (brelse i)) s = Ok () u \<and>
    written s b (f (bdata (bufs s i))) u"
proof -
  define d where "d = f (bdata (bufs s i))"
  define s1 where "s1 = s\<lparr>bufs := (bufs s)(i := (bufs s i)\<lparr>bdata := d\<rparr>)\<rparr>"
  have h: "i < NBUF" "caches b (bufs s i)" using assms(3) by (auto simp: bheld_def)
  have s1: "Llog \<notin> set (held s1)" "0 \<le> lh_n s1" "lh_n s1 < LOGSIZE" "lh_n s1 < log_size s1 - 1" "1 \<le> outstanding s1"
    "lh_words s1 = lh_words s" "blockno (bufs s1 i) = b"
    using assms(1,6-9) h(2) by (auto simp: s1_def bready_def lh_words_def caches_def)
  obtain n bl where lw: "log_write i s1 = Ok () (s1\<lparr>lh_block := bl, lh_n := n, bufs := (bufs s1)(i := (bufs s1 i)\<lparr>b_dirty := True\<rparr>)\<rparr>)"
    "lh_words (s1\<lparr>lh_block := bl, lh_n := n, bufs := (bufs s1)(i := (bufs s1 i)\<lparr>b_dirty := True\<rparr>)\<rparr>) = insert b (lh_words s)"
    "n = lh_n s + (if b \<in> lh_words s then 0 else 1)"
    using log_write_ok [OF s1(1-5), of i] unfolding s1(6,7) Let_def by (auto simp: s1_def)
  define t where "t = s1\<lparr>lh_block := bl, lh_n := n, bufs := (bufs s1)(i := (bufs s1 i)\<lparr>b_dirty := True\<rparr>)\<rparr>"
  have tb: "bufs t = (bufs s)(i := (bufs s i)\<lparr>bdata := d, b_dirty := True\<rparr>)" "slocks t = slocks s" "disk t = disk s" "bready t"
    using assms(1) by (auto simp: t_def s1_def bready_def rows_ok_def)
  note ld = log_dirty [OF assms(2,3) tb(1-3)]
  have dt: "b_dirty (bufs t i)" "refcnt (bufs t i) = 1" using tb(1) assms(4) by simp_all
  with brelse_spec [OF tb(4) ld(1,2)] obtain u ys where u: "brelse i t = Ok () u" "quiet t u" "bc_ok ys u" "view u = view t"
    "\<not> blocked u i" "\<forall>k. k \<noteq> i \<longrightarrow> blocked u k = blocked t k"
    "\<forall>k. core (bufs u k) = core (if k = i then (bufs t i)\<lparr>refcnt := refcnt (bufs t i) - 1\<rparr> else bufs t k)" by blast
  have core: "core (bufs u k) = core ((bufs t k)\<lparr>refcnt := (if k = i then 0 else refcnt (bufs t k))\<rparr>)" for k
    using u(7) [rule_format, of k] dt(2) by (auto simp: core_def)
  have bt: "blocked t k = blocked s k" for k by (simp add: blocked_def tb(2))
  have "idle u"
    unfolding idle_def
  proof (intro allI impI)
    fix k assume "k < NBUF"
    then show "\<not> blocked u k \<and> refcnt (bufs u k) = 0"
      using core_eqs(5) [OF core, of k] assms(5) [of k] tb(1) u(5,6) bt by (cases "k = i") auto
  qed
  moreover have "dirtyb u c \<longleftrightarrow> dirtyb t c" for c
    using core_eqs(2) [OF core] core_eqs(8) [OF core] by (auto simp: dirtyb_def dset_def caches_def)
  moreover have "mild s u"
  proof (rule mild_trans [OF _ quiet_mild [OF u(2)]])
    show "mild s t" by (rule mildI [where B = "bufs t" and n = n and bl = bl]) (simp add: t_def s1_def)
  qed
  moreover have "lh_words u = lh_words t" "lh_n u = lh_n t" using u(2) by (auto simp: quiet_def lh_words_def)
  moreover have "kthen (upd_buf i (\<lambda>bf. bf\<lparr>bdata := f (bdata bf)\<rparr>)) (kthen (log_write i) (brelse i)) s = Ok () u"
    using lw(1) u(1) by (simp add: kexec t_def s1_def d_def)
  ultimately show ?thesis
    using u(3,4) ld(3,5) lw(2,3) unfolding written_def d_def [symmetric] by (intro exI [of _ u]) (auto simp: t_def)
qed

text \<open>Between two operations on blocks, with room for \<open>k\<close> more blocks in the current transaction: no buffer is
  in use, and the buffers pinned by the log are the ones in its header. With \<open>k = 0\<close> there need not
  be a transaction.\<close>

definition in_txn :: "nat \<Rightarrow> 'z logst_scheme \<Rightarrow> bool" where
  "in_txn k s \<longleftrightarrow> bready s \<and> (\<exists>xs. bc_ok xs s) \<and> idle s \<and> (0 < k \<longrightarrow> 1 \<le> outstanding s) \<and> 0 \<le> lh_n s \<and>
     lh_n s + int k < LOGSIZE \<and> lh_n s + int k < log_size s \<and> (\<forall>c. dirtyb s c \<longrightarrow> c \<in> lh_words s)"

lemma in_txn_clean:
  assumes "in_txn k s"
  shows "\<exists>i < NBUF. i \<notin> dset s"
proof (rule ccontr)
  assume "\<not> ?thesis"
  then have ds: "dset s = {..<NBUF}" by (auto simp: dset_def)
  obtain xs where ok: "bc_ok xs s" using assms by (auto simp: in_txn_def)
  have val: "caches (blockno (bufs s i)) (bufs s i)" if "i \<in> dset s" for i
    using that bc_ok_buf(2,3) [OF ok, of i] by (auto simp: dset_def caches_def)
  have "inj_on (\<lambda>i. blockno (bufs s i)) (dset s)"
    using val bc_ok_uniq [OF ok, of _ _ 1] by (intro inj_onI) (auto simp: dset_def caches_def keyed_def)
  then have "card ((\<lambda>i. blockno (bufs s i)) ` dset s) = NBUF" using ds by (simp add: card_image)
  moreover have "(\<lambda>i. blockno (bufs s i)) ` dset s \<subseteq> lh_words s"
    using val assms unfolding in_txn_def dirtyb_def by blast
  moreover have "card (lh_words s) \<le> nat (lh_n s)" "finite (lh_words s)"
    using card_image_le [of "{..<nat (lh_n s)}"] by (auto simp: lh_words_def)
  ultimately have "NBUF \<le> nat (lh_n s)" using card_mono by (metis le_trans)
  with assms show False by (auto simp: in_txn_def)
qed

lemma in_txn_less: "in_txn k s \<Longrightarrow> j \<le> k \<Longrightarrow> in_txn j s"
  by (auto simp: in_txn_def)

lemma in_txn_mild:
  assumes "in_txn k s" and "mild s u" and "\<exists>ys. bc_ok ys u" and "idle u" and "lh_n u + int j \<le> lh_n s + int k"
    and "j \<le> k" and "lh_n s \<le> lh_n u" and "\<And>c. dirtyb u c \<Longrightarrow> c \<in> lh_words u"
  shows "in_txn j u"
  using assms mild_fields [OF assms(2)] by (auto simp: in_txn_def bready_def)

text \<open>The protocol of the clients of the cache: a block is read, and then either released or changed,
  logged and released.\<close>

lemma bread_txn:
  assumes "in_txn k s" and "b < word_of_int (disksize s)"
  shows "\<exists>i t. bread 1 b s = Ok i t \<and> quiet s t \<and> bheld b i t \<and> bdata (bufs t i) = view s b \<and>
    (\<exists>u. brelse i t = Ok () u \<and> mild s u \<and> in_txn k u \<and> view u = view s) \<and>
    (\<forall>f. 0 < k \<longrightarrow> (\<exists>u. kthen (upd_buf i (\<lambda>bf. bf\<lparr>bdata := f (bdata bf)\<rparr>)) (kthen (log_write i) (brelse i)) t = Ok () u \<and>
      mild s u \<and> in_txn (k - 1) u \<and> view u = (view s)(b := f (view s b))))"
proof -
  obtain xs where s: "bready s" "bc_ok xs s" "idle s" using assms(1) by (auto simp: in_txn_def)
  obtain i0 where "i0 < NBUF" "i0 \<notin> dset s" using in_txn_clean [OF assms(1)] by blast
  from bread_one [OF s assms(2) this] obtain i t where t: "bread 1 b s = Ok i t" "quiet s t" "bc_ok xs t" "bheld b i t"
    "bdata (bufs t i) = view s b" "view t = view s" "refcnt (bufs t i) = 1"
    "\<not> b_dirty (bufs t i) \<longrightarrow> bdata (bufs t i) = disk s (unat b)"
    "\<forall>k < NBUF. k \<noteq> i \<longrightarrow> bufs t k = bufs s k \<and> \<not> blocked t k" "\<forall>c. dirtyb t c = dirtyb s c" by blast
  have rt: "bready t" "disk t = disk s" using bready_quiet [OF t(2) s(1)] quiet_fields(5) [OF t(2)] by auto
  have lh: "lh_n t = lh_n s" "lh_words t = lh_words s" "log_size t = log_size s" "outstanding t = outstanding s"
    using t(2) by (auto simp: quiet_def lh_words_def)
  have others: "\<not> blocked t j \<and> refcnt (bufs t j) = 0" if "j < NBUF" "j \<noteq> i" for j using that t(9) s(3) by (simp add: idle_def)
  have "\<exists>u. brelse i t = Ok () u \<and> mild s u \<and> in_txn k u \<and> view u = view s"
  proof -
    from brelse_spec [OF rt(1) t(3,4)] t(8) rt(2) obtain u ys where u: "brelse i t = Ok () u" "quiet t u" "bc_ok ys u" "view u = view t"
      "\<not> blocked u i" "\<forall>j. j \<noteq> i \<longrightarrow> blocked u j = blocked t j"
      "\<forall>j. core (bufs u j) = core (if j = i then (bufs t i)\<lparr>refcnt := refcnt (bufs t i) - 1\<rparr> else bufs t j)" by auto
    have core: "core (bufs u j) = core ((bufs t j)\<lparr>refcnt := (if j = i then 0 else refcnt (bufs t j))\<rparr>)" for j
      using u(7) [rule_format, of j] t(7) by (auto simp: core_def)
    have idle: "idle u" unfolding idle_def
    proof (intro allI impI)
      fix j assume "j < NBUF"
      then show "\<not> blocked u j \<and> refcnt (bufs u j) = 0"
        using core_eqs(5) [OF core, of j] others [of j] u(5,6) by (cases "j = i") auto
    qed
    have dir: "dirtyb u c \<longleftrightarrow> dirtyb t c" for c
      using core_eqs(2) [OF core] core_eqs(8) [OF core] by (auto simp: dirtyb_def dset_def caches_def)
    have m: "mild s u" by (rule mild_trans [OF quiet_mild [OF t(2)] quiet_mild [OF u(2)]])
    have "lh_n u = lh_n t" "lh_words u = lh_words t" using u(2) by (auto simp: quiet_def lh_words_def)
    then have "in_txn k u"
      using assms(1) t(10) lh dir by (intro in_txn_mild [OF assms(1) m _ idle]) (use u(3) in \<open>auto simp: in_txn_def\<close>)
    with u(1,4) t(6) m show ?thesis by auto
  qed
  moreover have "\<exists>u. kthen (upd_buf i (\<lambda>bf. bf\<lparr>bdata := f (bdata bf)\<rparr>)) (kthen (log_write i) (brelse i)) t = Ok () u \<and>
      mild s u \<and> in_txn (k - 1) u \<and> view u = (view s)(b := f (view s b))" if "0 < k" for f
  proof -
    have "0 \<le> lh_n t" "lh_n t < LOGSIZE" "lh_n t < log_size t - 1" "1 \<le> outstanding t" using assms(1) that lh by (auto simp: in_txn_def)
    from log_one [OF rt(1) t(3,4,7) others this, of f] obtain u where
      u: "kthen (upd_buf i (\<lambda>bf. bf\<lparr>bdata := f (bdata bf)\<rparr>)) (kthen (log_write i) (brelse i)) t = Ok () u"
      "written t b (f (view s b)) u" using t(5) by auto
    have m: "mild s u" using mild_trans [OF quiet_mild [OF t(2)]] u(2) by (auto simp: written_def)
    have "in_txn (k - 1) u"
      by (rule in_txn_mild [OF assms(1) m]) (use u(2) assms(1) t(10) lh that in \<open>auto simp: written_def in_txn_def\<close>)
    with u m t(6) show ?thesis by (auto simp: written_def)
  qed
  ultimately show ?thesis using t(1,2,4,5) by blast
qed

lemma edit_block_spec:
  assumes "in_txn (Suc k) s" and "b < word_of_int (disksize s)"
  shows "\<exists>t. edit_block 1 b f s = Ok () t \<and> in_txn k t \<and> mild s t \<and> view t = (view s)(b := f (view s b))"
proof -
  obtain i t where t: "bread 1 b s = Ok i t" and
    ed: "\<forall>f. 0 < Suc k \<longrightarrow> (\<exists>u. kthen (upd_buf i (\<lambda>bf. bf\<lparr>bdata := f (bdata bf)\<rparr>)) (kthen (log_write i) (brelse i)) t = Ok () u \<and>
      mild s u \<and> in_txn (Suc k - 1) u \<and> view u = (view s)(b := f (view s b)))"
    using bread_txn [OF assms] by blast
  from ed [rule_format, of f] obtain u where
    "kthen (upd_buf i (\<lambda>bf. bf\<lparr>bdata := f (bdata bf)\<rparr>)) (kthen (log_write i) (brelse i)) t = Ok () u"
    "mild s u" "in_txn k u" "view u = (view s)(b := f (view s b))" by auto
  with t show ?thesis by (auto simp: edit_block_def kexec)
qed

text \<open>Reading a part of a block.\<close>

definition peek_block :: "uint \<Rightarrow> uint \<Rightarrow> (block \<Rightarrow> 'a) \<Rightarrow> ('z bio_scheme, 'a) kop" where
  "peek_block dev b g =
     kbind (bread dev b) (\<lambda>bp.
     kbind (kget (\<lambda>s. g (bdata (bufs s bp)))) (\<lambda>d.
     kthen (brelse bp) (ret d)))"

lemma readsb_peek: "readsb dev = peek_block dev 1 get_sb"
  by (simp add: readsb_def peek_block_def)

lemma peek_block_spec:
  assumes "in_txn k s" and "b < word_of_int (disksize s)"
  shows "\<exists>t. peek_block 1 b g s = Ok (g (view s b)) t \<and> in_txn k t \<and> mild s t \<and> view t = view s"
proof -
  obtain i t u where t: "bread 1 b s = Ok i t" "bdata (bufs t i) = view s b"
    "brelse i t = Ok () u" "mild s u" "in_txn k u" "view u = view s"
    using bread_txn [OF assms] by blast
  then show ?thesis by (auto simp: peek_block_def kexec)
qed

section \<open>The contract of the block store\<close>

text \<open>What the file system relies on: a store of blocks with a budget for changes, an operation that reads
  and one that changes a block, and nothing else touched.\<close>

locale block_store =
  fixes ready :: "nat \<Rightarrow> 's \<Rightarrow> bool"
    and content :: "'s \<Rightarrow> uint \<Rightarrow> block"
    and valid :: "'s \<Rightarrow> uint \<Rightarrow> bool"
    and same :: "'s \<Rightarrow> 's \<Rightarrow> bool"
    and edit :: "uint \<Rightarrow> (block \<Rightarrow> block) \<Rightarrow> ('s, unit) kop"
    and peek :: "uint \<Rightarrow> (block \<Rightarrow> 'a) \<Rightarrow> ('s, 'a) kop"
  assumes edit_law: "ready (Suc k) s \<Longrightarrow> valid s b \<Longrightarrow>
      \<exists>t. edit b f s = Ok () t \<and> ready k t \<and> same s t \<and> content t = (content s)(b := f (content s b))"
    and peek_law: "ready k s \<Longrightarrow> valid s b \<Longrightarrow>
      \<exists>t. peek b g s = Ok (g (content s b)) t \<and> ready k t \<and> same s t \<and> content t = content s"
    and same_refl: "same s s"
    and same_trans: "same s t \<Longrightarrow> same t u \<Longrightarrow> same s u"
    and same_valid: "same s t \<Longrightarrow> valid t b = valid s b"
begin

lemma edits:
  "ready (length es + k) s \<Longrightarrow> \<forall>e \<in> set es. valid s (fst e) \<Longrightarrow>
    \<exists>t. kfor es (\<lambda>(b, f). edit b f) s = Ok () t \<and> ready k t \<and> same s t \<and>
      content t = fold (\<lambda>(b, f) c. c(b := f (c b))) es (content s)"
proof (induction es arbitrary: s)
  case Nil
  then show ?case by (auto simp: kexec same_refl)
next
  case (Cons e es)
  obtain b f where e: "e = (b, f)" by (cases e)
  have "ready (Suc (length es + k)) s" "valid s b" using Cons.prems e by auto
  from edit_law [OF this, of f] obtain u where u: "edit b f s = Ok () u" "ready (length es + k) u" "same s u"
    "content u = (content s)(b := f (content s b))" by blast
  have "\<forall>e \<in> set es. valid u (fst e)" using Cons.prems(2) same_valid [OF u(3)] by simp
  from Cons.IH [OF u(2) this] obtain t where "kfor es (\<lambda>(b, f). edit b f) u = Ok () t" "ready k t" "same u t"
    "content t = fold (\<lambda>(b, f) c. c(b := f (c b))) es (content u)" by blast
  then show ?case using u e same_trans [OF u(3)] by (auto simp: kexec simp del: fun_upd_apply)
qed

lemma edit_peek:
  assumes "ready (Suc k) s" and "valid s b" and "valid s c"
  shows "\<exists>u. kthen (edit b f) (peek c g) s = Ok (g (if c = b then f (content s b) else content s c)) u \<and> ready k u \<and> same s u \<and>
    content u = (content s)(b := f (content s b))"
proof -
  obtain t where t: "edit b f s = Ok () t" "ready k t" "same s t" "content t = (content s)(b := f (content s b))"
    using edit_law [OF assms(1,2)] by blast
  obtain u where "peek c g t = Ok (g (content t c)) u" "ready k u" "same t u" "content u = content t"
    using peek_law [OF t(2)] same_valid [OF t(3)] assms(3) by blast
  with t show ?thesis using same_trans [OF t(3)] by (auto simp: kexec)
qed

end

interpretation bs: block_store in_txn view "\<lambda>s b. b < word_of_int (disksize s)" mild "edit_block 1" "peek_block 1"
  by unfold_locales (auto intro: edit_block_spec peek_block_spec mild_trans simp: mild_fields(6))

section \<open>The free map\<close>

lemma map_bit_iff: "map_bit d bi \<longleftrightarrow> bit (d (bi div 8)) (bi mod 8)"
  by (simp add: map_bit_def and_exp_eq_0_iff_not_bit)

lemma map_bit_set: "map_bit (map_set bi d) bj \<longleftrightarrow> bj = bi \<or> map_bit d bj"
proof (cases "bj div 8 = bi div 8")
  case True
  moreover from this have "bj = bi \<longleftrightarrow> bj mod 8 = bi mod 8" by (metis div_mult_mod_eq)
  ultimately show ?thesis
    by (auto simp: map_bit_iff map_set_def bit_or_iff bit_exp_iff possible_bit_def)
next
  case False
  then show ?thesis by (auto simp: map_bit_iff map_set_def)
qed

lemma map_bit_clear: "map_bit (map_clear bi d) bj \<longleftrightarrow> bj \<noteq> bi \<and> map_bit d bj"
proof (cases "bj div 8 = bi div 8")
  case True
  moreover from this have "bj = bi \<longleftrightarrow> bj mod 8 = bi mod 8" by (metis div_mult_mod_eq)
  ultimately show ?thesis
    by (auto simp: map_bit_iff map_clear_def bit_and_iff bit_not_iff bit_exp_iff possible_bit_def)
next
  case False
  then show ?thesis by (auto simp: map_bit_iff map_clear_def)
qed

text \<open>The block of the map for block \<open>x\<close>, and whether \<open>x\<close> is marked as used.\<close>

definition mapblk :: "superblock \<Rightarrow> nat \<Rightarrow> uint" where
  "mapblk sbk x = word_of_nat (x div BPB) + sb_bmapstart sbk"

definition used :: "'z fsst_scheme \<Rightarrow> nat \<Rightarrow> bool" where
  "used s x \<longleftrightarrow> map_bit (view s (mapblk (sb s) x)) (x mod BPB)"

text \<open>The map covers the file system, lies in it and on the disk, and marks its own blocks as used.\<close>

definition map_geom :: "'z fsst_scheme \<Rightarrow> bool" where
  "map_geom s \<longleftrightarrow> disksize s < 2 ^ 31 \<and> int (unat (sb_size (sb s))) \<le> disksize s \<and>
     unat (sb_bmapstart (sb s)) + unat (sb_size (sb s)) div BPB < unat (sb_size (sb s)) \<and>
     (\<forall>x < unat (sb_size (sb s)). used s (unat (mapblk (sb s) x)))"

lemma BBLOCK_mapblk: "x < 2 ^ 32 \<Longrightarrow> BBLOCK (word_of_nat x) sbk = mapblk sbk x"
proof -
  assume "x < 2 ^ 32"
  then have "unat (word_of_nat x div 4096 :: uint) = unat (word_of_nat (x div 4096) :: uint)"
    by (simp add: unat_div unat_of_nat take_bit_nat_eq_self)
  then have "(word_of_nat x :: uint) div 4096 = word_of_nat (x div 4096)" by (simp only: word_unat_eq_iff)
  then show ?thesis by (simp add: BBLOCK_def mapblk_def)
qed

lemma disk_bound: "unat b < n \<Longrightarrow> int n \<le> d \<Longrightarrow> d < 2 ^ 31 \<Longrightarrow> (b :: uint) < word_of_int d"
  by (simp add: word_less_def uint_of_int_bound) (metis of_nat_less_iff of_nat_unat order_less_le_trans)

lemma map_geom_mapblk:
  assumes "map_geom s" and "x < unat (sb_size (sb s))"
  shows "unat (mapblk (sb s) x) = x div BPB + unat (sb_bmapstart (sb s))" and "unat (mapblk (sb s) x) < unat (sb_size (sb s))"
    and "mapblk (sb s) x < word_of_int (disksize s)" and "x < 2 ^ 31"
proof -
  have "int (unat (sb_size (sb s))) < 2 ^ 31" using assms(1) unfolding map_geom_def by (elim conjE) linarith
  then have size: "unat (sb_size (sb s)) < 2 ^ 31" by (simp only: of_nat_less_numeral_power_cancel_iff)
  then show "x < 2 ^ 31" using assms(2) by simp
  have "x div BPB \<le> unat (sb_size (sb s)) div BPB" using assms(2) by (intro div_le_mono) simp
  then have le: "x div BPB + unat (sb_bmapstart (sb s)) < unat (sb_size (sb s))"
    using assms(1) by (simp add: map_geom_def)
  then have "x div BPB + unat (sb_bmapstart (sb s)) < 2 ^ 32" using size by simp
  moreover have "unat (word_of_nat (x div BPB) :: uint) = x div BPB"
    using le size by (simp add: unat_of_nat take_bit_nat_eq_self)
  ultimately show *: "unat (mapblk (sb s) x) = x div BPB + unat (sb_bmapstart (sb s))"
    by (simp add: mapblk_def unat_word_ariths)
  show "unat (mapblk (sb s) x) < unat (sb_size (sb s))" using le * by simp
  then show "mapblk (sb s) x < word_of_int (disksize s)"
    using assms(1) by (intro disk_bound) (auto simp: map_geom_def)
qed

lemma mild_geom: "mild s t \<Longrightarrow> view t = view s \<Longrightarrow> map_geom t = map_geom s \<and> used t = used s"
  using mild_fs [of s t] mild_fields(6) [of s t] by (simp add: map_geom_def used_def [abs_def])

lemma find_least: "i < n \<Longrightarrow> P i \<Longrightarrow> (\<And>j. j < i \<Longrightarrow> \<not> P j) \<Longrightarrow> find P [0..<n] = Some i"
  by (simp add: find_upt_Some)

text \<open>The state after a block has been taken: its bit set, its content zero, the container charged.\<close>

definition took :: "nat \<Rightarrow> nat \<Rightarrow> 'z fsst_scheme \<Rightarrow> 'z fsst_scheme \<Rightarrow> bool" where
  "took c x s t \<longleftrightarrow> (\<exists>u. mild s u \<and> t = u\<lparr>conts := (conts s)(c := (conts s c)\<lparr>udsk := udsk (conts s c) + 512\<rparr>)\<rparr> \<and>
     view u = (view s)(mapblk (sb s) x := map_set (x mod BPB) (view s (mapblk (sb s) x)), word_of_nat x := zero_block (view s (word_of_nat x))))"

lemma took_mild: "mild s s' \<Longrightarrow> view s' = view s \<Longrightarrow> took c x s' t \<Longrightarrow> took c x s t"
  using mild_fields(2) [of s s'] mild_fs [of s s'] mild_trans [of s s'] unfolding took_def by auto

lemma balloc_take:
  assumes "in_txn (Suc (Suc k)) s" and "map_geom s" and "4096 * j \<le> x" and "x < unat (sb_size (sb s))" and "\<not> used s x"
    and "\<And>y. y < x \<Longrightarrow> used s y" and "x < 4096 * Suc j"
  shows "\<exists>t. balloc_loop 1 c (4096 * j # bs) s = Ok (word_of_nat x) t \<and> took c x s t"
proof -
  note geom = map_geom_mapblk [OF assms(2,4)]
  define b0 where "b0 = 4096 * j"
  define bi where "bi = x - b0"
  have x: "x = b0 + bi" "bi < 4096" using assms(3,7) by (auto simp: bi_def b0_def)
  then have xd: "x div BPB = j" "x mod BPB = bi" by (auto simp: b0_def)
  have blk: "BBLOCK (word_of_nat b0) (sb s) = mapblk (sb s) x"
    using geom(4) x BBLOCK_mapblk [of b0 "sb s"] by (simp add: mapblk_def xd b0_def)
  obtain i t where t: "bread 1 (mapblk (sb s) x) s = Ok i t" "quiet s t" "bdata (bufs t i) = view s (mapblk (sb s) x)"
    and ed: "\<forall>f. 0 < Suc (Suc k) \<longrightarrow> (\<exists>u. kthen (upd_buf i (\<lambda>bf. bf\<lparr>bdata := f (bdata bf)\<rparr>)) (kthen (log_write i) (brelse i)) t = Ok () u \<and>
      mild s u \<and> in_txn (Suc (Suc k) - 1) u \<and> view u = (view s)(mapblk (sb s) x := f (view s (mapblk (sb s) x))))"
    using bread_txn [OF assms(1) geom(3)] by blast
  from ed [rule_format, of "map_set bi"] obtain u where u: "mild s u" "in_txn (Suc k) u"
    "kthen (upd_buf i (\<lambda>bf. bf\<lparr>bdata := map_set bi (bdata bf)\<rparr>)) (kthen (log_write i) (brelse i)) t = Ok () u"
    "view u = (view s)(mapblk (sb s) x := map_set bi (view s (mapblk (sb s) x)))" by auto
  have ux: "unat (word_of_nat x :: uint) = x" using geom(4) by (simp add: unat_of_nat take_bit_nat_eq_self)
  have bound: "word_of_nat x < (word_of_int (disksize u) :: uint)"
  proof -
    show ?thesis unfolding mild_fields(6) [OF u(1)]
      using assms(2,4) ux by (intro disk_bound [of _ "unat (sb_size (sb s))"]) (auto simp: map_geom_def)
  qed
  from edit_block_spec [OF u(2) this, of zero_block] obtain v where v: "edit_block 1 (word_of_nat x) zero_block u = Ok () v"
    "mild u v" "view v = (view u)(word_of_nat x := zero_block (view u (word_of_nat x)))" by blast
  have ne: "word_of_nat x \<noteq> mapblk (sb s) x"
  proof
    assume "word_of_nat x = mapblk (sb s) x"
    then have "unat (mapblk (sb s) x) = x" using ux by metis
    with assms(2,4,5) show False by (metis map_geom_def)
  qed
  have "find (\<lambda>bi. \<not> map_bit (view s (mapblk (sb s) x)) bi) [0..<min BPB (unat (sb_size (sb s)) - b0)] = Some bi"
  proof (rule find_least)
    show "bi < min BPB (unat (sb_size (sb s)) - b0)" using x assms(4) by simp
    show "\<not> map_bit (view s (mapblk (sb s) x)) bi" using assms(5) by (simp add: used_def xd)
    fix b assume "b < bi"
    then have "(b0 + b) div BPB = j" "(b0 + b) mod BPB = b" "used s (b0 + b)" using x assms(6) by (auto simp: b0_def)
    then show "\<not> \<not> map_bit (view s (mapblk (sb s) x)) b" by (simp add: used_def mapblk_def xd)
  qed
  then have "balloc_loop 1 c (b0 # bs) s =
      kthen (kthen (upd_buf i (\<lambda>bf. bf\<lparr>bdata := map_set bi (bdata bf)\<rparr>)) (kthen (log_write i) (brelse i)))
        (kthen (bzero 1 (word_of_nat x)) (kthen (upd_cont c (\<lambda>cc. cc\<lparr>udsk := udsk cc + 512\<rparr>)) (ret (word_of_nat x)))) t"
    using t(1,3) by (simp add: kbind_exec kget_exec blk kthen_assoc flip: b0_def x(1))
  also have "\<dots> = Ok (word_of_nat x) (v\<lparr>conts := (conts v)(c := (conts v c)\<lparr>udsk := udsk (conts v c) + 512\<rparr>)\<rparr>)"
    unfolding kthen_exec [of "kthen _ _"] u(3) using v(1) by (simp add: bzero_def kexec)
  finally have "balloc_loop 1 c (b0 # bs) s = \<dots>" .
  moreover have m: "mild s v" by (rule mild_trans [OF u(1) v(2)])
  moreover have "view v = (view s)(mapblk (sb s) x := map_set (x mod BPB) (view s (mapblk (sb s) x)), word_of_nat x := zero_block (view s (word_of_nat x)))"
    using v(3) u(4) ne by (simp add: xd)
  ultimately show ?thesis using mild_fields(2) [OF m] unfolding took_def b0_def by auto
qed

lemma balloc_loop_spec:
  assumes "m = (unat (sb_size (sb s)) + (BPB - 1)) div BPB" and "in_txn (Suc (Suc k)) s" and "map_geom s"
    and "4096 * j \<le> x" and "x < unat (sb_size (sb s))" and "\<not> used s x" and "\<And>y. y < x \<Longrightarrow> used s y"
  shows "\<exists>t. balloc_loop 1 c (map (\<lambda>k. BPB * k) [j..<m]) s = Ok (word_of_nat x) t \<and> took c x s t"
  using assms
proof (induction "m - j" arbitrary: j s)
  case 0
  then have "4096 * m \<le> x" by simp
  moreover have "x < 4096 * m" using "0.prems"(1,5) by simp
  ultimately show ?case by simp
next
  case (Suc n)
  then have upt: "[j..<m] = j # [Suc j..<m]" by (simp add: upt_conv_Cons)
  show ?case
  proof (cases "x < 4096 * Suc j")
    case True
    from balloc_take [OF Suc.prems(2-7) True] show ?thesis by (simp add: upt)
  next
    case False
    have y: "4096 * j + bi < unat (sb_size (sb s))" "4096 * j + bi < x" if "bi < BPB" for bi using that False Suc.prems(5) by auto
    note geom = map_geom_mapblk [OF Suc.prems(3) y(1) [of 0, simplified]]
    have blk: "BBLOCK (word_of_nat (4096 * j)) (sb s) = mapblk (sb s) (4096 * j)"
      using geom(4) by (intro BBLOCK_mapblk) simp
    obtain i t u where t: "bread 1 (mapblk (sb s) (4096 * j)) s = Ok i t" "bdata (bufs t i) = view s (mapblk (sb s) (4096 * j))"
      and u: "brelse i t = Ok () u" "mild s u" "in_txn (Suc (Suc k)) u" "view u = view s"
      using bread_txn [OF Suc.prems(2) geom(3)] by blast
    have "find (\<lambda>bi. \<not> map_bit (view s (mapblk (sb s) (4096 * j))) bi) [0..<min BPB (unat (sb_size (sb s)) - 4096 * j)] = None"
      unfolding find_upt_None
    proof (intro allI impI)
      fix bi assume "bi < min BPB (unat (sb_size (sb s)) - 4096 * j)"
      then have "used s (4096 * j + bi)" "bi < 4096" using y(2) [of bi] Suc.prems(7) by auto
      then show "\<not> \<not> map_bit (view s (mapblk (sb s) (4096 * j))) bi" by (simp add: used_def mapblk_def)
    qed
    then have "balloc_loop 1 c (map (\<lambda>k. BPB * k) [j..<m]) s = balloc_loop 1 c (map (\<lambda>k. BPB * k) [Suc j..<m]) u"
      using t u(1) unfolding upt list.map balloc_loop.simps
      by (simp only: kbind_exec kget_exec blk res.case option.case kthen_exec)
    moreover have "\<exists>t. balloc_loop 1 c (map (\<lambda>k. BPB * k) [Suc j..<m]) u = Ok (word_of_nat x) t \<and> took c x u t"
      using mild_geom [OF u(2,4)] mild_fs [OF u(2)] False Suc.hyps(2) Suc.prems
      by (intro Suc.hyps(1) u(3)) auto
    ultimately show ?thesis using took_mild [OF u(2,4)] by auto
  qed
qed

lemma took_used:
  fixes c :: nat
  assumes "map_geom s" and "x < unat (sb_size (sb s))" and "\<not> used s x" and "took c x s t"
  shows "used t x" and "\<And>y. y < unat (sb_size (sb s)) \<Longrightarrow> y \<noteq> x \<Longrightarrow> used t y = used s y"
    and "view t (word_of_nat x) = zero_block (view s (word_of_nat x))"
    and "\<And>b. b \<noteq> word_of_nat x \<Longrightarrow> b \<noteq> mapblk (sb s) x \<Longrightarrow> view t b = view s b"
proof -
  let ?X = "word_of_nat x :: uint"
  obtain u where u: "mild s u" "t = u\<lparr>conts := (conts s)(c := (conts s c)\<lparr>udsk := udsk (conts s c) + 512\<rparr>)\<rparr>"
     "view u = (view s)(mapblk (sb s) x := map_set (x mod BPB) (view s (mapblk (sb s) x)), ?X := zero_block (view s ?X))"
    using assms(4) unfolding took_def by blast
  have vt: "view t = view u" using u(2) by (simp add: view_def fun_eq_iff cong: option.case_cong)
  have sbt: "sb t = sb s" using u(2) mild_fs [OF u(1)] by simp
  have ux: "unat ?X = x" using map_geom_mapblk(4) [OF assms(1,2)] by (simp add: unat_of_nat take_bit_nat_eq_self)
  have ne: "mapblk (sb s) y \<noteq> ?X" if "y < unat (sb_size (sb s))" for y
    using assms(1,3) ux that unfolding map_geom_def by metis
  show "used t x" using ne [OF assms(2)] by (simp add: used_def vt sbt u(3) map_bit_set)
  show "view t ?X = zero_block (view s ?X)" by (simp add: vt u(3))
  show "view t b = view s b" if "b \<noteq> ?X" "b \<noteq> mapblk (sb s) x" for b using that by (simp add: vt u(3))
  show "used t y = used s y" if "y < unat (sb_size (sb s))" "y \<noteq> x" for y
  proof (cases "mapblk (sb s) y = mapblk (sb s) x")
    case True
    then have "y div BPB = x div BPB" using map_geom_mapblk(1) [OF assms(1)] that(1) assms(2) by (metis add_right_cancel)
    then have "y mod BPB \<noteq> x mod BPB" using that(2) by (metis div_mult_mod_eq)
    then show ?thesis using True ne [OF assms(2)] by (simp add: used_def vt sbt u(3) map_bit_set)
  next
    case False
    then show ?thesis using ne [OF that(1)] by (simp add: used_def vt sbt u(3))
  qed
qed

text \<open>
  C9. \<open>balloc\<close>, called in a transaction with room for two blocks. If the container's account has room for one
  more block it returns the lowest block the free map marks as free, marks it as used and no other block,
  zeroes its content, leaves the content of every block but it and its block of the map alone, and charges
  the container of the caller. If the account is exhausted it returns 0, takes no block, and marks the
  container as stopping.
\<close>

theorem balloc_allocates:
  assumes "in_txn 2 s" and "map_geom s" and "curcont s = Some c"
    and "x < unat (sb_size (sb s))" and "\<not> used s x" and "\<forall>y < x. used s y"
  shows "if udsk (conts s c) + 512 > mdsk (conts s c)
    then balloc 1 s = Ok 0 (s\<lparr>conts := (conts s)(c := (conts s c)\<lparr>cstate := CSTOPPING\<rparr>)\<rparr>)
    else \<exists>t. balloc 1 s = Ok (word_of_nat x) t \<and> used t x \<and>
      (\<forall>y < unat (sb_size (sb s)). y \<noteq> x \<longrightarrow> used t y = used s y) \<and>
      (\<forall>i < BSIZE. view t (word_of_nat x) i = 0) \<and>
      (\<forall>b. b \<noteq> word_of_nat x \<and> b \<noteq> mapblk (sb s) x \<longrightarrow> view t b = view s b) \<and>
      conts t = (conts s)(c := (conts s c)\<lparr>udsk := udsk (conts s c) + 512\<rparr>) \<and> inodes t = inodes s"
proof (cases "udsk (conts s c) + 512 > mdsk (conts s c)")
  case True
  have "Lctable \<notin> set (held s)" using assms(1) by (auto simp: in_txn_def bready_def)
  with True show ?thesis using mycont_curcont [OF assms(3)] by (simp add: balloc_def kexec ckill_def)
next
  case False
  let ?m = "(unat (sb_size (sb s)) + (BPB - 1)) div BPB"
  obtain t where t: "balloc_loop 1 c (map (\<lambda>k. BPB * k) [0..<?m]) s = Ok (word_of_nat x) t" "took c x s t"
    using balloc_loop_spec [OF refl assms(1) [unfolded numeral_2_eq_2] assms(2) _ assms(4,5), of 0] assms(6) by auto
  have "balloc 1 s = balloc_loop 1 c (map (\<lambda>k. BPB * k) [0..<?m]) s"
    using False mycont_curcont [OF assms(3)] unfolding balloc_def kbind_exec by (simp add: kget_exec)
  moreover have "conts t = (conts s)(c := (conts s c)\<lparr>udsk := udsk (conts s c) + 512\<rparr>)" "inodes t = inodes s"
    using t(2) unfolding took_def by (auto dest: mild_fs)
  ultimately show ?thesis
    using False t(1) took_used [OF assms(2,4,5) t(2)] by (intro iffD2 [OF if_not_P [OF False]] exI [of _ t]) (simp_all add: zero_block_def)
qed

section \<open>An example file system\<close>

text \<open>A file system of 1000 blocks with 200 inodes, as \<^verbatim>\<open>mkfs.c\<close> lays it out: the log from block 2, the inodes from
  block 32, the free map at block 58, and the blocks below 70 in use.\<close>

definition sb_ex :: superblock where
  "sb_ex = \<lparr>sb_size = 1000, sb_nblocks = 941, sb_ninodes = 200, sb_nlog = 30, sb_logstart = 2, sb_inodestart = 32, sb_bmapstart = 58\<rparr>"

definition inode0 :: inode where
  "inode0 = \<lparr>i_dev = 0, i_inum = 0, i_ref = 0, i_valid = False, i_type = 0, i_major = 0, i_minor = 0, i_nlink = 0, i_size = 0,
     i_addrs = (\<lambda>_. 0)\<rparr>"

definition map_ex :: block where
  "map_ex = (\<lambda>k. if k < 8 then - 1 else if k = 8 then mask 6 else 0)"

definition fs_ex :: "(nat \<Rightarrow> block) \<Rightarrow> (nat \<Rightarrow> inode) \<Rightarrow> fsst" where
  "fs_ex d I = logst.extend (log_ex (d(58 := map_ex))) (fsst.fields sb_ex I)"

lemma fs_ex_fields:
  "sb (fs_ex d I) = sb_ex" "inodes (fs_ex d I) = I" "disksize (fs_ex d I) = 1000" "held (fs_ex d I) = []"
  "view (fs_ex d I) b = (d(58 := map_ex)) (unat b)" "curcont (fs_ex d I) = Some 0" "conts (fs_ex d I) = conts rows_ex"
  "\<not> sl_locked (slocks (fs_ex d I) (InodeLock ip))" "cur (fs_ex d I) = Some 0"
proof -
  let ?d = "d(58 := map_ex)"
  have eq: "bufs (fs_ex d I) = bufs (log_ex ?d)" "disk (fs_ex d I) = ?d"
    by (simp_all add: fs_ex_def logst.defs log_ex_fields)
  have "view (log_ex ?d) b = ?d (unat b)"
  proof -
    have "\<not> caches b (bufs (log_ex ?d) i)" if "i < NBUF" for i
      using core_eqs(1) [OF bio_up_facts(6) [OF that]] by (simp add: caches_def log_ex_fields buf0_def)
    then show ?thesis using view_uncached [of b "log_ex ?d"] by (simp add: log_ex_fields)
  qed
  then show "view (fs_ex d I) b = ?d (unat b)" by (simp add: view_def eq log_ex_fields cong: option.case_cong)
qed (use bio_up_facts(3) bio_up_tables in \<open>simp_all add: fs_ex_def logst.defs fsst.defs log_ex_def bio.defs curcont_def
    cong: option.case_cong\<close>)

lemma fs_ex_txn: "k < 30 \<Longrightarrow> in_txn k (fs_ex d I)"
proof -
  assume "k < 30"
  let ?l = "log_ex (d(58 := map_ex))"
  have eq: "bufs (fs_ex d I) = bufs ?l" "slocks (fs_ex d I) = slocks ?l" "disk (fs_ex d I) = disk ?l"
    "lh_n (fs_ex d I) = 0" "log_size (fs_ex d I) = 30" "outstanding (fs_ex d I) = 1"
    by (simp_all add: fs_ex_def logst.defs log_ex_fields)
  have bl: "blocked (fs_ex d I) = blocked ?l" by (simp add: blocked_def [abs_def] eq)
  have "bc_ok xs (fs_ex d I) = bc_ok xs ?l" for xs by (simp add: bc_ok_def eq bl)
  moreover have "idle (fs_ex d I)" "dset (fs_ex d I) = {}" using log_ex_ok(2,3) by (simp_all add: idle_def dset_def eq bl)
  moreover have "bready (fs_ex d I)"
    using bio_up_facts(1) by (simp add: fs_ex_def logst.defs log_ex_def bio.defs bready_def rows_ok_def)
  ultimately show ?thesis using log_ex_ok(1) \<open>k < 30\<close> by (auto simp: in_txn_def eq dirtyb_def)
qed

lemma fs_ex_map: "x < 1000 \<Longrightarrow> used (fs_ex d I) x \<longleftrightarrow> x < 70" "map_geom (fs_ex d I)"
proof -
  have blk: "mapblk sb_ex x = 58" if "x < 1000" for x using that by (simp add: mapblk_def sb_ex_def)
  have bit: "bit (mask 6 :: byte) n \<longleftrightarrow> n < 6" for n by (auto simp: bit_mask_iff possible_bit_def)
  show used: "used (fs_ex d I) x \<longleftrightarrow> x < 70" if "x < 1000" for x
    using that blk [OF that] by (auto simp: used_def fs_ex_fields map_bit_iff map_ex_def bit possible_bit_def less_mult_imp_div_less) presburger+
  show "map_geom (fs_ex d I)"
    using used [of 58] blk by (simp add: map_geom_def fs_ex_fields sb_ex_def [THEN arg_cong [where f = sb_size]] sb_ex_def [THEN arg_cong [where f = sb_bmapstart]])
qed

theorem balloc_allocates_witness:
  "\<exists>t. balloc 1 (fs_ex (\<lambda>_ _. 7) (\<lambda>_. inode0)) = Ok 70 t \<and> used t 70 \<and> \<not> used t 71 \<and> view t 70 5 = 0 \<and> view t 71 5 = 7"
proof -
  let ?s = "fs_ex (\<lambda>_ _. 7) (\<lambda>_. inode0)"
  have size: "unat (sb_size (sb ?s)) = 1000" by (simp add: fs_ex_fields sb_ex_def)
  have "\<not> udsk (conts ?s 0) + 512 > mdsk (conts ?s 0)" by (simp add: fs_ex_fields rows_ex_def example_defs)
  moreover have "mapblk (sb ?s) 70 \<noteq> 71" by (simp add: fs_ex_fields mapblk_def sb_ex_def)
  ultimately have "\<exists>t. balloc 1 ?s = Ok (word_of_nat 70) t \<and> used t 70 \<and> (\<forall>y < 1000. y \<noteq> 70 \<longrightarrow> used t y = used ?s y) \<and>
      (\<forall>i < BSIZE. view t (word_of_nat 70) i = 0) \<and> (\<forall>b. b \<noteq> word_of_nat 70 \<and> b \<noteq> mapblk (sb ?s) 70 \<longrightarrow> view t b = view ?s b)"
    using balloc_allocates [of ?s 0 70] fs_ex_txn [of 2] fs_ex_map fs_ex_fields(6) unfolding size by auto
  then show ?thesis using fs_ex_map(1) [of 71] \<open>mapblk (sb ?s) 70 \<noteq> 71\<close> by (auto simp: fs_ex_fields(5))
qed

section \<open>The inode cache\<close>

lemma upd_inode_exec [kexec]: "upd_inode ip f s = Ok () (s\<lparr>inodes := (inodes s)(ip := f (inodes s ip))\<rparr>)"
  by (simp add: upd_inode_def kexec)

text \<open>Reference counts are not negative, and an inode of a device is in at most one entry in use.\<close>

definition icache_ok :: "'z fsst_scheme \<Rightarrow> bool" where
  "icache_ok s \<longleftrightarrow> (\<forall>i < NINODE. 0 \<le> i_ref (inodes s i)) \<and>
     (\<forall>i < NINODE. \<forall>j < NINODE. 0 < i_ref (inodes s i) \<and> 0 < i_ref (inodes s j) \<and>
        i_dev (inodes s i) = i_dev (inodes s j) \<and> i_inum (inodes s i) = i_inum (inodes s j) \<longrightarrow> i = j)"

definition cached :: "uint \<Rightarrow> uint \<Rightarrow> inode \<Rightarrow> bool" where
  "cached dev inum i \<longleftrightarrow> 0 < i_ref i \<and> i_dev i = dev \<and> i_inum i = inum"

lemma iget_exec:
  assumes "Licache \<notin> set (held s)"
  shows "iget dev inum s =
    (case find (\<lambda>ip. cached dev inum (inodes s ip)) [0..<NINODE] of
       Some ip \<Rightarrow> Ok ip (s\<lparr>inodes := (inodes s)(ip := (inodes s ip)\<lparr>i_ref := i_ref (inodes s ip) + 1\<rparr>)\<rparr>)
     | None \<Rightarrow> (case find (\<lambda>ip. i_ref (inodes s ip) = 0) [0..<NINODE] of
         Some ip \<Rightarrow> Ok ip (s\<lparr>inodes := (inodes s)(ip := (inodes s ip)\<lparr>i_dev := dev, i_inum := inum, i_ref := 1, i_valid := False\<rparr>)\<rparr>)
       | None \<Rightarrow> Stop (Panic ''iget: no inodes'') (s\<lparr>held := Licache # held s\<rparr>)))"
  using assms by (simp add: iget_def kexec cached_def split: option.split)

lemma icache_ok_upd:
  assumes "icache_ok s" and "0 \<le> i_ref i"
    and "\<And>j. j < NINODE \<Longrightarrow> j \<noteq> ip \<Longrightarrow> 0 < i_ref i \<Longrightarrow> \<not> cached (i_dev i) (i_inum i) (inodes s j)"
  shows "icache_ok (s\<lparr>inodes := (inodes s)(ip := i)\<rparr>)"
proof -
  have "a = b" if "a < NINODE" "b < NINODE" "0 < i_ref (((inodes s)(ip := i)) a)" "0 < i_ref (((inodes s)(ip := i)) b)"
      "i_dev (((inodes s)(ip := i)) a) = i_dev (((inodes s)(ip := i)) b)"
      "i_inum (((inodes s)(ip := i)) a) = i_inum (((inodes s)(ip := i)) b)" for a b
  proof -
    consider "a = ip" "b = ip" | "a = ip" "b \<noteq> ip" | "a \<noteq> ip" "b = ip" | "a \<noteq> ip" "b \<noteq> ip" by blast
    then show ?thesis using that assms(1) assms(3) [of a] assms(3) [of b] by cases (auto simp: cached_def icache_ok_def)
  qed
  with assms(1,2) show ?thesis by (auto simp: icache_ok_def)
qed

text \<open>
  C15. \<open>iget\<close> keeps the inode cache consistent: an inode in use is in one entry only. If the inode is cached
  it returns that entry with one more reference and its content untouched; otherwise it takes
  the first entry without references, which then has one reference and no valid content; and if every
  entry is in use it panics. No other entry changes.
\<close>

theorem iget_unique:
  assumes "icache_ok s" and "Licache \<notin> set (held s)"
  shows "case iget dev inum s of
      Ok ip t \<Rightarrow> ip < NINODE \<and> icache_ok t \<and> held t = held s \<and> cached dev inum (inodes t ip) \<and>
        (\<forall>j < NINODE. cached dev inum (inodes t j) \<longrightarrow> j = ip) \<and> (\<forall>j. j \<noteq> ip \<longrightarrow> inodes t j = inodes s j) \<and>
        (if \<exists>j < NINODE. cached dev inum (inodes s j)
         then inodes t ip = (inodes s ip)\<lparr>i_ref := i_ref (inodes s ip) + 1\<rparr>
         else i_ref (inodes s ip) = 0 \<and> i_ref (inodes t ip) = 1 \<and> \<not> i_valid (inodes t ip))
    | Stop h t \<Rightarrow> h = Panic ''iget: no inodes'' \<and> (\<forall>j < NINODE. 0 < i_ref (inodes s j) \<and> \<not> cached dev inum (inodes s j))"
proof (cases "find (\<lambda>ip. cached dev inum (inodes s ip)) [0..<NINODE]")
  case (Some ip)
  define t where "t = s\<lparr>inodes := (inodes s)(ip := (inodes s ip)\<lparr>i_ref := i_ref (inodes s ip) + 1\<rparr>)\<rparr>"
  have ip: "ip < NINODE" "cached dev inum (inodes s ip)" using Some unfolding find_upt_Some by auto
  have uniq: "j = ip" if "j < NINODE" "cached dev inum (inodes s j)" for j
    using assms(1) [unfolded icache_ok_def, THEN conjunct2, rule_format, of j ip] that ip unfolding cached_def by simp
  have "\<not> cached dev inum (inodes s j)" if "j < NINODE" "j \<noteq> ip" for j using uniq that by blast
  then have ok: "icache_ok t" using ip(2) unfolding t_def by (intro icache_ok_upd [OF assms(1)]) (auto simp: cached_def)
  have c: "cached dev inum (inodes t ip)" using ip(2) by (simp add: t_def cached_def)
  have oth: "inodes t j = inodes s j" if "j \<noteq> ip" for j using that by (simp add: t_def)
  then have "\<forall>j < NINODE. cached dev inum (inodes t j) \<longrightarrow> j = ip" using uniq by metis
  moreover have some: "\<exists>j < NINODE. cached dev inum (inodes s j)" using ip by blast
  have ex: "iget dev inum s = Ok ip t" using Some by (simp only: iget_exec [OF assms(2)] option.case t_def)
  have "inodes t ip = (inodes s ip)\<lparr>i_ref := i_ref (inodes s ip) + 1\<rparr>" "held t = held s" by (simp_all add: t_def)
  ultimately show ?thesis using ip(1) ok c oth unfolding ex res.case if_P [OF some] by blast
next
  case None
  then have none: "\<not> cached dev inum (inodes s j)" if "j < NINODE" for j using that unfolding find_upt_None by auto
  show ?thesis
  proof (cases "find (\<lambda>ip. i_ref (inodes s ip) = 0) [0..<NINODE]")
    case (Some ip)
    define t where "t = s\<lparr>inodes := (inodes s)(ip := (inodes s ip)\<lparr>i_dev := dev, i_inum := inum, i_ref := 1, i_valid := False\<rparr>)\<rparr>"
    have ip: "ip < NINODE" "i_ref (inodes s ip) = 0" using Some unfolding find_upt_Some by auto
    have ok: "icache_ok t" unfolding t_def using none by (intro icache_ok_upd [OF assms(1)]) auto
    have c: "cached dev inum (inodes t ip)" by (simp add: t_def cached_def)
    have oth: "inodes t j = inodes s j" if "j \<noteq> ip" for j using that by (simp add: t_def)
    then have "\<forall>j < NINODE. cached dev inum (inodes t j) \<longrightarrow> j = ip" using none by metis
    moreover have nx: "\<not> (\<exists>j < NINODE. cached dev inum (inodes s j))" using none by blast
    have ex: "iget dev inum s = Ok ip t" using None Some by (simp only: iget_exec [OF assms(2)] option.case t_def)
    have "i_ref (inodes t ip) = 1" "\<not> i_valid (inodes t ip)" "held t = held s" by (simp_all add: t_def)
    ultimately show ?thesis using ip ok c oth unfolding ex res.case if_not_P [OF nx] by blast
  next
    case None': None
    then have "0 < i_ref (inodes s j)" if "j < NINODE" for j
      using that assms(1) unfolding find_upt_None icache_ok_def by (metis order_le_less)
    with none have "\<forall>j < NINODE. 0 < i_ref (inodes s j) \<and> \<not> cached dev inum (inodes s j)" by blast
    with None None' show ?thesis by (simp only: iget_exec [OF assms(2)] option.case res.case)
  qed
qed

theorem iget_unique_witness:
  "(\<exists>t. iget 1 7 (fs_ex (\<lambda>_ _. 0) (\<lambda>_. inode0)) = Ok 0 t \<and> icache_ok t) \<and>
   (\<exists>t. iget 1 7 (fs_ex (\<lambda>_ _. 0) (\<lambda>k. inode0\<lparr>i_dev := 2, i_inum := word_of_nat k, i_ref := 1\<rparr>)) = Stop (Panic ''iget: no inodes'') t)"
proof
  let ?s = "fs_ex (\<lambda>_ _. 0) (\<lambda>_. inode0)"
  have "icache_ok ?s" by (simp add: icache_ok_def fs_ex_fields inode0_def)
  moreover have "iget 1 7 ?s = Ok 0 (?s\<lparr>inodes := (inodes ?s)(0 := (inodes ?s 0)\<lparr>i_dev := 1, i_inum := 7, i_ref := 1, i_valid := False\<rparr>)\<rparr>)"
    by (simp add: iget_exec fs_ex_fields inode0_def cached_def upt_conv_Cons)
  ultimately show "\<exists>t. iget 1 7 ?s = Ok 0 t \<and> icache_ok t" using iget_unique [of ?s 1 7] by (auto simp: fs_ex_fields)
next
  let ?s = "fs_ex (\<lambda>_ _. 0) (\<lambda>k. inode0\<lparr>i_dev := 2, i_inum := word_of_nat k, i_ref := 1\<rparr>)"
  have "i = j" if "i < 50" "j < 50" "(word_of_nat i :: uint) = word_of_nat j" for i j
    using that by (simp add: word_unat_eq_iff unat_of_nat take_bit_nat_eq_self)
  then have ok: "icache_ok ?s" by (auto simp: icache_ok_def fs_ex_fields inode0_def)
  have full: "i_ref (inodes ?s j) = 1" for j by (simp add: fs_ex_fields)
  show "\<exists>t. iget 1 7 ?s = Stop (Panic ''iget: no inodes'') t"
  proof (cases "iget 1 7 ?s")
    case (Ok ip t)
    then show ?thesis using iget_unique [OF ok, of 1 7] full by (auto simp: fs_ex_fields cached_def split: if_splits)
  next
    case (Stop h t)
    then show ?thesis using iget_unique [OF ok, of 1 7] by (auto simp: fs_ex_fields)
  qed
qed

section \<open>Locking an inode\<close>

lemma in_txn_upd [simp]:
  "in_txn k (s\<lparr>inodes := I\<rparr>) = in_txn k s" "view (s\<lparr>inodes := I\<rparr>) = view s"
  "in_txn k (s\<lparr>slocks := (slocks s)(InodeLock ip := l)\<rparr>) = in_txn k s" "view (s\<lparr>slocks := L\<rparr>) = view s"
proof -
  have eq: "bready (s\<lparr>inodes := I\<rparr>) = bready s" "blocked (s\<lparr>inodes := I\<rparr>) = blocked s" "lh_words (s\<lparr>inodes := I\<rparr>) = lh_words s"
    "bready (s\<lparr>slocks := (slocks s)(InodeLock ip := l)\<rparr>) = bready s" "blocked (s\<lparr>slocks := (slocks s)(InodeLock ip := l)\<rparr>) = blocked s"
    "lh_words (s\<lparr>slocks := (slocks s)(InodeLock ip := l)\<rparr>) = lh_words s"
    by (simp_all add: bready_def rows_ok_def blocked_def [abs_def] lh_words_def)
  then show "in_txn k (s\<lparr>inodes := I\<rparr>) = in_txn k s" "in_txn k (s\<lparr>slocks := (slocks s)(InodeLock ip := l)\<rparr>) = in_txn k s"
    by (simp_all add: in_txn_def bc_ok_def idle_def dirtyb_def dset_def)
  show "view (s\<lparr>inodes := I\<rparr>) = view s" "view (s\<lparr>slocks := L\<rparr>) = view s"
    by (simp_all add: view_def fun_eq_iff cong: option.case_cong)
qed

text \<open>The inode on the disk.\<close>

definition disk_inode :: "'z fsst_scheme \<Rightarrow> uint \<Rightarrow> dinode" where
  "disk_inode s inum = get_dinode (view s (IBLOCK inum (sb s))) (unat inum mod IPB)"

lemma brelse_inodes:
  assumes "bready s" and "blocked s i" and "brelse i s = Ok () u"
  shows "brelse i (s\<lparr>inodes := I\<rparr>) = Ok () (u\<lparr>inodes := I\<rparr>)"
proof -
  have "bready (s\<lparr>inodes := I\<rparr>)" "blocked (s\<lparr>inodes := I\<rparr>) i"
    using assms(1,2) by (simp_all add: bready_def rows_ok_def blocked_def)
  from brelse_run [OF this] brelse_run [OF assms(1,2)] assms(3) show ?thesis by (auto cong: if_cong)
qed

lemma ilock_spec:
  assumes "in_txn k s" and "1 \<le> i_ref (inodes s ip)" and "\<not> sl_locked (slocks s (InodeLock ip))"
    and "\<not> i_valid (inodes s ip) \<Longrightarrow> i_dev (inodes s ip) = 1 \<and> IBLOCK (i_inum (inodes s ip)) (sb s) < word_of_int (disksize s) \<and>
      di_type (disk_inode s (i_inum (inodes s ip))) \<noteq> 0"
  shows "\<exists>t. ilock (Some ip) s = Ok () t \<and> in_txn k t \<and> view t = view s \<and> sb t = sb s \<and> disksize t = disksize s \<and>
    sl_locked (slocks t (InodeLock ip)) \<and> conts t = conts s \<and> curcont t = curcont s \<and>
    inodes t = (if i_valid (inodes s ip) then inodes s
      else (inodes s)(ip := (of_dinode (disk_inode s (i_inum (inodes s ip))) (inodes s ip))\<lparr>i_valid := True\<rparr>))"
proof -
  obtain p where p: "cur s = Some p" "Lsleep (InodeLock ip) \<notin> set (held s)" using assms(1) by (auto simp: in_txn_def bready_def)
  define s1 where "s1 = s\<lparr>slocks := (slocks s)(InodeLock ip := (slocks s (InodeLock ip))\<lparr>sl_locked := True, sl_pid := pid (procs s p)\<rparr>)\<rparr>"
  have s1: "in_txn k s1" "view s1 = view s" "sb s1 = sb s" "inodes s1 = inodes s" "disksize s1 = disksize s"
    "sl_locked (slocks s1 (InodeLock ip))" "conts s1 = conts s" "curcont s1 = curcont s"
    using assms(1) by (simp_all add: s1_def curcont_def cong: option.case_cong)
  have acq: "acquiresleep (InodeLock ip) s = Ok () s1" by (simp add: acquiresleep_exec [OF p(2,1) assms(3)] s1_def)
  show ?thesis
  proof (cases "i_valid (inodes s ip)")
    case True
    then have "ilock (Some ip) s = Ok () s1" using assms(2) acq s1(3,4) by (simp add: ilock_def kexec)
    with True s1 show ?thesis by auto
  next
    case False
    let ?i = "inodes s ip"
    let ?b = "IBLOCK (i_inum ?i) (sb s)"
    let ?d = "disk_inode s (i_inum ?i)"
    have i: "i_dev ?i = 1" "?b < word_of_int (disksize s1)" "di_type ?d \<noteq> 0" using assms(4) [OF False] s1(5) by auto
    obtain j t u where t: "bread 1 ?b s1 = Ok j t" "quiet s1 t" "bheld ?b j t" "bdata (bufs t j) = view s1 ?b"
      and u: "brelse j t = Ok () u" "mild s1 u" "in_txn k u" "view u = view s1"
      using bread_txn [OF s1(1) i(2)] by blast
    have bt: "bready t" "blocked t j" using bready_quiet [OF t(2)] s1(1) t(3) by (auto simp: in_txn_def bheld_def)
    have it: "inodes t = inodes s" using mild_fs [OF quiet_mild [OF t(2)]] s1(4) by simp
    have cm: "brelse j (t\<lparr>inodes := I\<rparr>) = Ok () (u\<lparr>inodes := I\<rparr>)" for I
      using bt u(1) by (rule brelse_inodes)
    define v where "v = u\<lparr>inodes := (inodes s)(ip := (of_dinode ?d ?i)\<lparr>i_valid := True\<rparr>)\<rparr>"
    have "ilock (Some ip) s = Ok () v"
      using assms(2) acq s1(3,4) False t(1,4) s1(2) i it cm
      by (simp add: ilock_def kexec disk_inode_def v_def)
    moreover have "in_txn k v" "view v = view s" "sb v = sb s" "disksize v = disksize s" "sl_locked (slocks v (InodeLock ip))"
      "conts v = conts s" "curcont v = curcont s"
      using u(3,4) s1 mild_fs [OF u(2)] mild_fields [OF u(2)] by (simp_all add: v_def curcont_def cong: option.case_cong)
    ultimately show ?thesis using False by (intro exI [of _ v]) (simp add: v_def)
  qed
qed

lemma iupdate_spec:
  assumes "in_txn (Suc k) s" and "i_dev (inodes s ip) = 1" and "IBLOCK (i_inum (inodes s ip)) (sb s) < word_of_int (disksize s)"
  shows "\<exists>t. iupdate ip s = Ok () t \<and> in_txn k t \<and> mild s t \<and>
    view t = (view s)(IBLOCK (i_inum (inodes s ip)) (sb s) :=
      put_dinode (view s (IBLOCK (i_inum (inodes s ip)) (sb s))) (unat (i_inum (inodes s ip)) mod IPB) (to_dinode (inodes s ip)))"
  using bs.edit_law [OF assms(1,3)] assms(2) by (auto simp: iupdate_def kexec)

lemma IBLOCK_eq: "IBLOCK m sbk = IBLOCK n sbk \<Longrightarrow> unat m mod IPB = unat n mod IPB \<Longrightarrow> m = n"
proof -
  assume "IBLOCK m sbk = IBLOCK n sbk" and mod: "unat m mod IPB = unat n mod IPB"
  then have "m div 8 = n div 8" by (simp add: IBLOCK_def)
  then have "unat (m div 8) = unat (n div 8)" by (rule arg_cong)
  then have "unat m div 8 = unat n div 8" by (simp add: unat_div)
  with mod have "unat m = unat n" by (metis div_mult_mod_eq)
  then show "m = n" by (simp add: word_unat_eq_iff)
qed

text \<open>
  C14. Inodes survive the cache: after \<open>iupdate\<close> of an inode, locking the inode in any recycled, not yet valid
  entry of the cache finds on the disk what the updated entry had: type, device numbers, link count, size
  and block addresses. No other inode on the disk changes.
\<close>

theorem inode_roundtrip:
  assumes "in_txn 1 s" and "i_dev (inodes s ip) = 1" and "IBLOCK (i_inum (inodes s ip)) (sb s) < word_of_int (disksize s)"
    and "i_type (inodes s ip) \<noteq> 0" and "\<not> sl_locked (slocks s (InodeLock jp))"
    and "1 \<le> i_ref j" and "\<not> i_valid j" and "i_dev j = 1" and "i_inum j = i_inum (inodes s ip)"
  shows "\<exists>t u. iupdate ip s = Ok () t \<and> ilock (Some jp) (t\<lparr>inodes := (inodes t)(jp := j)\<rparr>) = Ok () u \<and> i_valid (inodes u jp) \<and>
    i_type (inodes u jp) = i_type (inodes s ip) \<and> i_major (inodes u jp) = i_major (inodes s ip) \<and>
    i_minor (inodes u jp) = i_minor (inodes s ip) \<and> i_nlink (inodes u jp) = i_nlink (inodes s ip) \<and>
    i_size (inodes u jp) = i_size (inodes s ip) \<and> (\<forall>k \<le> NDIRECT. i_addrs (inodes u jp) k = i_addrs (inodes s ip) k) \<and>
    (\<forall>n. n \<noteq> i_inum (inodes s ip) \<longrightarrow> disk_inode u n = disk_inode s n)"
proof -
  let ?i = "inodes s ip"
  let ?b = "IBLOCK (i_inum ?i) (sb s)"
  let ?k = "unat (i_inum ?i) mod IPB"
  obtain t where t: "iupdate ip s = Ok () t" "in_txn 0 t" "mild s t" "view t = (view s)(?b := put_dinode (view s ?b) ?k (to_dinode ?i))"
    using iupdate_spec [of 0 s ip] assms(1-3) by auto
  define t' where "t' = t\<lparr>inodes := (inodes t)(jp := j)\<rparr>"
  have f: "sb t = sb s" "disksize t = disksize s" using mild_fs [OF t(3)] mild_fields(6) [OF t(3)] by auto
  have d: "disk_inode t' (i_inum ?i) = (to_dinode ?i)\<lparr>di_addrs := (\<lambda>i. if i \<le> NDIRECT then i_addrs ?i i else 0)\<rparr>"
    using t(4) f by (simp add: t'_def disk_inode_def get_put_dinode_same) (simp add: to_dinode_def cong: if_cong)
  have "\<exists>u. ilock (Some jp) t' = Ok () u \<and> in_txn 0 u \<and> view u = view t' \<and> sb u = sb t' \<and> disksize u = disksize t' \<and>
      sl_locked (slocks u (InodeLock jp)) \<and> conts u = conts t' \<and> curcont u = curcont t' \<and>
      inodes u = (if i_valid (inodes t' jp) then inodes t'
        else (inodes t')(jp := (of_dinode (disk_inode t' (i_inum (inodes t' jp))) (inodes t' jp))\<lparr>i_valid := True\<rparr>))"
    using t(2) assms f d mild_fields(13) [OF t(3), of jp]
    by (intro ilock_spec) (simp_all add: t'_def to_dinode_def)
  then obtain u where u: "ilock (Some jp) t' = Ok () u" "view u = view t" "sb u = sb s"
    "inodes u jp = (of_dinode (disk_inode t' (i_inum ?i)) j)\<lparr>i_valid := True\<rparr>"
    using assms(7,9) f by (auto simp: t'_def)
  have "disk_inode u n = disk_inode s n" if "n \<noteq> i_inum ?i" for n
    using that IBLOCK_eq [of n "sb s" "i_inum ?i"] u(2,3) t(4)
    by (auto simp: disk_inode_def intro: get_put_dinode_other)
  with t(1) u(1) show ?thesis using u(4) [unfolded d] unfolding t'_def
    by (auto simp: of_dinode_def to_dinode_def)
qed

theorem inode_roundtrip_witness:
  "\<exists>t u. iupdate 0 (fs_ex (\<lambda>_ _. 0) (\<lambda>_. inode0\<lparr>i_dev := 1, i_inum := 5, i_type := T_FILE, i_size := 77\<rparr>)) = Ok () t \<and>
     ilock (Some 3) (t\<lparr>inodes := (inodes t)(3 := inode0\<lparr>i_dev := 1, i_inum := 5, i_ref := 1\<rparr>)\<rparr>) = Ok () u \<and>
     i_size (inodes u 3) = 77 \<and> i_type (inodes u 3) = T_FILE"
proof -
  let ?i = "inode0\<lparr>i_dev := 1, i_inum := 5, i_type := T_FILE, i_size := 77\<rparr>"
  let ?s = "fs_ex (\<lambda>_ _. 0) (\<lambda>_. ?i)"
  have "in_txn 1 ?s" by (rule fs_ex_txn) simp
  moreover have "IBLOCK (i_inum (inodes ?s 0)) (sb ?s) < word_of_int (disksize ?s)" by (simp add: fs_ex_fields IBLOCK_def sb_ex_def)
  ultimately show ?thesis
    using inode_roundtrip [of ?s 0 3 "inode0\<lparr>i_dev := 1, i_inum := 5, i_ref := 1\<rparr>"]
    by (auto simp: fs_ex_fields inode0_def)
qed

end
