(* ===== verification/Console.thy ===== *)
theory Console
  imports Inode
begin

text \<open>
  The console \<^verbatim>\<open>console.c\<close>: output to the screen and the serial port, formatted printing, the line
  discipline of the input with one buffer per container's console, and the console as a device. The
  screen is the array of character cells and the cursor register; the serial port is the list of the bytes
  sent. The argument \<open>getc\<close> of \<open>consoleintr\<close> is the list of the values it returns before a
  negative one. \<open>consoleread\<close> and \<open>consolewrite\<close> take and return the bytes behind their pointer. A process
  that waits for input stops in \<open>sleep\<close> and runs the waiting loop's test again when it is scheduled.
\<close>

section \<open>State\<close>

abbreviation (input) INPUT_BUF :: uint where "INPUT_BUF \<equiv> 128"
abbreviation (input) CONSOLE :: nat where "CONSOLE \<equiv> 1"
abbreviation (input) NDEV :: int where "NDEV \<equiv> 10"
abbreviation (input) BACKSPACE :: int where "BACKSPACE \<equiv> 0x100"

record inputbuf =
  in_buf :: "nat \<Rightarrow> byte"     \<comment> \<open>\<open>char buf[INPUT_BUF]\<close>\<close>
  in_r :: uint
  in_w :: uint
  in_e :: uint

datatype devfn = ConsoleRead | ConsoleWrite

record devsw_entry =
  dev_read :: "devfn option"
  dev_write :: "devfn option"

record console = fsst +
  cinput :: inputbuf
  buffers :: "nat \<Rightarrow> inputbuf"
  active :: int
  panicked :: bool
  locking :: bool
  crt :: "nat \<Rightarrow> ushort"
  curpos :: int               \<comment> \<open>cursor register of the display controller\<close>
  has_uart :: bool
  uart_out :: "byte list"
  devsw :: "nat \<Rightarrow> devsw_entry"

definition upd_input :: "(inputbuf \<Rightarrow> inputbuf) \<Rightarrow> ('z console_scheme, unit) kop" where
  "upd_input f = kmod (\<lambda>s. s\<lparr>cinput := f (cinput s)\<rparr>)"

section \<open>Output\<close>

definition uartputc :: "int \<Rightarrow> ('z console_scheme, unit) kop" where
  "uartputc c = kbind (kget has_uart) (\<lambda>u. kwhen u (kmod (\<lambda>s. s\<lparr>uart_out := uart_out s @ [word_of_int c]\<rparr>)))"

text \<open>The position after the character has been drawn, and the cells.\<close>

definition cga_draw :: "int \<Rightarrow> int \<Rightarrow> (nat \<Rightarrow> ushort) \<Rightarrow> int \<times> (nat \<Rightarrow> ushort)" where
  "cga_draw c pos m =
     (if c = 10 then (pos + (80 - pos mod 80), m)
      else if c = BACKSPACE then (if pos > 0 then pos - 1 else pos, m)
      else (pos + 1, m(nat pos := or (and (word_of_int c) 0xff) 0x0700)))"

definition cga_scroll :: "int \<Rightarrow> (nat \<Rightarrow> ushort) \<Rightarrow> int \<times> (nat \<Rightarrow> ushort)" where
  "cga_scroll pos m =
     (if pos div 80 \<ge> 24
      then (let p = pos - 80; m1 = (\<lambda>k. if k < 23 * 80 then m (k + 80) else m k)
            in (p, \<lambda>k. if nat p \<le> k \<and> k < 24 * 80 then 0 else m1 k))
      else (pos, m))"

definition cgaputc :: "int \<Rightarrow> ('z console_scheme, unit) kop" where
  "cgaputc c =
     kbind (kget (\<lambda>s. cga_draw c (curpos s) (crt s))) (\<lambda>(p1, m1).
     kthen (kmod (\<lambda>s. s\<lparr>crt := m1\<rparr>))
     (if p1 < 0 \<or> p1 > 25 * 80 then panic ''pos under/overflow''
      else let (p2, m2) = cga_scroll p1 m1 in
        kmod (\<lambda>s. s\<lparr>curpos := p2 mod 65536, crt := m2(nat p2 := 0x0720)\<rparr>)))"

definition consputc :: "int \<Rightarrow> ('z console_scheme, unit) kop" where
  "consputc c =
     kbind (kget panicked) (\<lambda>pk.
     if pk then stop Spin
     else
       kthen (if c = BACKSPACE then kthen (uartputc 8) (kthen (uartputc 32) (uartputc 8)) else uartputc c)
       (cgaputc c))"

text \<open>The digits of \<open>printint\<close> in the order they are stored: the last one first.\<close>

function print_digits :: "nat \<Rightarrow> nat \<Rightarrow> char list" where
  "print_digits base x =
     ''0123456789abcdef'' ! (x mod base) # (if base < 2 \<or> x div base = 0 then [] else print_digits base (x div base))"
  by pat_completeness auto
termination
proof (relation "measure snd")
  fix base x :: nat
  assume *: "\<not> (base < 2 \<or> x div base = 0)"
  then have "0 < x" by (cases x) auto
  with * show "((base, x div base), base, x) \<in> measure snd" by simp
qed simp

declare print_digits.simps [simp del]

definition printint :: "uint \<Rightarrow> nat \<Rightarrow> bool \<Rightarrow> char list" where
  "printint xx base sign =
     (let neg = sign \<and> sint xx < 0;
          x = if neg then - xx else xx
      in rev (print_digits base (unat x) @ (if neg then ''-'' else [])))"

text \<open>The arguments behind the format string, and the characters \<open>cprintf\<close> prints. \<open>None\<close> is a read
  past the end of a string or of the arguments.\<close>

datatype carg = CInt uint | CStr "char list option"

fun cstr_out :: "char list \<Rightarrow> char list option" where
  "cstr_out [] = None"
| "cstr_out (c # s) = (if c = NUL then Some [] else map_option (Cons c) (cstr_out s))"

fun fmt_out :: "char list \<Rightarrow> carg list \<Rightarrow> char list option" where
  "fmt_out [] args = None"
| "fmt_out [c] args = (if c = NUL then Some [] else None)"
| "fmt_out (c # c2 # fmt) args =
     (if c = NUL then Some []
      else if c \<noteq> CHR ''%'' then map_option (Cons c) (fmt_out (c2 # fmt) args)
      else if c2 = NUL then Some []
      else if c2 = CHR ''d'' then (case args of CInt x # args \<Rightarrow> map_option ((@) (printint x 10 True)) (fmt_out fmt args) | _ \<Rightarrow> None)
      else if c2 = CHR ''x'' \<or> c2 = CHR ''p''
      then (case args of CInt x # args \<Rightarrow> map_option ((@) (printint x 16 False)) (fmt_out fmt args) | _ \<Rightarrow> None)
      else if c2 = CHR ''s''
      then (case args of
              CStr ms # args \<Rightarrow>
                (case cstr_out (case ms of None \<Rightarrow> cstring ''(null)'' | Some a \<Rightarrow> a) of
                   None \<Rightarrow> None
                 | Some out \<Rightarrow> map_option ((@) out) (fmt_out fmt args))
            | _ \<Rightarrow> None)
      else if c2 = CHR ''%'' then map_option (Cons CHR ''%'') (fmt_out fmt args)
      else map_option (\<lambda>out. CHR ''%'' # c2 # out) (fmt_out fmt args))"

definition cprintf :: "char list option \<Rightarrow> carg list \<Rightarrow> ('z console_scheme, unit) kop" where
  "cprintf mfmt args =
     kbind (kget locking) (\<lambda>lk.
     kthen (kwhen lk (acquire Lcons))
     (case mfmt of
        None \<Rightarrow> panic ''null fmt''
      | Some fmt \<Rightarrow>
          kbind (klift (fmt_out fmt args)) (\<lambda>out.
          kthen (kfor out (\<lambda>c. consputc (uchar c)))
          (kwhen lk (release Lcons)))))"

section \<open>The dump of the tables\<close>

fun state_name :: "procstate \<Rightarrow> char list" where
  "state_name UNUSED = ''unused''"
| "state_name EMBRYO = ''embryo''"
| "state_name SLEEPING = ''sleep ''"
| "state_name RUNNABLE = ''runble''"
| "state_name RUNNING = ''run   ''"
| "state_name ZOMBIE = ''zombie''"

definition contdump_proc :: "proc \<Rightarrow> ('z console_scheme, unit) kop" where
  "contdump_proc p =
     kwhen (pstate p \<noteq> UNUSED)
       (kthen (cprintf (Some (CHR 0x09 # cstring ''%d %s %s''))
          [CInt (word_of_int (pid p)), CStr (Some (cstring (state_name (pstate p)))), CStr (Some (pname p))])
       (kthen (kwhen (pstate p = SLEEPING)
          (kbind (kget (\<lambda>s. getcallerpcs (mem s) (cx_ebp (pcontext p) + 8))) (\<lambda>pcs.
           kfor (takeWhile (\<lambda>pc. pc \<noteq> 0) pcs) (\<lambda>pc. cprintf (Some (cstring '' %p'')) [CInt pc]))))
       (cprintf (Some [CHR 0x0A, NUL]) [])))"

definition contdump_cont :: "nat \<Rightarrow> ('z console_scheme, unit) kop" where
  "contdump_cont i =
     kbind (kget (\<lambda>s. conts s i)) (\<lambda>c.
     kwhen (cstate c \<noteq> CUNUSED)
       (kthen (cprintf (Some (CHR 0x0A # ''Container %d: %s'' @ [CHR 0x0A, NUL])) [CInt (word_of_int (cid c)), CStr (Some (cname c))])
       (kfor [0..<nat (mproc c)] (\<lambda>k.
          kbind (klift (proc_at c (int k))) (\<lambda>p.
          kbind (kget (\<lambda>s. procs s p)) contdump_proc)))))"

definition contdump :: "('z console_scheme, unit) kop" where
  "contdump = kthen acquireptable (kthen (kfor [0..<NCONT] contdump_cont) releaseptable)"

section \<open>Input\<close>

definition nextconsole :: "('z console_scheme, unit) kop" where
  "nextconsole =
     kthen (kmod (\<lambda>s. s\<lparr>buffers := (buffers s)(nat (active s) := cinput s)\<rparr>))
     (kthen (kmod (\<lambda>s. s\<lparr>active := (active s + 1) mod int NCONT\<rparr>))
     (kmod (\<lambda>s. s\<lparr>cinput := buffers s (nat (active s))\<rparr>)))"

text \<open>Cell \<open>i % INPUT_BUF\<close> of the buffer.\<close>

definition in_at :: "inputbuf \<Rightarrow> uint \<Rightarrow> byte" where
  "in_at b i = in_buf b (unat (i mod INPUT_BUF))"

text \<open>The loop of control-U; \<open>n\<close> bounds the number of characters between the indices.\<close>

primrec kill_line :: "nat \<Rightarrow> ('z console_scheme, unit) kop" where
  "kill_line 0 = ret ()"
| "kill_line (Suc n) =
     kbind (kget cinput) (\<lambda>b.
     kwhen (in_e b \<noteq> in_w b \<and> in_at b (in_e b - 1) \<noteq> 10)
       (kthen (upd_input (\<lambda>b. b\<lparr>in_e := in_e b - 1\<rparr>))
       (kthen (consputc BACKSPACE)
       (kill_line n))))"

definition input_char :: "int \<Rightarrow> ('z console_scheme, unit) kop" where
  "input_char c0 =
     kbind (kget cinput) (\<lambda>b.
     kwhen (c0 \<noteq> 0 \<and> in_e b - in_r b < INPUT_BUF)
       (let c = if c0 = 13 then 10 else c0 in
        kthen (upd_input (\<lambda>b. b\<lparr>in_buf := (in_buf b)(unat (in_e b mod INPUT_BUF) := word_of_int c), in_e := in_e b + 1\<rparr>))
        (kthen (consputc c)
        (kbind (kget cinput) (\<lambda>b.
         kwhen (c = 10 \<or> c = 4 \<or> in_e b = in_r b + INPUT_BUF)
           (kthen (upd_input (\<lambda>b. b\<lparr>in_w := in_e b\<rparr>))
           (wakeup (Some ChInput))))))))"

primrec consoleintr_loop :: "int list \<Rightarrow> bool \<Rightarrow> bool \<Rightarrow> ('z console_scheme, bool \<times> bool) kop" where
  "consoleintr_loop [] dump sw = ret (dump, sw)"
| "consoleintr_loop (c # cs) dump sw =
     (if c = 16 then consoleintr_loop cs True sw
      else if c = 20 then kthen nextconsole (consoleintr_loop cs dump True)
      else if c = 21
      then kthen (kbind (kget cinput) (\<lambda>b. kill_line (unat (in_e b - in_w b)))) (consoleintr_loop cs dump sw)
      else if c = 8 \<or> c = 127
      then kthen (kbind (kget cinput) (\<lambda>b.
              kwhen (in_e b \<noteq> in_w b) (kthen (upd_input (\<lambda>b. b\<lparr>in_e := in_e b - 1\<rparr>)) (consputc BACKSPACE))))
            (consoleintr_loop cs dump sw)
      else kthen (input_char c) (consoleintr_loop cs dump sw))"

definition consoleintr :: "int list \<Rightarrow> ('z console_scheme, unit) kop" where
  "consoleintr cs =
     kthen (acquire Lcons)
     (kbind (consoleintr_loop cs False False) (\<lambda>(dump, sw).
      kthen (release Lcons)
     (kthen (kwhen dump contdump)
     (kwhen sw (kbind (kget active) (\<lambda>a.
        cprintf (Some ([CHR 0x0A, CHR 0x0A] @ cstring ''Active console now: %d'')) [CInt (word_of_int a)]))))))"

section \<open>The console as a device\<close>

text \<open>The reading loop: \<open>n\<close> bytes are still wanted, \<open>got\<close> have been stored.\<close>

primrec consoleread_loop :: "nat \<Rightarrow> nat \<Rightarrow> byte list \<Rightarrow> ('z console_scheme, (nat \<times> byte list) option) kop" where
  "consoleread_loop ip 0 got = ret (Some (0, got))"
| "consoleread_loop ip (Suc n) got =
     kbind (kget (\<lambda>s. (cinput s, active s, sint (i_minor (inodes s ip))))) (\<lambda>(b, a, mi).
     if in_r b = in_w b \<or> a \<noteq> mi
     then kbind myproc (\<lambda>mp. kbind (klift mp) (\<lambda>p. kbind (kget (\<lambda>s. killed (procs s p))) (\<lambda>k.
          if k then ret None
          else kthen (sleep (Some ChInput) (Some Lcons)) (stop Switch))))
     else
       (let c = in_at b (in_r b) in
        if c = 4
        then kthen (upd_input (\<lambda>b. b\<lparr>in_r := (if got = [] then in_r b + 1 else in_r b)\<rparr>)) (ret (Some (Suc n, got)))
        else
          kthen (upd_input (\<lambda>b. b\<lparr>in_r := in_r b + 1\<rparr>))
          (if c = 10 then ret (Some (n, got @ [c])) else consoleread_loop ip n (got @ [c]))))"

definition consoleread :: "nat \<Rightarrow> int \<Rightarrow> ('z console_scheme, int \<times> byte list) kop" where
  "consoleread ip n =
     kthen (iunlock (Some ip))
     (kthen (acquire Lcons)
     (kbind (consoleread_loop ip (nat n) []) (\<lambda>r.
      kthen (release Lcons)
     (kthen (ilock (Some ip))
     (ret (case r of None \<Rightarrow> (-1, []) | Some (rest, got) \<Rightarrow> (n - (if n > 0 then int rest else n), got)))))))"

definition consolewrite :: "nat \<Rightarrow> byte list \<Rightarrow> ('z console_scheme, int) kop" where
  "consolewrite ip buf =
     kbind (kget (\<lambda>s. (active s, sint (i_minor (inodes s ip))))) (\<lambda>(a, mi).
     kthen (kwhen (a = mi)
       (kthen (iunlock (Some ip))
       (kthen (acquire Lcons)
       (kthen (kfor buf (\<lambda>c. consputc (uint c)))
       (kthen (release Lcons)
       (ilock (Some ip)))))))
     (ret (int (length buf))))"

definition consoleinit :: "('z console_scheme, unit) kop" where
  "consoleinit = kmod (\<lambda>s. s\<lparr>devsw := (devsw s)(CONSOLE := \<lparr>dev_read = Some ConsoleRead, dev_write = Some ConsoleWrite\<rparr>), locking := True\<rparr>)"

section \<open>The screen\<close>

definition screen_ok :: "'z console_scheme \<Rightarrow> bool" where
  "screen_ok s \<longleftrightarrow> \<not> panicked s \<and> 0 \<le> curpos s \<and> curpos s < 24 * 80"

lemma cgaputc_exec:
  assumes "screen_ok s"
  shows "\<exists>p m. cgaputc c s = Ok () (s\<lparr>crt := m, curpos := p\<rparr>) \<and> 0 \<le> p \<and> p < 24 * 80 \<and> (\<forall>k \<ge> 25 * 80. m k = crt s k)"
proof -
  have pos: "0 \<le> curpos s" "curpos s < 1920" using assms by (auto simp: screen_ok_def)
  obtain p1 m1 where d: "cga_draw c (curpos s) (crt s) = (p1, m1)" by fastforce
  have p1: "0 \<le> p1" "p1 \<le> 1920" using d pos by (auto simp: cga_draw_def split: if_splits) presburger+
  have m1: "\<forall>k \<ge> 2000. m1 k = crt s k" using d pos by (auto simp: cga_draw_def split: if_splits)
  obtain p2 m2 where sc: "cga_scroll p1 m1 = (p2, m2)" by fastforce
  have p2: "0 \<le> p2" "p2 < 1920" using sc p1 by (auto simp: cga_scroll_def Let_def split: if_splits)
  have "\<forall>k \<ge> 2000. m2 k = crt s k" using sc m1 by (auto simp: cga_scroll_def Let_def split: if_splits)
  then have "\<forall>k \<ge> 25 * 80. (m2(nat p2 := 0x0720)) k = crt s k" using p2 by auto
  moreover have "cgaputc c s = Ok () (s\<lparr>crt := m2(nat p2 := 0x0720), curpos := p2\<rparr>)"
    using p1 p2 by (simp add: cgaputc_def kexec d sc)
  ultimately show ?thesis using p2 by (intro exI [of _ p2] exI [of _ "m2(nat p2 := 0x0720)"]) simp
qed

text \<open>
  C32. Characters stay on the screen: with the cursor in the first 24 lines, \<open>cgaputc\<close> of any character, newline
  and backspace included, does not panic, leaves the cursor in the first 24 lines, and writes no cell
  outside the 25 lines of the display memory.
\<close>

theorem cgaputc_on_screen:
  assumes "\<not> panicked s" and "0 \<le> curpos s" and "curpos s < 24 * 80"
  shows "\<exists>t. cgaputc c s = Ok () t \<and> 0 \<le> curpos t \<and> curpos t < 24 * 80 \<and> (\<forall>k \<ge> 25 * 80. crt t k = crt s k)"
  using cgaputc_exec [of s c] assms by (auto simp: screen_ok_def)

lemma uartputc_exec: "\<exists>u. uartputc c s = Ok () (s\<lparr>uart_out := u\<rparr>)"
proof (cases "has_uart s")
  case True
  then show ?thesis by (intro exI [of _ "uart_out s @ [word_of_int c]"]) (simp add: uartputc_def kexec)
next
  case False
  then show ?thesis by (intro exI [of _ "uart_out s"]) (simp add: uartputc_def kexec)
qed

text \<open>Output changes the screen and the serial port only.\<close>

definition echoed :: "'z console_scheme \<Rightarrow> 'z console_scheme \<Rightarrow> bool" where
  "echoed s t \<longleftrightarrow> (\<exists>u m p. t = s\<lparr>uart_out := u, crt := m, curpos := p\<rparr>)"

lemma consputc_echo:
  assumes "screen_ok s"
  shows "\<exists>t. consputc c s = Ok () t \<and> echoed s t \<and> screen_ok t"
proof -
  let ?u = "if c = BACKSPACE then kthen (uartputc 8) (kthen (uartputc 32) (uartputc 8)) else uartputc c"
  have "\<exists>u. ?u s = Ok () (s\<lparr>uart_out := u\<rparr>)"
  proof (cases "c = BACKSPACE")
    case True
    obtain u1 where u1: "uartputc 8 s = Ok () (s\<lparr>uart_out := u1\<rparr>)" using uartputc_exec by blast
    obtain u2 where u2: "uartputc 32 (s\<lparr>uart_out := u1\<rparr>) = Ok () (s\<lparr>uart_out := u1, uart_out := u2\<rparr>)" using uartputc_exec by blast
    obtain u3 where "uartputc 8 (s\<lparr>uart_out := u1, uart_out := u2\<rparr>) = Ok () (s\<lparr>uart_out := u1, uart_out := u2, uart_out := u3\<rparr>)"
      using uartputc_exec by blast
    with u1 u2 True show ?thesis by (auto simp: kexec)
  next
    case False
    then show ?thesis using uartputc_exec by auto
  qed
  then obtain u where u: "?u s = Ok () (s\<lparr>uart_out := u\<rparr>)" by blast
  define s1 where "s1 = s\<lparr>uart_out := u\<rparr>"
  have "screen_ok s1" using assms by (simp add: s1_def screen_ok_def)
  then obtain p m where "cgaputc c s1 = Ok () (s1\<lparr>crt := m, curpos := p\<rparr>)" "0 \<le> p" "p < 24 * 80" using cgaputc_exec by blast
  moreover have "consputc c s = cgaputc c s1"
    using assms u unfolding consputc_def s1_def by (simp add: kbind_exec kget_exec kthen_exec [of ?u] screen_ok_def)
  ultimately show ?thesis using assms by (auto simp: s1_def echoed_def screen_ok_def)
qed

text \<open>An example: a console with empty buffers over the example file system.\<close>

definition input0 :: inputbuf where
  "input0 = \<lparr>in_buf = (\<lambda>_. 0), in_r = 0, in_w = 0, in_e = 0\<rparr>"

definition cons_ex :: console where
  "cons_ex = fsst.extend (fs_ex (\<lambda>_ _. 0) (\<lambda>_. inode0)) (console.fields input0 (\<lambda>_. input0) 1 False True (\<lambda>_. 0) 1919 True []
     (\<lambda>_. \<lparr>dev_read = None, dev_write = None\<rparr>))"

theorem cgaputc_on_screen_witness: "\<exists>t. cgaputc 10 cons_ex = Ok () t \<and> curpos t < 24 * 80"
proof -
  have "\<not> panicked cons_ex" "curpos cons_ex = 1919" by (simp_all add: cons_ex_def fsst.defs console.defs)
  then show ?thesis using cgaputc_on_screen [of cons_ex 10] by auto
qed

section \<open>The line editor\<close>

text \<open>The bytes of the ring between two of its indices.\<close>

definition between :: "inputbuf \<Rightarrow> uint \<Rightarrow> uint \<Rightarrow> byte list" where
  "between b i j = map (\<lambda>k. in_at b (i + word_of_nat k)) [0..<unat (j - i)]"

lemma length_between [simp]: "length (between b i j) = unat (j - i)"
  by (simp add: between_def)

lemma between_self [simp]: "between b i i = []"
  by (simp add: between_def)

lemma unat_plus_small: "unat a + unat b < 2 ^ 32 \<Longrightarrow> unat (a + b :: uint) = unat a + unat b"
  by (simp add: unat_word_ariths)

lemma between_snoc:
  assumes "unat (j - i) < 2 ^ 31"
  shows "between b i (j + 1) = between b i j @ [in_at b j]"
proof -
  have eq: "j + 1 - i = (j - i) + 1" by simp
  have "unat (j + 1 - i) = Suc (unat (j - i))"
    unfolding eq using assms unat_plus_small [of "j - i" 1] by simp
  then show ?thesis by (simp add: between_def)
qed

lemma between_append:
  assumes "unat (j - i) + unat (k - j) < 2 ^ 31"
  shows "between b i k = between b i j @ between b j k"
proof -
  have "(j - i) + (k - j) = k - i" by simp
  then have len: "unat (k - i) = unat (j - i) + unat (k - j)" using assms unat_plus_small [of "j - i" "k - j"] by simp
  have eq: "i + word_of_nat (unat (j - i) + m) = j + word_of_nat m" for m by simp
  have "map (\<lambda>m. in_at b (i + word_of_nat m)) [unat (j - i)..<unat (j - i) + unat (k - j)] = between b j k"
  proof (rule nth_equalityI)
    fix m assume "m < length (map (\<lambda>m. in_at b (i + word_of_nat m)) [unat (j - i)..<unat (j - i) + unat (k - j)])"
    then show "map (\<lambda>m. in_at b (i + word_of_nat m)) [unat (j - i)..<unat (j - i) + unat (k - j)] ! m = between b j k ! m"
      by (simp only: length_map length_upt nth_map nth_upt between_def eq) simp
  qed simp
  then show ?thesis unfolding between_def [of b i] len by (subst upt_add_eq_append) (simp_all add: between_def)
qed

lemma mod_shift: "(a + d) mod 128 = a mod 128 \<Longrightarrow> (d :: nat) mod 128 = 0"
  using mod_eq_dvd_iff_nat [of a "a + d" 128] by auto

lemma ring_index_neq:
  assumes "d \<noteq> 0" and "unat (d :: uint) < 128"
  shows "unat ((x + d) mod 128) \<noteq> unat (x mod 128)"
proof
  assume "unat ((x + d) mod 128) = unat (x mod 128)"
  then have "(unat x + unat d) mod 2 ^ 32 mod 128 = unat x mod 128" by (simp add: unat_mod unat_word_ariths)
  moreover have "(unat x + unat d) mod 2 ^ 32 mod 128 = (unat x + unat d) mod 128" by (rule mod_mod_cancel) simp
  ultimately have "unat d mod 128 = 0" using mod_shift by metis
  with assms show False by (simp add: word_unat_eq_iff)
qed

text \<open>Storing at index \<open>e\<close> leaves the bytes before it alone while fewer than 128 are in the ring.\<close>

lemma between_store:
  assumes "unat (j - i) \<le> unat (e - i)" and "unat (e - i) < 128"
  shows "between (b\<lparr>in_buf := (in_buf b)(unat (e mod 128) := x), in_e := e'\<rparr>) i j = between b i j"
  unfolding between_def
proof (rule map_cong [OF refl])
  fix k assume "k \<in> set [0..<unat (j - i)]"
  then have k: "k < unat (e - i)" using assms(1) by simp
  define d where "d = e - (i + word_of_nat k)"
  have e: "e = (i + word_of_nat k) + d" by (simp add: d_def)
  have uk: "unat (word_of_nat k :: uint) = k" using k assms(2) by (simp add: unat_of_nat take_bit_nat_eq_self)
  have "word_of_nat k \<le> e - i" using k uk by (simp add: word_le_nat_alt)
  then have "unat d = unat (e - i) - k" using uk by (simp add: d_def diff_diff_eq [symmetric] unat_sub)
  then have "d \<noteq> 0" "unat d < 128" using k assms(2) by auto
  from ring_index_neq [OF this, of "i + word_of_nat k"] show
    "in_at (b\<lparr>in_buf := (in_buf b)(unat (e mod 128) := x), in_e := e'\<rparr>) (i + word_of_nat k) = in_at b (i + word_of_nat k)"
    by (simp add: in_at_def e [symmetric])
qed

text \<open>The abstract editor: the bytes a reader may take, and the line being typed.\<close>

fun edit_step :: "byte list \<times> byte list \<Rightarrow> int \<Rightarrow> byte list \<times> byte list" where
  "edit_step (com, line) c =
     (if c = 16 then (com, line)
      else if c = 21 then (com, [])
      else if c = 8 \<or> c = 127 then (com, butlast line)
      else if c = 0 \<or> length com + length line \<ge> 128 then (com, line)
      else let c' = (if c = 13 then 10 else c); line' = line @ [word_of_int c'] in
        if c' = 10 \<or> c' = 4 \<or> length com + length line' = 128 then (com @ line', []) else (com, line'))"

definition line_abs :: "inputbuf \<Rightarrow> byte list \<times> byte list" where
  "line_abs b = (between b (in_r b) (in_w b), between b (in_w b) (in_e b))"

definition in_ok :: "inputbuf \<Rightarrow> bool" where
  "in_ok b \<longleftrightarrow> unat (in_w b - in_r b) + unat (in_e b - in_w b) \<le> 128 \<and> 10 \<notin> set (between b (in_w b) (in_e b))"

lemma line_last:
  assumes "in_ok b" and "in_e b \<noteq> in_w b"
  shows "between b (in_w b) (in_e b) = between b (in_w b) (in_e b - 1) @ [in_at b (in_e b - 1)]"
    and "unat (in_e b - 1 - in_w b) + 1 = unat (in_e b - in_w b)"
proof -
  let ?d = "in_e b - in_w b"
  have d: "?d \<noteq> 0" "unat ?d \<le> 128" using assms by (auto simp: in_ok_def)
  have "unat (?d - 1) = unat ?d - 1" using d(1) by (simp add: unat_sub word_le_nat_alt Suc_leI unat_gt_0)
  moreover have eq: "in_e b - 1 - in_w b = ?d - 1" by simp
  have "0 < unat ?d" using d(1) by (simp add: unat_gt_0)
  ultimately show len: "unat (in_e b - 1 - in_w b) + 1 = unat ?d" unfolding eq by simp
  then have "unat (in_e b - 1 - in_w b) < 2 ^ 31" using d(2) by simp
  from between_snoc [OF this, of b] show
    "between b (in_w b) (in_e b) = between b (in_w b) (in_e b - 1) @ [in_at b (in_e b - 1)]" by simp
qed

lemma between_upd_e [simp]: "between (b\<lparr>in_e := e\<rparr>) i j = between b i j" "between (b\<lparr>in_w := w\<rparr>) i j = between b i j"
  by (simp_all add: between_def in_at_def)

lemma drop_last:
  assumes "in_ok b" and "in_e b \<noteq> in_w b"
  shows "in_ok (b\<lparr>in_e := in_e b - 1\<rparr>)" and "line_abs (b\<lparr>in_e := in_e b - 1\<rparr>) = apsnd butlast (line_abs b)"
  using line_last [OF assms] assms(1) by (auto simp: in_ok_def line_abs_def)

text \<open>What a step of the editor keeps: it touches its buffer, the output and processes it wakes.\<close>

definition edits_only :: "'z console_scheme \<Rightarrow> 'z console_scheme \<Rightarrow> bool" where
  "edits_only s t \<longleftrightarrow> held t = held s \<and> rows_ok t = rows_ok s \<and> conts t = conts s \<and> inodes t = inodes s \<and>
     (screen_ok s \<longrightarrow> screen_ok t)"

lemma edits_only_refl [simp]: "edits_only s s"
  by (simp add: edits_only_def)

lemma edits_only_trans: "edits_only s t \<Longrightarrow> edits_only t u \<Longrightarrow> edits_only s u"
  by (simp add: edits_only_def)

lemma echoed_edits: "echoed s t \<Longrightarrow> screen_ok t \<Longrightarrow> edits_only s t \<and> cinput t = cinput s"
  by (auto simp: echoed_def edits_only_def rows_ok_def)

lemma upd_input_exec [kexec]: "upd_input f s = Ok () (s\<lparr>cinput := f (cinput s)\<rparr>)"
  by (simp add: upd_input_def kexec)

lemma upd_input_edits: "edits_only s (s\<lparr>cinput := b\<rparr>)"
  by (simp add: edits_only_def rows_ok_def screen_ok_def)

lemma drop_echo:
  assumes "screen_ok s"
  shows "\<exists>t. kthen (upd_input (\<lambda>b. b\<lparr>in_e := in_e b - 1\<rparr>)) (consputc BACKSPACE) s = Ok () t \<and> edits_only s t \<and> screen_ok t \<and>
    cinput t = (cinput s)\<lparr>in_e := in_e (cinput s) - 1\<rparr>"
proof -
  define s1 where "s1 = s\<lparr>cinput := (cinput s)\<lparr>in_e := in_e (cinput s) - 1\<rparr>\<rparr>"
  have "screen_ok s1" using assms by (simp add: s1_def screen_ok_def)
  then obtain t where t: "consputc BACKSPACE s1 = Ok () t" "echoed s1 t" "screen_ok t" using consputc_echo by blast
  have "edits_only s t" "cinput t = cinput s1"
    using echoed_edits [OF t(2,3)] edits_only_trans [OF upd_input_edits] unfolding s1_def by blast+
  with t show ?thesis by (auto simp: kexec s1_def)
qed

lemma kill_line_spec:
  assumes "screen_ok s" and "in_ok (cinput s)"
  shows "\<exists>t. kill_line (unat (in_e (cinput s) - in_w (cinput s))) s = Ok () t \<and> edits_only s t \<and> screen_ok t \<and>
    in_ok (cinput t) \<and> line_abs (cinput t) = (fst (line_abs (cinput s)), [])"
  using assms
proof (induction "unat (in_e (cinput s) - in_w (cinput s))" arbitrary: s)
  case 0
  then have "in_e (cinput s) = in_w (cinput s)" by (simp add: unat_eq_0)
  with "0.hyps" "0.prems" show ?case by (simp add: kexec line_abs_def)
next
  case (Suc n)
  let ?b = "cinput s"
  have ne: "in_e ?b \<noteq> in_w ?b" using Suc.hyps(2) by auto
  note last = line_last [OF Suc.prems(2) ne]
  have nl: "in_at ?b (in_e ?b - 1) \<noteq> 10" using Suc.prems(2) last(1) by (simp add: in_ok_def)
  obtain t where t: "kthen (upd_input (\<lambda>b. b\<lparr>in_e := in_e b - 1\<rparr>)) (consputc BACKSPACE) s = Ok () t" "edits_only s t" "screen_ok t"
    "cinput t = ?b\<lparr>in_e := in_e ?b - 1\<rparr>" using drop_echo [OF Suc.prems(1)] by blast
  have n: "n = unat (in_e (cinput t) - in_w (cinput t))" using Suc.hyps(2) last(2) t(4) by simp
  note d = drop_last [OF Suc.prems(2) ne, folded t(4)]
  obtain u where u: "kill_line n t = Ok () u" "edits_only t u" "screen_ok u" "in_ok (cinput u)"
    "line_abs (cinput u) = (fst (line_abs (cinput t)), [])" using Suc.hyps(1) [OF n t(3) d(1)] n by auto
  have "kill_line (Suc n) s = kthen (kthen (upd_input (\<lambda>b. b\<lparr>in_e := in_e b - 1\<rparr>)) (consputc BACKSPACE)) (kill_line n) s"
    using ne nl by (simp add: kthen_assoc kbind_exec kget_exec kwhen_exec)
  also have "\<dots> = Ok () u" using t(1) u(1) by (simp add: kthen_exec [of "kthen _ _"])
  finally show ?case using u edits_only_trans [OF t(2) u(2)] d(2) Suc.hyps(2) by (auto simp: apsnd_def map_prod_def split_beta)
qed

lemma append_line:
  assumes "in_ok b" and "unat (in_w b - in_r b) + unat (in_e b - in_w b) < 128"
    and b'_def: "b' = b\<lparr>in_buf := (in_buf b)(unat (in_e b mod 128) := x), in_e := in_e b + 1\<rparr>"
  shows "line_abs b' = (fst (line_abs b), snd (line_abs b) @ [x])"
    and "unat (in_w b' - in_r b') + unat (in_e b' - in_w b') = Suc (unat (in_w b - in_r b) + unat (in_e b - in_w b))"
    and "in_e b' = in_r b' + 128 \<longleftrightarrow> unat (in_w b - in_r b) + unat (in_e b - in_w b) = 127"
    and "between b' (in_r b) (in_e b + 1) = between b (in_r b) (in_w b) @ between b (in_w b) (in_e b) @ [x]"
proof -
  let ?n = "unat (in_w b - in_r b)" and ?m = "unat (in_e b - in_w b)"
  have er: "(in_w b - in_r b) + (in_e b - in_w b) = in_e b - in_r b" by simp
  then have len: "unat (in_e b - in_r b) = ?n + ?m" using unat_plus_small [of "in_w b - in_r b" "in_e b - in_w b"] assms(2) by simp
  have com: "between b' (in_r b) (in_w b) = between b (in_r b) (in_w b)"
    unfolding b'_def by (rule between_store) (use len assms(2) in simp_all)
  have lin: "between b' (in_w b) (in_e b) = between b (in_w b) (in_e b)"
    unfolding b'_def by (rule between_store) (use assms(2) in simp_all)
  have at: "in_at b' (in_e b) = x" by (simp add: b'_def in_at_def)
  have sn: "between b' (in_w b) (in_e b + 1) = between b (in_w b) (in_e b) @ [x]"
    using between_snoc [of "in_e b" "in_w b" b'] assms(2) lin at by simp
  show "line_abs b' = (fst (line_abs b), snd (line_abs b) @ [x])"
    using com sn by (simp add: line_abs_def) (simp add: b'_def)
  have fld: "in_w b' = in_w b" "in_r b' = in_r b" "in_e b' = in_e b + 1" by (simp_all add: b'_def)
  have "unat (in_e b + 1 - in_w b) = Suc ?m" using arg_cong [OF sn, of length] by simp
  then show "unat (in_w b' - in_r b') + unat (in_e b' - in_w b') = Suc (?n + ?m)" by (simp add: fld)
  have "in_e b + 1 = in_r b + 128 \<longleftrightarrow> in_e b - in_r b = 127" by (auto simp: algebra_simps)
  also have "\<dots> \<longleftrightarrow> ?n + ?m = 127" by (simp add: word_unat_eq_iff len)
  finally show "in_e b' = in_r b' + 128 \<longleftrightarrow> ?n + ?m = 127" by (simp add: fld)
  show "between b' (in_r b) (in_e b + 1) = between b (in_r b) (in_w b) @ between b (in_w b) (in_e b) @ [x]"
    using between_append [of "in_w b" "in_r b" "in_e b + 1" b'] sn com assms(2) \<open>unat (in_e b + 1 - in_w b) = Suc ?m\<close> by simp
qed

definition editing :: "'z console_scheme \<Rightarrow> bool" where
  "editing s \<longleftrightarrow> screen_ok s \<and> in_ok (cinput s) \<and> rows_ok s \<and> Lptable \<notin> set (held s)"

lemma wakeup_edits:
  assumes "rows_ok s" and "Lptable \<notin> set (held s)"
  shows "\<exists>t. wakeup ch s = Ok () t \<and> edits_only s t \<and> cinput t = cinput s"
  unfolding wakeup_exec [OF assms] by (auto simp: edits_only_def rows_ok_def screen_ok_def)

lemma byte_newline: "0 \<le> c \<Longrightarrow> c < 256 \<Longrightarrow> (word_of_int c :: byte) = 10 \<longleftrightarrow> c = 10"
  by (auto simp: word_uint_eq_iff unsigned_of_int take_bit_int_eq_self)

lemma input_char_spec:
  assumes "editing s" and "0 \<le> c" and "c < 256" and "c \<notin> {16, 20, 21, 8, 127}"
  shows "\<exists>t. input_char c s = Ok () t \<and> edits_only s t \<and> in_ok (cinput t) \<and> line_abs (cinput t) = edit_step (line_abs (cinput s)) c"
proof -
  let ?b = "cinput s"
  have ok: "in_ok ?b" "screen_ok s" using assms(1) by (auto simp: editing_def)
  have er: "(in_w ?b - in_r ?b) + (in_e ?b - in_w ?b) = in_e ?b - in_r ?b" by simp
  define n where "n = unat (in_w ?b - in_r ?b) + unat (in_e ?b - in_w ?b)"
  have n: "n \<le> 128" "length (fst (line_abs ?b)) + length (snd (line_abs ?b)) = n"
    using ok(1) by (simp_all add: n_def in_ok_def line_abs_def)
  have "unat (in_e ?b - in_r ?b) = n" using unat_plus_small [of "in_w ?b - in_r ?b" "in_e ?b - in_w ?b"] n(1) er by (simp add: n_def)
  then have room: "in_e ?b - in_r ?b < 128 \<longleftrightarrow> n < 128" by (simp add: word_less_nat_alt)
  obtain com line where cl: "line_abs ?b = (com, line)" by fastforce
  show ?thesis
  proof (cases "c = 0 \<or> n \<ge> 128")
    case True
    then have "input_char c s = Ok () s" using room by (auto simp: input_char_def kexec)
    moreover have "edit_step (line_abs ?b) c = line_abs ?b" using True assms(4) n(2) cl by auto
    ultimately show ?thesis using ok by auto
  next
    case False
    define c' where "c' = (if c = 13 then 10 else c)"
    define x where "x = (word_of_int c' :: byte)"
    define b1 where "b1 = ?b\<lparr>in_buf := (in_buf ?b)(unat (in_e ?b mod 128) := x), in_e := in_e ?b + 1\<rparr>"
    have "unat (in_w ?b - in_r ?b) + unat (in_e ?b - in_w ?b) < 128" using False by (simp add: n_def)
    note ap = append_line [OF ok(1) this b1_def, folded n_def]
    have x10: "x = 10 \<longleftrightarrow> c' = 10" using assms(2,3) byte_newline [of c'] by (auto simp: x_def c'_def)
    have fld: "in_w b1 = in_w ?b" "in_r b1 = in_r ?b" "in_e b1 = in_e ?b + 1" by (simp_all add: b1_def)
    have "screen_ok (s\<lparr>cinput := b1\<rparr>)" using ok(2) by (simp add: screen_ok_def)
    then obtain t where t: "consputc c' (s\<lparr>cinput := b1\<rparr>) = Ok () t" "echoed (s\<lparr>cinput := b1\<rparr>) t" "screen_ok t"
      using consputc_echo by blast
    have et: "edits_only s t" "cinput t = b1"
      using echoed_edits [OF t(2,3)] edits_only_trans [OF upd_input_edits] by auto
    define full where "full \<longleftrightarrow> c' = 10 \<or> c' = 4 \<or> n = 127"
    have ex: "input_char c s = kwhen full (kthen (upd_input (\<lambda>b. b\<lparr>in_w := in_e b\<rparr>)) (wakeup (Some ChInput))) t"
      using False room t(1) et(2) ap(3)
      by (simp add: input_char_def kbind_exec kget_exec kwhen_exec kthen_exec upd_input_exec full_def flip: c'_def x_def b1_def)
    have step: "edit_step (line_abs ?b) c = (if full then (com @ line @ [x], []) else (com, line @ [x]))"
      using False assms(4) n(2) cl unfolding full_def x_def c'_def by (auto simp: Let_def)
    show ?thesis
    proof (cases full)
      case True
      let ?t = "t\<lparr>cinput := b1\<lparr>in_w := in_e b1\<rparr>\<rparr>"
      have "rows_ok ?t" "Lptable \<notin> set (held ?t)" using et(1) assms(1) by (auto simp: edits_only_def editing_def rows_ok_def)
      then obtain u where u: "wakeup (Some ChInput) ?t = Ok () u" "edits_only ?t u" "cinput u = b1\<lparr>in_w := in_e b1\<rparr>"
        using wakeup_edits by force
      have len: "unat (in_e b1 - in_r b1) = Suc n" using arg_cong [OF ap(4), of length] fld by (simp add: n_def)
      have "in_ok (cinput u)" using len n(1) False by (simp add: u(3) in_ok_def)
      moreover have "line_abs (cinput u) = (com @ line @ [x], [])" using ap(4) cl fld by (simp add: u(3) line_abs_def)
      moreover have "edits_only s u" by (rule edits_only_trans [OF edits_only_trans [OF et(1) upd_input_edits] u(2)])
      moreover have "input_char c s = Ok () u" using ex True u(1) et(2) by (simp add: kexec)
      ultimately show ?thesis using step True by auto
    next
      case nf: False
      have "in_ok b1"
      proof -
        have "between b1 (in_w b1) (in_e b1) = line @ [x]" using ap(1) cl by (auto simp: line_abs_def)
        moreover have "10 \<notin> set line" using ok(1) cl by (auto simp: in_ok_def line_abs_def)
        ultimately show ?thesis using ap(2) n(1) False nf x10 by (simp add: in_ok_def full_def)
      qed
      moreover have "line_abs b1 = (com, line @ [x])" using ap(1) cl by simp
      ultimately show ?thesis using step nf ex et by (auto simp: kexec)
    qed
  qed
qed

lemma consoleintr_loop_spec:
  assumes "editing s" and "\<And>c. c \<in> set cs \<Longrightarrow> 0 \<le> c \<and> c < 256 \<and> c \<noteq> 20"
  shows "\<exists>t. consoleintr_loop cs d w s = Ok (d \<or> 16 \<in> set cs, w) t \<and> edits_only s t \<and> editing t \<and>
    line_abs (cinput t) = foldl edit_step (line_abs (cinput s)) cs"
  using assms
proof (induction cs arbitrary: s d)
  case Nil
  then show ?case by (simp add: kexec)
next
  case (Cons c cs)
  have c: "0 \<le> c" "c < 256" "c \<noteq> 20" using Cons.prems(2) [of c] by auto
  have ok: "in_ok (cinput s)" "screen_ok s" using Cons.prems(1) by (auto simp: editing_def)
  obtain com line where cl: "line_abs (cinput s) = (com, line)" by fastforce
  have go: ?case
    if u: "edits_only s u" "in_ok (cinput u)" "line_abs (cinput u) = edit_step (line_abs (cinput s)) c"
      and ex: "consoleintr_loop (c # cs) d w s = consoleintr_loop cs (d \<or> c = 16) w u" for u
  proof -
    have "editing u" using u(1,2) Cons.prems(1) by (auto simp: editing_def edits_only_def)
    from Cons.IH [OF this, of "d \<or> c = 16"] Cons.prems(2) show ?thesis
      using ex u(3) edits_only_trans [OF u(1)] by fastforce
  qed
  consider "c = 16" | "c = 21" | "c = 8 \<or> c = 127" | "c \<notin> {16, 20, 21, 8, 127}" using c(3) by auto
  then show ?case
  proof cases
    case 1
    with ok show ?thesis by (intro go [of s]) (auto simp: cl)
  next
    case 2
    obtain t where t: "kill_line (unat (in_e (cinput s) - in_w (cinput s))) s = Ok () t" "edits_only s t"
      "in_ok (cinput t)" "line_abs (cinput t) = (fst (line_abs (cinput s)), [])" using kill_line_spec [OF ok(2,1)] by blast
    show ?thesis by (rule go [OF t(2,3)]) (use 2 t(1,4) in \<open>auto simp: kexec cl\<close>)
  next
    case 3
    show ?thesis
    proof (cases "in_e (cinput s) = in_w (cinput s)")
      case True
      have "snd (line_abs (cinput s)) = []" using True by (simp add: line_abs_def)
      with 3 ok show ?thesis by (intro go [of s]) (auto simp: kexec True cl)
    next
      case False
      obtain t where t: "kthen (upd_input (\<lambda>b. b\<lparr>in_e := in_e b - 1\<rparr>)) (consputc BACKSPACE) s = Ok () t" "edits_only s t"
        "cinput t = (cinput s)\<lparr>in_e := in_e (cinput s) - 1\<rparr>" using drop_echo [OF ok(2)] by blast
      note d = drop_last [OF ok(1) False, folded t(3)]
      show ?thesis by (rule go [OF t(2) d(1)])
        (use 3 False t(1) d(2) in \<open>auto simp: cl kbind_exec kget_exec kwhen_exec kthen_exec [of "kbind _ _"]\<close>)
    qed
  next
    case 4
    obtain t where t: "input_char c s = Ok () t" "edits_only s t" "in_ok (cinput t)" "line_abs (cinput t) = edit_step (line_abs (cinput s)) c"
      using input_char_spec [OF Cons.prems(1) c(1,2) 4] by blast
    show ?thesis by (rule go [OF t(2-4)]) (use 4 t(1) in \<open>auto simp: kexec\<close>)
  qed
qed

text \<open>
  C16. The console's input is a line editor: the ring buffer with its three indices, read modulo its size with indices that
  may wrap around, behaves like two lists, the bytes a reader may take and the line being typed. A character is
  appended while fewer than 128 bytes are stored and echoed; carriage return counts as newline; newline,
  control-D and a full buffer hand the line over; backspace removes the last character of the line and
  control-U the line. The interrupt handler returns, and the buffer stays consistent.
\<close>

theorem consoleintr_line_editor:
  assumes "screen_ok s" and "in_ok (cinput s)" and "rows_ok s" and "Lptable \<notin> set (held s)" and "Lcons \<notin> set (held s)"
    and "\<forall>c \<in> set cs. 0 \<le> c \<and> c < 256 \<and> c \<noteq> 16 \<and> c \<noteq> 20"
  shows "\<exists>t. consoleintr cs s = Ok () t \<and> in_ok (cinput t) \<and> line_abs (cinput t) = foldl edit_step (line_abs (cinput s)) cs \<and>
    held t = held s \<and> conts t = conts s"
proof -
  let ?s = "s\<lparr>held := Lcons # held s\<rparr>"
  have "editing ?s" using assms(1-4) by (simp add: editing_def screen_ok_def rows_ok_def)
  then obtain t where t: "consoleintr_loop cs False False ?s = Ok (False, False) t" "edits_only ?s t" "editing t"
    "line_abs (cinput t) = foldl edit_step (line_abs (cinput s)) cs"
    using consoleintr_loop_spec [of ?s cs False False] assms(6) by auto
  have "held t = Lcons # held s" using t(2) by (simp add: edits_only_def)
  then have "consoleintr cs s = Ok () (t\<lparr>held := held s\<rparr>)" using t(1) assms(5) by (simp add: consoleintr_def kexec)
  moreover have "conts t = conts s" using t(2) by (simp add: edits_only_def)
  ultimately show ?thesis using t(3,4) by (auto simp: editing_def)
qed

text \<open>Typing \<open>ab\<close>, a backspace, \<open>c\<close> and return delivers \<open>ac\<close> and a newline.\<close>

theorem consoleintr_line_editor_witness:
  "\<exists>t. consoleintr [97, 98, 8, 99, 13] cons_ex = Ok () t \<and> line_abs (cinput t) = ([97, 99, 10], [])"
proof -
  have f: "screen_ok cons_ex" "cinput cons_ex = input0" "held cons_ex = []"
    by (simp_all add: cons_ex_def fsst.defs console.defs screen_ok_def fs_ex_fields)
  have "bready (fs_ex (\<lambda>_ _. 0) (\<lambda>_. inode0))" using fs_ex_txn [of 0 "\<lambda>_ _. 0" "\<lambda>_. inode0"] by (simp add: in_txn_def)
  then have "rows_ok cons_ex" by (simp add: cons_ex_def fsst.defs console.defs bready_def rows_ok_def)
  then show ?thesis
    using consoleintr_line_editor [of cons_ex "[97, 98, 8, 99, 13]"] f by (auto simp: in_ok_def line_abs_def input0_def Let_def)
qed

end
