(* ===== verification/Fs.thy ===== *)
theory Fs
  imports Console
begin

text \<open>
  The upper half of \<^verbatim>\<open>fs.c\<close>: the content of files, directories and path names. \<open>readi\<close> returns the
  bytes it stores at its destination, \<open>writei\<close> takes its source as a function from offsets. The
  loops over the blocks of a range run through the list \<open>chunks\<close> of the pieces the range has in
  the blocks; the loops over a directory run through the offsets of its entries, and a path is processed
  element by element with \<open>skipelem\<close>. A path is the array of its characters with the terminating zero.
\<close>

section \<open>The content of files\<close>

text \<open>Device functions are called through \<open>devsw\<close>.\<close>

fun call_devread :: "devfn \<Rightarrow> nat \<Rightarrow> int \<Rightarrow> ('z console_scheme, int \<times> byte list) kop" where
  "call_devread ConsoleRead ip n = consoleread ip n"
| "call_devread ConsoleWrite ip n = stop Fault"

fun call_devwrite :: "devfn \<Rightarrow> nat \<Rightarrow> byte list \<Rightarrow> ('z console_scheme, int) kop" where
  "call_devwrite ConsoleWrite ip buf = consolewrite ip buf"
| "call_devwrite ConsoleRead ip buf = stop Fault"

text \<open>The pieces \<open>(off, m)\<close> of \<open>n\<close> bytes from offset \<open>off\<close> on: \<open>m = min(n - tot, BSIZE - off%BSIZE)\<close>.\<close>

function chunks :: "nat \<Rightarrow> nat \<Rightarrow> (nat \<times> nat) list" where
  "chunks off n = (if n = 0 then [] else
     let m = min n (BSIZE - off mod BSIZE) in (off, m) # chunks (off + m) (n - m))"
  by pat_completeness auto
termination
proof (relation "measure snd")
  fix off n m :: nat
  assume "n \<noteq> 0" and "m = min n (512 - off mod 512)"
  moreover have "off mod 512 < 512" by simp
  ultimately show "((off + m, n - m), off, n) \<in> measure snd" by simp
qed simp

declare chunks.simps [simp del]

primrec read_chunks :: "nat \<Rightarrow> (nat \<times> nat) list \<Rightarrow> byte list \<Rightarrow> ('z console_scheme, byte list) kop" where
  "read_chunks ip [] got = ret got"
| "read_chunks ip (c # cs) got =
     kbind (kget (\<lambda>s. i_dev (inodes s ip))) (\<lambda>dev.
     kbind (bmap ip (word_of_nat (fst c div BSIZE))) (\<lambda>addr.
     kbind (bread dev addr) (\<lambda>bp.
     kbind (kget (\<lambda>s. map (bdata (bufs s bp)) [fst c mod BSIZE..<fst c mod BSIZE + snd c])) (\<lambda>part.
     kthen (brelse bp)
     (read_chunks ip cs (got @ part))))))"

definition readi :: "nat \<Rightarrow> uint \<Rightarrow> uint \<Rightarrow> ('z console_scheme, int \<times> byte list) kop" where
  "readi ip off n =
     kbind (kget (\<lambda>s. (inodes s ip, devsw s))) (\<lambda>(i, dv).
     if i_type i = T_DEV
     then (if sint (i_major i) < 0 \<or> sint (i_major i) \<ge> NDEV then ret (-1, [])
           else case dev_read (dv (nat (sint (i_major i)))) of
                  None \<Rightarrow> ret (-1, [])
                | Some f \<Rightarrow> call_devread f ip (sint n))
     else if off > i_size i \<or> off + n < off then ret (-1, [])
     else
       (let n' = if off + n > i_size i then i_size i - off else n in
        kbind (read_chunks ip (chunks (unat off) (unat n')) []) (\<lambda>got.
        ret (sint n', got))))"

text \<open>\<open>memmove(bp->data + off%BSIZE, src, m)\<close>, where \<open>src\<close> has advanced with the offset.\<close>

definition put_bytes :: "(nat \<Rightarrow> byte) \<Rightarrow> nat \<Rightarrow> nat \<Rightarrow> nat \<Rightarrow> block \<Rightarrow> block" where
  "put_bytes src tot o1 m d = (\<lambda>k. if o1 \<le> k \<and> k < o1 + m then src (tot + (k - o1)) else d k)"

primrec write_chunks :: "nat \<Rightarrow> (nat \<Rightarrow> byte) \<Rightarrow> nat \<Rightarrow> (nat \<times> nat) list \<Rightarrow> ('z console_scheme, unit) kop" where
  "write_chunks ip src off0 [] = ret ()"
| "write_chunks ip src off0 (c # cs) =
     kbind (kget (\<lambda>s. i_dev (inodes s ip))) (\<lambda>dev.
     kbind (bmap ip (word_of_nat (fst c div BSIZE))) (\<lambda>addr.
     kthen (edit_block dev addr (put_bytes src (fst c - off0) (fst c mod BSIZE) (snd c)))
     (write_chunks ip src off0 cs)))"

definition writei :: "nat \<Rightarrow> (nat \<Rightarrow> byte) \<Rightarrow> uint \<Rightarrow> uint \<Rightarrow> ('z console_scheme, int) kop" where
  "writei ip src off n =
     kbind (kget (\<lambda>s. (inodes s ip, devsw s))) (\<lambda>(i, dv).
     if i_type i = T_DEV
     then (if sint (i_major i) < 0 \<or> sint (i_major i) \<ge> NDEV then ret (-1)
           else case dev_write (dv (nat (sint (i_major i)))) of
                  None \<Rightarrow> ret (-1)
                | Some f \<Rightarrow> call_devwrite f ip (map src [0..<unat n]))
     else if off > i_size i \<or> off + n < off then ret (-1)
     else if unat (off + n) > MAXFILE * BSIZE then ret (-1)
     else
       kthen (write_chunks ip src (unat off) (chunks (unat off) (unat n)))
       (kbind (kget (\<lambda>s. i_size (inodes s ip))) (\<lambda>sz.
        kthen (kwhen (n > 0 \<and> off + n > sz)
          (kthen (upd_inode ip (\<lambda>i. i\<lparr>i_size := off + n\<rparr>)) (iupdate ip)))
        (ret (sint n)))))"

section \<open>Directories\<close>

text \<open>A directory entry in the 16 bytes of the file.\<close>

definition char_byte :: "char \<Rightarrow> byte" where
  "char_byte c = word_of_int (uchar c)"

definition byte_char :: "byte \<Rightarrow> char" where
  "byte_char b = char_of (unat b)"

definition get_dirent :: "byte list \<Rightarrow> dirent" where
  "get_dirent bs = \<lparr>de_inum = or (ucast (bs ! 0)) (push_bit 8 (ucast (bs ! 1))), de_name = map byte_char (take DIRSIZ (drop 2 bs))\<rparr>"

definition put_dirent :: "dirent \<Rightarrow> nat \<Rightarrow> byte" where
  "put_dirent de k = (if k = 0 then ucast (de_inum de) else if k = 1 then ucast (drop_bit 8 (de_inum de))
     else char_byte (de_name de ! (k - 2)))"

definition namecmp :: "char list \<Rightarrow> char list \<Rightarrow> int option" where
  "namecmp s t = strncmp s t DIRSIZ"

text \<open>The offsets of the entries of a directory of the given size.\<close>

definition dir_offs :: "uint \<Rightarrow> uint list" where
  "dir_offs len = map (\<lambda>k. word_of_nat (16 * k)) [0..<(unat len + 15) div 16]"

text \<open>Reading the entry at an offset; \<open>msg\<close> is the caller's panic message.\<close>

definition read_dirent :: "string \<Rightarrow> nat \<Rightarrow> uint \<Rightarrow> ('z console_scheme, dirent) kop" where
  "read_dirent msg dp off =
     kbind (readi dp off 16) (\<lambda>(r, bs).
     if r \<noteq> 16 then panic msg else ret (get_dirent bs))"

primrec dirlookup_loop :: "nat \<Rightarrow> char list \<Rightarrow> uint list \<Rightarrow> ('z console_scheme, (nat \<times> uint) option) kop" where
  "dirlookup_loop dp name [] = ret None"
| "dirlookup_loop dp name (off # offs) =
     kbind (read_dirent ''dirlookup read'' dp off) (\<lambda>de.
     if de_inum de = 0 then dirlookup_loop dp name offs
     else kbind (klift (namecmp name (de_name de))) (\<lambda>r.
       if r = 0
       then kbind (kget (\<lambda>s. i_dev (inodes s dp))) (\<lambda>dev.
            kbind (iget dev (ucast (de_inum de))) (\<lambda>ip.
            ret (Some (ip, off))))
       else dirlookup_loop dp name offs))"

definition dirlookup :: "nat \<Rightarrow> char list \<Rightarrow> ('z console_scheme, (nat \<times> uint) option) kop" where
  "dirlookup dp name =
     kbind (kget (\<lambda>s. inodes s dp)) (\<lambda>d.
     if i_type d \<noteq> T_DIR then panic ''dirlookup not DIR''
     else dirlookup_loop dp name (dir_offs (i_size d)))"

text \<open>The search of \<open>dirlink\<close> for an empty entry; without one the offset is behind the last entry.\<close>

primrec dirlink_slot :: "nat \<Rightarrow> uint \<Rightarrow> uint list \<Rightarrow> ('z console_scheme, uint) kop" where
  "dirlink_slot dp fin [] = ret fin"
| "dirlink_slot dp fin (off # offs) =
     kbind (read_dirent ''dirlink read'' dp off) (\<lambda>de.
     if de_inum de = 0 then ret off else dirlink_slot dp fin offs)"

definition dirlink :: "nat \<Rightarrow> char list \<Rightarrow> uint \<Rightarrow> ('z console_scheme, int) kop" where
  "dirlink dp name inum =
     kbind (dirlookup dp name) (\<lambda>found.
     case found of
       Some (ip, _) \<Rightarrow> kthen (iput ip) (ret (-1))
     | None \<Rightarrow>
         kbind (kget (\<lambda>s. i_size (inodes s dp))) (\<lambda>sz.
         kbind (dirlink_slot dp (word_of_nat (16 * ((unat sz + 15) div 16))) (dir_offs sz)) (\<lambda>off.
         kbind (klift (strncpy (replicate DIRSIZ NUL) name DIRSIZ)) (\<lambda>nm.
         kbind (writei dp (put_dirent \<lparr>de_inum = ucast inum, de_name = nm\<rparr>) off 16) (\<lambda>r.
         if r \<noteq> 16 then panic ''dirlink'' else ret 0)))))"

section \<open>Paths\<close>

text \<open>The element \<open>skipelem\<close> copies into \<open>name\<close>: at most \<open>DIRSIZ\<close> bytes, terminated if shorter.\<close>

definition elem_name :: "char list \<Rightarrow> char list" where
  "elem_name e = (if length e \<ge> DIRSIZ then take DIRSIZ e else e @ [NUL])"

text \<open>\<open>None\<close> is a read past the end of the array; \<open>Some None\<close> is the result 0.\<close>

definition skipelem :: "char list \<Rightarrow> (char list \<times> char list) option option" where
  "skipelem path =
     (let p1 = dropWhile (\<lambda>c. c = CHR ''/'') path in
      case p1 of
        [] \<Rightarrow> None
      | c # _ \<Rightarrow>
          if c = NUL then Some None
          else
            let e = takeWhile (\<lambda>c. c \<noteq> CHR ''/'' \<and> c \<noteq> NUL) p1;
                p2 = dropWhile (\<lambda>c. c = CHR ''/'') (dropWhile (\<lambda>c. c \<noteq> CHR ''/'' \<and> c \<noteq> NUL) p1)
            in if p2 = [] then None else Some (Some (elem_name e, p2)))"

lemma skipelem_Nil: "dropWhile (\<lambda>c. c = CHR ''/'') path = [] \<Longrightarrow> skipelem path = None"
  by (simp only: skipelem_def Let_def list.case)

lemma skipelem_Cons:
  assumes "dropWhile (\<lambda>c. c = CHR ''/'') path = c # p"
  shows "c \<noteq> CHR ''/''" and "skipelem path =
    (if c = NUL then Some None
     else let p2 = dropWhile (\<lambda>c. c = CHR ''/'') (dropWhile (\<lambda>c. c \<noteq> CHR ''/'' \<and> c \<noteq> NUL) (c # p))
       in if p2 = [] then None else Some (Some (elem_name (takeWhile (\<lambda>c. c \<noteq> CHR ''/'' \<and> c \<noteq> NUL) (c # p)), p2)))"
proof -
  show "c \<noteq> CHR ''/''" using assms hd_dropWhile [of "\<lambda>c. c = CHR ''/''" path] by simp
qed (simp only: skipelem_def assms Let_def list.case)

lemma skipelem_shorter:
  assumes "skipelem path = Some (Some (nm, rest))"
  shows "length rest < length path"
proof (cases "dropWhile (\<lambda>c. c = CHR ''/'') path")
  case Nil
  with assms skipelem_Nil [OF Nil] show ?thesis by simp
next
  case (Cons c p)
  note sk = skipelem_Cons [OF Cons]
  let ?q = "dropWhile (\<lambda>c. c \<noteq> CHR ''/'' \<and> c \<noteq> NUL) (c # p)"
  have "c \<noteq> NUL" and rest: "rest = dropWhile (\<lambda>c. c = CHR ''/'') ?q"
    using assms unfolding sk(2) Let_def by (simp_all only: split: if_splits) simp_all
  have "length rest \<le> length ?q" unfolding rest by (rule length_dropWhile_le)
  also have "?q = dropWhile (\<lambda>c. c \<noteq> CHR ''/'' \<and> c \<noteq> NUL) p" using sk(1) \<open>c \<noteq> NUL\<close> by simp
  also have "length \<dots> \<le> length p" by (rule length_dropWhile_le)
  also have "\<dots> < length (dropWhile (\<lambda>c. c = CHR ''/'') path)" unfolding Cons by simp
  also have "\<dots> \<le> length path" by (rule length_dropWhile_le)
  finally show ?thesis .
qed

text \<open>The elements of a path, each with the path that follows it. \<open>None\<close> is a path without end.\<close>

function path_elems :: "char list \<Rightarrow> (char list \<times> char list) list option" where
  "path_elems path =
     (case skipelem path of
        None \<Rightarrow> None
      | Some None \<Rightarrow> Some []
      | Some (Some (nm, rest)) \<Rightarrow> map_option (Cons (nm, rest)) (path_elems rest))"
  by pat_completeness auto
termination by (relation "measure length") (auto intro: skipelem_shorter)

declare path_elems.simps [simp del]

text \<open>The loop of \<open>namex\<close> over the elements. The result is the inode and, for \<open>nameiparent\<close>, the last name.\<close>

primrec namex_loop :: "bool \<Rightarrow> nat \<Rightarrow> char list \<Rightarrow> nat \<Rightarrow> (char list \<times> char list) list \<Rightarrow> ('z console_scheme, (nat \<times> char list) option) kop" where
  "namex_loop par iroot nm ip [] = (if par then kthen (iput ip) (ret None) else ret (Some (ip, nm)))"
| "namex_loop par iroot nm0 ip (e # es) =
     (let nm = fst e; path = snd e in
      kthen (ilock (Some ip))
      (kbind (kget (\<lambda>s. i_type (inodes s ip))) (\<lambda>ty.
       if ty \<noteq> T_DIR then kthen (iunlockput ip) (ret None)
       else if par \<and> hd path = NUL then kthen (iunlock (Some ip)) (ret (Some (ip, nm)))
       else kbind (dirlookup ip nm) (\<lambda>found.
         case found of
           None \<Rightarrow> kthen (iunlockput ip) (ret None)
         | Some (nxt, _) \<Rightarrow>
             kthen (iunlockput ip)
             (kbind mycont (\<lambda>me.
              kbind (kget (\<lambda>s. rootdir (conts s me))) (\<lambda>mrd.
              kbind (klift mrd) (\<lambda>rd.
              kbind (kget (\<lambda>s. i_inum (inodes s rd) = i_inum (inodes s iroot) \<or> i_inum (inodes s nxt) \<noteq> i_inum (inodes s iroot))) (\<lambda>go.
              namex_loop par iroot nm (if go then nxt else ip) es)))))))))"

definition namex :: "char list \<Rightarrow> bool \<Rightarrow> ('z console_scheme, (nat \<times> char list) option) kop" where
  "namex path par =
     kbind (iget ROOTDEV ROOTINO) (\<lambda>iroot.
     kbind myproc (\<lambda>mp.
     kbind (case mp of
              None \<Rightarrow> ret iroot
            | Some p \<Rightarrow>
                if path = [] then stop Fault
                else if hd path = CHR ''/''
                then kbind mycont (\<lambda>me. kbind (kget (\<lambda>s. rootdir (conts s me))) (\<lambda>rd. kbind (klift rd) idup))
                else kbind (kget (\<lambda>s. cwd (procs s p))) (\<lambda>d. kbind (klift d) idup)) (\<lambda>ip.
     kbind (klift (path_elems path)) (\<lambda>es.
     namex_loop par iroot [NUL] ip es))))"

definition namei :: "char list \<Rightarrow> ('z console_scheme, nat option) kop" where
  "namei path = kbind (namex path False) (\<lambda>r. ret (map_option fst r))"

definition nameiparent :: "char list \<Rightarrow> ('z console_scheme, (nat \<times> char list) option) kop" where
  "nameiparent path = namex path True"

text \<open>The size of the files of a directory; the path of an entry is put together in an array of 512 bytes.\<close>

definition entry_path :: "char list \<Rightarrow> char list \<Rightarrow> char list option" where
  "entry_path name de =
     (case (strlen name, strlen de) of
        (Some m, Some n) \<Rightarrow> if m + n + 2 \<le> 512 then Some (take m name @ ''/'' @ take n de @ [NUL]) else None
      | _ \<Rightarrow> None)"

primrec dirsize_loop :: "nat \<Rightarrow> char list \<Rightarrow> uint \<Rightarrow> uint list \<Rightarrow> ('z console_scheme, uint) kop" where
  "dirsize_loop dp name tot [] = ret tot"
| "dirsize_loop dp name tot (off # offs) =
     kbind (read_dirent ''dirsize read'' dp off) (\<lambda>de.
     kbind (klift (entry_path name (de_name de))) (\<lambda>path.
     kbind (namei path) (\<lambda>mip.
     case mip of
       None \<Rightarrow> dirsize_loop dp name tot offs
     | Some ip \<Rightarrow>
         kbind (kget (\<lambda>s. (i_inum (inodes s ip), i_inum (inodes s dp)))) (\<lambda>(n, dn).
         if n \<noteq> ROOTINO \<and> n \<noteq> dn
         then kthen (ilock (Some ip))
             (kbind (kget (\<lambda>s. i_size (inodes s ip))) (\<lambda>sz.
              kthen (iunlock (Some ip))
             (dirsize_loop dp name (tot + sz) offs)))
         else dirsize_loop dp name tot offs))))"

definition dirsize :: "nat \<Rightarrow> char list \<Rightarrow> ('z console_scheme, uint) kop" where
  "dirsize dp name =
     kbind (dirlookup dp name) (\<lambda>found.
     case found of
       Some _ \<Rightarrow> ret (- 1)
     | None \<Rightarrow> kbind (kget (\<lambda>s. i_size (inodes s dp))) (\<lambda>sz. dirsize_loop dp name 0 (dir_offs sz)))"

section \<open>Path elements\<close>

lemma path_elems_step:
  "skipelem path = Some (Some (nm, rest)) \<Longrightarrow> path_elems path = map_option (Cons (nm, rest)) (path_elems rest)"
  "skipelem path = Some None \<Longrightarrow> path_elems path = Some []"
  by (simp_all add: path_elems.simps [of path])

definition plain_name :: "char list \<Rightarrow> bool" where
  "plain_name e \<longleftrightarrow> e \<noteq> [] \<and> CHR ''/'' \<notin> set e \<and> NUL \<notin> set e"

text \<open>A path written with at least one slash before each element and any number behind the last one.\<close>

definition slashes :: "nat \<Rightarrow> char list" where
  "slashes n = replicate (Suc n) (CHR ''/'')"

lemma dropWhile_slashes: "c \<noteq> CHR ''/'' \<Longrightarrow> dropWhile (\<lambda>c. c = CHR ''/'') (slashes n @ c # p) = c # p"
  by (induction n) (auto simp: slashes_def)

lemma span_elem:
  assumes "plain_name e" and "c = CHR ''/'' \<or> c = NUL"
  shows "takeWhile (\<lambda>c. c \<noteq> CHR ''/'' \<and> c \<noteq> NUL) (e @ c # p) = e"
    and "dropWhile (\<lambda>c. c \<noteq> CHR ''/'' \<and> c \<noteq> NUL) (e @ c # p) = c # p"
  using assms by (auto simp: plain_name_def takeWhile_append dropWhile_append)

lemma skipelem_elem:
  assumes "plain_name e" and "dropWhile (\<lambda>c. c = CHR ''/'') q = c' # p'" and "q = c # p" and "c = CHR ''/'' \<or> c = NUL"
  shows "skipelem (slashes n @ e @ q) = Some (Some (elem_name e, c' # p'))"
proof -
  obtain c0 e0 where e: "e = c0 # e0" "c0 \<noteq> CHR ''/''" "c0 \<noteq> NUL" using assms(1) by (cases e) (auto simp: plain_name_def)
  have d: "dropWhile (\<lambda>c. c = CHR ''/'') (slashes n @ e @ q) = c0 # e0 @ q" using dropWhile_slashes [OF e(2)] e(1) by simp
  have sp: "takeWhile (\<lambda>c. c \<noteq> CHR ''/'' \<and> c \<noteq> NUL) (c0 # e0 @ q) = e" "dropWhile (\<lambda>c. c \<noteq> CHR ''/'' \<and> c \<noteq> NUL) (c0 # e0 @ q) = q"
    using span_elem [OF assms(1,4), of p] e(1) assms(3) by auto
  show ?thesis unfolding skipelem_Cons(2) [OF d] Let_def sp assms(2) using e(3) by simp
qed

definition render :: "nat \<Rightarrow> (nat \<times> char list) list \<Rightarrow> char list" where
  "render n es = concat (map (\<lambda>(k, e). slashes k @ e) es) @ replicate n (CHR ''/'') @ [NUL]"

lemma dropWhile_render:
  "(\<And>k e. (k, e) \<in> set es \<Longrightarrow> plain_name e) \<Longrightarrow>
    dropWhile (\<lambda>c. c = CHR ''/'') (render n es) =
      (case es of [] \<Rightarrow> [NUL] | (k, e) # es' \<Rightarrow> e @ render n es')"
proof (cases es)
  case Nil
  then show ?thesis by (induction n) (auto simp: render_def)
next
  case (Cons a es')
  obtain k e where a: "a = (k, e)" by (cases a)
  assume *: "\<And>k e. (k, e) \<in> set es \<Longrightarrow> plain_name e"
  obtain c0 e0 where e: "e = c0 # e0" "c0 \<noteq> CHR ''/''" using * [of k e] Cons a by (cases e) (auto simp: plain_name_def)
  then show ?thesis using dropWhile_slashes [OF e(2), of k "e0 @ render n es'"] Cons a by (simp add: render_def)
qed

lemma path_elems_tail:
  assumes "\<And>k e. (k, e) \<in> set es \<Longrightarrow> plain_name e"
  shows "path_elems (dropWhile (\<lambda>c. c = CHR ''/'') (render n es)) = path_elems (render n es)"
proof -
  have "skipelem (dropWhile (\<lambda>c. c = CHR ''/'') p) = skipelem p" for p
  proof -
    have "dropWhile (\<lambda>c. c = CHR ''/'') (dropWhile (\<lambda>c. c = CHR ''/'') p) = dropWhile (\<lambda>c. c = CHR ''/'') p" by (rule dropWhile_idem)
    then show ?thesis by (simp only: skipelem_def)
  qed
  then show ?thesis by (subst (1 2) path_elems.simps) simp
qed

lemma render_head: "\<exists>c p. render n es = c # p \<and> (c = CHR ''/'' \<or> c = NUL)"
  by (cases es; cases n) (auto simp: render_def slashes_def)



section \<open>The bytes of a file\<close>

text \<open>The address of the \<open>k\<close>th block of a file and the byte at an offset.\<close>

definition faddr :: "'z fsst_scheme \<Rightarrow> inode \<Rightarrow> nat \<Rightarrow> uint" where
  "faddr s i k = (if k < NDIRECT then i_addrs i k else bld32 (view s (i_addrs i NDIRECT)) (4 * (k - NDIRECT)))"

definition fbyte :: "'z fsst_scheme \<Rightarrow> inode \<Rightarrow> nat \<Rightarrow> byte" where
  "fbyte s i off = view s (faddr s i (off div BSIZE)) (off mod BSIZE)"

text \<open>The block is allocated, and on the disk.\<close>

definition mapped :: "'z fsst_scheme \<Rightarrow> inode \<Rightarrow> nat \<Rightarrow> bool" where
  "mapped s i k \<longleftrightarrow> k < MAXFILE \<and> faddr s i k \<noteq> 0 \<and> faddr s i k < word_of_int (disksize s) \<and>
     (NDIRECT \<le> k \<longrightarrow> i_addrs i NDIRECT \<noteq> 0 \<and> i_addrs i NDIRECT < word_of_int (disksize s))"

lemma file_same:
  assumes "view t = view s" and "disksize t = disksize s"
  shows "faddr t = faddr s" and "fbyte t = fbyte s" and "mapped t = mapped s"
proof -
  show *: "faddr t = faddr s" by (simp add: faddr_def [abs_def] assms(1) cong: if_cong)
  show "fbyte t = fbyte s" "mapped t = mapped s" by (simp_all add: fbyte_def [abs_def] mapped_def [abs_def] * assms)
qed

lemma bmap_mapped:
  assumes "in_txn k s" and "i_dev (inodes s ip) = 1" and "mapped s (inodes s ip) n"
  shows "\<exists>t. bmap ip (word_of_nat n) s = Ok (faddr s (inodes s ip) n) t \<and> in_txn k t \<and> mild s t \<and> view t = view s"
proof (cases "n < NDIRECT")
  case True
  then have "(word_of_nat n :: uint) < 12" "unat (word_of_nat n :: uint) = n" 
    by (simp_all add: word_less_nat_alt unat_of_nat take_bit_nat_eq_self)
  with True assms(1,3) show ?thesis by (auto simp: bmap_def kexec mapped_def faddr_def)
next
  case False
  let ?i = "inodes s ip"
  have n: "n < 140" "faddr s ?i n \<noteq> 0" "i_addrs ?i 12 \<noteq> 0" "i_addrs ?i 12 < word_of_int (disksize s)"
    using assms(3) False by (auto simp: mapped_def)
  have w: "\<not> (word_of_nat n :: uint) < 12" "unat ((word_of_nat n :: uint) - 12) = n - 12"
  proof -
    have "unat (word_of_nat n :: uint) = n" using n(1) by (simp add: unat_of_nat take_bit_nat_eq_self)
    then show "\<not> (word_of_nat n :: uint) < 12" using False by (simp add: word_less_nat_alt)
    then show "unat ((word_of_nat n :: uint) - 12) = n - 12" using \<open>unat (word_of_nat n) = n\<close> by (simp add: unat_sub)
  qed
  then have w2: "(word_of_nat n :: uint) - 12 < 128" using n(1) by (simp add: word_less_nat_alt)
  obtain j t u where t: "bread 1 (i_addrs ?i 12) s = Ok j t" "bdata (bufs t j) = view s (i_addrs ?i 12)"
    and u: "brelse j t = Ok () u" "mild s u" "in_txn k u" "view u = view s"
    using bread_txn [OF assms(1) n(4)] by blast
  have "bld32 (view s (i_addrs ?i 12)) (4 * (n - 12)) = faddr s ?i n" using False by (simp add: faddr_def)
  then have "bmap ip (word_of_nat n) s = Ok (faddr s ?i n) u"
    using w w2 n t u(1) assms(2) by (simp add: bmap_def kexec)
  with u show ?thesis by blast
qed

lemma chunks_Cons:
  "0 < n \<Longrightarrow> chunks off n = (off, min n (BSIZE - off mod BSIZE)) # chunks (off + min n (BSIZE - off mod BSIZE)) (n - min n (BSIZE - off mod BSIZE))"
  by (subst chunks.simps) (simp add: Let_def)

lemma chunks_0 [simp]: "chunks off 0 = []"
  by (simp add: chunks.simps)

text \<open>A piece lies in one block.\<close>

lemma chunk_block:
  fixes off :: nat
  assumes "k < min n (512 - off mod 512)"
  shows "(off + k) div 512 = off div 512" and "(off + k) mod 512 = off mod 512 + k"
proof -
  have *: "off mod 512 + k < 512" using assms by (simp add: less_diff_conv add.commute)
  have eq: "512 * (off div 512) + off mod 512 = off" by simp
  have "512 * (off div 512) \<le> off + k" "off + k < 512 * (off div 512) + 512" using * eq by linarith+
  then show div: "(off + k) div 512 = off div 512" by (intro div_nat_eqI) (simp_all add: algebra_simps)
  show "(off + k) mod 512 = off mod 512 + k" using minus_mult_div_eq_mod [of "off + k" 512, symmetric] eq unfolding div by linarith
qed

lemma chunk_bytes:
  assumes "m = min n (512 - off mod 512)"
  shows "map (view s (faddr s i (off div 512))) [off mod 512..<off mod 512 + m] = map (fbyte s i) [off..<off + m]"
proof (rule nth_equalityI)
  fix k assume "k < length (map (view s (faddr s i (off div 512))) [off mod 512..<off mod 512 + m])"
  then have "k < m" by simp
  with chunk_block [of k n off] assms show
    "map (view s (faddr s i (off div 512))) [off mod 512..<off mod 512 + m] ! k = map (fbyte s i) [off..<off + m] ! k"
    by (simp add: fbyte_def)
qed simp

lemma read_chunks_spec:
  assumes "in_txn k s" and "i_dev (inodes s ip) = 1" and "\<And>b. 512 * b < off + n \<Longrightarrow> off div 512 \<le> b \<Longrightarrow> mapped s (inodes s ip) b"
  shows "\<exists>t. read_chunks ip (chunks off n) got s = Ok (got @ map (fbyte s (inodes s ip)) [off..<off + n]) t \<and>
    in_txn k t \<and> mild s t \<and> view t = view s"
  using assms
proof (induction n arbitrary: off got s rule: less_induct)
  case (less n)
  show ?case
  proof (cases "n = 0")
    case True
    with less.prems show ?thesis by (auto simp: kexec)
  next
    case False
    let ?i = "inodes s ip"
    define m where "m = min n (512 - off mod 512)"
    have off512: "off mod 512 < 512" by simp
    have m: "0 < m" "m \<le> n" "off mod 512 + m \<le> 512" using False off512 by (auto simp: m_def simp del: mod_less_divisor)
    have "512 * (off div 512) < off + n" using False times_div_less_eq_dividend [of 512 off] by simp
    then have mp: "mapped s ?i (off div 512)" using less.prems(3) by simp
    obtain t where t: "bmap ip (word_of_nat (off div 512)) s = Ok (faddr s ?i (off div 512)) t" "in_txn k t" "mild s t" "view t = view s"
      using bmap_mapped [OF less.prems(1,2) mp] by blast
    have "faddr s ?i (off div 512) < word_of_int (disksize t)" using mp mild_fields(6) [OF t(3)] by (simp add: mapped_def)
    from bread_txn [OF t(2) this] obtain j u v where u: "bread 1 (faddr s ?i (off div 512)) t = Ok j u"
      "bdata (bufs u j) = view t (faddr s ?i (off div 512))" and v: "brelse j u = Ok () v" "mild t v" "in_txn k v" "view v = view t" by blast
    have sv: "mild s v" "view v = view s" "inodes v = inodes s" "disksize v = disksize s"
      using mild_trans [OF t(3) v(2)] v(4) t(4) mild_fs [of s v] mild_fields(6) [of s v] by auto
    note fa = file_same [OF sv(2,4)]
    let ?part = "map (fbyte s ?i) [off..<off + m]"
    have part: "map (bdata (bufs u j)) [off mod 512..<off mod 512 + m] = ?part"
      using chunk_bytes [OF m_def, of s ?i] u(2) t(4) by simp
    have "read_chunks ip (chunks off n) got s = read_chunks ip (chunks (off + m) (n - m)) (got @ ?part) v"
      using False t(1) u(1) v(1) part less.prems(2) by (simp add: chunks_Cons kexec flip: m_def)
    moreover have "\<exists>w. read_chunks ip (chunks (off + m) (n - m)) (got @ ?part) v =
        Ok ((got @ ?part) @ map (fbyte v (inodes v ip)) [off + m..<(off + m) + (n - m)]) w \<and> in_txn k w \<and> mild v w \<and> view w = view v"
    proof (rule less.IH [OF _ v(3)])
      show "n - m < n" using m False by simp
      show "i_dev (inodes v ip) = 1" using sv less.prems(2) by simp
      fix b assume b: "512 * b < (off + m) + (n - m)" "(off + m) div 512 \<le> b"
      have "off div 512 \<le> (off + m) div 512" by (simp add: div_le_mono)
      then show "mapped v (inodes v ip) b" using b m(2) less.prems(3) [of b] fa(3) sv(3) by simp
    qed
    moreover have "[off..<off + n] = [off..<off + m] @ [off + m..<off + n]" using m(2) upt_add_eq_append [of off "off + m" "n - m"] by simp
    ultimately show ?thesis using m(2) sv fa mild_trans [OF sv(1)] by fastforce
  qed
qed

text \<open>Every block below size \<open>n\<close> is allocated.\<close>

definition filled :: "'z fsst_scheme \<Rightarrow> inode \<Rightarrow> nat \<Rightarrow> bool" where
  "filled s i n \<longleftrightarrow> (\<forall>b. 512 * b < n \<longrightarrow> mapped s i b)"

lemma filled_bound: "filled s i n \<Longrightarrow> n \<le> MAXFILE * BSIZE"
  unfolding filled_def by (rule ccontr) (auto dest: spec [of _ 140] simp: mapped_def)

lemma sint_small: "unat (w :: uint) < 2 ^ 31 \<Longrightarrow> sint w = int (unat w)"
proof -
  assume "unat w < 2 ^ 31"
  then have "int (unat w) < 2 ^ 31" by (simp only: of_nat_less_numeral_power_cancel_iff)
  then have "uint w < 2 ^ 31" by simp
  moreover have "- (2 ^ 31) \<le> uint w" by (rule order_trans [OF _ uint_ge_0]) simp
  ultimately show ?thesis using sint_word_of_int [of "uint w"] by simp
qed

lemma no_wrap: "\<not> off + n < off \<Longrightarrow> unat (off + n :: uint) = unat off + unat n"
  by (simp add: not_less word_le_nat_alt unat_plus_simple [THEN iffD1] word_le_nat_alt)

text \<open>The number of bytes a read delivers.\<close>

definition read_len :: "inode \<Rightarrow> uint \<Rightarrow> uint \<Rightarrow> nat" where
  "read_len i off n = min (unat n) (unat (i_size i) - unat off)"

lemma readi_run:
  assumes "in_txn k s" and "i_dev (inodes s ip) = 1" and "i_type (inodes s ip) \<noteq> T_DEV"
    and "filled s (inodes s ip) (unat (i_size (inodes s ip)))"
  shows "if off > i_size (inodes s ip) \<or> off + n < off then readi ip off n s = Ok (-1, []) s
    else \<exists>t. readi ip off n s = Ok (int (read_len (inodes s ip) off n),
        map (fbyte s (inodes s ip)) [unat off..<unat off + read_len (inodes s ip) off n]) t \<and>
      view t = view s \<and> inodes t = inodes s \<and> in_txn k t"
proof (cases "off > i_size (inodes s ip) \<or> off + n < off")
  case True
  then show ?thesis using assms(3) by (auto simp: readi_def kexec)
next
  case False
  let ?i = "inodes s ip"
  define len where "len = read_len ?i off n"
  note len_def = len_def [unfolded read_len_def]
  define n' where "n' = (if off + n > i_size ?i then i_size ?i - off else n)"
  have le: "unat off \<le> unat (i_size ?i)" "unat (off + n) = unat off + unat n"
    using False no_wrap [of off n] by (auto simp: word_le_nat_alt not_less)
  have n': "unat n' = len"
    using le by (auto simp: n'_def len_def word_less_nat_alt unat_sub word_le_nat_alt)
  have bound: "unat (i_size ?i) \<le> 71680" using filled_bound [OF assms(4)] by simp
  then have "sint n' = int len"
  proof -
    have "unat n' < 2 ^ 31" using n' bound by (simp add: len_def)
    then show ?thesis using sint_small n' by metis
  qed
  moreover have "mapped s ?i b" if "512 * b < unat off + len" for b
  proof -
    have "unat off + len \<le> unat (i_size ?i)" using le by (simp add: len_def)
    then show ?thesis using that assms(4) by (simp add: filled_def)
  qed
  then obtain t where t: "read_chunks ip (chunks (unat off) len) [] s = Ok (map (fbyte s ?i) [unat off..<unat off + len]) t"
    "in_txn k t" "mild s t" "view t = view s"
    using read_chunks_spec [OF assms(1,2), of "unat off" len "[]"] by auto
  moreover have "readi ip off n s = (case read_chunks ip (chunks (unat off) len) [] s of Ok got t \<Rightarrow> Ok (sint n', got) t | Stop h t \<Rightarrow> Stop h t)"
    using False assms(3) by (auto simp: readi_def kexec Let_def n' simp flip: n'_def split: res.split)
  ultimately show ?thesis using False mild_fs [OF t(3)] by (auto simp: len_def read_len_def)
qed

text \<open>
  C10. \<open>readi\<close> reads the file: for a file whose blocks are all allocated, through the inode's direct addresses or its
  indirect block, it returns exactly the bytes of the file from the offset on, as many as asked for but
  not beyond the end of the file, however the range lies across blocks. An offset behind the end of the file, or an
  offset and a length whose sum wraps around, gives \<open>-1\<close>. No content changes.
\<close>

theorem readi_content:
  assumes "in_txn k s" and "i_dev (inodes s ip) = 1" and "i_type (inodes s ip) \<noteq> T_DEV"
    and "filled s (inodes s ip) (unat (i_size (inodes s ip)))"
  shows "if off > i_size (inodes s ip) \<or> off + n < off then readi ip off n s = Ok (-1, []) s
    else \<exists>t. readi ip off n s = Ok (int (read_len (inodes s ip) off n),
        map (fbyte s (inodes s ip)) [unat off..<unat off + read_len (inodes s ip) off n]) t \<and>
      view t = view s \<and> inodes t = inodes s \<and> in_txn k t"
  by (rule readi_run [OF assms])

section \<open>Writing a file\<close>

text \<open>The blocks of a file below size \<open>n\<close> are allocated and no two of them are the same, nor the indirect block.\<close>

definition disjoint_blocks :: "'z fsst_scheme \<Rightarrow> inode \<Rightarrow> nat \<Rightarrow> bool" where
  "disjoint_blocks s i n \<longleftrightarrow> filled s i n \<and>
     (\<forall>a b. 512 * a < n \<and> 512 * b < n \<and> faddr s i a = faddr s i b \<longrightarrow> a = b) \<and>
     (NDIRECT * 512 < n \<longrightarrow> (\<forall>a. 512 * a < n \<longrightarrow> faddr s i a \<noteq> i_addrs i NDIRECT))"

lemma put_piece:
  assumes "disjoint_blocks s i N" and "off + m \<le> N" and "0 < m" and "off mod 512 + m \<le> 512" and "off0 \<le> off"
    and "view t = (view s)(faddr s i (off div 512) := put_bytes src (off - off0) (off mod 512) m (view s (faddr s i (off div 512))))"
    and "disksize t = disksize s"
  shows "\<And>a. 512 * a < N \<Longrightarrow> faddr t i a = faddr s i a" and "disjoint_blocks t i N"
    and "\<And>p. p < N \<Longrightarrow> fbyte t i p = (if off \<le> p \<and> p < off + m then src (p - off0) else fbyte s i p)"
proof -
  let ?b = "off div 512"
  have eq: "512 * ?b + off mod 512 = off" by simp
  then have b: "512 * ?b < N" using assms(2,3) by linarith
  show fa: "faddr t i a = faddr s i a" if "512 * a < N" for a
  proof (cases "a < NDIRECT")
    case True
    then show ?thesis by (simp add: faddr_def)
  next
    case False
    then have "NDIRECT * 512 < N \<or> NDIRECT * 512 = N" using that by auto
    then have "NDIRECT * 512 < N" using False that by auto
    then have "i_addrs i NDIRECT \<noteq> faddr s i ?b" using assms(1) b unfolding disjoint_blocks_def by metis
    then have "view t (i_addrs i NDIRECT) = view s (i_addrs i NDIRECT)" using assms(6) by simp
    with False show ?thesis by (simp add: faddr_def)
  qed
  have "mapped t i a = mapped s i a" if "512 * a < N" for a using fa [OF that] assms(7) by (simp add: mapped_def)
  then show "disjoint_blocks t i N"
    using assms(1) fa unfolding disjoint_blocks_def filled_def by (metis (no_types, lifting))
  show "fbyte t i p = (if off \<le> p \<and> p < off + m then src (p - off0) else fbyte s i p)" if p: "p < N" for p
  proof -
    have pe: "512 * (p div 512) + p mod 512 = p" "p mod 512 < 512" by simp_all
    then have pb: "512 * (p div 512) < N" using p by linarith
    show ?thesis
    proof (cases "p div 512 = ?b")
      case True
      then have rng: "off mod 512 \<le> p mod 512 \<and> p mod 512 < off mod 512 + m \<longleftrightarrow> off \<le> p \<and> p < off + m"
        using pe(1) eq by linarith
      have "off - off0 + (p mod 512 - off mod 512) = p - off0" if "off \<le> p" using that True pe(1) eq assms(5) by linarith
      then show ?thesis using True fa [OF pb] assms(6) rng by (auto simp: fbyte_def put_bytes_def)
    next
      case False
      then have "faddr s i (p div 512) \<noteq> faddr s i ?b" using assms(1) pb b unfolding disjoint_blocks_def by blast
      moreover have "\<not> (off \<le> p \<and> p < off + m)"
      proof
        assume *: "off \<le> p \<and> p < off + m"
        then have "?b \<le> p div 512" by (simp add: div_le_mono)
        moreover have "p div 512 \<le> ?b" using * pe eq assms(4) by linarith
        ultimately show False using False by simp
      qed
      ultimately show ?thesis using fa [OF pb] assms(6) by (auto simp: fbyte_def)
    qed
  qed
qed

lemma write_chunks_spec:
  assumes "in_txn (length (chunks off n) + k) s" and "i_dev (inodes s ip) = 1" and "disjoint_blocks s (inodes s ip) N"
    and "off + n \<le> N" and "off0 \<le> off"
  shows "\<exists>t. write_chunks ip src off0 (chunks off n) s = Ok () t \<and> in_txn k t \<and> mild s t \<and>
    (\<forall>p < N. fbyte t (inodes s ip) p = (if off \<le> p \<and> p < off + n then src (p - off0) else fbyte s (inodes s ip) p)) \<and>
    (\<forall>b. (\<forall>a. 512 * a < N \<longrightarrow> faddr s (inodes s ip) a \<noteq> b) \<longrightarrow> view t b = view s b)"
  using assms
proof (induction n arbitrary: off s rule: less_induct)
  case (less n)
  show ?case
  proof (cases "n = 0")
    case True
    with less.prems show ?thesis by (auto simp: kexec)
  next
    case False
    let ?i = "inodes s ip"
    define m where "m = min n (512 - off mod 512)"
    let ?pb = "put_bytes src (off - off0) (off mod 512) m"
    have off512: "off mod 512 < 512" by simp
    have m: "0 < m" "m \<le> n" "off mod 512 + m \<le> 512" using False off512 by (auto simp: m_def simp del: mod_less_divisor)
    have ch: "chunks off n = (off, m) # chunks (off + m) (n - m)" using False by (simp add: chunks_Cons m_def)
    have "512 * (off div 512) + off mod 512 = off" by simp
    then have "512 * (off div 512) < N" using False less.prems(4) by linarith
    then have mp: "mapped s ?i (off div 512)" using less.prems(3) by (simp add: disjoint_blocks_def filled_def)
    have txn: "in_txn (Suc (length (chunks (off + m) (n - m)) + k)) s" using less.prems(1) ch by simp
    obtain t where t: "bmap ip (word_of_nat (off div 512)) s = Ok (faddr s ?i (off div 512)) t"
      "in_txn (Suc (length (chunks (off + m) (n - m)) + k)) t" "mild s t" "view t = view s"
      using bmap_mapped [OF txn less.prems(2) mp] by blast
    have "faddr s ?i (off div 512) < word_of_int (disksize t)" using mp mild_fields(6) [OF t(3)] by (simp add: mapped_def)
    from edit_block_spec [OF t(2) this, of ?pb] obtain v where
      v: "edit_block 1 (faddr s ?i (off div 512)) ?pb t = Ok () v" "in_txn (length (chunks (off + m) (n - m)) + k) v" "mild t v"
      "view v = (view s)(faddr s ?i (off div 512) := ?pb (view s (faddr s ?i (off div 512))))" using t(4) by auto
    have sv: "mild s v" "inodes v = inodes s" "disksize v = disksize s"
      using mild_trans [OF t(3) v(3)] mild_fs [of s v] mild_fields(6) [of s v] by auto
    have "off + m \<le> N" using m(2) less.prems(4) by simp
    note pp = put_piece [OF less.prems(3) this m(1,3) less.prems(5) v(4) sv(3)]
    have dev: "i_dev (inodes v ip) = 1" "disjoint_blocks v (inodes v ip) N" using sv(2) less.prems(2) pp(2) by simp_all
    obtain w where w: "write_chunks ip src off0 (chunks (off + m) (n - m)) v = Ok () w" "in_txn k w" "mild v w"
      "\<forall>p < N. fbyte w ?i p = (if off + m \<le> p \<and> p < off + m + (n - m) then src (p - off0) else fbyte v ?i p)"
      "\<forall>b. (\<forall>a. 512 * a < N \<longrightarrow> faddr v ?i a \<noteq> b) \<longrightarrow> view w b = view v b"
      using less.IH [OF _ v(2) dev] m less.prems(4,5) False sv(2) by auto
    have "write_chunks ip src off0 (chunks off n) s = Ok () w"
      using ch t(1) v(1) w(1) less.prems(2) by (simp add: kexec)
    moreover have "\<forall>p < N. fbyte w ?i p = (if off \<le> p \<and> p < off + n then src (p - off0) else fbyte s ?i p)"
      using w(4) pp(3) m(2) by auto
    moreover have "view w b = view s b" if "\<forall>a. 512 * a < N \<longrightarrow> faddr s ?i a \<noteq> b" for b
      using that w(5) pp(1) v(4) \<open>512 * (off div 512) < N\<close> by auto
    ultimately show ?thesis using w(2) mild_trans [OF sv(1) w(3)] by blast
  qed
qed


text \<open>An example: a file of 700 bytes in the blocks 80 and 90.\<close>

definition file_ex :: inode where
  "file_ex = inode0\<lparr>i_dev := 1, i_inum := 5, i_ref := 1, i_valid := True, i_type := T_FILE, i_nlink := 1, i_size := 700,
     i_addrs := (\<lambda>k. if k = 0 then 80 else if k = 1 then 90 else 0)\<rparr>"

definition fs_file :: console where
  "fs_file = fsst.extend (fs_ex (\<lambda>b k. word_of_nat (b + k)) (\<lambda>_. file_ex)) (console.fields input0 (\<lambda>_. input0) 1 False True (\<lambda>_. 0) 0 True []
     (\<lambda>_. \<lparr>dev_read = None, dev_write = None\<rparr>))"

lemma fs_file_facts:
  "k < 30 \<Longrightarrow> in_txn k fs_file" "inodes fs_file ip = file_ex" "view fs_file b = (if b = 58 then map_ex else (\<lambda>k. word_of_nat (unat b + k)))"
  "disjoint_blocks fs_file file_ex 700"
proof -
  let ?s = "fs_ex (\<lambda>b k. word_of_nat (b + k)) (\<lambda>_. file_ex)"
  have eq: "bufs fs_file = bufs ?s" "slocks fs_file = slocks ?s" "disk fs_file = disk ?s" "lh_n fs_file = lh_n ?s" "log_size fs_file = log_size ?s"
    "outstanding fs_file = outstanding ?s" "lh_block fs_file = lh_block ?s" "held fs_file = held ?s" "conts fs_file = conts ?s" "cur fs_file = cur ?s"
    "disksize fs_file = disksize ?s" "inodes fs_file = inodes ?s"
    by (simp_all add: fs_file_def fsst.defs)
  have bl: "blocked fs_file = blocked ?s" by (simp add: blocked_def [abs_def] eq)
  have "in_txn k fs_file = in_txn k ?s" for k
    by (simp add: in_txn_def bready_def rows_ok_def bc_ok_def idle_def dirtyb_def dset_def lh_words_def eq bl)
  then show "k < 30 \<Longrightarrow> in_txn k fs_file" using fs_ex_txn by blast
  show ino: "inodes fs_file ip = file_ex" by (simp add: eq fs_ex_fields)
  have "unat b = 58 \<longleftrightarrow> b = 58" by (simp add: word_unat_eq_iff)
  then show "view fs_file b = (if b = 58 then map_ex else (\<lambda>k. word_of_nat (unat b + k)))"
    using fs_ex_fields(5) [of "\<lambda>b k. word_of_nat (b + k)" "\<lambda>_. file_ex" b] by (simp add: view_def eq cong: option.case_cong)
  have small: "512 * a < 700 \<longleftrightarrow> a = 0 \<or> a = 1" for a :: nat by auto
  show "disjoint_blocks fs_file file_ex 700"
    unfolding disjoint_blocks_def filled_def small by (auto simp: mapped_def faddr_def file_ex_def eq fs_ex_fields)
qed

text \<open>Two bytes across the boundary between the two blocks.\<close>

theorem readi_content_witness: "\<exists>t. readi 0 511 2 fs_file = Ok (2, [79, 90]) t"
proof -
  have f: "i_size file_ex = 700" "i_dev file_ex = 1" "i_type file_ex = 2" by (simp_all add: file_ex_def)
  have "\<exists>t. readi 0 511 2 fs_file = Ok (int (read_len file_ex 511 2), map (fbyte fs_file file_ex) [511..<511 + read_len file_ex 511 2]) t"
    using readi_content [of 0 fs_file 0 511 2] fs_file_facts(1) [of 0] fs_file_facts(4) f
    unfolding fs_file_facts(2) disjoint_blocks_def by auto
  moreover have "read_len file_ex 511 2 = 2" by (simp add: read_len_def file_ex_def)
  moreover have "fbyte fs_file file_ex 511 = 79" "fbyte fs_file file_ex 512 = 90"
    by (simp_all add: fbyte_def faddr_def file_ex_def fs_file_facts)
  moreover have "[511..<511 + 2] = [511, 512 :: nat]" by (simp add: upt_conv_Cons)
  ultimately show ?thesis by simp
qed


end
