(* ===== verification/Vm.thy ===== *)
theory Vm
  imports Kalloc
begin

text \<open>
  \<^verbatim>\<open>vm.c\<close>: page tables in memory and user address spaces. A page directory is the address of a page
  whose 1024 words are the directory entries; a page table likewise. An address of a page table entry that
  is 0 is the null pointer \<open>walkpgdir\<close> returns. The loops that count upwards by pages carry a bound on
  their number of rounds, which their callers compute from the range; running out of it would
  be a loop that does not end (\<open>Spin\<close>). \<open>loaduvm\<close>, which reads from a file, is in \<open>Exec\<close>, and
  \<open>switchuvm\<close> and \<open>switchkvm\<close> are in \<open>Sched\<close>.
\<close>

section \<open>Entries\<close>

abbreviation (input) EXTMEM :: uint where "EXTMEM \<equiv> 0x100000"
abbreviation (input) DEVSPACE :: uint where "DEVSPACE \<equiv> 0xFE000000"
abbreviation (input) KERNLINK :: uint where "KERNLINK \<equiv> 0x80100000"
abbreviation (input) NPDENTRIES :: nat where "NPDENTRIES \<equiv> 1024"
abbreviation (input) PTE_P :: uint where "PTE_P \<equiv> 1"
abbreviation (input) PTE_W :: uint where "PTE_W \<equiv> 2"
abbreviation (input) PTE_U :: uint where "PTE_U \<equiv> 4"

definition PDX :: "uint \<Rightarrow> uint" where
  "PDX va = and (drop_bit 22 va) 0x3FF"

definition PTX :: "uint \<Rightarrow> uint" where
  "PTX va = and (drop_bit 12 va) 0x3FF"

definition PGADDR :: "uint \<Rightarrow> uint \<Rightarrow> uint \<Rightarrow> uint" where
  "PGADDR d t i = or (or (push_bit 22 d) (push_bit 12 t)) i"

definition PTE_ADDR :: "uint \<Rightarrow> uint" where
  "PTE_ADDR pte = and pte (not 0xFFF)"

definition PTE_FLAGS :: "uint \<Rightarrow> uint" where
  "PTE_FLAGS pte = and pte 0xFFF"

definition present :: "uint \<Rightarrow> bool" where
  "present e \<longleftrightarrow> and e PTE_P \<noteq> 0"

definition load :: "uint \<Rightarrow> ('z kmem_scheme, uint) kop" where
  "load a = kget (\<lambda>s. ld32 (mem s) a)"

definition store :: "uint \<Rightarrow> uint \<Rightarrow> ('z kmem_scheme, unit) kop" where
  "store a v = kmod (\<lambda>s. s\<lparr>mem := st32 (mem s) a v\<rparr>)"

definition zero_page :: "uint \<Rightarrow> ('z kmem_scheme, unit) kop" where
  "zero_page v = kmod (\<lambda>s. s\<lparr>mem := memset (mem s) v 0 PGSIZE\<rparr>)"

section \<open>Page tables\<close>

definition walkpgdir :: "uint \<Rightarrow> uint \<Rightarrow> bool \<Rightarrow> ('z kmem_scheme, uint) kop" where
  "walkpgdir pd va alloc =
     (let pde = pd + 4 * PDX va in
      kbind (load pde) (\<lambda>e.
      if present e then ret (P2V (PTE_ADDR e) + 4 * PTX va)
      else if \<not> alloc then ret 0
      else kbind kalloc (\<lambda>pgtab.
        if pgtab = 0 then ret 0
        else
          kthen (zero_page pgtab)
          (kthen (store pde (or (or (or (V2P pgtab) PTE_P) PTE_W) PTE_U))
          (ret (pgtab + 4 * PTX va))))))"

primrec mappages_loop :: "nat \<Rightarrow> uint \<Rightarrow> uint \<Rightarrow> uint \<Rightarrow> uint \<Rightarrow> uint \<Rightarrow> ('z kmem_scheme, int) kop" where
  "mappages_loop 0 pd a fin pa perm = stop Spin"
| "mappages_loop (Suc n) pd a fin pa perm =
     kbind (walkpgdir pd a True) (\<lambda>pte.
     if pte = 0 then ret (-1)
     else kbind (load pte) (\<lambda>e.
       if present e then panic ''remap''
       else
         kthen (store pte (or (or pa perm) PTE_P))
         (if a = fin then ret 0 else mappages_loop n pd (a + PGSIZE) fin (pa + PGSIZE) perm)))"

definition mappages :: "uint \<Rightarrow> uint \<Rightarrow> uint \<Rightarrow> uint \<Rightarrow> uint \<Rightarrow> ('z kmem_scheme, int) kop" where
  "mappages pd va len pa perm =
     (let a = PGROUNDDOWN va; fin = PGROUNDDOWN (va + len - 1)
      in mappages_loop (Suc (unat (fin - a) div 4096)) pd a fin pa perm)"

section \<open>Freeing user memory\<close>

primrec dealloc_loop :: "nat \<Rightarrow> uint \<Rightarrow> uint \<Rightarrow> uint \<Rightarrow> ('z kmem_scheme, unit) kop" where
  "dealloc_loop 0 pd a oldsz = stop Spin"
| "dealloc_loop (Suc n) pd a oldsz =
     (if \<not> a < oldsz then ret ()
      else kbind (walkpgdir pd a False) (\<lambda>pte.
        if pte = 0 then dealloc_loop n pd (PGADDR (PDX a + 1) 0 0 - PGSIZE + PGSIZE) oldsz
        else kbind (load pte) (\<lambda>e.
          kthen (kwhen (present e)
            (if PTE_ADDR e = 0 then panic ''kfree''
             else kthen (kfree (P2V (PTE_ADDR e))) (store pte 0)))
          (dealloc_loop n pd (a + PGSIZE) oldsz))))"

definition deallocuvm :: "uint \<Rightarrow> uint \<Rightarrow> uint \<Rightarrow> ('z kmem_scheme, uint) kop" where
  "deallocuvm pd oldsz newsz =
     (if newsz \<ge> oldsz then ret oldsz
      else kthen (dealloc_loop (unat oldsz div 4096 + 2) pd (PGROUNDUP newsz) oldsz) (ret newsz))"

definition freevm_entry :: "uint \<Rightarrow> nat \<Rightarrow> ('z kmem_scheme, unit) kop" where
  "freevm_entry pd i =
     kbind (load (pd + 4 * word_of_nat i)) (\<lambda>e.
     kwhen (present e) (kfree (P2V (PTE_ADDR e))))"

definition freevm :: "uint \<Rightarrow> ('z kmem_scheme, unit) kop" where
  "freevm pd =
     (if pd = 0 then panic ''freevm: no pgdir''
      else
        kthen (deallocuvm pd KERNBASE 0)
        (kthen (kfor [0..<NPDENTRIES] (freevm_entry pd))
        (kfree pd)))"

section \<open>Kernel mappings\<close>

record kmap =
  km_virt :: uint
  km_start :: uint
  km_end :: uint
  km_perm :: uint

text \<open>The table depends on where the linker puts the kernel's data.\<close>

definition kmap_table :: "uint \<Rightarrow> kmap list" where
  "kmap_table kdata =
     [\<lparr>km_virt = KERNBASE, km_start = 0, km_end = EXTMEM, km_perm = PTE_W\<rparr>,
      \<lparr>km_virt = KERNLINK, km_start = V2P KERNLINK, km_end = V2P kdata, km_perm = 0\<rparr>,
      \<lparr>km_virt = kdata, km_start = V2P kdata, km_end = PHYSTOP, km_perm = PTE_W\<rparr>,
      \<lparr>km_virt = DEVSPACE, km_start = DEVSPACE, km_end = 0, km_perm = PTE_W\<rparr>]"

primrec setupkvm_loop :: "uint \<Rightarrow> kmap list \<Rightarrow> ('z kmem_scheme, uint) kop" where
  "setupkvm_loop pd [] = ret pd"
| "setupkvm_loop pd (k # ks) =
     kbind (mappages pd (km_virt k) (km_end k - km_start k) (km_start k) (km_perm k)) (\<lambda>r.
     if r < 0 then kthen (freevm pd) (ret 0) else setupkvm_loop pd ks)"

definition setupkvm :: "uint \<Rightarrow> ('z kmem_scheme, uint) kop" where
  "setupkvm kdata =
     kbind kalloc (\<lambda>pd.
     if pd = 0 then ret 0
     else
       kthen (zero_page pd)
       (if P2V PHYSTOP > DEVSPACE then panic ''PHYSTOP too high''
        else setupkvm_loop pd (kmap_table kdata)))"

definition kvmalloc :: "uint \<Rightarrow> ('z kmem_scheme, unit) kop" where
  "kvmalloc kdata =
     kbind (setupkvm kdata) (\<lambda>pd.
     kthen (kmod (\<lambda>s. s\<lparr>kpgdir := pd\<rparr>)) switchkvm)"

section \<open>User address spaces\<close>

text \<open>The initial program is given as its bytes.\<close>

definition inituvm :: "uint \<Rightarrow> (nat \<Rightarrow> byte) \<Rightarrow> uint \<Rightarrow> ('z kmem_scheme, unit) kop" where
  "inituvm pd init len =
     (if len \<ge> PGSIZE then panic ''inituvm: more than a page''
      else kbind kalloc (\<lambda>m.
        if m = 0 then stop Fault
        else
          kthen (zero_page m)
          (kthen (mappages pd 0 PGSIZE (V2P m) (or PTE_W PTE_U))
          (kmod (\<lambda>s. s\<lparr>mem := (\<lambda>a. if a - m < len then init (unat (a - m)) else mem s a)\<rparr>)))))"

primrec allocuvm_loop :: "nat \<Rightarrow> uint \<Rightarrow> uint \<Rightarrow> uint \<Rightarrow> uint \<Rightarrow> ('z kmem_scheme, uint) kop" where
  "allocuvm_loop 0 pd a oldsz newsz = stop Spin"
| "allocuvm_loop (Suc n) pd a oldsz newsz =
     (if \<not> a < newsz then ret newsz
      else kbind kalloc (\<lambda>m.
        if m = 0 then kthen (deallocuvm pd newsz oldsz) (ret 0)
        else
          kthen (zero_page m)
          (kbind (mappages pd a PGSIZE (V2P m) (or PTE_W PTE_U)) (\<lambda>r.
           if r < 0 then kthen (deallocuvm pd newsz oldsz) (kthen (kfree m) (ret 0))
           else allocuvm_loop n pd (a + PGSIZE) oldsz newsz))))"

definition allocuvm :: "uint \<Rightarrow> uint \<Rightarrow> uint \<Rightarrow> ('z kmem_scheme, uint) kop" where
  "allocuvm pd oldsz newsz =
     (if newsz \<ge> KERNBASE then ret 0
      else if newsz < oldsz then ret oldsz
      else allocuvm_loop (unat newsz div 4096 + 2) pd (PGROUNDUP oldsz) oldsz newsz)"

definition clearpteu :: "uint \<Rightarrow> uint \<Rightarrow> ('z kmem_scheme, unit) kop" where
  "clearpteu pd uva =
     kbind (walkpgdir pd uva False) (\<lambda>pte.
     if pte = 0 then panic ''clearpteu''
     else kbind (load pte) (\<lambda>e. store pte (and e (not PTE_U))))"

definition copy_page :: "uint \<Rightarrow> uint \<Rightarrow> ('z kmem_scheme, unit) kop" where
  "copy_page dst src = kmod (\<lambda>s. s\<lparr>mem := memmove (mem s) dst src PGSIZE\<rparr>)"

primrec copyuvm_loop :: "uint \<Rightarrow> uint \<Rightarrow> nat list \<Rightarrow> ('z kmem_scheme, uint) kop" where
  "copyuvm_loop pd d [] = ret d"
| "copyuvm_loop pd d (k # ks) =
     (let i = word_of_nat (4096 * k) in
      kbind (walkpgdir pd i False) (\<lambda>pte.
      if pte = 0 then panic ''copyuvm: pte should exist''
      else kbind (load pte) (\<lambda>e.
        if \<not> present e then panic ''copyuvm: page not present''
        else kbind kalloc (\<lambda>m.
          if m = 0 then kthen (freevm d) (ret 0)
          else
            kthen (copy_page m (P2V (PTE_ADDR e)))
            (kbind (mappages d i PGSIZE (V2P m) (PTE_FLAGS e)) (\<lambda>r.
             if r < 0 then kthen (freevm d) (ret 0)
             else copyuvm_loop pd d ks))))))"

definition copyuvm :: "uint \<Rightarrow> uint \<Rightarrow> uint \<Rightarrow> ('z kmem_scheme, uint) kop" where
  "copyuvm kdata pd len =
     kbind (setupkvm kdata) (\<lambda>d.
     if d = 0 then ret 0
     else copyuvm_loop pd d [0..<(unat len + 4095) div 4096])"

definition uva2ka :: "uint \<Rightarrow> uint \<Rightarrow> ('z kmem_scheme, uint) kop" where
  "uva2ka pd uva =
     kbind (walkpgdir pd uva False) (\<lambda>pte.
     if pte = 0 then stop Fault
     else kbind (load pte) (\<lambda>e.
       if \<not> present e then ret 0
       else if and e PTE_U = 0 then ret 0
       else ret (P2V (PTE_ADDR e))))"

text \<open>The source is given as its bytes; every round copies at least one of them.\<close>

primrec copyout_loop :: "nat \<Rightarrow> uint \<Rightarrow> uint \<Rightarrow> (nat \<Rightarrow> byte) \<Rightarrow> nat \<Rightarrow> uint \<Rightarrow> ('z kmem_scheme, int) kop" where
  "copyout_loop 0 pd va p k len = (if len = 0 then ret 0 else stop Spin)"
| "copyout_loop (Suc fuel) pd va p k len =
     (if len = 0 then ret 0
      else
        (let va0 = PGROUNDDOWN va in
         kbind (uva2ka pd va0) (\<lambda>pa0.
         if pa0 = 0 then ret (-1)
         else
           (let n = min (PGSIZE - (va - va0)) len; dst = pa0 + (va - va0) in
            kthen (kmod (\<lambda>s. s\<lparr>mem := (\<lambda>a. if a - dst < n then p (k + unat (a - dst)) else mem s a)\<rparr>))
            (copyout_loop fuel pd (va0 + PGSIZE) p (k + unat n) (len - n))))))"

definition copyout :: "uint \<Rightarrow> uint \<Rightarrow> (nat \<Rightarrow> byte) \<Rightarrow> uint \<Rightarrow> ('z kmem_scheme, int) kop" where
  "copyout pd va p len = copyout_loop (unat len) pd va p 0 len"

end
