(* ===== verification/Pipe.thy ===== *)
theory Pipe
  imports Fs Vm
begin

text \<open>
  \<^verbatim>\<open>pipe.c\<close> and the data of \<^verbatim>\<open>file.c\<close>: a pipe is a ring of 512 bytes between two counters that wrap at 32 bits.
  A pipe lives in a page of its own, and is named by that page's address; its fields are kept in a table beside the
  page's bytes. \<open>pipewrite\<close> takes the bytes behind its pointer and \<open>piperead\<close> returns them. A process that
  waits stops in \<open>sleep\<close>, and goes on in the waiting loop when it is scheduled: \<open>pipewrite_loop\<close> from
  the byte it was at, \<open>piperead_body\<close> from the start. \<open>pipealloc\<close> needs the file table and is in \<open>File\<close>.
\<close>

section \<open>State\<close>

abbreviation (input) PIPESIZE :: uint where "PIPESIZE \<equiv> 512"
abbreviation (input) NFILE :: nat where "NFILE \<equiv> 100"

record pipe =
  pdata :: "nat \<Rightarrow> byte"       \<comment> \<open>\<open>char data[PIPESIZE]\<close>\<close>
  nread :: uint
  nwrite :: uint
  readopen :: bool
  writeopen :: bool

datatype fdtype = FD_NONE | FD_PIPE | FD_INODE

record file_t =
  f_type :: fdtype
  f_ref :: int
  readable :: bool
  writable :: bool
  f_pipe :: uint               \<comment> \<open>page of the pipe\<close>
  f_ip :: "nat option"
  f_off :: uint

record files = console +
  ftable :: "nat \<Rightarrow> file_t"       \<comment> \<open>\<open>ftable.file\<close>, indices below \<open>NFILE\<close>\<close>
  pipes :: "uint \<Rightarrow> pipe"

definition upd_pipe :: "uint \<Rightarrow> (pipe \<Rightarrow> pipe) \<Rightarrow> ('z files_scheme, unit) kop" where
  "upd_pipe p f = kmod (\<lambda>s. s\<lparr>pipes := (pipes s)(p := f (pipes s p))\<rparr>)"

definition upd_file :: "nat \<Rightarrow> (file_t \<Rightarrow> file_t) \<Rightarrow> ('z files_scheme, unit) kop" where
  "upd_file k f = kmod (\<lambda>s. s\<lparr>ftable := (ftable s)(k := f (ftable s k))\<rparr>)"

section \<open>Operations\<close>

text \<open>The two statements that move a byte, and the tests of the loops.\<close>

definition pipe_put :: "byte \<Rightarrow> pipe \<Rightarrow> pipe" where
  "pipe_put c p = p\<lparr>pdata := (pdata p)(unat (nwrite p mod PIPESIZE) := c), nwrite := nwrite p + 1\<rparr>"

definition pipe_get :: "pipe \<Rightarrow> byte \<times> pipe" where
  "pipe_get p = (pdata p (unat (nread p mod PIPESIZE)), p\<lparr>nread := nread p + 1\<rparr>)"

definition pipe_full :: "pipe \<Rightarrow> bool" where
  "pipe_full p \<longleftrightarrow> nwrite p = nread p + PIPESIZE"

definition pipe_empty :: "pipe \<Rightarrow> bool" where
  "pipe_empty p \<longleftrightarrow> nread p = nwrite p"

definition pipeclose :: "uint \<Rightarrow> bool \<Rightarrow> ('z files_scheme, unit) kop" where
  "pipeclose p wr =
     kthen (acquire (Lpipe p))
     (kthen (if wr then kthen (upd_pipe p (\<lambda>q. q\<lparr>writeopen := False\<rparr>)) (wakeup (Some (ChPipeRead p)))
             else kthen (upd_pipe p (\<lambda>q. q\<lparr>readopen := False\<rparr>)) (wakeup (Some (ChPipeWrite p))))
     (kbind (kget (\<lambda>s. pipes s p)) (\<lambda>q.
      if \<not> readopen q \<and> \<not> writeopen q
      then kthen (release (Lpipe p)) (kfree p)
      else release (Lpipe p))))"

definition mykilled :: "('z ctab_scheme, bool) kop" where
  "mykilled = kbind myproc (\<lambda>mp. kbind (klift mp) (\<lambda>me. kget (\<lambda>s. killed (procs s me))))"

text \<open>The loop over the bytes still to write.\<close>

primrec pipewrite_loop :: "uint \<Rightarrow> int \<Rightarrow> byte list \<Rightarrow> ('z files_scheme, int) kop" where
  "pipewrite_loop p n [] =
     kthen (wakeup (Some (ChPipeRead p)))
     (kthen (release (Lpipe p))
     (ret n))"
| "pipewrite_loop p n (c # cs) =
     kbind (kget (\<lambda>s. pipes s p)) (\<lambda>q.
     if pipe_full q
     then kbind (if readopen q then mykilled else ret True) (\<lambda>k.
        if k then kthen (release (Lpipe p)) (ret (-1))
        else
          kthen (wakeup (Some (ChPipeRead p)))
          (kthen (sleep (Some (ChPipeWrite p)) (Some (Lpipe p)))
          (stop Switch)))
     else
       kthen (upd_pipe p (pipe_put c))
       (pipewrite_loop p n cs))"

definition pipewrite :: "uint \<Rightarrow> (nat \<Rightarrow> byte) \<Rightarrow> int \<Rightarrow> ('z files_scheme, int) kop" where
  "pipewrite p addr n = kthen (acquire (Lpipe p)) (pipewrite_loop p n (map addr [0..<nat n]))"

primrec piperead_copy :: "uint \<Rightarrow> nat \<Rightarrow> byte list \<Rightarrow> ('z files_scheme, byte list) kop" where
  "piperead_copy p 0 got = ret got"
| "piperead_copy p (Suc n) got =
     kbind (kget (\<lambda>s. pipes s p)) (\<lambda>q.
     if pipe_empty q then ret got
     else
       (let (c, q') = pipe_get q in
        kthen (upd_pipe p (\<lambda>_. q'))
        (piperead_copy p n (got @ [c]))))"

definition piperead_body :: "uint \<Rightarrow> int \<Rightarrow> ('z files_scheme, int \<times> byte list) kop" where
  "piperead_body p n =
     kbind (kget (\<lambda>s. pipes s p)) (\<lambda>q.
     if pipe_empty q \<and> writeopen q
     then kbind mykilled (\<lambda>k.
        if k then kthen (release (Lpipe p)) (ret (-1, []))
        else kthen (sleep (Some (ChPipeRead p)) (Some (Lpipe p))) (stop Switch))
     else kbind (piperead_copy p (nat n) []) (\<lambda>got.
        kthen (wakeup (Some (ChPipeWrite p)))
        (kthen (release (Lpipe p))
        (ret (int (length got), got)))))"

definition piperead :: "uint \<Rightarrow> int \<Rightarrow> ('z files_scheme, int \<times> byte list) kop" where
  "piperead p n = kthen (acquire (Lpipe p)) (piperead_body p n)"

section \<open>Bounded queues\<close>

text \<open>
  What the two loops rely on: \<open>put\<close> and \<open>get\<close> work on a queue of at most \<open>cap\<close> elements, and \<open>full\<close> and
  \<open>empty\<close> test its length.
\<close>

locale bounded_queue =
  fixes ok :: "'q \<Rightarrow> bool" and elems :: "'q \<Rightarrow> 'a list" and put :: "'a \<Rightarrow> 'q \<Rightarrow> 'q" and get :: "'q \<Rightarrow> 'a \<times> 'q"
    and full :: "'q \<Rightarrow> bool" and empty :: "'q \<Rightarrow> bool" and cap :: nat
  assumes ok_length: "ok q \<Longrightarrow> length (elems q) \<le> cap"
    and full_iff: "ok q \<Longrightarrow> full q \<longleftrightarrow> length (elems q) = cap"
    and empty_iff: "ok q \<Longrightarrow> empty q \<longleftrightarrow> elems q = []"
    and put_law: "ok q \<Longrightarrow> \<not> full q \<Longrightarrow> ok (put x q) \<and> elems (put x q) = elems q @ [x]"
    and get_law: "ok q \<Longrightarrow> \<not> empty q \<Longrightarrow> ok (snd (get q)) \<and> fst (get q) # elems (snd (get q)) = elems q"
begin

lemma fold_put:
  "ok q \<Longrightarrow> length (elems q) + length xs \<le> cap \<Longrightarrow> ok (fold put xs q) \<and> elems (fold put xs q) = elems q @ xs"
  using put_law full_iff by (induction xs arbitrary: q) auto

lemma iterate_get:
  "ok q \<Longrightarrow> n \<le> length (elems q) \<Longrightarrow> ok (((\<lambda>q. snd (get q)) ^^ n) q) \<and> elems (((\<lambda>q. snd (get q)) ^^ n) q) = drop n (elems q)"
proof (induction n arbitrary: q)
  case (Suc n)
  then have "\<not> empty q" using empty_iff by auto
  then have g: "ok (snd (get q))" "fst (get q) # elems (snd (get q)) = elems q" using Suc.prems get_law by auto
  then have "n \<le> length (elems (snd (get q)))" "drop n (elems (snd (get q))) = drop (Suc n) (elems q)"
    using Suc.prems(2) by (simp_all flip: g(2))
  with Suc.IH [OF g(1)] show ?case by (simp only: funpow_Suc_right comp_apply)
qed simp

text \<open>First in, first out: what is put into an empty queue comes out in the order it went in.\<close>

lemma fifo:
  assumes "ok q" and "empty q" and "length xs \<le> cap" and "n < length xs"
  shows "fst (get (((\<lambda>q. snd (get q)) ^^ n) (fold put xs q))) = xs ! n"
proof -
  let ?q = "((\<lambda>q. snd (get q)) ^^ n) (fold put xs q)"
  have "elems q = []" using assms(1,2) empty_iff by blast
  then have "ok (fold put xs q)" "elems (fold put xs q) = xs" using fold_put [OF assms(1), of xs] assms(3) by simp_all
  then have "ok ?q" "elems ?q = drop n xs" using iterate_get [of "fold put xs q" n] assms(4) by auto
  moreover from this have "\<not> empty ?q" using assms(4) empty_iff by auto
  ultimately show ?thesis using get_law [of ?q] assms(4) by (auto simp: Cons_nth_drop_Suc [symmetric])
qed

end

text \<open>The bytes in a pipe, from the read counter to the write counter.\<close>

definition pipe_bytes :: "pipe \<Rightarrow> byte list" where
  "pipe_bytes q = map (\<lambda>k. pdata q ((unat (nread q) + k) mod 512)) [0..<unat (nwrite q - nread q)]"

definition pipe_ok :: "pipe \<Rightarrow> bool" where
  "pipe_ok q \<longleftrightarrow> unat (nwrite q - nread q) \<le> 512"

lemma ring_index: "unat ((a + word_of_nat k :: uint) mod 512) = (unat a + k) mod 512"
proof -
  have "(unat a + k mod 2 ^ 32) mod 2 ^ 32 mod 512 = (unat a + k) mod 512"
    by (simp add: mod_mod_cancel mod_simps)
  then show ?thesis by (simp add: unat_mod unat_word_ariths unat_of_nat)
qed

lemma pipe_put_bytes:
  assumes "pipe_ok q" and "\<not> pipe_full q"
  shows "pipe_ok (pipe_put c q) \<and> pipe_bytes (pipe_put c q) = pipe_bytes q @ [c]"
proof -
  define n where "n = unat (nwrite q - nread q)"
  have w: "nwrite q = nread q + word_of_nat n" by (simp add: n_def)
  have "n \<noteq> 512" using assms(2) by (auto simp: pipe_full_def w)
  then have lt: "n < 512" using assms(1) by (simp add: pipe_ok_def n_def)
  have "nwrite q + 1 - nread q = word_of_nat (Suc n)" by (simp add: w)
  then have len: "unat (nwrite q + 1 - nread q) = Suc n" using lt by (simp only: unat_of_nat) simp
  have "(unat (nread q) + k) mod 512 \<noteq> (unat (nread q) + n) mod 512" if "k < n" for k
  proof
    assume "(unat (nread q) + k) mod 512 = (unat (nread q) + n) mod 512"
    then have "(512 :: nat) dvd (unat (nread q) + n) - (unat (nread q) + k)" by (metis mod_eq_dvd_iff_nat add_le_cancel_left less_imp_le that)
    then show False using that lt by (auto dest: dvd_imp_le)
  qed
  moreover have "unat (word_of_nat n :: uint) = n" using lt by (simp only: unat_of_nat) simp
  ultimately show ?thesis
    using len lt ring_index [of "nread q" n] by (auto simp: pipe_ok_def pipe_bytes_def pipe_put_def w)
qed

lemma pipe_get_bytes:
  assumes "pipe_ok q" and "\<not> pipe_empty q"
  shows "pipe_ok (snd (pipe_get q)) \<and> fst (pipe_get q) # pipe_bytes (snd (pipe_get q)) = pipe_bytes q"
proof -
  define n where "n = unat (nwrite q - nread q)"
  have "n \<noteq> 0" using assms(2) by (auto simp: n_def pipe_empty_def unat_eq_0)
  then obtain m where m: "n = Suc m" by (cases n) auto
  have "word_of_nat n = nwrite q - nread q" by (simp add: n_def)
  then have "nwrite q - (nread q + 1) = word_of_nat m" by (simp add: m algebra_simps)
  moreover have "m < 512" using assms(1) m by (simp add: pipe_ok_def flip: n_def)
  ultimately have len: "unat (nwrite q - (nread q + 1)) = m" by (simp only: unat_of_nat) simp
  have ix: "(unat (nread q + 1) + k) mod 512 = (unat (nread q) + Suc k) mod 512" for k
    using ring_index [of "nread q + 1" k] ring_index [of "nread q" "Suc k"] by (simp add: ac_simps)
  have "[0..<n] = 0 # map Suc [0..<m]" by (simp add: m upt_conv_Cons map_Suc_upt del: upt_Suc)
  with len ix show ?thesis
    using \<open>m < 512\<close> ring_index [of "nread q" 0] unfolding pipe_ok_def pipe_bytes_def pipe_get_def
    by (simp add: comp_def flip: n_def)
qed

interpretation ring: bounded_queue pipe_ok pipe_bytes pipe_put pipe_get pipe_full pipe_empty 512
proof
  fix q assume q: "pipe_ok q"
  have "pipe_full q \<longleftrightarrow> nwrite q - nread q = 512" by (auto simp: pipe_full_def algebra_simps)
  also have "\<dots> \<longleftrightarrow> unat (nwrite q - nread q) = 512" by (simp add: word_unat_eq_iff)
  finally show "pipe_full q \<longleftrightarrow> length (pipe_bytes q) = 512" by (simp add: pipe_bytes_def)
  show "pipe_empty q \<longleftrightarrow> pipe_bytes q = []" by (auto simp: pipe_empty_def pipe_bytes_def unat_eq_0)
qed (use pipe_put_bytes pipe_get_bytes in \<open>auto simp: pipe_ok_def pipe_bytes_def\<close>)
section \<open>Pipes are queues\<close>

lemma upd_pipe_exec [kexec]: "upd_pipe p f s = Ok () (s\<lparr>pipes := (pipes s)(p := f (pipes s p))\<rparr>)"
  by (simp add: upd_pipe_def kexec)

lemma mykilled_exec: "cur s = Some me \<Longrightarrow> mykilled s = Ok (killed (procs s me)) s"
  by (simp add: mykilled_def kexec)

text \<open>A wake-up changes the process table only, and there neither kills nor pardons anybody.\<close>

lemma wakeup_procs:
  assumes "rows_ok s" and "Lptable \<notin> set (held s)"
  obtains P where "wakeup ch s = Ok () (s\<lparr>procs := P\<rparr>)" "\<And>p. killed (P p) = killed (procs s p)"
  using wakeup_exec [OF assms, of ch] by (auto simp: woken_def)

text \<open>The loop of \<open>pipewrite\<close> over bytes for which there is room.\<close>

lemma pipewrite_loop_puts:
  assumes "pipe_ok (pipes s p)" and "length (pipe_bytes (pipes s p)) + length xs \<le> 512"
  shows "pipewrite_loop p n (xs @ ys) s = pipewrite_loop p n ys (s\<lparr>pipes := (pipes s)(p := fold pipe_put xs (pipes s p))\<rparr>)"
  using assms
proof (induction xs arbitrary: s)
  case (Cons c cs)
  let ?s = "s\<lparr>pipes := (pipes s)(p := pipe_put c (pipes s p))\<rparr>"
  have nf: "\<not> pipe_full (pipes s p)" using Cons.prems ring.full_iff by auto
  then have "pipe_ok (pipes ?s p)" "length (pipe_bytes (pipes ?s p)) + length cs \<le> 512"
    using ring.put_law [OF Cons.prems(1), of c] Cons.prems(2) by auto
  from Cons.IH [OF this] nf show ?case by (simp add: kexec cong: if_cong)
qed simp

text \<open>What a call on pipe \<open>p\<close> does to the state: the pipe holds \<open>xs\<close>, its ends are as before, and no other pipe has changed.\<close>

definition pipe_now :: "uint \<Rightarrow> byte list \<Rightarrow> 'z files_scheme \<Rightarrow> 'z files_scheme \<Rightarrow> bool" where
  "pipe_now p xs s t \<longleftrightarrow> pipe_ok (pipes t p) \<and> pipe_bytes (pipes t p) = xs \<and>
     readopen (pipes t p) = readopen (pipes s p) \<and> writeopen (pipes t p) = writeopen (pipes s p) \<and>
     (\<forall>r. r \<noteq> p \<longrightarrow> pipes t r = pipes s r)"

lemma pipe_now_fold:
  assumes "pipe_ok (pipes s p)" and "length (pipe_bytes (pipes s p)) + length xs \<le> 512"
    and "pipes t = (pipes s)(p := fold pipe_put xs (pipes s p))"
  shows "pipe_now p (pipe_bytes (pipes s p) @ xs) s t"
proof -
  have "readopen (fold pipe_put xs q) = readopen q \<and> writeopen (fold pipe_put xs q) = writeopen q" for q
    by (induction xs arbitrary: q) (simp_all add: pipe_put_def)
  then show ?thesis using ring.fold_put [OF assms(1,2)] by (simp add: pipe_now_def assms(3))
qed

text \<open>A process ready to call: it runs, holds no lock, and the rows of the process table are in place.\<close>

definition at_call :: "nat \<Rightarrow> 'z ctab_scheme \<Rightarrow> bool" where
  "at_call me s \<longleftrightarrow> cur s = Some me \<and> held s = [] \<and> rows_ok s"

text \<open>The process is asleep on a channel.\<close>

definition asleep :: "nat \<Rightarrow> chan \<Rightarrow> 'z ctab_scheme \<Rightarrow> bool" where
  "asleep me ch t \<longleftrightarrow> pstate (procs t me) = SLEEPING \<and> chan (procs t me) = Some ch \<and> held t = [Lptable]"

text \<open>The two ways the loop goes on: at its end, and at a full pipe.\<close>

lemma pipewrite_loop_end:
  assumes "rows_ok u" and "held u = [Lpipe p]"
  obtains P where "pipewrite_loop p n [] u = Ok n (u\<lparr>procs := P, held := []\<rparr>)"
proof -
  obtain P where "wakeup (Some (ChPipeRead p)) u = Ok () (u\<lparr>procs := P\<rparr>)"
    using wakeup_procs [OF assms(1), of "Some (ChPipeRead p)"] assms(2) by auto
  then have "pipewrite_loop p n [] u = Ok n (u\<lparr>procs := P, held := []\<rparr>)" using assms(2) by (simp add: kexec)
  then show thesis by (rule that)
qed

lemma pipewrite_loop_full:
  assumes "rows_ok u" and "held u = [Lpipe p]" and "cur u = Some me" and "pipe_full (pipes u p)"
  shows "if \<not> readopen (pipes u p) \<or> killed (procs u me) then pipewrite_loop p n (c # cs) u = Ok (-1) (u\<lparr>held := []\<rparr>)
    else \<exists>t. pipewrite_loop p n (c # cs) u = Stop Switch t \<and> asleep me (ChPipeWrite p) t \<and> pipes t = pipes u"
proof (cases "\<not> readopen (pipes u p) \<or> killed (procs u me)")
  case True
  then show ?thesis using assms by (auto simp: kexec mykilled_exec)
next
  case False
  obtain P where P: "wakeup (Some (ChPipeRead p)) u = Ok () (u\<lparr>procs := P\<rparr>)"
    using wakeup_procs [OF assms(1), of "Some (ChPipeRead p)"] assms(2) by auto
  let ?t = "u\<lparr>procs := P(me := (P me)\<lparr>chan := Some (ChPipeWrite p), pstate := SLEEPING\<rparr>), held := [Lptable]\<rparr>"
  have "sleep (Some (ChPipeWrite p)) (Some (Lpipe p)) (u\<lparr>procs := P\<rparr>) = Stop Switch ?t"
    using sleep_exec [of "u\<lparr>procs := P\<rparr>" me "Lpipe p"] assms(2,3) by simp
  then have "pipewrite_loop p n (c # cs) u = Stop Switch ?t" using assms(3,4) False P by (simp add: kexec mykilled_exec)
  with False show ?thesis by (simp add: asleep_def)
qed

text \<open>
  C35. \<open>pipewrite\<close> appends to a queue of 512 bytes. Whatever the two counters are, even when they have wrapped round
  32 bits, the pipe holds the bytes between them in order. If the bytes fit, the call returns their number and the
  pipe holds the old bytes followed by the new ones. Otherwise it fills the pipe with as many as fit; then it returns \<open>-1\<close> if
  the read end is closed or the process has been killed, and else sleeps on the pipe's write channel. No other pipe changes.
\<close>

theorem pipewrite_appends:
  assumes "at_call me s" and "pipe_ok (pipes s p)"
  shows "if length (pipe_bytes (pipes s p)) + nat n \<le> 512
    then \<exists>t. pipewrite p addr n s = Ok n t \<and> held t = [] \<and>
           pipe_now p (pipe_bytes (pipes s p) @ map addr [0..<nat n]) s t
    else let xs = take 512 (pipe_bytes (pipes s p) @ map addr [0..<nat n]) in
         if \<not> readopen (pipes s p) \<or> killed (procs s me)
         then \<exists>t. pipewrite p addr n s = Ok (-1) t \<and> held t = [] \<and> pipe_now p xs s t
         else \<exists>t. pipewrite p addr n s = Stop Switch t \<and> asleep me (ChPipeWrite p) t \<and> pipe_now p xs s t"
proof -
  define old where "old = pipe_bytes (pipes s p)"
  define xs where "xs = take (512 - length old) (map addr [0..<nat n])"
  define ys where "ys = drop (512 - length old) (map addr [0..<nat n])"
  define u where "u = s\<lparr>held := [Lpipe p], pipes := (pipes s)(p := fold pipe_put xs (pipes s p))\<rparr>"
  have cur: "cur s = Some me" "held s = []" "rows_ok s" using assms(1) by (simp_all add: at_call_def)
  have len: "length old \<le> 512" using ring.ok_length [OF assms(2)] by (simp add: old_def)
  then have fit: "length old + length xs \<le> 512" by (simp add: xs_def)
  have "pipewrite p addr n s = pipewrite_loop p n (xs @ ys) (s\<lparr>held := [Lpipe p]\<rparr>)"
    using cur(2) by (simp add: pipewrite_def kexec xs_def ys_def)
  also have "\<dots> = pipewrite_loop p n ys u"
    using pipewrite_loop_puts [of "s\<lparr>held := [Lpipe p]\<rparr>" p xs n ys] assms(2) fit by (simp add: u_def old_def)
  finally have run: "pipewrite p addr n s = pipewrite_loop p n ys u" .
  have now: "pipe_now p (old @ xs) s t" if "pipes t = pipes u" for t
    using pipe_now_fold [OF assms(2), of xs t] fit that by (simp add: old_def u_def)
  have u: "rows_ok u" "held u = [Lpipe p]" "cur u = Some me" "procs u = procs s" "readopen (pipes u p) = readopen (pipes s p)"
    using cur now [of u] by (simp_all add: u_def rows_ok_def pipe_now_def)
  show ?thesis
  proof (cases "length old + nat n \<le> 512")
    case True
    then have ys: "ys = []" "xs = map addr [0..<nat n]" by (simp_all add: xs_def ys_def)
    obtain P where "pipewrite_loop p n [] u = Ok n (u\<lparr>procs := P, held := []\<rparr>)" using pipewrite_loop_end [OF u(1,2)] by blast
    then show ?thesis using True run ys now [of "u\<lparr>procs := P, held := []\<rparr>"] by (simp add: old_def)
  next
    case False
    then obtain c cs where ys: "ys = c # cs" using len by (cases ys) (auto simp: ys_def)
    have tk: "take 512 (old @ map addr [0..<nat n]) = old @ xs" using len by (simp add: xs_def)
    have "length (pipe_bytes (pipes u p)) = 512" using now [of u] False len by (simp add: pipe_now_def xs_def)
    then have full: "pipe_full (pipes u p)" using now [of u] ring.full_iff by (simp add: pipe_now_def)
    show ?thesis
    proof (cases "\<not> readopen (pipes s p) \<or> killed (procs s me)")
      case True
      then have "pipewrite p addr n s = Ok (-1) (u\<lparr>held := []\<rparr>)"
        using pipewrite_loop_full [OF u(1-3) full, of n c cs] unfolding run ys u(4,5) by simp
      then show ?thesis using True False now [of "u\<lparr>held := []\<rparr>"] tk by (simp add: old_def)
    next
      case ok: False
      then obtain t where "pipewrite p addr n s = Stop Switch t" "asleep me (ChPipeWrite p) t" "pipes t = pipes u"
        using pipewrite_loop_full [OF u(1-3) full, of n c cs] unfolding run ys u(4,5) by auto
      then show ?thesis using ok False now [of t] tk by (simp add: old_def)
    qed
  qed
qed

text \<open>The copying loop of \<open>piperead\<close> takes the bytes from the front of the queue.\<close>

lemma piperead_copy_takes:
  assumes "pipe_ok (pipes s p)"
  shows "\<exists>q. piperead_copy p n got s = Ok (got @ take n (pipe_bytes (pipes s p))) (s\<lparr>pipes := (pipes s)(p := q)\<rparr>) \<and>
     pipe_ok q \<and> pipe_bytes q = drop n (pipe_bytes (pipes s p)) \<and>
     readopen q = readopen (pipes s p) \<and> writeopen q = writeopen (pipes s p)"
  using assms
proof (induction n arbitrary: s got)
  case 0
  then show ?case by (intro exI [of _ "pipes s p"]) (simp add: kexec)
next
  case (Suc n)
  show ?case
  proof (cases "pipe_empty (pipes s p)")
    case True
    then show ?thesis using Suc.prems ring.empty_iff by (intro exI [of _ "pipes s p"]) (simp add: kexec)
  next
    case False
    let ?q = "snd (pipe_get (pipes s p))" and ?c = "fst (pipe_get (pipes s p))"
    have g: "pipe_ok ?q" "pipe_bytes (pipes s p) = ?c # pipe_bytes ?q" using ring.get_law [OF Suc.prems False] by auto
    have r: "readopen ?q = readopen (pipes s p)" "writeopen ?q = writeopen (pipes s p)" by (simp_all add: pipe_get_def)
    let ?s = "s\<lparr>pipes := (pipes s)(p := ?q)\<rparr>"
    have ok: "pipe_ok (pipes ?s p)" using g(1) by simp
    obtain q where q: "piperead_copy p n (got @ [?c]) ?s = Ok ((got @ [?c]) @ take n (pipe_bytes (pipes ?s p))) (?s\<lparr>pipes := (pipes ?s)(p := q)\<rparr>)"
      "pipe_ok q" "pipe_bytes q = drop n (pipe_bytes (pipes ?s p))" "readopen q = readopen (pipes ?s p)" "writeopen q = writeopen (pipes ?s p)"
      using Suc.IH [OF ok, of "got @ [?c]"] by blast
    have "piperead_copy p (Suc n) got s = piperead_copy p n (got @ [?c]) ?s"
      using False by (simp add: kexec split_beta)
    also have "\<dots> = Ok (got @ take (Suc n) (pipe_bytes (pipes s p))) (s\<lparr>pipes := (pipes s)(p := q)\<rparr>)"
      unfolding q(1) g(2) by simp
    finally have "piperead_copy p (Suc n) got s = \<dots>" .
    moreover have "pipe_bytes q = drop (Suc n) (pipe_bytes (pipes s p))" using q(3) unfolding g(2) by simp
    moreover have "readopen q = readopen (pipes s p)" "writeopen q = writeopen (pipes s p)" using q(4,5) r by simp_all
    ultimately show ?thesis using q(2) by blast
  qed
qed

text \<open>
  C36. \<open>piperead\<close> takes from the front of the queue. If the pipe is empty and its write end open, the call
  returns \<open>-1\<close> to a killed process and puts any other to sleep on the pipe's read channel, with the pipe unchanged.
  Otherwise it returns the first \<open>n\<close> bytes of the queue, or all of them if there are fewer, with their number, and
  leaves the rest; at the end of the file, with the pipe empty and the write end closed, this is \<open>0\<close>.
\<close>

theorem piperead_takes:
  assumes "at_call me s" and "pipe_ok (pipes s p)"
  shows "if pipe_bytes (pipes s p) = [] \<and> writeopen (pipes s p)
    then if killed (procs s me) then piperead p n s = Ok (-1, []) s
         else \<exists>t. piperead p n s = Stop Switch t \<and> asleep me (ChPipeRead p) t \<and> pipes t = pipes s
    else let xs = take (nat n) (pipe_bytes (pipes s p)) in
         \<exists>t. piperead p n s = Ok (int (length xs), xs) t \<and> held t = [] \<and> pipe_now p (drop (nat n) (pipe_bytes (pipes s p))) s t"
proof -
  let ?s = "s\<lparr>held := [Lpipe p]\<rparr>"
  have cur: "cur s = Some me" "held s = []" "rows_ok s" using assms(1) by (simp_all add: at_call_def)
  have run: "piperead p n s = piperead_body p n ?s" using cur(2) by (simp add: piperead_def kexec)
  have e: "pipe_empty (pipes s p) \<longleftrightarrow> pipe_bytes (pipes s p) = []" by (rule ring.empty_iff [OF assms(2)])
  have s:  "?s\<lparr>held := []\<rparr> = s" using cur(2) by simp
  show ?thesis
  proof (cases "pipe_bytes (pipes s p) = [] \<and> writeopen (pipes s p)")
    case True
    show ?thesis
      using True e cur(1) sleep_exec [of ?s me "Lpipe p" "ChPipeRead p"] s
      by (simp add: run piperead_body_def kexec mykilled_exec asleep_def)
  next
    case False
    obtain q where q: "piperead_copy p (nat n) [] ?s = Ok (take (nat n) (pipe_bytes (pipes s p))) (?s\<lparr>pipes := (pipes s)(p := q)\<rparr>)"
      "pipe_now p (drop (nat n) (pipe_bytes (pipes s p))) s (?s\<lparr>pipes := (pipes s)(p := q)\<rparr>)"
      using piperead_copy_takes [of ?s p "nat n" "[]"] assms(2) unfolding pipe_now_def by auto
    let ?t = "?s\<lparr>pipes := (pipes s)(p := q)\<rparr>"
    have "rows_ok ?t" "Lptable \<notin> set (held ?t)" using cur(3) by (simp_all add: rows_ok_def)
    then obtain P where P: "wakeup (Some (ChPipeWrite p)) ?t = Ok () (?t\<lparr>procs := P\<rparr>)" by (rule wakeup_procs)
    have "\<not> (pipe_empty (pipes ?s p) \<and> writeopen (pipes ?s p))" using False e by simp
    then have "piperead_body p n ?s = Ok (int (length (take (nat n) (pipe_bytes (pipes s p)))), take (nat n) (pipe_bytes (pipes s p))) (?t\<lparr>procs := P, held := []\<rparr>)"
      using q(1) P unfolding piperead_body_def by (simp only: kbind_exec kget_exec res.case if_False) (simp add: kexec)
    moreover have "pipe_now p (drop (nat n) (pipe_bytes (pipes s p))) s (?t\<lparr>procs := P, held := []\<rparr>)"
      using q(2) unfolding pipe_now_def by simp
    moreover have "held (?t\<lparr>procs := P, held := []\<rparr>) = []" by simp
    ultimately show ?thesis unfolding run Let_def if_not_P [OF False] by blast
  qed
qed
section \<open>An example\<close>

text \<open>A pipe at \<open>0x80600000\<close> with three bytes across the wrap-around of its counters.\<close>

definition pipe_ex :: pipe where
  "pipe_ex = \<lparr>pdata = (\<lambda>i. word_of_nat i), nread = - 2, nwrite = 1, readopen = True, writeopen = True\<rparr>"

definition file0 :: file_t where
  "file0 = \<lparr>f_type = FD_NONE, f_ref = 0, readable = False, writable = False, f_pipe = 0, f_ip = None, f_off = 0\<rparr>"

definition files_ex :: files where
  "files_ex = console.extend fs_file (files.fields (\<lambda>_. file0) (\<lambda>_. pipe_ex))"

lemma files_ex_fields: "pipes files_ex p = pipe_ex" "cur files_ex = Some 0" "held files_ex = []" "conts files_ex = conts rows_ex"
  "ftable files_ex k = file0" "procs files_ex = procs fs_file"
  by (simp_all add: files_ex_def console.defs files.defs fs_file_def fsst.defs fs_ex_fields)

lemma pipe_ex_facts: "pipe_ok pipe_ex" "pipe_bytes pipe_ex = [254, 255, 0]" "at_call 0 files_ex"
  using rows_ex_facts(1) by (simp_all add: pipe_ok_def pipe_bytes_def pipe_ex_def upt_rec at_call_def files_ex_fields rows_ok_def)

theorem pipewrite_appends_witness:
  "\<exists>t. pipewrite 0x80600000 (\<lambda>i. word_of_nat (7 + i)) 2 files_ex = Ok 2 t \<and> pipe_bytes (pipes t 0x80600000) = [254, 255, 0, 7, 8]"
  using pipewrite_appends [where me = 0 and s = files_ex and p = "0x80600000" and n = 2 and addr = "\<lambda>i. word_of_nat (7 + i)"] pipe_ex_facts
  by (auto simp: files_ex_fields pipe_now_def upt_rec)

theorem piperead_takes_witness:
  "\<exists>t. piperead 0x80600000 2 files_ex = Ok (2, [254, 255]) t \<and> pipe_bytes (pipes t 0x80600000) = [0]"
  using piperead_takes [where me = 0 and s = files_ex and p = "0x80600000" and n = 2] pipe_ex_facts
  by (auto simp: files_ex_fields pipe_now_def)

end
