(* ===== verification/File.thy ===== *)
theory File
  imports Pipe
begin

text \<open>
  \<^verbatim>\<open>file.c\<close>, the table of open files, and \<open>pipealloc\<close> of \<^verbatim>\<open>pipe.c\<close>. A file is an index into the table. What is
  read is returned as a list of bytes, what is written is given as a function from positions.
\<close>

section \<open>References\<close>

definition filealloc :: "('z files_scheme, nat option) kop" where
  "filealloc =
     kthen (acquire Lftable)
     (kbind (kget (\<lambda>s. find (\<lambda>k. f_ref (ftable s k) = 0) [0..<NFILE])) (\<lambda>found.
      case found of
        None \<Rightarrow> kthen (release Lftable) (ret None)
      | Some k \<Rightarrow>
          kthen (upd_file k (\<lambda>f. f\<lparr>f_ref := 1\<rparr>))
          (kthen (release Lftable)
          (ret (Some k)))))"

definition filedup :: "nat \<Rightarrow> ('z files_scheme, nat) kop" where
  "filedup k =
     kthen (acquire Lftable)
     (kbind (kget (\<lambda>s. f_ref (ftable s k))) (\<lambda>r.
      if r < 1 then panic ''filedup''
      else
        kthen (upd_file k (\<lambda>f. f\<lparr>f_ref := f_ref f + 1\<rparr>))
        (kthen (release Lftable)
        (ret k))))"

definition fileclose :: "nat \<Rightarrow> ('z files_scheme, unit) kop" where
  "fileclose k =
     kthen (acquire Lftable)
     (kbind (kget (\<lambda>s. f_ref (ftable s k))) (\<lambda>r.
      if r < 1 then panic ''fileclose''
      else
        kthen (upd_file k (\<lambda>f. f\<lparr>f_ref := f_ref f - 1\<rparr>))
        (if r - 1 > 0 then release Lftable
         else kbind (kget (\<lambda>s. ftable s k)) (\<lambda>ff.
           kthen (upd_file k (\<lambda>f. f\<lparr>f_ref := 0\<rparr>))
           (kthen (upd_file k (\<lambda>f. f\<lparr>f_type := FD_NONE\<rparr>))
           (kthen (release Lftable)
           (if f_type ff = FD_PIPE then pipeclose (f_pipe ff) (writable ff)
            else kwhen (f_type ff = FD_INODE)
              (kthen begin_op
              (kthen (kbind (klift (f_ip ff)) iput)
              end_op)))))))))"

section \<open>Pipes\<close>

definition pipe_bad :: "nat option \<Rightarrow> nat option \<Rightarrow> ('z files_scheme, (nat \<times> nat) option) kop" where
  "pipe_bad f0 f1 =
     kthen (case f0 of None \<Rightarrow> ret () | Some a \<Rightarrow> fileclose a)
     (kthen (case f1 of None \<Rightarrow> ret () | Some b \<Rightarrow> fileclose b)
     (ret None))"

definition pipealloc :: "('z files_scheme, (nat \<times> nat) option) kop" where
  "pipealloc =
     kbind filealloc (\<lambda>f0. case f0 of
       None \<Rightarrow> pipe_bad None None
     | Some a \<Rightarrow> kbind filealloc (\<lambda>f1. case f1 of
         None \<Rightarrow> pipe_bad (Some a) None
       | Some b \<Rightarrow> kbind kalloc (\<lambda>p.
           if p = 0 then pipe_bad (Some a) (Some b)
           else
             kthen (upd_pipe p (\<lambda>q. q\<lparr>readopen := True, writeopen := True, nwrite := 0, nread := 0\<rparr>))
             (kthen (upd_file a (\<lambda>f. f\<lparr>f_type := FD_PIPE, readable := True, writable := False, f_pipe := p\<rparr>))
             (kthen (upd_file b (\<lambda>f. f\<lparr>f_type := FD_PIPE, readable := False, writable := True, f_pipe := p\<rparr>))
             (ret (Some (a, b))))))))"

section \<open>Access\<close>

definition filestat :: "nat \<Rightarrow> ('z files_scheme, int \<times> stat option) kop" where
  "filestat k =
     kbind (kget (\<lambda>s. ftable s k)) (\<lambda>f.
     if f_type f = FD_INODE
     then kbind (klift (f_ip f)) (\<lambda>ip.
        kthen (ilock (Some ip))
        (kbind (stati ip) (\<lambda>st.
         kthen (iunlock (Some ip))
        (ret (0, Some st)))))
     else ret (-1, None))"

definition fileread :: "nat \<Rightarrow> int \<Rightarrow> ('z files_scheme, int \<times> byte list) kop" where
  "fileread k n =
     kbind (kget (\<lambda>s. ftable s k)) (\<lambda>f.
     if \<not> readable f then ret (-1, [])
     else case f_type f of
       FD_PIPE \<Rightarrow> piperead (f_pipe f) n
     | FD_INODE \<Rightarrow>
         kbind (klift (f_ip f)) (\<lambda>ip.
         kthen (ilock (Some ip))
         (kbind (kget (\<lambda>s. f_off (ftable s k))) (\<lambda>off.
          kbind (readi ip off (word_of_int n)) (\<lambda>(r, bytes).
          kthen (kwhen (r > 0) (upd_file k (\<lambda>f. f\<lparr>f_off := f_off f + word_of_int r\<rparr>)))
         (kthen (iunlock (Some ip))
         (ret (r, bytes)))))))
     | FD_NONE \<Rightarrow> panic ''fileread'')"

text \<open>The bytes of one transaction: \<open>((LOGSIZE-1-1-2) / 2) * 512\<close>. Every round of the loop writes at least one byte, so
  \<open>n\<close> rounds are enough.\<close>

abbreviation (input) FILEWRITE_MAX :: int where "FILEWRITE_MAX \<equiv> 6656"

primrec filewrite_loop :: "nat \<Rightarrow> nat \<Rightarrow> nat \<Rightarrow> (nat \<Rightarrow> byte) \<Rightarrow> int \<Rightarrow> int \<Rightarrow> ('z files_scheme, int) kop" where
  "filewrite_loop 0 k ip src n i = (if i < n then stop Spin else ret i)"
| "filewrite_loop (Suc fuel) k ip src n i =
     (if \<not> i < n then ret i
      else let n1 = (if n - i > FILEWRITE_MAX then FILEWRITE_MAX else n - i) in
        kthen begin_op
        (kthen (ilock (Some ip))
        (kbind (kget (\<lambda>s. f_off (ftable s k))) (\<lambda>off.
         kbind (writei ip (\<lambda>j. src (nat i + j)) off (word_of_int n1)) (\<lambda>r.
         kthen (kwhen (r > 0) (upd_file k (\<lambda>f. f\<lparr>f_off := f_off f + word_of_int r\<rparr>)))
        (kthen (iunlock (Some ip))
        (kthen end_op
        (if r < 0 then ret i
         else if r \<noteq> n1 then panic ''short filewrite''
         else filewrite_loop fuel k ip src n (i + r)))))))))"

definition filewrite :: "nat \<Rightarrow> (nat \<Rightarrow> byte) \<Rightarrow> int \<Rightarrow> ('z files_scheme, int) kop" where
  "filewrite k src n =
     kbind (kget (\<lambda>s. ftable s k)) (\<lambda>f.
     if \<not> writable f then ret (-1)
     else case f_type f of
       FD_PIPE \<Rightarrow> pipewrite (f_pipe f) src n
     | FD_INODE \<Rightarrow>
         kbind (klift (f_ip f)) (\<lambda>ip.
         kbind (filewrite_loop (nat n) k ip src n 0) (\<lambda>i.
         ret (if i = n then n else -1)))
     | FD_NONE \<Rightarrow> panic ''filewrite'')"

end
