(* ===== verification/Proc.thy ===== *)
theory Proc
  imports File
begin

text \<open>
  The life cycle of processes in \<^verbatim>\<open>proc.c\<close>: \<open>allocproc\<close>, \<open>initprocess\<close>, \<open>growproc\<close>, \<open>fork\<close>, \<open>exit\<close>, \<open>wait\<close>
  and \<open>forkret\<close>. A process is an index into the table of all rows; the trap frame and the saved context, which the
  code keeps on the process's kernel stack, are fields of the process. What the linker decides (the
  addresses of \<open>forkret\<close>, \<open>trapret\<close> and the kernel's data, and the bytes of \<^verbatim>\<open>initcode.S\<close>) is the parameter \<open>im\<close>.
\<close>

section \<open>State\<close>

abbreviation (input) NOFILE :: nat where "NOFILE \<equiv> 16"
abbreviation (input) KSTACKSIZE :: uint where "KSTACKSIZE \<equiv> 4096"

record kimage =
  im_data :: uint
  im_forkret :: uint
  im_trapret :: uint
  im_initcode :: "nat \<Rightarrow> byte"
  im_initsize :: uint

record procst = files +
  first :: bool                 \<comment> \<open>\<open>static int first\<close> of \<open>forkret\<close>\<close>

section \<open>Creation\<close>

text \<open>The slots of a container's row, in the order of the loops over it.\<close>

definition row_slots :: "cont \<Rightarrow> nat list" where
  "row_slots c = [0..<nat (mproc c)]"

primrec find_unused :: "cont \<Rightarrow> nat list \<Rightarrow> ('z ctab_scheme, nat option) kop" where
  "find_unused c [] = ret None"
| "find_unused c (k # ks) =
     kbind (klift (proc_at c (int k))) (\<lambda>p.
     kbind (kget (\<lambda>s. pstate (procs s p))) (\<lambda>st.
     if st = UNUSED then ret (Some p) else find_unused c ks))"

definition allocproc :: "kimage \<Rightarrow> nat \<Rightarrow> ('z kmem_scheme, nat option) kop" where
  "allocproc im i =
     kbind (kget (\<lambda>s. conts s i)) (\<lambda>c.
     if cstate c \<noteq> CRUNNABLE \<and> cstate c \<noteq> CRUNNING then ret None
     else
       kthen acquireptable
       (kbind (find_unused c (row_slots c)) (\<lambda>found. case found of
          None \<Rightarrow> kthen releaseptable (ret None)
        | Some p \<Rightarrow>
            kthen (upd_proc p (\<lambda>pr. pr\<lparr>pstate := EMBRYO\<rparr>))
            (kbind (kget nextpid) (\<lambda>n.
             kthen (upd_proc p (\<lambda>pr. pr\<lparr>pid := n\<rparr>))
            (kthen (kmod (\<lambda>s. s\<lparr>nextpid := n + 1\<rparr>))
            (kthen releaseptable
            (kbind kalloc (\<lambda>ks.
             kthen (upd_proc p (\<lambda>pr. pr\<lparr>kstack := ks\<rparr>))
            (if ks = 0 then kthen (upd_proc p (\<lambda>pr. pr\<lparr>pstate := UNUSED\<rparr>)) (ret None)
             else
               kthen (store (ks + KSTACKSIZE - 76 - 4) (im_trapret im))
               (kthen (upd_proc p (\<lambda>pr. pr\<lparr>pcontext := \<lparr>cx_edi = 0, cx_esi = 0, cx_ebx = 0, cx_ebp = 0,
                  cx_eip = im_forkret im\<rparr>\<rparr>))
               (kthen (upd_proc p (\<lambda>pr. pr\<lparr>ticks := 0, pcont := Some i\<rparr>))
               (kthen (upd_cont i (\<lambda>c. c\<lparr>uproc := uproc c + 1\<rparr>))
               (ret (Some p)))))))))))))))"

text \<open>Index expressions \<open>(SEG_UCODE << 3) | DPL_USER\<close> and \<open>(SEG_UDATA << 3) | DPL_USER\<close>.\<close>

definition init_tf :: trapframe where
  "init_tf =
     \<lparr>tf_edi = 0, tf_esi = 0, tf_ebp = 0, tf_oesp = 0, tf_ebx = 0, tf_edx = 0, tf_ecx = 0, tf_eax = 0,
      tf_gs = 0, tf_fs = 0, tf_es = or (push_bit 3 4) 3, tf_ds = or (push_bit 3 4) 3, tf_trapno = 0, tf_err = 0,
      tf_eip = 0, tf_cs = or (push_bit 3 3) 3, tf_eflags = 0x200, tf_esp = PGSIZE, tf_ss = or (push_bit 3 4) 3\<rparr>"

definition initprocess :: "kimage \<Rightarrow> nat \<Rightarrow> ('z fsst_scheme, nat) kop" where
  "initprocess im i =
     kbind (allocproc im i) (\<lambda>mp. case mp of
       None \<Rightarrow> panic ''initprocess: failed to alloc initproc''
     | Some p \<Rightarrow>
         kbind (setupkvm (im_data im)) (\<lambda>pd.
         kthen (upd_proc p (\<lambda>pr. pr\<lparr>pgdir := pd\<rparr>))
         (if pd = 0 then panic ''initprocess: out of memory?''
          else
            kthen (kmod (\<lambda>s. s\<lparr>initproc := Some p\<rparr>))
            (kthen (inituvm pd (im_initcode im) (im_initsize im))
            (kthen (upd_proc p (\<lambda>pr. pr\<lparr>tf := init_tf\<rparr>))
            (kthen (upd_proc p (\<lambda>pr. pr\<lparr>sz := PGSIZE\<rparr>))
            (kbind (kget (\<lambda>s. pname (procs s p))) (\<lambda>nm.
             kbind (klift (safestrcpy nm (cstring ''initcode'') 16)) (\<lambda>nm'.
             kthen (upd_proc p (\<lambda>pr. pr\<lparr>pname := nm'\<rparr>))
            (kbind (kget (\<lambda>s. rootdir (conts s i))) (\<lambda>rd.
             kbind (klift rd) (\<lambda>r.
             kbind (idup r) (\<lambda>w.
             kthen (upd_proc p (\<lambda>pr. pr\<lparr>cwd := Some w, pcont := Some i\<rparr>))
            (kthen acquireptable
            (kthen (upd_proc p (\<lambda>pr. pr\<lparr>pstate := RUNNABLE\<rparr>))
            (kthen releaseptable
            (ret p)))))))))))))))))"

definition growproc :: "int \<Rightarrow> ('z kmem_scheme, int) kop" where
  "growproc n =
     kbind myproc (\<lambda>mp. kbind (klift mp) (\<lambda>me.
     kbind (kget (\<lambda>s. procs s me)) (\<lambda>pr.
     kbind (if n > 0 then allocuvm (pgdir pr) (sz pr) (sz pr + word_of_int n)
            else if n < 0 then deallocuvm (pgdir pr) (sz pr) (sz pr + word_of_int n)
            else ret (sz pr)) (\<lambda>new.
     if n \<noteq> 0 \<and> new = 0 then ret (-1)
     else
       kthen (upd_proc me (\<lambda>pr. pr\<lparr>sz := new\<rparr>))
       (kthen (switchuvm (Some me))
       (ret 0))))))"

section \<open>Forking\<close>

definition dup_ofile :: "nat \<Rightarrow> nat \<Rightarrow> nat \<Rightarrow> ('z files_scheme, unit) kop" where
  "dup_ofile me np fd =
     kbind (kget (\<lambda>s. ofile (procs s me) fd)) (\<lambda>mf. case mf of
       None \<Rightarrow> ret ()
     | Some f \<Rightarrow> kbind (filedup f) (\<lambda>g. upd_proc np (\<lambda>pr. pr\<lparr>ofile := (ofile pr)(fd := Some g)\<rparr>)))"

definition fork_copy :: "nat \<Rightarrow> nat \<Rightarrow> nat option \<Rightarrow> nat option \<Rightarrow> uint \<Rightarrow> ('z files_scheme, int) kop" where
  "fork_copy me np par cwd0 pd =
     kthen (upd_proc np (\<lambda>pr. pr\<lparr>pgdir := pd\<rparr>))
     (kbind (kget (\<lambda>s. procs s me)) (\<lambda>cp.
      kthen (upd_proc np (\<lambda>pr. pr\<lparr>sz := sz cp, parent := par, tf := (tf cp)\<lparr>tf_eax := 0\<rparr>\<rparr>))
     (kthen (kfor [0..<NOFILE] (dup_ofile me np))
     (kbind (klift cwd0) (\<lambda>w0.
      kbind (idup w0) (\<lambda>w.
      kthen (upd_proc np (\<lambda>pr. pr\<lparr>cwd := Some w\<rparr>))
     (kbind (kget (\<lambda>s. pname (procs s np))) (\<lambda>nm.
      kbind (klift (safestrcpy nm (pname cp) 16)) (\<lambda>nm'.
      kthen (upd_proc np (\<lambda>pr. pr\<lparr>pname := nm'\<rparr>))
     (kbind (kget (\<lambda>s. pid (procs s np))) (\<lambda>n.
      kthen acquireptable
     (kthen (upd_proc np (\<lambda>pr. pr\<lparr>pstate := RUNNABLE\<rparr>))
     (kthen releaseptable
     (ret n))))))))))))))"

definition fork :: "kimage \<Rightarrow> nat option \<Rightarrow> ('z files_scheme, int) kop" where
  "fork im pc =
     kbind myproc (\<lambda>mp. kbind (klift mp) (\<lambda>me.
     kbind (kget (\<lambda>s. procs s me)) (\<lambda>cp.
     kbind (case pc of
              None \<Rightarrow> kbind (klift (pcont cp)) (\<lambda>i. ret (cwd cp, i, Some me))
            | Some i \<Rightarrow> kget (\<lambda>s. (rootdir (conts s i), i, initproc s))) (\<lambda>(cwd0, i, par).
     kbind (allocproc im i) (\<lambda>mnp. case mnp of
       None \<Rightarrow> ret (-1)
     | Some np \<Rightarrow>
         kbind (copyuvm (im_data im) (pgdir cp) (sz cp)) (\<lambda>pd.
         if pd = 0
         then
           kthen (upd_proc np (\<lambda>pr. pr\<lparr>pgdir := pd\<rparr>))
           (kbind (kget (\<lambda>s. kstack (procs s np))) (\<lambda>ks.
            kthen (kfree ks)
           (kthen (upd_proc np (\<lambda>pr. pr\<lparr>kstack := 0\<rparr>))
           (kthen (upd_proc np (\<lambda>pr. pr\<lparr>pstate := UNUSED\<rparr>))
           (ret (-1))))))
         else fork_copy me np par cwd0 pd))))))"

section \<open>Exit and wait\<close>

definition close_ofile :: "nat \<Rightarrow> nat \<Rightarrow> ('z files_scheme, unit) kop" where
  "close_ofile me fd =
     kbind (kget (\<lambda>s. ofile (procs s me) fd)) (\<lambda>mf. case mf of
       None \<Rightarrow> ret ()
     | Some f \<Rightarrow> kthen (fileclose f) (upd_proc me (\<lambda>pr. pr\<lparr>ofile := (ofile pr)(fd := None)\<rparr>)))"

definition pass_child :: "nat \<Rightarrow> cont \<Rightarrow> nat \<Rightarrow> ('z ctab_scheme, unit) kop" where
  "pass_child me c k =
     kbind (klift (proc_at c (int k))) (\<lambda>p.
     kbind (kget (\<lambda>s. procs s p)) (\<lambda>pr.
     kwhen (parent pr = Some me)
       (kbind (kget initproc) (\<lambda>ini.
        kthen (upd_proc p (\<lambda>pr. pr\<lparr>parent := ini\<rparr>))
       (kwhen (pstate pr = ZOMBIE) (wakeup1 (map_option ChProc ini)))))))"

text \<open>The second half, with the table locked.\<close>

definition exit_zombie :: "nat \<Rightarrow> ('z ctab_scheme, unit) kop" where
  "exit_zombie me =
     kthen acquireptable
     (kbind (kget (\<lambda>s. pcont (procs s me))) (\<lambda>mi. kbind (klift mi) (\<lambda>i.
      kbind (kget (\<lambda>s. conts s i)) (\<lambda>c.
      kbind (kget (\<lambda>s. parent (procs s me))) (\<lambda>par.
      kthen (wakeup1 (map_option ChProc par))
     (kthen (kfor (row_slots c) (pass_child me c))
     (kthen (upd_cont i (\<lambda>c. c\<lparr>uproc := uproc c - 1\<rparr>))
     (kthen (upd_proc me (\<lambda>pr. pr\<lparr>pstate := ZOMBIE\<rparr>))
     (kthen sched
     (panic ''zombie exit''))))))))))"

definition exit_proc :: "('z files_scheme, unit) kop" where
  "exit_proc =
     kbind myproc (\<lambda>mp. kbind (klift mp) (\<lambda>me.
     kbind (kget initproc) (\<lambda>ini.
     if Some me = ini then panic ''init exiting''
     else
       kthen (kfor [0..<NOFILE] (close_ofile me))
       (kthen begin_op
       (kthen (kbind (kget (\<lambda>s. cwd (procs s me))) (\<lambda>w. kbind (klift w) iput))
       (kthen end_op
       (kthen (upd_proc me (\<lambda>pr. pr\<lparr>cwd := None\<rparr>))
       (exit_zombie me))))))))"

text \<open>One scan of \<open>wait\<close>: the pid of the child it freed, or whether there are children.\<close>

definition reap :: "nat \<Rightarrow> ('z kmem_scheme, int) kop" where
  "reap p =
     kbind (kget (\<lambda>s. procs s p)) (\<lambda>pr.
     kthen (kfree (kstack pr))
     (kthen (upd_proc p (\<lambda>pr. pr\<lparr>kstack := 0\<rparr>))
     (kthen (freevm (pgdir pr))
     (kthen (upd_proc p (\<lambda>pr. pr\<lparr>pid := 0, parent := None, pname := (pname pr)[0 := NUL], killed := False,
        pstate := UNUSED\<rparr>))
     (ret (pid pr))))))"

primrec wait_scan :: "nat \<Rightarrow> cont \<Rightarrow> nat list \<Rightarrow> bool \<Rightarrow> ('z kmem_scheme, bool + int) kop" where
  "wait_scan me c [] havekids = ret (Inl havekids)"
| "wait_scan me c (k # ks) havekids =
     kbind (klift (proc_at c (int k))) (\<lambda>p.
     kbind (kget (\<lambda>s. procs s p)) (\<lambda>pr.
     if parent pr \<noteq> Some me then wait_scan me c ks havekids
     else if pstate pr = ZOMBIE then kbind (reap p) (\<lambda>n. ret (Inr n))
     else wait_scan me c ks True))"

text \<open>One round of the loop, which starts again here when a child has exited.\<close>

definition wait_round :: "nat \<Rightarrow> cont \<Rightarrow> ('z kmem_scheme, int) kop" where
  "wait_round me c =
     kbind (wait_scan me c (row_slots c) False) (\<lambda>r. case r of
       Inr n \<Rightarrow> kthen releaseptable (ret n)
     | Inl havekids \<Rightarrow>
         kbind (kget (\<lambda>s. killed (procs s me))) (\<lambda>k.
         if \<not> havekids \<or> k then kthen releaseptable (ret (-1))
         else kthen (sleep (Some (ChProc me)) (Some Lptable)) (stop Switch)))"

definition wait :: "('z kmem_scheme, int) kop" where
  "wait =
     kbind myproc (\<lambda>mp. kbind (klift mp) (\<lambda>me.
     kthen acquireptable
     (kbind (kget (\<lambda>s. pcont (procs s me))) (\<lambda>mi. kbind (klift mi) (\<lambda>i.
      kbind (kget (\<lambda>s. conts s i)) (\<lambda>c.
      wait_round me c))))))"

definition forkret :: "('z procst_scheme, unit) kop" where
  "forkret =
     kthen releaseptable
     (kbind (kget first) (\<lambda>b.
      kwhen b
        (kthen (kmod (\<lambda>s. s\<lparr>first := False\<rparr>))
        (kthen (iinit 1)
        (initlog 1)))))"

end
