(* ===== verification/Container.thy ===== *)
theory Container
  imports Proc
begin

text \<open>
  The rest of \<^verbatim>\<open>container.c\<close>: the first container, and the calls that create, start and enter a container. They
  need the file system and \<open>fork\<close>, so they come after \<open>Proc\<close>; the table and the calls that stop a container are
  in \<open>Ctable\<close>.
\<close>

text \<open>The rest of \<open>initcontainer\<close> once it has slot \<open>i\<close> and the root directory \<open>r\<close>.\<close>

definition initcontainer_fill :: "nat \<Rightarrow> nat \<Rightarrow> ('z console_scheme, nat) kop" where
  "initcontainer_fill i r =
     kthen (acquire Lctable)
     (kthen (upd_cont i (\<lambda>c. c\<lparr>mproc := int NPROC, msz := MAX_CONT_MEM, mdsk := MAX_CONT_DSK, cstate := CRUNNABLE\<rparr>))
     (kbind (idup r) (\<lambda>r'.
      kthen (upd_cont i (\<lambda>c. c\<lparr>rootdir := Some r'\<rparr>))
     (kbind (kget (\<lambda>s. cname (conts s i))) (\<lambda>nm.
      kbind (klift (safestrcpy nm (cstring ''initcont'') 16)) (\<lambda>nm'.
      kthen (upd_cont i (\<lambda>c. c\<lparr>cname := nm'\<rparr>))
     (kthen (kfor [0..<NCONT] (\<lambda>k. upd_cont k (\<lambda>c. c\<lparr>cptable := Some (k * NPROC)\<rparr>)))
     (kthen (release Lctable)
     (kthen (cprintf (Some (''Init container'' @ [CHR 0x0A, NUL])) [])
     (ret i))))))))))"

definition initcontainer :: "('z console_scheme, nat) kop" where
  "initcontainer =
     kbind alloccont (\<lambda>mc. case mc of
       None \<Rightarrow> panic ''Can't alloc init container.''
     | Some i \<Rightarrow>
         kbind (namei (cstring ''/'')) (\<lambda>mr. case mr of
           None \<Rightarrow> panic ''Can't set '/' as root container's rootdir''
         | Some r \<Rightarrow> initcontainer_fill i r))"

definition userinit :: "kimage \<Rightarrow> ('z console_scheme, unit) kop" where
  "userinit im =
     kthen (cprintf (Some (''userinit'' @ [CHR 0x0A, NUL])) [])
     (kbind initcontainer (\<lambda>root.
      kthen (initprocess im root)
     (ret ())))"

text \<open>The rest of \<open>ccreate\<close> once it has slot \<open>i\<close>.\<close>

definition ccreate_fill :: "char list \<Rightarrow> int \<Rightarrow> uint \<Rightarrow> uint \<Rightarrow> nat \<Rightarrow> ('z console_scheme, int) kop" where
  "ccreate_fill name mp mz md i =
     kbind (namei name) (\<lambda>mr. case mr of
       None \<Rightarrow> kthen (upd_cont i (\<lambda>c. c\<lparr>cstate := CUNUSED\<rparr>)) (ret (-1))
     | Some r \<Rightarrow>
         kthen (acquire Lctable)
         (kthen (upd_cont i (\<lambda>c. c\<lparr>mproc := mp, msz := mz, mdsk := md\<rparr>))
         (kbind (idup r) (\<lambda>r'.
          kthen (upd_cont i (\<lambda>c. c\<lparr>rootdir := Some r'\<rparr>))
         (kbind (kget (\<lambda>s. cname (conts s i))) (\<lambda>nm.
          kbind (klift (strncpy nm name 16)) (\<lambda>nm'.
          kthen (upd_cont i (\<lambda>c. c\<lparr>cname := nm'\<rparr>))
         (kthen (upd_cont i (\<lambda>c. c\<lparr>cstate := CREADY\<rparr>))
         (kthen (release Lctable)
         (ret 1))))))))))"

definition ccreate :: "char list \<Rightarrow> int \<Rightarrow> uint \<Rightarrow> uint \<Rightarrow> ('z console_scheme, int) kop" where
  "ccreate name mp mz md =
     kbind (name2cont name) (\<lambda>dup.
     if dup \<noteq> None then ret (-1)
     else if mp > int NPROC \<or> mz > MAX_CONT_MEM \<or> md > MAX_CONT_DSK then ret (-1)
     else kbind alloccont (\<lambda>mc. case mc of
       None \<Rightarrow> ret (-1)
     | Some i \<Rightarrow> ccreate_fill name mp mz md i))"

primrec cstart_find :: "char list \<Rightarrow> nat list \<Rightarrow> ('z ctab_scheme, nat option) kop" where
  "cstart_find name [] = ret None"
| "cstart_find name (i # is) =
     kbind (kget (\<lambda>s. conts s i)) (\<lambda>c.
     kbind (klift (strlen name)) (\<lambda>n.
     kbind (klift (strncmp name (cname c) n)) (\<lambda>r.
     if r = 0 \<and> cstate c = CREADY then ret (Some i) else cstart_find name is)))"

definition cstart :: "char list \<Rightarrow> ('z console_scheme, int) kop" where
  "cstart name =
     kthen (acquire Lctable)
     (kbind (cstart_find name [0..<NCONT]) (\<lambda>found. case found of
        None \<Rightarrow> kthen (release Lctable) (ret (-1))
      | Some i \<Rightarrow>
          kbind (kget (\<lambda>s. (rootdir (conts s i), mdsk (conts s i)))) (\<lambda>(rd, md).
          kthen (release Lctable)
          (kbind (klift rd) (\<lambda>r.
           kbind (dirsize r name) (\<lambda>ud.
           if ud < 1 \<or> md < ud then ret (-1)
           else
             kthen (acquire Lctable)
             (kthen (upd_cont i (\<lambda>c. c\<lparr>udsk := ud, cstate := CRUNNABLE\<rparr>))
             (kthen (release Lctable)
             (kget (\<lambda>s. cid (conts s i)))))))))))"

definition cfork :: "kimage \<Rightarrow> int \<Rightarrow> ('z files_scheme, int) kop" where
  "cfork im n =
     kbind (cid2cont n) (\<lambda>mc. case mc of None \<Rightarrow> ret (-1) | Some i \<Rightarrow> fork im (Some i))"

end
