(* ===== verification/Syscall.thy ===== *)
theory Syscall
  imports Container
begin

text \<open>
  Access to the memory of the running process, the fetching and checking of system call arguments
  (\<^verbatim>\<open>syscall.c\<close>) and the calls of \<^verbatim>\<open>sysproc.c\<close>. The kernel dereferences user pointers through the page table in
  use; an address that is not mapped there is a page fault in the kernel (\<open>Fault\<close>). A pointer to
  a string that the code passes on becomes the string's characters with the terminating zero. The numbers of the
  dispatch table are in \<open>Trap\<close>, after the calls it names.
\<close>

section \<open>User memory\<close>

text \<open>The processor's translation of an address by the page table in memory: the entry, if both levels are present.\<close>

definition mmu :: "memory \<Rightarrow> uint \<Rightarrow> uint \<Rightarrow> uint option" where
  "mmu m pd va =
     (let pde = ld32 m (pd + 4 * PDX va) in
      if \<not> present pde then None
      else let pte = ld32 m (P2V (PTE_ADDR pde) + 4 * PTX va) in
        if present pte then Some pte else None)"

definition uaddr :: "'z kmem_scheme \<Rightarrow> uint \<Rightarrow> uint option" where
  "uaddr s va = map_option (\<lambda>pte. P2V (PTE_ADDR pte) + and va 0xFFF) (mmu (mem s) (P2V (cr3 s)) va)"

definition uget :: "uint \<Rightarrow> ('z kmem_scheme, byte) kop" where
  "uget va = kbind (kget (\<lambda>s. uaddr s va)) (\<lambda>x. kbind (klift x) (\<lambda>a. kget (\<lambda>s. mem s a)))"

definition uput :: "uint \<Rightarrow> byte \<Rightarrow> ('z kmem_scheme, unit) kop" where
  "uput va v = kbind (kget (\<lambda>s. uaddr s va)) (\<lambda>x. kbind (klift x) (\<lambda>a. kmod (\<lambda>s. s\<lparr>mem := (mem s)(a := v)\<rparr>)))"

definition uget32 :: "uint \<Rightarrow> ('z kmem_scheme, uint) kop" where
  "uget32 va =
     kbind (uget va) (\<lambda>b0. kbind (uget (va + 1)) (\<lambda>b1. kbind (uget (va + 2)) (\<lambda>b2. kbind (uget (va + 3)) (\<lambda>b3.
     ret (or (or (or (ucast b0) (push_bit 8 (ucast b1))) (push_bit 16 (ucast b2))) (push_bit 24 (ucast b3)))))))"

definition uput32 :: "uint \<Rightarrow> uint \<Rightarrow> ('z kmem_scheme, unit) kop" where
  "uput32 va v =
     kthen (uput va (ucast v)) (kthen (uput (va + 1) (ucast (drop_bit 8 v)))
     (kthen (uput (va + 2) (ucast (drop_bit 16 v))) (uput (va + 3) (ucast (drop_bit 24 v)))))"

definition uput16 :: "uint \<Rightarrow> ushort \<Rightarrow> ('z kmem_scheme, unit) kop" where
  "uput16 va v = kthen (uput va (ucast v)) (uput (va + 1) (ucast (drop_bit 8 v)))"

primrec uput_bytes :: "uint \<Rightarrow> byte list \<Rightarrow> ('z kmem_scheme, unit) kop" where
  "uput_bytes va [] = ret ()"
| "uput_bytes va (b # bs) = kthen (uput va b) (uput_bytes (va + 1) bs)"

primrec uget_bytes :: "uint \<Rightarrow> nat \<Rightarrow> ('z kmem_scheme, byte list) kop" where
  "uget_bytes va 0 = ret []"
| "uget_bytes va (Suc n) = kbind (uget va) (\<lambda>b. kbind (uget_bytes (va + 1) n) (\<lambda>bs. ret (b # bs)))"

section \<open>Arguments\<close>

definition mysz :: "('z ctab_scheme, uint) kop" where
  "mysz = kbind myproc (\<lambda>mp. kbind (klift mp) (\<lambda>me. kget (\<lambda>s. sz (procs s me))))"

definition fetchint :: "uint \<Rightarrow> ('z kmem_scheme, uint option) kop" where
  "fetchint addr =
     kbind mysz (\<lambda>lim.
     if addr \<ge> lim \<or> addr + 4 > lim then ret None
     else kbind (uget32 addr) (\<lambda>v. ret (Some v)))"

text \<open>The loop of \<open>fetchstr\<close> from \<open>s\<close> with \<open>n\<close> bytes left before the end of the process's memory.\<close>

primrec fetchstr_loop :: "nat \<Rightarrow> uint \<Rightarrow> char list \<Rightarrow> ('z kmem_scheme, char list option) kop" where
  "fetchstr_loop 0 s got = ret None"
| "fetchstr_loop (Suc n) s got =
     kbind (uget s) (\<lambda>b.
     if b = 0 then ret (Some (cstring got)) else fetchstr_loop n (s + 1) (got @ [byte_char b]))"

definition fetchstr :: "uint \<Rightarrow> ('z kmem_scheme, char list option) kop" where
  "fetchstr addr =
     kbind mysz (\<lambda>lim.
     if addr \<ge> lim then ret None else fetchstr_loop (unat (lim - addr)) addr [])"

definition argint :: "nat \<Rightarrow> ('z kmem_scheme, uint option) kop" where
  "argint n =
     kbind myproc (\<lambda>mp. kbind (klift mp) (\<lambda>me.
     kbind (kget (\<lambda>s. tf_esp (tf (procs s me)))) (\<lambda>esp.
     fetchint (esp + 4 + 4 * word_of_nat n))))"

definition argptr :: "nat \<Rightarrow> int \<Rightarrow> ('z kmem_scheme, uint option) kop" where
  "argptr n len =
     kbind (argint n) (\<lambda>mi. case mi of
       None \<Rightarrow> ret None
     | Some i \<Rightarrow> kbind mysz (\<lambda>lim.
         if len < 0 \<or> i \<ge> lim \<or> i + word_of_int len > lim then ret None else ret (Some i)))"

definition argstr :: "nat \<Rightarrow> ('z kmem_scheme, char list option) kop" where
  "argstr n = kbind (argint n) (\<lambda>ma. case ma of None \<Rightarrow> ret None | Some a \<Rightarrow> fetchstr a)"

section \<open>\<^verbatim>\<open>sysproc.c\<close>\<close>

record trapst = procst +
  uticks :: uint               \<comment> \<open>the global \<open>ticks\<close> of \<^verbatim>\<open>trap.c\<close>\<close>
  kshift :: uint               \<comment> \<open>\<open>static uint shift\<close> of \<^verbatim>\<open>kbd.c\<close>\<close>

definition sys_fork :: "kimage \<Rightarrow> ('z files_scheme, int) kop" where
  "sys_fork im = fork im None"

definition sys_exit :: "('z files_scheme, int) kop" where
  "sys_exit = kthen exit_proc (ret 0)"

definition sys_wait :: "('z kmem_scheme, int) kop" where
  "sys_wait = wait"

definition sys_kill :: "('z kmem_scheme, int) kop" where
  "sys_kill = kbind (argint 0) (\<lambda>mp. case mp of None \<Rightarrow> ret (-1) | Some p \<Rightarrow> kill (sint p))"

definition sys_getpid :: "('z ctab_scheme, int) kop" where
  "sys_getpid = kbind myproc (\<lambda>mp. kbind (klift mp) (\<lambda>me. kget (\<lambda>s. pid (procs s me))))"

definition sys_sbrk :: "('z kmem_scheme, int) kop" where
  "sys_sbrk =
     kbind (argint 0) (\<lambda>mn. case mn of
       None \<Rightarrow> ret (-1)
     | Some n \<Rightarrow>
         kbind mysz (\<lambda>addr.
         kbind (growproc (sint n)) (\<lambda>r.
         ret (if r < 0 then -1 else sint addr))))"

text \<open>The waiting loop of \<open>sys_sleep\<close>: the process goes on here after each tick.\<close>

definition sleep_round :: "uint \<Rightarrow> uint \<Rightarrow> ('z trapst_scheme, int) kop" where
  "sleep_round n ticks0 =
     kbind (kget uticks) (\<lambda>t.
     if t - ticks0 < n
     then kbind mykilled (\<lambda>k.
        if k then kthen (release Ltickslock) (ret (-1))
        else kthen (sleep (Some ChTicks) (Some Ltickslock)) (stop Switch))
     else kthen (release Ltickslock) (ret 0))"

definition sys_sleep :: "('z trapst_scheme, int) kop" where
  "sys_sleep =
     kbind (argint 0) (\<lambda>mn. case mn of
       None \<Rightarrow> ret (-1)
     | Some n \<Rightarrow>
         kthen (acquire Ltickslock)
         (kbind (kget uticks) (\<lambda>ticks0. sleep_round n ticks0)))"

definition sys_uptime :: "('z trapst_scheme, int) kop" where
  "sys_uptime =
     kthen (acquire Ltickslock)
     (kbind (kget uticks) (\<lambda>t.
      kthen (release Ltickslock)
     (ret (sint t))))"

definition sys_getticks :: "('z ctab_scheme, int) kop" where
  "sys_getticks = kbind myproc (\<lambda>mp. kbind (klift mp) (\<lambda>me. kget (\<lambda>s. sint (ticks (procs s me)))))"

section \<open>Arguments are checked\<close>

text \<open>The user's memory as the processor sees it, and the bytes of the process from an address on.\<close>

definition umem :: "'z kmem_scheme \<Rightarrow> uint \<Rightarrow> byte" where
  "umem s va = (case uaddr s va of None \<Rightarrow> 0 | Some a \<Rightarrow> mem s a)"

definition uword :: "'z kmem_scheme \<Rightarrow> uint \<Rightarrow> uint" where
  "uword s va = or (or (or (ucast (umem s va)) (push_bit 8 (ucast (umem s (va + 1))))) (push_bit 16 (ucast (umem s (va + 2)))))
     (push_bit 24 (ucast (umem s (va + 3))))"

definition ubytes :: "'z kmem_scheme \<Rightarrow> nat \<Rightarrow> uint \<Rightarrow> byte list" where
  "ubytes s lim va = map (\<lambda>k. umem s (va + word_of_nat k)) [0..<lim - unat va]"

text \<open>The process's memory ends at \<open>lim\<close>, below the kernel, and is mapped.\<close>

definition user_mapped :: "nat \<Rightarrow> 'z kmem_scheme \<Rightarrow> bool" where
  "user_mapped lim s \<longleftrightarrow> lim \<le> 0x80000000 \<and> (\<forall>va. unat va < lim \<longrightarrow> uaddr s va \<noteq> None)"

lemma uget_exec: "user_mapped lim s \<Longrightarrow> unat va < lim \<Longrightarrow> uget va s = Ok (umem s va) s"
  by (auto simp: user_mapped_def uget_def umem_def kexec split: option.splits)

lemma unat_below: "unat (a :: uint) + k < 2 ^ 32 \<Longrightarrow> unat (a + word_of_nat k) = unat a + k"
  by (simp add: unat_word_ariths unat_of_nat)

lemma uget32_exec:
  assumes "user_mapped lim s" and "unat va + 4 \<le> lim"
  shows "uget32 va s = Ok (uword s va) s"
proof -
  have "lim \<le> 0x80000000" using assms(1) by (simp add: user_mapped_def)
  then have u: "unat (va + 1) = unat va + 1" "unat (va + 2) = unat va + 2" "unat (va + 3) = unat va + 3"
    using assms(2) unat_below [of va 1] unat_below [of va 2] unat_below [of va 3] by simp_all
  have "uget va s = Ok (umem s va) s" "uget (va + 1) s = Ok (umem s (va + 1)) s" "uget (va + 2) s = Ok (umem s (va + 2)) s"
    "uget (va + 3) s = Ok (umem s (va + 3)) s"
    using assms u by (auto intro!: uget_exec)
  then show ?thesis by (simp add: uget32_def uword_def kexec)
qed

lemma mysz_exec: "cur s = Some me \<Longrightarrow> mysz s = Ok (sz (procs s me)) s"
  by (simp add: mysz_def kexec)

lemma fetchint_exec:
  assumes "user_mapped (unat (sz (procs s me))) s" and "cur s = Some me"
  shows "fetchint va s = Ok (if unat va + 4 \<le> unat (sz (procs s me)) then Some (uword s va) else None) s"
proof -
  let ?lim = "sz (procs s me)"
  have "unat (va + 4) = unat va + 4" if "va < ?lim"
    using that assms(1) unat_below [of va 4] by (simp add: user_mapped_def word_less_nat_alt)
  then have "\<not> (va \<ge> ?lim \<or> va + 4 > ?lim) \<longleftrightarrow> unat va + 4 \<le> unat ?lim"
    by (auto simp: word_le_nat_alt word_less_nat_alt not_le not_less)
  then show ?thesis
    using uget32_exec [OF assms(1)] mysz_exec [OF assms(2)] by (auto simp: fetchint_def kexec)
qed

lemma fetchstr_loop_exec:
  assumes "user_mapped lim s" and "unat va + n \<le> lim"
  shows "fetchstr_loop n va got s =
    Ok (if 0 \<in> set (map (\<lambda>k. umem s (va + word_of_nat k)) [0..<n])
        then Some (cstring (got @ map byte_char (takeWhile (\<lambda>b. b \<noteq> 0) (map (\<lambda>k. umem s (va + word_of_nat k)) [0..<n])))) else None) s"
  using assms(2)
proof (induction n arbitrary: va got)
  case (Suc n)
  have lim: "lim \<le> 0x80000000" using assms(1) by (simp add: user_mapped_def)
  have ix: "map (\<lambda>k. umem s (va + word_of_nat k)) [0..<Suc n] = umem s va # map (\<lambda>k. umem s (va + 1 + word_of_nat k)) [0..<n]"
    by (simp add: upt_conv_Cons map_Suc_upt [symmetric] comp_def add.assoc del: upt_Suc)
  have "unat (va + 1) + n \<le> lim" using Suc.prems lim unat_below [of va 1] by simp
  note IH = Suc.IH [OF this]
  have "uget va s = Ok (umem s va) s" using Suc.prems by (intro uget_exec [OF assms(1)]) simp
  then show ?case unfolding ix fetchstr_loop.simps by (simp add: kexec IH)
qed (simp add: kexec)

lemma fetchstr_exec:
  assumes "user_mapped (unat (sz (procs s me))) s" and "cur s = Some me"
  shows "fetchstr va s = (let bs = ubytes s (unat (sz (procs s me))) va in
    Ok (if 0 \<in> set bs then Some (cstring (map byte_char (takeWhile (\<lambda>b. b \<noteq> 0) bs))) else None) s)"
proof (cases "va \<ge> sz (procs s me)")
  case True
  then have "ubytes s (unat (sz (procs s me))) va = []" by (simp add: ubytes_def word_le_nat_alt)
  then show ?thesis using True mysz_exec [OF assms(2)] by (simp add: fetchstr_def kexec)
next
  case False
  then have "unat (sz (procs s me) - va) = unat (sz (procs s me)) - unat va" by (simp add: unat_sub)
  then show ?thesis
    using False mysz_exec [OF assms(2)] fetchstr_loop_exec [OF assms(1), of va "unat (sz (procs s me)) - unat va" "[]"]
    by (simp add: fetchstr_def kexec ubytes_def Let_def word_le_nat_alt)
qed

text \<open>
  C38. The kernel takes no pointer out of the process's memory. Let the memory of the running process be mapped up to its
  size, which lies below the kernel. Then \<open>argint\<close>, \<open>argptr\<close> and \<open>argstr\<close> never fault and change nothing. They accept an
  argument word only if its four bytes lie in the process's memory; \<open>argptr\<close> accepts the word as a pointer to \<open>len\<close> bytes
  exactly if \<open>len\<close> is not negative and the whole range lies in the process's memory, with no wrap-around; and
  \<open>argstr\<close> accepts it as a string exactly if there is a zero byte between it and the end of the process's memory.
\<close>

theorem syscall_args_checked:
  assumes "cur s = Some me" and "lim = unat (sz (procs s me))" and "user_mapped lim s"
    and "x = tf_esp (tf (procs s me)) + 4 + 4 * word_of_nat n" and "w = uword s x" and "- (2 ^ 31) \<le> len" and "len < 2 ^ 31"
  shows "argint n s = Ok (if unat x + 4 \<le> lim then Some w else None) s \<and>
    argptr n len s = Ok (if unat x + 4 \<le> lim \<and> 0 \<le> len \<and> unat w < lim \<and> unat w + nat len \<le> lim then Some w else None) s \<and>
    argstr n s = Ok (if unat x + 4 \<le> lim \<and> 0 \<in> set (ubytes s lim w)
      then Some (cstring (map byte_char (takeWhile (\<lambda>b. b \<noteq> 0) (ubytes s lim w)))) else None) s"
proof -
  have map: "user_mapped (unat (sz (procs s me))) s" using assms(2,3) by simp
  have int: "argint n s = Ok (if unat x + 4 \<le> lim then Some w else None) s"
    using fetchint_exec [OF map assms(1), of x] assms(1) by (simp add: argint_def kexec assms(2,4,5))
  have ptr: "\<not> (len < 0 \<or> w \<ge> sz (procs s me) \<or> w + word_of_int len > sz (procs s me)) \<longleftrightarrow>
      0 \<le> len \<and> unat w < lim \<and> unat w + nat len \<le> lim"
  proof (cases "0 \<le> len \<and> unat w < lim")
    case True
    have "nat len < 2 ^ 31" using True assms(7) by (simp add: nat_less_iff)
    then have "unat (w + word_of_nat (nat len)) = unat w + nat len"
      using True assms(3) by (intro unat_below) (simp add: user_mapped_def)
    moreover have "word_of_int len = (word_of_nat (nat len) :: uint)" using True by simp
    ultimately have u: "unat (w + word_of_int len) = unat w + nat len" by (simp only:)
    show ?thesis unfolding word_le_nat_alt word_less_nat_alt u assms(2) [symmetric] using True by linarith
  next
    case False
    then show ?thesis using assms(2) by (auto simp: word_le_nat_alt not_le)
  qed
  have "argptr n len s = Ok (if unat x + 4 \<le> lim \<and> 0 \<le> len \<and> unat w < lim \<and> unat w + nat len \<le> lim then Some w else None) s"
    using int mysz_exec [OF assms(1)] ptr by (auto simp: argptr_def kexec)
  moreover have "argstr n s = Ok (if unat x + 4 \<le> lim \<and> 0 \<in> set (ubytes s lim w)
      then Some (cstring (map byte_char (takeWhile (\<lambda>b. b \<noteq> 0) (ubytes s lim w)))) else None) s"
    using int fetchstr_exec [OF map assms(1), of w] assms(2) by (auto simp: argstr_def kexec Let_def)
  ultimately show ?thesis using int by blast
qed
text \<open>
  An example: a process with one page. The page directory is physical page 0, its first page table page 1 and the
  process's page 2; the stack pointer is 0, the first argument is 16 and points to \<open>hi\<close>.
\<close>

definition user_ex :: kmem where
  "user_ex = (kmem_ex True)\<lparr>cr3 := 0,
     mem := (st32 (st32 (st32 (\<lambda>_. 0) 0x80000000 0x1007) 0x80001000 0x2007) 0x80002004 16)(0x80002010 := 104, 0x80002011 := 105),
     procs := (procs (kmem_ex True))(0 := (procs (kmem_ex True) 0)\<lparr>sz := 4096, tf := tf0\<rparr>)\<rparr>"

lemma user_ex_fields: "cur user_ex = Some 0" "sz (procs user_ex 0) = 4096" "tf (procs user_ex 0) = tf0" "cr3 user_ex = 0"
  "mem user_ex = (st32 (st32 (st32 (\<lambda>_. 0) 0x80000000 0x1007) 0x80001000 0x2007) 0x80002004 16)(0x80002010 := 104, 0x80002011 := 105)"
  by (simp_all add: user_ex_def kmem_ex_defs)

lemma user_ex_addr:
  assumes "va < 4096"
  shows "uaddr user_ex va = Some (0x80002000 + va)"
proof -
  have lt: "unat va < 4096" using assms by (simp add: word_less_nat_alt)
  then have "drop_bit 22 va = 0" "drop_bit 12 va = 0" by (simp_all add: word_unat_eq_iff drop_bit_eq_div unat_div)
  moreover have "take_bit 12 va = va" using lt by (simp add: word_unat_eq_iff take_bit_eq_mod unat_mod)
  then have "and va 0xFFF = va" by (simp add: take_bit_eq_mask mask_eq_exp_minus_1)
  moreover have "ld32 (mem user_ex) 0x80000000 = ld32 (st32 (\<lambda>_. 0) 0x80000000 0x1007) 0x80000000"
    "ld32 (mem user_ex) 0x80001000 = ld32 (st32 (\<lambda>_. 0) 0x80001000 0x2007) 0x80001000"
    by (rule ld32_cong; simp add: user_ex_fields st32_def)+
  ultimately show ?thesis
    by (simp add: uaddr_def mmu_def user_ex_fields(4) PDX_def PTX_def P2V_def PTE_ADDR_def present_def ld32_st32)
qed

theorem syscall_args_checked_witness:
  "argint 0 user_ex = Ok (Some 16) user_ex \<and> argptr 0 4080 user_ex = Ok (Some 16) user_ex \<and>
   argptr 0 4081 user_ex = Ok None user_ex \<and> argstr 0 user_ex = Ok (Some (cstring ''hi'')) user_ex"
proof -
  have m: "umem user_ex va = mem user_ex (0x80002000 + va)" if "va < 4096" for va
    using user_ex_addr [OF that] by (simp add: umem_def)
  have map: "user_mapped 4096 user_ex" using user_ex_addr by (simp add: user_mapped_def word_less_nat_alt)
  have w: "uword user_ex 4 = 16" by (simp add: uword_def m user_ex_fields st32_def)
  have up: "[0..<4080] = [0, 1, 2] @ [3..<4080 :: nat]"
    using upt_add_eq_append [of 0 3 4077] by (simp add: numeral_3_eq_3 [THEN arg_cong [where f = "upt 0"]] del: upt_rec_numeral)
  obtain zs where zs: "map (\<lambda>k. umem user_ex (16 + word_of_nat k)) [3..<4080] = zs" by blast
  have "umem user_ex 16 = 104" "umem user_ex 17 = 105" "umem user_ex 18 = 0"
    by (simp_all add: m user_ex_fields st32_def)
  then have b: "ubytes user_ex 4096 16 = [104, 105, 0] @ zs"
    using up by (simp add: ubytes_def zs del: upt_rec_numeral)
  show ?thesis
    using syscall_args_checked [of user_ex 0 4096 4 0 16 4080] syscall_args_checked [of user_ex 0 4096 4 0 16 4081] map w b
    by (simp add: user_ex_fields tf0_def byte_char_def char_of_def bit_numeral_rec bit_0)
qed

end
