(* ===== verification/Exec.thy ===== *)
theory Exec
  imports Syscall
begin

text \<open>
  \<^verbatim>\<open>exec.c\<close> with \<open>loaduvm\<close> of \<^verbatim>\<open>vm.c\<close> and the structures of \<^verbatim>\<open>elf.h\<close>: replacing the running process's memory by a
  program from a file. The path and the arguments are strings with their terminating zero. Every jump
  to the label \<open>bad\<close> is a call of \<open>exec_bad\<close> with what is to be undone.
\<close>

section \<open>Program files\<close>

abbreviation (input) ELF_MAGIC :: uint where "ELF_MAGIC \<equiv> 0x464C457F"
abbreviation (input) ELF_PROG_LOAD :: uint where "ELF_PROG_LOAD \<equiv> 1"
abbreviation (input) MAXARG :: nat where "MAXARG \<equiv> 32"

record elfhdr =
  eh_magic :: uint
  eh_entry :: uint
  eh_phoff :: uint
  eh_phnum :: ushort

record proghdr =
  ph_type :: uint
  ph_off :: uint
  ph_vaddr :: uint
  ph_filesz :: uint
  ph_memsz :: uint

definition get_elfhdr :: "byte list \<Rightarrow> elfhdr" where
  "get_elfhdr bs = \<lparr>eh_magic = bld32 ((!) bs) 0, eh_entry = bld32 ((!) bs) 24, eh_phoff = bld32 ((!) bs) 28,
     eh_phnum = bld16 ((!) bs) 44\<rparr>"

definition get_proghdr :: "byte list \<Rightarrow> proghdr" where
  "get_proghdr bs = \<lparr>ph_type = bld32 ((!) bs) 0, ph_off = bld32 ((!) bs) 4, ph_vaddr = bld32 ((!) bs) 8,
     ph_filesz = bld32 ((!) bs) 16, ph_memsz = bld32 ((!) bs) 20\<rparr>"

section \<open>Loading\<close>

text \<open>The bytes \<open>readi\<close> returns go to the page's address. The loop runs over the page offsets below \<open>len\<close>.\<close>

definition put_at :: "uint \<Rightarrow> byte list \<Rightarrow> memory \<Rightarrow> memory" where
  "put_at d bs m = (\<lambda>a. if unat (a - d) < length bs then bs ! unat (a - d) else m a)"

primrec loaduvm_loop :: "uint \<Rightarrow> uint \<Rightarrow> nat \<Rightarrow> uint \<Rightarrow> uint \<Rightarrow> nat list \<Rightarrow> ('z console_scheme, int) kop" where
  "loaduvm_loop pd addr ip off len [] = ret 0"
| "loaduvm_loop pd addr ip off len (k # ks) =
     (let i = word_of_nat (4096 * k) in
      kbind (walkpgdir pd (addr + i) False) (\<lambda>pte.
      if pte = 0 then panic ''loaduvm: address should exist''
      else kbind (load pte) (\<lambda>e.
        let n = (if len - i < PGSIZE then len - i else PGSIZE) in
        kbind (readi ip (off + i) n) (\<lambda>(r, bs).
        kthen (kmod (\<lambda>s. s\<lparr>mem := put_at (P2V (PTE_ADDR e)) bs (mem s)\<rparr>))
        (if r \<noteq> sint n then ret (-1) else loaduvm_loop pd addr ip off len ks)))))"

definition loaduvm :: "uint \<Rightarrow> uint \<Rightarrow> nat \<Rightarrow> uint \<Rightarrow> uint \<Rightarrow> ('z console_scheme, int) kop" where
  "loaduvm pd addr ip off len =
     (if addr mod PGSIZE \<noteq> 0 then panic ''loaduvm: addr must be page aligned''
      else loaduvm_loop pd addr ip off len [0..<(unat len + 4095) div 4096])"

definition exec_bad :: "uint \<Rightarrow> nat option \<Rightarrow> ('z files_scheme, int) kop" where
  "exec_bad pd mip =
     kthen (kwhen (pd \<noteq> 0) (freevm pd))
     (kthen (case mip of None \<Rightarrow> ret () | Some ip \<Rightarrow> kthen (iunlockput ip) end_op)
     (ret (-1)))"

text \<open>The loop over the program headers; \<open>None\<close> is a jump to \<open>bad\<close>.\<close>

primrec exec_segments :: "uint \<Rightarrow> nat \<Rightarrow> uint \<Rightarrow> uint \<Rightarrow> nat list \<Rightarrow> ('z console_scheme, uint option) kop" where
  "exec_segments pd ip size0 off [] = ret (Some size0)"
| "exec_segments pd ip size0 off (i # is) =
     kbind (readi ip off 32) (\<lambda>(r, bs).
     if r \<noteq> 32 then ret None
     else let ph = get_proghdr bs in
       if ph_type ph \<noteq> ELF_PROG_LOAD then exec_segments pd ip size0 (off + 32) is
       else if ph_memsz ph < ph_filesz ph then ret None
       else if ph_vaddr ph + ph_memsz ph < ph_vaddr ph then ret None
       else kbind (allocuvm pd size0 (ph_vaddr ph + ph_memsz ph)) (\<lambda>size1.
         if size1 = 0 then ret None
         else if ph_vaddr ph mod PGSIZE \<noteq> 0 then ret None
         else kbind (loaduvm pd (ph_vaddr ph) ip (ph_off ph) (ph_filesz ph)) (\<lambda>l.
           if l < 0 then ret None else exec_segments pd ip size1 (off + 32) is)))"

section \<open>The initial stack\<close>

text \<open>The argument strings are pushed one by one; the addresses are those of \<open>ustack[3..]\<close>. The result is the stack
  pointer and these addresses.\<close>

definition str_bytes :: "char list \<Rightarrow> nat \<Rightarrow> byte" where
  "str_bytes s k = char_byte (s ! k)"

primrec exec_args :: "uint \<Rightarrow> uint \<Rightarrow> uint list \<Rightarrow> char list list \<Rightarrow> ('z kmem_scheme, (uint \<times> uint list) option) kop" where
  "exec_args pd sp ptrs [] = ret (Some (sp, ptrs))"
| "exec_args pd sp ptrs (a # as) =
     (if length ptrs \<ge> MAXARG then ret None
      else kbind (klift (strlen a)) (\<lambda>n.
        let sp1 = and (sp - word_of_nat (n + 1)) (not 3) in
        kbind (copyout pd sp1 (str_bytes a) (word_of_nat (n + 1))) (\<lambda>r.
        if r < 0 then ret None else exec_args pd sp1 (ptrs @ [sp1]) as)))"

definition ustack :: "uint \<Rightarrow> uint list \<Rightarrow> uint list" where
  "ustack sp ptrs =
     [0xFFFFFFFF, word_of_nat (length ptrs), sp - (word_of_nat (length ptrs) + 1) * 4] @ ptrs @ [0]"

definition words_bytes :: "uint list \<Rightarrow> nat \<Rightarrow> byte" where
  "words_bytes ws k = ucast (drop_bit (8 * (k mod 4)) (ws ! (k div 4)))"

text \<open>The part of the path behind the last slash.\<close>

definition path_last :: "char list \<Rightarrow> char list" where
  "path_last path = rev (takeWhile (\<lambda>c. c \<noteq> CHR ''/'') (rev path))"

definition exec_commit :: "nat \<Rightarrow> char list \<Rightarrow> uint \<Rightarrow> uint \<Rightarrow> uint \<Rightarrow> uint \<Rightarrow> ('z kmem_scheme, int) kop" where
  "exec_commit me path pd size1 entry sp =
     kbind (kget (\<lambda>s. procs s me)) (\<lambda>cp.
     kbind (klift (safestrcpy (pname cp) (path_last path) 16)) (\<lambda>nm.
     kthen (upd_proc me (\<lambda>pr. pr\<lparr>pname := nm\<rparr>))
     (kthen (upd_proc me (\<lambda>pr. pr\<lparr>pgdir := pd, sz := size1, tf := (tf pr)\<lparr>tf_eip := entry, tf_esp := sp\<rparr>\<rparr>))
     (kthen (switchuvm (Some me))
     (kthen (freevm (pgdir cp))
     (ret 0))))))"

definition exec_stack :: "nat \<Rightarrow> char list \<Rightarrow> char list list \<Rightarrow> uint \<Rightarrow> uint \<Rightarrow> uint \<Rightarrow> ('z files_scheme, int) kop" where
  "exec_stack me path argv pd entry size0 =
     (let base = PGROUNDUP size0 in
      kbind (allocuvm pd base (base + 2 * PGSIZE)) (\<lambda>size1.
      if size1 = 0 then exec_bad pd None
      else
        kthen (clearpteu pd (size1 - 2 * PGSIZE))
        (kbind (exec_args pd size1 [] argv) (\<lambda>m. case m of
           None \<Rightarrow> exec_bad pd None
         | Some (sp, ptrs) \<Rightarrow>
             (let len = (3 + word_of_nat (length ptrs) + 1) * 4 in
              kbind (copyout pd (sp - len) (words_bytes (ustack sp ptrs)) len) (\<lambda>r.
              if r < 0 then exec_bad pd None
              else exec_commit me path pd size1 entry (sp - len)))))))"

definition exec :: "kimage \<Rightarrow> char list \<Rightarrow> char list list \<Rightarrow> ('z files_scheme, int) kop" where
  "exec im path argv =
     kbind myproc (\<lambda>mp.
     kthen begin_op
     (kbind (namei path) (\<lambda>mip. case mip of
        None \<Rightarrow> kthen end_op (ret (-1))
      | Some ip \<Rightarrow>
          kthen (ilock (Some ip))
          (kbind (readi ip 0 52) (\<lambda>(r, bs).
           if r \<noteq> 52 then exec_bad 0 (Some ip)
           else let elf = get_elfhdr bs in
             if eh_magic elf \<noteq> ELF_MAGIC then exec_bad 0 (Some ip)
             else kbind (setupkvm (im_data im)) (\<lambda>pd.
               if pd = 0 then exec_bad 0 (Some ip)
               else kbind (exec_segments pd ip 0 (eh_phoff elf) [0..<unat (eh_phnum elf)]) (\<lambda>m. case m of
                   None \<Rightarrow> exec_bad pd (Some ip)
                 | Some size0 \<Rightarrow>
                     kthen (iunlockput ip)
                     (kthen end_op
                     (kbind (klift mp) (\<lambda>me. exec_stack me path argv pd (eh_entry elf) size0))))))))))"

end
