(* ===== verification/Sysfile.thy ===== *)
theory Sysfile
  imports Exec
begin

text \<open>
  \<^verbatim>\<open>sysfile.c\<close>: the system calls on files, directories and containers. Arguments are fetched and checked in
  the order of the code, each failing check is a branch that returns -1, and a label \<open>bad\<close> is a definition. Results
  that go to the caller's memory are stored there through the page table.
\<close>

section \<open>Descriptors\<close>

definition argfd :: "nat \<Rightarrow> ('z kmem_scheme, (nat \<times> nat) option) kop" where
  "argfd n =
     kbind (argint n) (\<lambda>mfd. case mfd of
       None \<Rightarrow> ret None
     | Some w \<Rightarrow>
         if sint w < 0 \<or> sint w \<ge> int NOFILE then ret None
         else kbind myproc (\<lambda>mp. kbind (klift mp) (\<lambda>me.
           kbind (kget (\<lambda>s. ofile (procs s me) (unat w))) (\<lambda>mf.
           ret (map_option (\<lambda>f. (unat w, f)) mf)))))"

definition fdalloc :: "nat \<Rightarrow> ('z ctab_scheme, nat option) kop" where
  "fdalloc f =
     kbind myproc (\<lambda>mp. kbind (klift mp) (\<lambda>me.
     kbind (kget (\<lambda>s. find (\<lambda>fd. ofile (procs s me) fd = None) [0..<NOFILE])) (\<lambda>found. case found of
       None \<Rightarrow> ret None
     | Some fd \<Rightarrow>
         kthen (upd_proc me (\<lambda>pr. pr\<lparr>ofile := (ofile pr)(fd := Some f)\<rparr>))
         (ret (Some fd)))))"

definition clear_fd :: "nat \<Rightarrow> ('z ctab_scheme, unit) kop" where
  "clear_fd fd =
     kbind myproc (\<lambda>mp. kbind (klift mp) (\<lambda>me.
     upd_proc me (\<lambda>pr. pr\<lparr>ofile := (ofile pr)(fd := None)\<rparr>)))"

definition sys_dup :: "('z files_scheme, int) kop" where
  "sys_dup =
     kbind (argfd 0) (\<lambda>mf. case mf of
       None \<Rightarrow> ret (-1)
     | Some (_, f) \<Rightarrow>
         kbind (fdalloc f) (\<lambda>mfd. case mfd of
           None \<Rightarrow> ret (-1)
         | Some fd \<Rightarrow> kthen (filedup f) (ret (int fd))))"

text \<open>The arguments of \<open>read\<close> and \<open>write\<close>: the file, the buffer and its length.\<close>

definition arg_buffer :: "('z kmem_scheme, (nat \<times> uint \<times> int) option) kop" where
  "arg_buffer =
     kbind (argfd 0) (\<lambda>mf. case mf of
       None \<Rightarrow> ret None
     | Some (_, f) \<Rightarrow>
         kbind (argint 2) (\<lambda>mn. case mn of
           None \<Rightarrow> ret None
         | Some w \<Rightarrow>
             kbind (argptr 1 (sint w)) (\<lambda>mp. ret (map_option (\<lambda>p. (f, p, sint w)) mp))))"

definition sys_read :: "('z files_scheme, int) kop" where
  "sys_read =
     kbind arg_buffer (\<lambda>ma. case ma of
       None \<Rightarrow> ret (-1)
     | Some (f, p, n) \<Rightarrow>
         kbind (fileread f n) (\<lambda>(r, bs). kthen (uput_bytes p bs) (ret r)))"

definition sys_write :: "('z files_scheme, int) kop" where
  "sys_write =
     kbind arg_buffer (\<lambda>ma. case ma of
       None \<Rightarrow> ret (-1)
     | Some (f, p, n) \<Rightarrow>
         kbind (uget_bytes p (nat n)) (\<lambda>bs. filewrite f ((!) bs) n))"

definition sys_close :: "('z files_scheme, int) kop" where
  "sys_close =
     kbind (argfd 0) (\<lambda>mf. case mf of
       None \<Rightarrow> ret (-1)
     | Some (fd, f) \<Rightarrow> kthen (clear_fd fd) (kthen (fileclose f) (ret 0)))"

text \<open>The fields of \<open>struct stat\<close>, 20 bytes with the compiler's padding.\<close>

definition uput_stat :: "uint \<Rightarrow> stat \<Rightarrow> ('z kmem_scheme, unit) kop" where
  "uput_stat p st =
     kthen (uput32 (p + 4) (word_of_int (st_dev st)))
     (kthen (uput32 (p + 8) (st_ino st))
     (kthen (uput16 p (st_type st))
     (kthen (uput16 (p + 12) (st_nlink st))
     (uput32 (p + 16) (st_size st)))))"

definition sys_fstat :: "('z files_scheme, int) kop" where
  "sys_fstat =
     kbind (argfd 0) (\<lambda>mf. case mf of
       None \<Rightarrow> ret (-1)
     | Some (_, f) \<Rightarrow>
         kbind (argptr 1 20) (\<lambda>mp. case mp of
           None \<Rightarrow> ret (-1)
         | Some p \<Rightarrow>
             kbind (filestat f) (\<lambda>(r, mst).
             kthen (case mst of None \<Rightarrow> ret () | Some st \<Rightarrow> uput_stat p st) (ret r))))"

section \<open>Links\<close>

definition end_fail :: "('z console_scheme, int) kop" where
  "end_fail = kthen end_op (ret (-1))"

definition put_fail :: "nat \<Rightarrow> ('z console_scheme, int) kop" where
  "put_fail ip = kthen (iunlockput ip) end_fail"

definition upd_nlink :: "nat \<Rightarrow> ushort \<Rightarrow> ('z fsst_scheme, unit) kop" where
  "upd_nlink ip d = kthen (upd_inode ip (\<lambda>i. i\<lparr>i_nlink := i_nlink i + d\<rparr>)) (iupdate ip)"

definition link_bad :: "nat \<Rightarrow> ('z console_scheme, int) kop" where
  "link_bad ip = kthen (ilock (Some ip)) (kthen (upd_nlink ip (- 1)) (put_fail ip))"

definition do_link :: "char list \<Rightarrow> char list \<Rightarrow> ('z console_scheme, int) kop" where
  "do_link old new =
     kthen begin_op
     (kbind (namei old) (\<lambda>mip. case mip of
        None \<Rightarrow> end_fail
      | Some ip \<Rightarrow>
          kthen (ilock (Some ip))
          (kbind (kget (\<lambda>s. i_type (inodes s ip))) (\<lambda>ty.
           if ty = T_DIR then put_fail ip
           else
             kthen (upd_nlink ip 1)
             (kthen (iunlock (Some ip))
             (kbind (nameiparent new) (\<lambda>mdp. case mdp of
                None \<Rightarrow> link_bad ip
              | Some (dp, name) \<Rightarrow>
                  kthen (ilock (Some dp))
                  (kbind (kget (\<lambda>s. (i_dev (inodes s dp), i_dev (inodes s ip), i_inum (inodes s ip)))) (\<lambda>(dd, di, n).
                   kbind (if dd \<noteq> di then ret (-1) else dirlink dp name n) (\<lambda>r.
                   if r < 0 then kthen (iunlockput dp) (link_bad ip)
                   else
                     kthen (iunlockput dp)
                     (kthen (iput ip)
                     (kthen end_op
                     (ret 0)))))))))))))"

definition sys_link :: "('z console_scheme, int) kop" where
  "sys_link =
     kbind (argstr 0) (\<lambda>mo. case mo of
       None \<Rightarrow> ret (-1)
     | Some old \<Rightarrow> kbind (argstr 1) (\<lambda>mn. case mn of None \<Rightarrow> ret (-1) | Some new \<Rightarrow> do_link old new))"

primrec isdirempty_loop :: "nat \<Rightarrow> uint list \<Rightarrow> ('z console_scheme, bool) kop" where
  "isdirempty_loop dp [] = ret True"
| "isdirempty_loop dp (off # offs) =
     kbind (read_dirent ''isdirempty: readi'' dp off) (\<lambda>de.
     if de_inum de \<noteq> 0 then ret False else isdirempty_loop dp offs)"

definition isdirempty :: "nat \<Rightarrow> ('z console_scheme, bool) kop" where
  "isdirempty dp = kbind (kget (\<lambda>s. i_size (inodes s dp))) (\<lambda>len. isdirempty_loop dp (drop 2 (dir_offs len)))"

definition do_unlink :: "nat \<Rightarrow> char list \<Rightarrow> ('z console_scheme, int) kop" where
  "do_unlink dp name =
     kbind (dirlookup dp name) (\<lambda>found. case found of
       None \<Rightarrow> put_fail dp
     | Some (ip, off) \<Rightarrow>
         kthen (ilock (Some ip))
         (kbind (kget (\<lambda>s. inodes s ip)) (\<lambda>i.
          if sint (i_nlink i) < 1 then panic ''unlink: nlink < 1''
          else kbind (if i_type i = T_DIR then isdirempty ip else ret True) (\<lambda>ok.
            if \<not> ok then kthen (iunlockput ip) (put_fail dp)
            else kbind (writei dp (\<lambda>_. 0) off 16) (\<lambda>r.
              if r \<noteq> 16 then panic ''unlink: writei''
              else
                kthen (kwhen (i_type i = T_DIR) (upd_nlink dp (- 1)))
                (kthen (iunlockput dp)
                (kthen (upd_nlink ip (- 1))
                (kthen (iunlockput ip)
                (kthen end_op
                (ret 0))))))))))"

definition sys_unlink :: "('z console_scheme, int) kop" where
  "sys_unlink =
     kbind (argstr 0) (\<lambda>mp. case mp of
       None \<Rightarrow> ret (-1)
     | Some path \<Rightarrow>
         kthen begin_op
         (kbind (nameiparent path) (\<lambda>mdp. case mdp of
            None \<Rightarrow> end_fail
          | Some (dp, name) \<Rightarrow>
              kthen (ilock (Some dp))
              (kbind (klift (namecmp name (cstring ''.''))) (\<lambda>r1.
               if r1 = 0 then put_fail dp
               else kbind (klift (namecmp name (cstring ''..''))) (\<lambda>r2.
                 if r2 = 0 then put_fail dp else do_unlink dp name))))))"

section \<open>Creating and opening\<close>

definition create_new :: "nat \<Rightarrow> char list \<Rightarrow> ushort \<Rightarrow> ushort \<Rightarrow> ushort \<Rightarrow> ('z console_scheme, nat option) kop" where
  "create_new dp name ty mj mn =
     kbind (kget (\<lambda>s. i_dev (inodes s dp))) (\<lambda>dev.
     kbind (ialloc dev ty) (\<lambda>ip.
     kthen (ilock (Some ip))
     (kthen (upd_inode ip (\<lambda>i. i\<lparr>i_major := mj, i_minor := mn, i_nlink := 1\<rparr>))
     (kthen (iupdate ip)
     (kbind (kget (\<lambda>s. (i_inum (inodes s ip), i_inum (inodes s dp)))) (\<lambda>(ni, nd).
      kthen (kwhen (ty = T_DIR)
        (kthen (upd_nlink dp 1)
        (kbind (dirlink ip (cstring ''.'') ni) (\<lambda>r1.
         if r1 < 0 then panic ''create dots''
         else kbind (dirlink ip (cstring ''..'') nd) (\<lambda>r2.
           if r2 < 0 then panic ''create dots'' else ret ())))))
     (kbind (dirlink dp name ni) (\<lambda>r.
      if r < 0 then panic ''create: dirlink''
      else kthen (iunlockput dp) (ret (Some ip))))))))))"

definition create :: "char list \<Rightarrow> ushort \<Rightarrow> ushort \<Rightarrow> ushort \<Rightarrow> ('z console_scheme, nat option) kop" where
  "create path ty mj mn =
     kbind (nameiparent path) (\<lambda>mdp. case mdp of
       None \<Rightarrow> ret None
     | Some (dp, name) \<Rightarrow>
         kthen (ilock (Some dp))
         (kbind (dirlookup dp name) (\<lambda>found. case found of
            Some (ip, _) \<Rightarrow>
              kthen (iunlockput dp)
              (kthen (ilock (Some ip))
              (kbind (kget (\<lambda>s. i_type (inodes s ip))) (\<lambda>t.
               if ty = T_FILE \<and> t = T_FILE then ret (Some ip)
               else kthen (iunlockput ip) (ret None))))
          | None \<Rightarrow> create_new dp name ty mj mn)))"

abbreviation (input) O_RDONLY :: uint where "O_RDONLY \<equiv> 0"
abbreviation (input) O_WRONLY :: uint where "O_WRONLY \<equiv> 1"
abbreviation (input) O_RDWR :: uint where "O_RDWR \<equiv> 2"
abbreviation (input) O_CREATE :: uint where "O_CREATE \<equiv> 0x200"

text \<open>The inode of \<open>open\<close>, locked, or \<open>None\<close> with the transaction ended.\<close>

definition open_inode :: "char list \<Rightarrow> uint \<Rightarrow> ('z console_scheme, nat option) kop" where
  "open_inode path omode =
     (if and omode O_CREATE \<noteq> 0
      then kbind (create path T_FILE 0 0) (\<lambda>mip. case mip of
         None \<Rightarrow> kthen end_op (ret None)
       | Some ip \<Rightarrow> ret (Some ip))
      else kbind (namei path) (\<lambda>mip. case mip of
         None \<Rightarrow> kthen end_op (ret None)
       | Some ip \<Rightarrow>
           kthen (ilock (Some ip))
           (kbind (kget (\<lambda>s. i_type (inodes s ip))) (\<lambda>ty.
            if ty = T_DIR \<and> omode \<noteq> O_RDONLY then kthen (put_fail ip) (ret None)
            else ret (Some ip)))))"

definition open_file :: "nat \<Rightarrow> uint \<Rightarrow> ('z files_scheme, int) kop" where
  "open_file ip omode =
     kbind filealloc (\<lambda>mf. case mf of
       None \<Rightarrow> put_fail ip
     | Some f \<Rightarrow>
         kbind (fdalloc f) (\<lambda>mfd. case mfd of
           None \<Rightarrow> kthen (fileclose f) (put_fail ip)
         | Some fd \<Rightarrow>
             kthen (iunlock (Some ip))
             (kthen end_op
             (kthen (upd_file f (\<lambda>x. x\<lparr>f_type := FD_INODE, f_ip := Some ip, f_off := 0,
                 readable := (and omode O_WRONLY = 0),
                 writable := (and omode O_WRONLY \<noteq> 0 \<or> and omode O_RDWR \<noteq> 0)\<rparr>))
             (ret (int fd))))))"

definition sys_open :: "('z files_scheme, int) kop" where
  "sys_open =
     kbind (argstr 0) (\<lambda>mp. case mp of
       None \<Rightarrow> ret (-1)
     | Some path \<Rightarrow>
         kbind (argint 1) (\<lambda>mo. case mo of
           None \<Rightarrow> ret (-1)
         | Some omode \<Rightarrow>
             kthen begin_op
             (kbind (open_inode path omode) (\<lambda>mip. case mip of
                None \<Rightarrow> ret (-1)
              | Some ip \<Rightarrow> open_file ip omode))))"

definition create_put :: "char list \<Rightarrow> ushort \<Rightarrow> ushort \<Rightarrow> ushort \<Rightarrow> ('z console_scheme, int) kop" where
  "create_put path ty mj mn =
     kbind (create path ty mj mn) (\<lambda>mip. case mip of
       None \<Rightarrow> end_fail
     | Some ip \<Rightarrow> kthen (iunlockput ip) (kthen end_op (ret 0)))"

definition sys_mkdir :: "('z console_scheme, int) kop" where
  "sys_mkdir =
     kthen begin_op
     (kbind (argstr 0) (\<lambda>mp. case mp of
        None \<Rightarrow> end_fail
      | Some path \<Rightarrow> create_put path T_DIR 0 0))"

definition sys_mknod :: "('z console_scheme, int) kop" where
  "sys_mknod =
     kthen begin_op
     (kbind (argstr 0) (\<lambda>mp. case mp of
        None \<Rightarrow> end_fail
      | Some path \<Rightarrow>
          kbind (argint 1) (\<lambda>mj. case mj of
            None \<Rightarrow> end_fail
          | Some major \<Rightarrow>
              kbind (argint 2) (\<lambda>mm. case mm of
                None \<Rightarrow> end_fail
              | Some minor \<Rightarrow> create_put path T_DEV (ucast major) (ucast minor)))))"

definition sys_chdir :: "('z console_scheme, int) kop" where
  "sys_chdir =
     kbind myproc (\<lambda>mp.
     kthen begin_op
     (kbind (argstr 0) (\<lambda>ma.
      kbind (case ma of None \<Rightarrow> ret None | Some path \<Rightarrow> namei path) (\<lambda>mip. case mip of
        None \<Rightarrow> kthen (cprintf (Some (''cant pick up path'' @ [CHR 0x0A, NUL])) []) end_fail
      | Some ip \<Rightarrow>
          kthen (ilock (Some ip))
          (kbind (kget (\<lambda>s. i_type (inodes s ip))) (\<lambda>ty.
           if ty \<noteq> T_DIR then put_fail ip
           else
             kthen (iunlock (Some ip))
             (kbind (klift mp) (\<lambda>me.
              kbind (kget (\<lambda>s. cwd (procs s me))) (\<lambda>w.
              kthen (kbind (klift w) iput)
             (kthen end_op
             (kthen (upd_proc me (\<lambda>pr. pr\<lparr>cwd := Some ip\<rparr>))
             (ret 0))))))))))))"

text \<open>The loop of \<open>exec\<close> over the argument vector, with room for \<open>n\<close> more pointers.\<close>

primrec fetch_argv :: "nat \<Rightarrow> uint \<Rightarrow> char list list \<Rightarrow> ('z kmem_scheme, char list list option) kop" where
  "fetch_argv 0 a got = ret None"
| "fetch_argv (Suc n) a got =
     kbind (fetchint a) (\<lambda>mu. case mu of
       None \<Rightarrow> ret None
     | Some u \<Rightarrow>
         if u = 0 then ret (Some got)
         else kbind (fetchstr u) (\<lambda>ms. case ms of
           None \<Rightarrow> ret None
         | Some str \<Rightarrow> fetch_argv n (a + 4) (got @ [str])))"

definition sys_exec :: "kimage \<Rightarrow> ('z files_scheme, int) kop" where
  "sys_exec im =
     kbind (argstr 0) (\<lambda>mp. case mp of
       None \<Rightarrow> ret (-1)
     | Some path \<Rightarrow>
         kbind (argint 1) (\<lambda>mu. case mu of
           None \<Rightarrow> ret (-1)
         | Some uargv \<Rightarrow>
             kbind (fetch_argv MAXARG uargv []) (\<lambda>ma. case ma of
               None \<Rightarrow> ret (-1)
             | Some argv \<Rightarrow> exec im path argv)))"

definition pipe_fds_bad :: "nat option \<Rightarrow> nat \<Rightarrow> nat \<Rightarrow> ('z files_scheme, int) kop" where
  "pipe_fds_bad mfd rfl wfl =
     kthen (case mfd of None \<Rightarrow> ret () | Some fd \<Rightarrow> clear_fd fd)
     (kthen (fileclose rfl)
     (kthen (fileclose wfl)
     (ret (-1))))"

definition sys_pipe :: "('z files_scheme, int) kop" where
  "sys_pipe =
     kbind (argptr 0 8) (\<lambda>mp. case mp of
       None \<Rightarrow> ret (-1)
     | Some p \<Rightarrow>
         kbind pipealloc (\<lambda>mrw. case mrw of
           None \<Rightarrow> ret (-1)
         | Some (rfl, wfl) \<Rightarrow>
             kbind (fdalloc rfl) (\<lambda>m0. case m0 of
               None \<Rightarrow> pipe_fds_bad None rfl wfl
             | Some fd0 \<Rightarrow>
                 kbind (fdalloc wfl) (\<lambda>m1. case m1 of
                   None \<Rightarrow> pipe_fds_bad (Some fd0) rfl wfl
                 | Some fd1 \<Rightarrow>
                     kthen (uput32 p (word_of_nat fd0))
                     (kthen (uput32 (p + 4) (word_of_nat fd1))
                     (ret 0))))))"

section \<open>Containers\<close>

text \<open>The message of a call whose arguments cannot be fetched.\<close>

definition bad_args :: "string \<Rightarrow> ('z console_scheme, int) kop" where
  "bad_args call = kthen (cprintf (Some (call @ '': Error getting pointers'' @ [CHR 0x0A, NUL])) []) (ret (-1))"

text \<open>The calls that pass a name on.\<close>

definition with_name :: "string \<Rightarrow> (char list \<Rightarrow> ('z console_scheme, int) kop) \<Rightarrow> ('z console_scheme, int) kop" where
  "with_name call f = kbind (argstr 0) (\<lambda>mn. case mn of None \<Rightarrow> bad_args call | Some name \<Rightarrow> f name)"

definition sys_ccreate :: "('z console_scheme, int) kop" where
  "sys_ccreate =
     kbind (argstr 0) (\<lambda>mn. case mn of None \<Rightarrow> bad_args ''sys_ccreate'' | Some name \<Rightarrow>
     kbind (argint 1) (\<lambda>m1. case m1 of None \<Rightarrow> bad_args ''sys_ccreate'' | Some mp \<Rightarrow>
     kbind (argint 2) (\<lambda>m2. case m2 of None \<Rightarrow> bad_args ''sys_ccreate'' | Some mz \<Rightarrow>
     kbind (argint 3) (\<lambda>m3. case m3 of None \<Rightarrow> bad_args ''sys_ccreate'' | Some md \<Rightarrow>
     ccreate name (sint mp) mz md))))"

definition sys_cstart :: "('z console_scheme, int) kop" where
  "sys_cstart = with_name ''sys_cstart'' cstart"

definition sys_cfork :: "kimage \<Rightarrow> ('z files_scheme, int) kop" where
  "sys_cfork im = kbind (argint 0) (\<lambda>mn. case mn of None \<Rightarrow> bad_args ''sys_ccfork'' | Some n \<Rightarrow> cfork im (sint n))"

definition sys_cpause :: "('z console_scheme, int) kop" where
  "sys_cpause = with_name ''sys_cpause'' cpause"

definition sys_cresume :: "('z console_scheme, int) kop" where
  "sys_cresume = with_name ''sys_cresume'' cresume"

definition sys_cstop :: "('z console_scheme, int) kop" where
  "sys_cstop = with_name ''sys_cstop'' cstop"

text \<open>
  \<open>cinfo\<close> fills a \<open>struct continfo\<close> in the caller's memory. Of the old content only the name arrays matter, because a
  name shorter than its array leaves the rest of it; the entries the call fills are the first ones of the arrays:
  one per container it may report on, with one per process of it in use.
\<close>

definition pi_addr :: "uint \<Rightarrow> nat \<Rightarrow> nat \<Rightarrow> uint" where
  "pi_addr p j l = p + word_of_nat (1836 * j + 44 + 28 * l)"

fun procstate_no :: "procstate \<Rightarrow> uint" where
  "procstate_no UNUSED = 0" | "procstate_no EMBRYO = 1" | "procstate_no SLEEPING = 2"
| "procstate_no RUNNABLE = 3" | "procstate_no RUNNING = 4" | "procstate_no ZOMBIE = 5"

fun contstate_no :: "contstate \<Rightarrow> uint" where
  "contstate_no CUNUSED = 0" | "contstate_no CEMBRYO = 1" | "contstate_no CREADY = 2" | "contstate_no CRUNNABLE = 3"
| "contstate_no CRUNNING = 4" | "contstate_no CPAUSED = 5" | "contstate_no CSTOPPING = 6"

definition uput_pinfo :: "uint \<Rightarrow> pinfo \<Rightarrow> ('z kmem_scheme, unit) kop" where
  "uput_pinfo a x =
     kthen (uput32 (a + 4) (word_of_int (pi_pid x)))
     (kthen (uput32 (a + 24) (pi_ticks x))
     (kthen (uput32 a (procstate_no (pi_state x)))
     (uput_bytes (a + 8) (map char_byte (pi_name x)))))"

definition uput_cinfo :: "uint \<Rightarrow> nat \<Rightarrow> cinfo_t \<Rightarrow> nat \<Rightarrow> ('z kmem_scheme, unit) kop" where
  "uput_cinfo p j x nprocs =
     (let a = p + word_of_nat (1836 * j) in
      kthen (uput32 a (ci_msz x))
      (kthen (uput32 (a + 4) (ci_mdsk x))
      (kthen (uput32 (a + 8) (word_of_int (ci_mproc x)))
      (kthen (uput32 (a + 12) (word_of_int (ci_usz x)))
      (kthen (uput32 (a + 16) (ci_udsk x))
      (kthen (uput32 (a + 20) (word_of_int (ci_cid x)))
      (kthen (uput32 (a + 24) (contstate_no (ci_state x)))
      (kthen (uput_bytes (a + 28) (map char_byte (ci_name x)))
      (kfor [0..<nprocs] (\<lambda>l. uput_pinfo (pi_addr p j l) (ci_procs x l)))))))))))"

definition uget_names :: "uint \<Rightarrow> ('z kmem_scheme, byte list) kop" where
  "uget_names p = uget_bytes p (8 * 1836)"

definition old_continfo :: "byte list \<Rightarrow> continfo" where
  "old_continfo bs =
     (let arr = (\<lambda>o1. map byte_char (take 16 (drop o1 bs)))
      in \<lparr>ci_conts = (\<lambda>j. \<lparr>ci_msz = 0, ci_mdsk = 0, ci_mproc = 0, ci_usz = 0, ci_udsk = 0, ci_cid = 0,
             ci_state = CUNUSED, ci_name = arr (1836 * j + 28),
             ci_procs = (\<lambda>l. \<lparr>pi_state = UNUSED, pi_pid = 0, pi_name = arr (1836 * j + 44 + 28 * l + 8), pi_ticks = 0\<rparr>)\<rparr>),
          ci_root = False\<rparr>)"

text \<open>The numbers of processes in use of the containers reported on.\<close>

definition reported :: "'z ctab_scheme \<Rightarrow> int \<Rightarrow> nat list" where
  "reported s me =
     map (\<lambda>i. length (filter (\<lambda>k. case proc_at (conts s i) (int k) of None \<Rightarrow> False | Some p \<Rightarrow> pstate (procs s p) \<noteq> UNUSED)
                 [0..<nat (mproc (conts s i))]))
       (filter (\<lambda>i. \<not> ((me \<noteq> ROOTCONT \<and> me \<noteq> cid (conts s i)) \<or> cstate (conts s i) = CUNUSED)) [0..<NCONT])"

definition sys_cinfo :: "('z kmem_scheme, int) kop" where
  "sys_cinfo =
     kbind (argptr 0 14692) (\<lambda>mp. case mp of
       None \<Rightarrow> ret (-1)
     | Some p \<Rightarrow>
         kbind (uget_names p) (\<lambda>bs.
         kbind (cinfo (old_continfo bs)) (\<lambda>ci.
         kbind mycont (\<lambda>me.
         kbind (kget (\<lambda>s. reported s (cid (conts s me)))) (\<lambda>ns.
         kthen (uput32 (p + 14688) (if ci_root ci then 1 else 0))
         (kthen (kfor [0..<length ns] (\<lambda>j. uput_cinfo p j (ci_conts ci j) (ns ! j)))
         (ret 1)))))))"

end
