(* ===== verification/Kbd.thy ===== *)
theory Kbd
  imports Prelude
begin

text \<open>
  The keyboard driver \<^verbatim>\<open>kbd.c\<close> with the tables of \<^verbatim>\<open>kbd.h\<close>. A table given by its first entries and
  designated ones is a list and an association list; entries not mentioned are zero. \<open>kbdgetc\<close> takes the status and
  data ports' values and the static variable \<open>shift\<close>, and returns the character (-1 if there is no data) and
  the new \<open>shift\<close>.
\<close>

section \<open>Tables\<close>

abbreviation (input) SHIFT :: uint where "SHIFT \<equiv> 1"
abbreviation (input) CTL :: uint where "CTL \<equiv> 2"
abbreviation (input) CAPSLOCK :: uint where "CAPSLOCK \<equiv> 8"
abbreviation (input) E0ESC :: uint where "E0ESC \<equiv> 0x40"
abbreviation (input) KBS_DIB :: byte where "KBS_DIB \<equiv> 1"

definition keytable :: "nat list \<Rightarrow> (nat \<times> nat) list \<Rightarrow> byte \<Rightarrow> uint" where
  "keytable xs ds d =
     (let i = unat d in
      case map_of ds i of Some v \<Rightarrow> word_of_nat v | None \<Rightarrow> if i < length xs then word_of_nat (xs ! i) else 0)"

definition shiftcode :: "byte \<Rightarrow> uint" where
  "shiftcode = keytable [] [(29, 2), (42, 1), (54, 1), (56, 4), (157, 2), (184, 4)]"

definition togglecode :: "byte \<Rightarrow> uint" where
  "togglecode = keytable [] [(58, 8), (69, 16), (70, 32)]"

text \<open>The designated entries of the keys behind the escape code, the same but for enter and division.\<close>

definition escapes :: "nat \<Rightarrow> nat \<Rightarrow> (nat \<times> nat) list" where
  "escapes enter dv = [(156, enter), (181, dv), (200, 226), (208, 227), (201, 230), (209, 231), (203, 228), (205, 229), (151, 224), (207, 225), (210, 232), (211, 233)]"

definition normalmap :: "byte \<Rightarrow> uint" where
  "normalmap = keytable
     [0, 27, 49, 50, 51, 52, 53, 54, 55, 56, 57, 48, 45, 61, 8, 9,
      113, 119, 101, 114, 116, 121, 117, 105, 111, 112, 91, 93, 10, 0, 97, 115,
      100, 102, 103, 104, 106, 107, 108, 59, 39, 96, 0, 92, 122, 120, 99, 118,
      98, 110, 109, 44, 46, 47, 0, 42, 0, 32, 0, 0, 0, 0, 0, 0,
      0, 0, 0, 0, 0, 0, 0, 55, 56, 57, 45, 52, 53, 54, 43, 49,
      50, 51, 48, 46, 0, 0, 0, 0]
     (escapes 10 47)"

definition shiftmap :: "byte \<Rightarrow> uint" where
  "shiftmap = keytable
     [0, 27, 33, 64, 35, 36, 37, 94, 38, 42, 40, 41, 95, 43, 8, 9,
      81, 87, 69, 82, 84, 89, 85, 73, 79, 80, 123, 125, 10, 0, 65, 83,
      68, 70, 71, 72, 74, 75, 76, 58, 34, 126, 0, 124, 90, 88, 67, 86,
      66, 78, 77, 60, 62, 63, 0, 42, 0, 32, 0, 0, 0, 0, 0, 0,
      0, 0, 0, 0, 0, 0, 0, 55, 56, 57, 45, 52, 53, 54, 43, 49,
      50, 51, 48, 46, 0, 0, 0, 0]
     (escapes 10 47)"

definition ctlmap :: "byte \<Rightarrow> uint" where
  "ctlmap = keytable
     [0, 0, 0, 0, 0, 0, 0, 0, 0, 0, 0, 0, 0, 0, 0, 0,
      17, 23, 5, 18, 20, 25, 21, 9, 15, 16, 0, 0, 13, 0, 1, 19,
      4, 6, 7, 8, 10, 11, 12, 0, 0, 0, 0, 28, 26, 24, 3, 22,
      2, 14, 13, 0, 0, 239, 0, 0]
     (escapes 13 239)"

section \<open>Decoding\<close>

definition charcode :: "uint \<Rightarrow> byte \<Rightarrow> uint" where
  "charcode k = (if k = 0 then normalmap else if k = 1 then shiftmap else ctlmap)"

definition capslock :: "uint \<Rightarrow> uint" where
  "capslock c = (if 97 \<le> c \<and> c \<le> 122 then c - 32 else if 65 \<le> c \<and> c \<le> 90 then c + 32 else c)"

text \<open>A byte from the data port.\<close>

definition kbd_data :: "byte \<Rightarrow> uint \<Rightarrow> int \<times> uint" where
  "kbd_data data shift =
     (if data = 0xE0 then (0, or shift E0ESC)
      else if and data 0x80 \<noteq> 0
      then (let d = (if and shift E0ESC \<noteq> 0 then data else and data 0x7F)
            in (0, and shift (not (or (shiftcode d) E0ESC))))
      else
        (let esc = (and shift E0ESC \<noteq> 0);
             d = (if esc then or data 0x80 else data);
             sh = (if esc then and shift (not E0ESC) else shift);
             sh = xor (or sh (shiftcode d)) (togglecode d);
             c = charcode (and sh (or CTL SHIFT)) d
         in (uint (if and sh CAPSLOCK \<noteq> 0 then capslock c else c), sh)))"

definition kbdgetc :: "byte \<Rightarrow> byte \<Rightarrow> uint \<Rightarrow> int \<times> uint" where
  "kbdgetc st data shift = (if and st KBS_DIB = 0 then (-1, shift) else kbd_data data shift)"

text \<open>The calls an interrupt makes until the port is empty: the characters and the new \<open>shift\<close>.\<close>

primrec kbd_chars :: "byte list \<Rightarrow> uint \<Rightarrow> int list \<times> uint" where
  "kbd_chars [] shift = ([], shift)"
| "kbd_chars (d # ds) shift =
     (let (c, sh) = kbdgetc KBS_DIB d shift; (cs, sh') = kbd_chars ds sh in (c # cs, sh'))"

end
