(* ===== verification/Trap.thy ===== *)
theory Trap
  imports Sysfile Kbd
begin

text \<open>
  The dispatch of system calls (\<open>syscall\<close> of \<^verbatim>\<open>syscall.c\<close>), the interrupt handlers of the keyboard and the
  serial port, and \<open>trap\<close> of \<^verbatim>\<open>trap.c\<close>. What a trap learns from the hardware is the record \<open>hwin\<close>: the
  processor's number, the fault address, and the bytes waiting at the keyboard and at the serial port. The acknowledgement of
  the interrupt and the interrupt of the memory disk have no effect in the model's state.
\<close>

record hwin =
  hw_cpu :: int
  hw_cr2 :: uint
  hw_keys :: "byte list"
  hw_serial :: "byte list"

section \<open>System calls\<close>

definition syscalls :: "kimage \<Rightarrow> int \<Rightarrow> ('z trapst_scheme, int) kop option" where
  "syscalls im num =
     (if num = 1 then Some (sys_fork im) else if num = 2 then Some sys_exit else if num = 3 then Some sys_wait
      else if num = 4 then Some sys_pipe else if num = 5 then Some sys_read else if num = 6 then Some sys_kill
      else if num = 7 then Some (sys_exec im) else if num = 8 then Some sys_fstat else if num = 9 then Some sys_chdir
      else if num = 10 then Some sys_dup else if num = 11 then Some sys_getpid else if num = 12 then Some sys_sbrk
      else if num = 13 then Some sys_sleep else if num = 14 then Some sys_uptime else if num = 15 then Some sys_open
      else if num = 16 then Some sys_write else if num = 17 then Some sys_mknod else if num = 18 then Some sys_unlink
      else if num = 19 then Some sys_link else if num = 20 then Some sys_mkdir else if num = 21 then Some sys_close
      else if num = 22 then Some sys_getticks else if num = 23 then Some sys_ccreate else if num = 24 then Some sys_cstop
      else if num = 25 then Some sys_cstart else if num = 26 then Some (sys_cfork im) else if num = 27 then Some sys_cinfo
      else if num = 28 then Some sys_cpause else if num = 29 then Some sys_cresume else None)"

definition set_eax :: "nat \<Rightarrow> int \<Rightarrow> ('z ctab_scheme, unit) kop" where
  "set_eax p r = upd_proc p (\<lambda>pr. pr\<lparr>tf := (tf pr)\<lparr>tf_eax := word_of_int r\<rparr>\<rparr>)"

definition syscall :: "kimage \<Rightarrow> ('z trapst_scheme, unit) kop" where
  "syscall im =
     kbind myproc (\<lambda>mp. kbind (klift mp) (\<lambda>me.
     kbind (kget (\<lambda>s. procs s me)) (\<lambda>pr.
     let num = sint (tf_eax (tf pr)) in
     case syscalls im num of
       Some f \<Rightarrow> kbind f (set_eax me)
     | None \<Rightarrow>
         kthen (cprintf (Some (''%d %s: unknown sys call %d'' @ [CHR 0x0A, NUL]))
           [CInt (word_of_int (pid pr)), CStr (Some (pname pr)), CInt (word_of_int num)])
         (set_eax me (-1)))))"

section \<open>Interrupts\<close>

definition kbdintr :: "byte list \<Rightarrow> ('z trapst_scheme, unit) kop" where
  "kbdintr keys =
     kbind (kget (\<lambda>s. kbd_chars keys (kshift s))) (\<lambda>(cs, sh).
     kthen (kmod (\<lambda>s. s\<lparr>kshift := sh\<rparr>))
     (consoleintr cs))"

definition uartintr :: "byte list \<Rightarrow> ('z trapst_scheme, unit) kop" where
  "uartintr bytes = kbind (kget has_uart) (\<lambda>u. consoleintr (if u then map uint bytes else []))"

definition timerintr :: "int \<Rightarrow> ('z trapst_scheme, unit) kop" where
  "timerintr cpu =
     kthen (kwhen (cpu = 0)
       (kthen (acquire Ltickslock)
       (kthen (kmod (\<lambda>s. s\<lparr>uticks := uticks s + 1\<rparr>))
       (kthen (wakeup (Some ChTicks))
       (release Ltickslock)))))
     (kbind myproc (\<lambda>mp. case mp of
        None \<Rightarrow> ret ()
      | Some p \<Rightarrow> upd_proc p (\<lambda>pr. pr\<lparr>ticks := ticks pr + 1\<rparr>)))"

definition unexpected :: "hwin \<Rightarrow> trapframe \<Rightarrow> ('z trapst_scheme, unit) kop" where
  "unexpected hw f =
     kbind myproc (\<lambda>mp. case (if and (tf_cs f) 3 = 0 then None else mp) of
       None \<Rightarrow>
         kthen (cprintf (Some (''unexpected trap %d from cpu %d eip %x (cr2=0x%x)'' @ [CHR 0x0A, NUL]))
           [CInt (tf_trapno f), CInt (word_of_int (hw_cpu hw)), CInt (tf_eip f), CInt (hw_cr2 hw)])
         (panic ''trap'')
     | Some p \<Rightarrow>
         kbind (kget (\<lambda>s. procs s p)) (\<lambda>pr.
         kthen (cprintf (Some (''pid %d %s: trap %d err %d on cpu %d eip 0x%x addr 0x%x--kill proc'' @ [CHR 0x0A, NUL]))
           [CInt (word_of_int (pid pr)), CStr (Some (pname pr)), CInt (tf_trapno f), CInt (tf_err f),
            CInt (word_of_int (hw_cpu hw)), CInt (tf_eip f), CInt (hw_cr2 hw)])
         (upd_proc p (\<lambda>pr. pr\<lparr>killed := True\<rparr>))))"

definition interrupt :: "hwin \<Rightarrow> trapframe \<Rightarrow> ('z trapst_scheme, unit) kop" where
  "interrupt hw f =
     (let no = tf_trapno f in
      if no = 32 then timerintr (hw_cpu hw)
      else if no = 32 + 14 \<or> no = 32 + 15 then ret ()
      else if no = 32 + 1 then kbdintr (hw_keys hw)
      else if no = 32 + 4 then uartintr (hw_serial hw)
      else if no = 32 + 7 \<or> no = 32 + 31
      then cprintf (Some (''cpu%d: spurious interrupt at %x:%x'' @ [CHR 0x0A, NUL]))
             [CInt (word_of_int (hw_cpu hw)), CInt (ucast (tf_cs f)), CInt (tf_eip f)]
      else unexpected hw f)"

text \<open>\<open>if(myproc() && myproc()->killed && (tf->cs&3) == DPL_USER) exit()\<close>\<close>

definition exit_killed :: "trapframe \<Rightarrow> ('z files_scheme, unit) kop" where
  "exit_killed f =
     kbind myproc (\<lambda>mp. case mp of
       None \<Rightarrow> ret ()
     | Some p \<Rightarrow> kbind (kget (\<lambda>s. killed (procs s p))) (\<lambda>k. kwhen (k \<and> and (tf_cs f) 3 = 3) exit_proc))"

definition trap_syscall :: "kimage \<Rightarrow> trapframe \<Rightarrow> ('z trapst_scheme, unit) kop" where
  "trap_syscall im f =
     kbind mykilled (\<lambda>k1.
     kthen (kwhen k1 exit_proc)
     (kbind myproc (\<lambda>mp. kbind (klift mp) (\<lambda>me.
      kthen (upd_proc me (\<lambda>pr. pr\<lparr>tf := f\<rparr>))
     (kthen (syscall im)
     (kbind mykilled (\<lambda>k2. kwhen k2 exit_proc)))))))"

definition trap :: "kimage \<Rightarrow> hwin \<Rightarrow> trapframe \<Rightarrow> ('z trapst_scheme, unit) kop" where
  "trap im hw f =
     (if tf_trapno f = 64 then trap_syscall im f
      else
        kthen (interrupt hw f)
        (kthen (exit_killed f)
        (kthen (kbind myproc (\<lambda>mp. case mp of
            None \<Rightarrow> ret ()
          | Some p \<Rightarrow> kbind (kget (\<lambda>s. pstate (procs s p))) (\<lambda>st. kwhen (st = RUNNING \<and> tf_trapno f = 32) yield)))
        (exit_killed f))))"

section \<open>An example\<close>

text \<open>A kernel with the first process of the root container running.\<close>

definition trap_ex :: trapst where
  "trap_ex = procst.extend (files.extend files_ex (procst.fields False)) (trapst.fields 0 0)\<lparr>procs := procs rows_ex\<rparr>"

definition image_ex :: kimage where
  "image_ex = \<lparr>im_data = 0x80108000, im_forkret = 0x80103000, im_trapret = 0x80105000, im_initcode = (\<lambda>_. 0), im_initsize = 44\<rparr>"

lemma trap_ex_tables: "conts trap_ex = conts rows_ex" "curcont trap_ex = Some 0" "cur trap_ex = Some 0" "\<not> killed (procs trap_ex 0)"
proof -
  have eq: "conts trap_ex = conts rows_ex" "cur trap_ex = cur rows_ex" "procs trap_ex = procs rows_ex"
    using files_ex_fields rows_ex_facts(3) by (simp_all add: trap_ex_def procst.defs files.defs)
  then show "conts trap_ex = conts rows_ex" "cur trap_ex = Some 0" using rows_ex_facts(3) by simp_all
  show "curcont trap_ex = Some 0" using eq rows_ex_facts(2) by (simp add: curcont_def cong: option.case_cong)
  show "\<not> killed (procs trap_ex 0)" by (simp add: eq rows_ex_facts(6) example_defs)
qed

end
