(* ===== verification/Steps.thy ===== *)
theory Steps
  imports Container
begin

text \<open>
  What the file system and the console do to the container table. A relation between states that tolerates every
  change outside the table of containers (and outside the processes' membership in them) is obeyed by the operations on locks,
  buffers and the log (locale \<open>table_steps\<close>); if it also tolerates the two operations that change a disk account, it
  is obeyed by every operation up to path lookup (locale \<open>cont_steps\<close>). The lemmas go through the operations in
  the order of the code. Invariants of the container table and frame properties are instances.
\<close>

section \<open>The tables a step leaves alone\<close>

definition same_conts :: "'z ctab_scheme \<Rightarrow> 'z ctab_scheme \<Rightarrow> bool" where
  "same_conts s t \<longleftrightarrow> conts t = conts s \<and> nextcid t = nextcid s \<and> cur t = cur s \<and>
     (\<forall>p. pcont (procs t p) = pcont (procs s p))"

lemma same_conts_refl [simp]: "same_conts s s"
  by (simp add: same_conts_def)

lemma same_conts_trans: "same_conts s t \<Longrightarrow> same_conts t u \<Longrightarrow> same_conts s u"
  by (simp add: same_conts_def)

named_theorems steps \<open>operations that obey the relation\<close>

locale table_steps = step_rel R for R :: "'z console_scheme \<Rightarrow> 'z console_scheme \<Rightarrow> bool" +
  assumes same: "same_conts s t \<Longrightarrow> R s t"
begin

lemma steps_kmod [steps]: "(\<And>s. same_conts s (f s)) \<Longrightarrow> obeys R (kmod f)"
  by (rule rel_kmod) (rule same)

lemma steps_upd_proc [steps]: "(\<And>pr. pcont (f pr) = pcont pr) \<Longrightarrow> obeys R (upd_proc p f)"
  unfolding upd_proc_def by (rule steps_kmod) (simp add: same_conts_def)

lemma steps_prod [steps]: "(\<And>a b. obeys R (f a b)) \<Longrightarrow> obeys R (case x of (a, b) \<Rightarrow> f a b)"
  by (cases x) simp

lemma steps_let [steps]: "(\<And>x. obeys R (f x)) \<Longrightarrow> obeys R (let x = v in f x)"
  by (simp add: Let_def)

lemma steps_sum [steps]:
  "(\<And>a. obeys R (f a)) \<Longrightarrow> (\<And>b. obeys R (g b)) \<Longrightarrow> obeys R (case x of Inl a \<Rightarrow> f a | Inr b \<Rightarrow> g b)"
  by (cases x) simp_all

declare rel_ret [steps] rel_stop [steps] rel_panic [steps] rel_kget [steps] rel_klift [steps]
  rel_kbind [steps] rel_kthen [steps] rel_kwhen [steps] rel_if [steps] rel_kfor [steps] rel_option [steps]

section \<open>Locks, processes and buffers\<close>

lemma steps_holding [steps]: "obeys R (holding lk)"
  unfolding holding_def by (intro steps)

lemma steps_acquire [steps]: "obeys R (acquire lk)"
  unfolding acquire_def by (intro steps) (simp add: same_conts_def)

lemma steps_release [steps]: "obeys R (release lk)"
  unfolding release_def by (intro steps) (simp add: same_conts_def)

lemma steps_ptable [steps]: "obeys R acquireptable" "obeys R releaseptable"
  unfolding acquireptable_def releaseptable_def by (intro steps)+

lemma steps_myproc [steps]: "obeys R myproc"
  unfolding myproc_def by (intro steps)

lemma steps_mycont [steps]: "obeys R mycont"
  unfolding mycont_def by (intro steps)

lemma steps_wakeup1 [steps]: "obeys R (wakeup1 ch)"
  unfolding wakeup1_def wake_row_def wake_slot_def by (intro steps) simp

lemma steps_wakeup [steps]: "obeys R (wakeup ch)"
  unfolding wakeup_def by (intro steps)

lemma steps_sched [steps]: "obeys R sched"
  unfolding sched_def by (intro steps)

lemma steps_sleep [steps]: "obeys R (sleep ch lk)"
  unfolding sleep_def sleep_resume_def by (intro steps) simp_all

lemma steps_upd_slock [steps]: "obeys R (upd_slock l f)"
  unfolding upd_slock_def by (intro steps) (simp add: same_conts_def)

lemma steps_sleeplocks [steps]:
  "obeys R (initsleeplock l)" "obeys R (acquiresleep l)" "obeys R (releasesleep l)" "obeys R (holdingsleep l)"
  unfolding initsleeplock_def acquiresleep_def releasesleep_def holdingsleep_def by (intro steps)+

lemma steps_upd_buf [steps]: "obeys R (upd_buf b f)"
  unfolding upd_buf_def by (intro steps) (simp add: same_conts_def)

lemma steps_walk [steps]: "obeys R (walk r)"
  unfolding walk_def by (intro steps)

lemma steps_iderw [steps]: "obeys R (iderw b)"
  unfolding iderw_def disk_write_def by (intro steps) (simp add: same_conts_def)

lemma steps_bread [steps]: "obeys R (bread dev bn)"
  unfolding bread_def bget_def by (intro steps)

lemma steps_bwrite [steps]: "obeys R (bwrite b)"
  unfolding bwrite_def by (intro steps)

lemma steps_brelse [steps]: "obeys R (brelse b)"
  unfolding brelse_def by (intro steps) (simp add: same_conts_def)

lemma steps_readsb [steps]: "obeys R (readsb dev)"
  unfolding readsb_def by (intro steps)

section \<open>The log\<close>

lemma steps_log_parts [steps]:
  "obeys R (log_buf bn)" "obeys R (lh_at i)" "obeys R (copy_buf from to)"
  unfolding log_buf_def lh_at_def copy_buf_def by (intro steps)+

lemma steps_install_trans [steps]: "obeys R install_trans"
  unfolding install_trans_def install_step_def by (intro steps)

lemma steps_write_head [steps]: "obeys R write_head"
  unfolding write_head_def by (intro steps)

lemma steps_read_head [steps]: "obeys R read_head"
  unfolding read_head_def read_head_step_def by (intro steps) (simp_all add: same_conts_def)

lemma steps_initlog [steps]: "obeys R (initlog n)"
  unfolding initlog_def recover_from_log_def by (intro steps) (simp_all add: same_conts_def)

lemma steps_write_log [steps]: "obeys R write_log"
  unfolding write_log_def write_log_step_def by (intro steps)

lemma steps_commit [steps]: "obeys R commit"
  unfolding commit_def by (intro steps) (simp add: same_conts_def)

lemma steps_begin_op [steps]: "obeys R begin_op"
  unfolding begin_op_def by (intro steps) (simp add: same_conts_def)

lemma steps_end_op [steps]: "obeys R end_op"
  unfolding end_op_def by (intro steps) (simp_all add: same_conts_def)

lemma steps_log_write [steps]: "obeys R (log_write b)"
  unfolding log_write_def by (intro steps) (simp_all add: same_conts_def)

lemma steps_edit_block [steps]: "obeys R (edit_block dev bn f)"
  unfolding edit_block_def by (intro steps)

lemma steps_name2cont_loop [steps]: "obeys R (name2cont_loop name is)"
  by (induction "is") (simp_all only: name2cont_loop.simps, (intro steps | assumption)+)

lemma steps_name2cont [steps]: "obeys R (name2cont name)"
  unfolding name2cont_def by (intro steps)

lemma steps_find_unused [steps]: "obeys R (find_unused c ks)"
  by (induction ks) (simp_all only: find_unused.simps, (intro steps | assumption)+)

lemma steps_cstart_find [steps]: "obeys R (cstart_find name is)"
  by (induction "is") (simp_all only: cstart_find.simps, (intro steps | assumption)+)

end

interpretation tab: table_steps same_conts
  by unfold_locales (auto intro: same_conts_trans)

section \<open>Blocks and inodes\<close>

locale cont_steps = table_steps R for R :: "'z console_scheme \<Rightarrow> 'z console_scheme \<Rightarrow> bool" +
  assumes balloc_law: "obeys R (balloc dev)"
    and bfree_law: "obeys R (bfree dev b)"
begin

declare balloc_law [steps] bfree_law [steps]

lemma steps_upd_inode [steps]: "obeys R (upd_inode ip f)"
  unfolding upd_inode_def by (intro steps) (simp add: same_conts_def)

lemma steps_iinit [steps]: "obeys R (iinit dev)"
  unfolding iinit_def by (intro steps) (simp add: same_conts_def)

lemma steps_iget [steps]: "obeys R (iget dev inum)"
  unfolding iget_def by (intro steps)

lemma steps_ialloc_loop [steps]: "obeys R (ialloc_loop dev ty is)"
  by (induction "is") (simp_all only: ialloc_loop.simps, (intro steps | assumption)+)

lemma steps_ialloc [steps]: "obeys R (ialloc dev ty)"
  unfolding ialloc_def by (intro steps)

lemma steps_iupdate [steps]: "obeys R (iupdate ip)"
  unfolding iupdate_def by (intro steps)

lemma steps_idup [steps]: "obeys R (idup ip)"
  unfolding idup_def by (intro steps)

lemma steps_ilock [steps]: "obeys R (ilock mip)"
  unfolding ilock_def by (intro steps)

lemma steps_iunlock [steps]: "obeys R (iunlock mip)"
  unfolding iunlock_def by (intro steps)

lemma steps_bmap [steps]: "obeys R (bmap ip bn)"
  unfolding bmap_def by (intro steps)

lemma steps_itrunc [steps]: "obeys R (itrunc ip)"
  unfolding itrunc_def itrunc_direct_def itrunc_indirect_def by (intro steps)

lemma steps_iput [steps]: "obeys R (iput ip)"
  unfolding iput_def by (intro steps)

lemma steps_iunlockput [steps]: "obeys R (iunlockput ip)"
  unfolding iunlockput_def by (intro steps)

lemma steps_stati [steps]: "obeys R (stati ip)"
  unfolding stati_def by (intro steps)

section \<open>The console\<close>

lemma steps_upd_input [steps]: "obeys R (upd_input f)"
  unfolding upd_input_def by (intro steps) (simp add: same_conts_def)

lemma steps_consputc [steps]: "obeys R (consputc c)"
  unfolding consputc_def uartputc_def cgaputc_def by (intro steps) (simp_all add: same_conts_def)

lemma steps_cprintf [steps]: "obeys R (cprintf fmt args)"
  unfolding cprintf_def by (intro steps)

lemma steps_contdump [steps]: "obeys R contdump"
  unfolding contdump_def contdump_cont_def contdump_proc_def by (intro steps)

lemma steps_kill_line [steps]: "obeys R (kill_line n)"
  by (induction n) (simp_all only: kill_line.simps, (intro steps | assumption)+)

lemma steps_input_char [steps]: "obeys R (input_char c)"
  unfolding input_char_def by (intro steps)

lemma steps_nextconsole [steps]: "obeys R nextconsole"
  unfolding nextconsole_def by (intro steps) (simp_all add: same_conts_def)

lemma steps_consoleintr_loop [steps]: "obeys R (consoleintr_loop cs dump sw)"
  by (induction cs arbitrary: dump sw) (simp_all only: consoleintr_loop.simps, (intro steps | assumption)+)

lemma steps_consoleintr [steps]: "obeys R (consoleintr cs)"
  unfolding consoleintr_def by (intro steps)

lemma steps_consoleread_loop [steps]: "obeys R (consoleread_loop ip n got)"
  by (induction n arbitrary: got) (simp_all only: consoleread_loop.simps, (intro steps | assumption)+)

lemma steps_consoleread [steps]: "obeys R (consoleread ip n)"
  unfolding consoleread_def by (intro steps)

lemma steps_consolewrite [steps]: "obeys R (consolewrite ip bs)"
  unfolding consolewrite_def by (intro steps)

section \<open>Files, directories and paths\<close>

lemma steps_call_devread [steps]: "obeys R (call_devread f ip n)"
  by (cases f) (simp_all add: steps)

lemma steps_call_devwrite [steps]: "obeys R (call_devwrite f ip bs)"
  by (cases f) (simp_all add: steps)

lemma steps_read_chunks [steps]: "obeys R (read_chunks ip cs got)"
  by (induction cs arbitrary: got) (simp_all only: read_chunks.simps, (intro steps | assumption)+)

lemma steps_readi [steps]: "obeys R (readi ip off n)"
  unfolding readi_def by (intro steps)

lemma steps_write_chunks [steps]: "obeys R (write_chunks ip src off cs)"
  by (induction cs) (simp_all only: write_chunks.simps, (intro steps | assumption)+)

lemma steps_writei [steps]: "obeys R (writei ip src off n)"
  unfolding writei_def by (intro steps)

lemma steps_read_dirent [steps]: "obeys R (read_dirent msg dp off)"
  unfolding read_dirent_def by (intro steps)

lemma steps_dirlookup_loop [steps]: "obeys R (dirlookup_loop dp name offs)"
  by (induction offs) (simp_all only: dirlookup_loop.simps, (intro steps | assumption)+)

lemma steps_dirlookup [steps]: "obeys R (dirlookup dp name)"
  unfolding dirlookup_def by (intro steps)

lemma steps_dirlink_slot [steps]: "obeys R (dirlink_slot dp fin offs)"
  by (induction offs) (simp_all only: dirlink_slot.simps, (intro steps | assumption)+)

lemma steps_dirlink [steps]: "obeys R (dirlink dp name inum)"
  unfolding dirlink_def by (intro steps)

lemma steps_namex_loop [steps]: "obeys R (namex_loop par iroot nm ip es)"
  by (induction es arbitrary: nm ip) (simp_all only: namex_loop.simps, (intro steps | assumption)+)

lemma steps_namex [steps]: "obeys R (namex path par)"
  unfolding namex_def by (intro steps)

lemma steps_namei [steps]: "obeys R (namei path)"
  unfolding namei_def by (intro steps)

lemma steps_nameiparent [steps]: "obeys R (nameiparent path)"
  unfolding nameiparent_def by (intro steps)

lemma steps_dirsize_loop [steps]: "obeys R (dirsize_loop dp name tot offs)"
  by (induction offs arbitrary: tot) (simp_all only: dirsize_loop.simps, (intro steps | assumption)+)

lemma steps_dirsize [steps]: "obeys R (dirsize dp name)"
  unfolding dirsize_def by (intro steps)

end

end
