(* ===== verification/Kernel.thy ===== *)
theory Kernel
  imports Trap Steps
begin

text \<open>
  The whole kernel as one step: whatever \<open>trap\<close> does, for any system call with any arguments and for any interrupt, it
  changes the container table only through the operations named in the locale \<open>kern_steps\<close>. Its lemmas
  continue those of \<open>cont_steps\<close> through memory, pipes, files, processes and system calls up to \<open>trap\<close>.
\<close>

locale kern_steps = cont_steps R for R :: "'z trapst_scheme \<Rightarrow> 'z trapst_scheme \<Rightarrow> bool" +
  assumes kalloc_law: "obeys R kalloc"
    and kfree_law: "obeys R (kfree v)"
    and ckill_law: "obeys R (ckill c)"
    and allocproc_law: "obeys R (allocproc im c)"
    and uproc_law: "obeys R (upd_cont c (\<lambda>x. x\<lparr>uproc := uproc x - 1\<rparr>))"
    and pause_law: "obeys R (upd_cont c (\<lambda>x. x\<lparr>cstate := CPAUSED\<rparr>))"
    and resume_law: "obeys R (upd_cont c (\<lambda>x. x\<lparr>cstate := CRUNNABLE\<rparr>))"
    and ccreate_law: "obeys R (ccreate name mp mz md)"
    and cstart_law: "obeys R (cstart name)"
begin

declare kalloc_law [steps] kfree_law [steps] ckill_law [steps] allocproc_law [steps] uproc_law [steps] pause_law [steps]
  resume_law [steps] ccreate_law [steps] cstart_law [steps]

section \<open>Memory\<close>

lemma steps_mem [steps]: "obeys R (load a)" "obeys R (store a v)" "obeys R (zero_page a)" "obeys R (copy_page a b)"
  unfolding load_def store_def zero_page_def copy_page_def by (intro steps | simp add: same_conts_def)+

lemma steps_walkpgdir [steps]: "obeys R (walkpgdir pd va al)"
  unfolding walkpgdir_def by (intro steps)

lemma steps_mappages_loop [steps]: "obeys R (mappages_loop n pd a fin pa perm)"
  by (induction n arbitrary: a pa) (simp_all only: mappages_loop.simps, (intro steps | assumption)+)

lemma steps_mappages [steps]: "obeys R (mappages pd va len pa perm)"
  unfolding mappages_def by (intro steps)

lemma steps_dealloc_loop [steps]: "obeys R (dealloc_loop n pd a oldsz)"
  by (induction n arbitrary: a) (simp_all only: dealloc_loop.simps, (intro steps | assumption)+)

lemma steps_deallocuvm [steps]: "obeys R (deallocuvm pd oldsz newsz)"
  unfolding deallocuvm_def by (intro steps)

lemma steps_freevm [steps]: "obeys R (freevm pd)"
  unfolding freevm_def freevm_entry_def by (intro steps)

lemma steps_setupkvm_loop [steps]: "obeys R (setupkvm_loop pd ks)"
  by (induction ks) (simp_all only: setupkvm_loop.simps, (intro steps | assumption)+)

lemma steps_setupkvm [steps]: "obeys R (setupkvm kdata)"
  unfolding setupkvm_def by (intro steps)

lemma steps_allocuvm_loop [steps]: "obeys R (allocuvm_loop n pd a oldsz newsz)"
  by (induction n arbitrary: a) (simp_all only: allocuvm_loop.simps, (intro steps | assumption)+)

lemma steps_allocuvm [steps]: "obeys R (allocuvm pd oldsz newsz)"
  unfolding allocuvm_def by (intro steps)

lemma steps_clearpteu [steps]: "obeys R (clearpteu pd va)"
  unfolding clearpteu_def by (intro steps)

lemma steps_copyuvm_loop [steps]: "obeys R (copyuvm_loop pd d ks)"
  by (induction ks) (simp_all only: copyuvm_loop.simps, (intro steps | assumption)+)

lemma steps_copyuvm [steps]: "obeys R (copyuvm kdata pd len)"
  unfolding copyuvm_def by (intro steps)

lemma steps_copyout_loop [steps]: "obeys R (copyout_loop n pd va p k len)"
  by (induction n arbitrary: va k len)
    (simp_all only: copyout_loop.simps uva2ka_def, (intro steps | assumption | simp add: same_conts_def)+)

lemma steps_copyout [steps]: "obeys R (copyout pd va p len)"
  unfolding copyout_def by (intro steps)

lemma steps_switchuvm [steps]: "obeys R (switchuvm mp)"
  unfolding switchuvm_def by (intro steps) (simp add: same_conts_def)

lemma steps_user [steps]: "obeys R (uget va)" "obeys R (uput va v)" "obeys R (uget32 va)" "obeys R (uput32 va w)" "obeys R (uput16 va h)"
  unfolding uget32_def uput32_def uput16_def uget_def uput_def by (intro steps | simp add: same_conts_def)+

lemma steps_uput_bytes [steps]: "obeys R (uput_bytes va bs)"
  by (induction bs arbitrary: va) (simp_all only: uput_bytes.simps, (intro steps | assumption)+)

lemma steps_uget_bytes [steps]: "obeys R (uget_bytes va n)"
  by (induction n arbitrary: va) (simp_all only: uget_bytes.simps, (intro steps | assumption)+)

section \<open>Pipes and files\<close>

lemma steps_upd_file [steps]: "obeys R (upd_file k f)" "obeys R (upd_pipe p g)"
  unfolding upd_file_def upd_pipe_def by (intro steps | simp add: same_conts_def)+

lemma steps_mykilled [steps]: "obeys R mykilled"
  unfolding mykilled_def by (intro steps)

lemma steps_pipeclose [steps]: "obeys R (pipeclose p w)"
  unfolding pipeclose_def by (intro steps)

lemma steps_pipewrite_loop [steps]: "obeys R (pipewrite_loop p n cs)"
  by (induction cs) (simp_all only: pipewrite_loop.simps, (intro steps | assumption)+)

lemma steps_pipewrite [steps]: "obeys R (pipewrite p src n)"
  unfolding pipewrite_def by (intro steps)

lemma steps_piperead_copy [steps]: "obeys R (piperead_copy p n got)"
  by (induction n arbitrary: got) (simp_all only: piperead_copy.simps, (intro steps | assumption)+)

lemma steps_piperead [steps]: "obeys R (piperead p n)"
  unfolding piperead_def piperead_body_def by (intro steps)

lemma steps_filealloc [steps]: "obeys R filealloc"
  unfolding filealloc_def by (intro steps)

lemma steps_filedup [steps]: "obeys R (filedup k)"
  unfolding filedup_def by (intro steps)

lemma steps_fileclose [steps]: "obeys R (fileclose k)"
  unfolding fileclose_def by (intro steps)

lemma steps_pipealloc [steps]: "obeys R pipealloc"
  unfolding pipealloc_def pipe_bad_def by (intro steps)

lemma steps_fdtype [steps]:
  "obeys R a \<Longrightarrow> obeys R b \<Longrightarrow> obeys R c \<Longrightarrow> obeys R (case x of FD_NONE \<Rightarrow> a | FD_PIPE \<Rightarrow> b | FD_INODE \<Rightarrow> c)"
  by (cases x) simp_all

lemma steps_filestat [steps]: "obeys R (filestat k)"
  unfolding filestat_def by (intro steps)

lemma steps_fileread [steps]: "obeys R (fileread k n)"
  unfolding fileread_def by (intro steps)

lemma steps_filewrite_loop [steps]: "obeys R (filewrite_loop fuel k ip src n i)"
  by (induction fuel arbitrary: i) (simp_all only: filewrite_loop.simps, (intro steps | assumption)+)

lemma steps_filewrite [steps]: "obeys R (filewrite k src n)"
  unfolding filewrite_def by (intro steps)

end

context kern_steps
begin

section \<open>Processes and programs\<close>

lemma steps_growproc [steps]: "obeys R (growproc n)"
  unfolding growproc_def by (intro steps) simp

lemma steps_dup_ofile [steps]: "obeys R (dup_ofile me np fd)"
  unfolding dup_ofile_def by (intro steps) simp

lemma steps_fork_copy [steps]: "obeys R (fork_copy me np par w pd)"
  unfolding fork_copy_def by (intro steps) simp_all

lemma steps_fork [steps]: "obeys R (fork im pc)"
  unfolding fork_def by (intro steps) simp_all

lemma steps_close_ofile [steps]: "obeys R (close_ofile me fd)"
  unfolding close_ofile_def by (intro steps) simp

lemma steps_pass_child [steps]: "obeys R (pass_child me c k)"
  unfolding pass_child_def by (intro steps) simp

lemma steps_exit_proc [steps]: "obeys R exit_proc"
  unfolding exit_proc_def exit_zombie_def by (intro steps) simp_all

lemma steps_reap [steps]: "obeys R (reap p)"
  unfolding reap_def by (intro steps) simp_all

lemma steps_wait_scan [steps]: "obeys R (wait_scan me c ks h)"
  by (induction ks arbitrary: h) (simp_all only: wait_scan.simps, (intro steps | assumption)+)

lemma steps_wait [steps]: "obeys R wait"
  unfolding wait_def wait_round_def by (intro steps)

lemma steps_yield [steps]: "obeys R yield"
  unfolding yield_def by (intro steps) simp

lemma steps_kill_loop [steps]: "obeys R (kill_loop c n ks)"
  by (induction ks) (simp_all only: kill_loop.simps, (intro steps | assumption | simp)+)

lemma steps_kill [steps]: "obeys R (kill n)"
  unfolding kill_def by (intro steps)

lemma steps_loaduvm_loop [steps]: "obeys R (loaduvm_loop pd a ip off len ks)"
  by (induction ks) (simp_all only: loaduvm_loop.simps, (intro steps | assumption | simp add: same_conts_def)+)

lemma steps_loaduvm [steps]: "obeys R (loaduvm pd a ip off len)"
  unfolding loaduvm_def by (intro steps)

lemma steps_exec_bad [steps]: "obeys R (exec_bad pd mip)"
  unfolding exec_bad_def by (intro steps)

lemma steps_exec_segments [steps]: "obeys R (exec_segments pd ip sz0 off is)"
  by (induction "is" arbitrary: sz0 off) (simp_all only: exec_segments.simps, (intro steps | assumption)+)

lemma steps_exec_args [steps]: "obeys R (exec_args pd sp ptrs as)"
  by (induction as arbitrary: sp ptrs) (simp_all only: exec_args.simps, (intro steps | assumption)+)

lemma steps_exec_commit [steps]: "obeys R (exec_commit me path pd sz1 entry sp)"
  unfolding exec_commit_def by (intro steps) simp_all

lemma steps_exec_stack [steps]: "obeys R (exec_stack me path argv pd entry sz0)"
  unfolding exec_stack_def by (intro steps)

lemma steps_exec [steps]: "obeys R (exec im path argv)"
  unfolding exec_def by (intro steps)

section \<open>System calls\<close>

lemma steps_mysz [steps]: "obeys R mysz"
  unfolding mysz_def by (intro steps)

lemma steps_fetchint [steps]: "obeys R (fetchint a)"
  unfolding fetchint_def by (intro steps)

lemma steps_fetchstr_loop [steps]: "obeys R (fetchstr_loop n a got)"
  by (induction n arbitrary: a got) (simp_all only: fetchstr_loop.simps, (intro steps | assumption)+)

lemma steps_args [steps]: "obeys R (fetchstr a)" "obeys R (argint n)" "obeys R (argptr n len)" "obeys R (argstr n)"
  unfolding argptr_def argstr_def argint_def fetchstr_def by (intro steps)+

lemma steps_sysproc [steps]:
  "obeys R (sys_fork im)" "obeys R sys_exit" "obeys R sys_wait" "obeys R sys_kill" "obeys R sys_getpid" "obeys R sys_sbrk"
  "obeys R sys_sleep" "obeys R sys_uptime" "obeys R sys_getticks"
  unfolding sys_fork_def sys_exit_def sys_wait_def sys_kill_def sys_getpid_def sys_sbrk_def sys_sleep_def sleep_round_def
    sys_uptime_def sys_getticks_def by (intro steps)+

lemma steps_fds [steps]: "obeys R (argfd n)" "obeys R (fdalloc f)" "obeys R (clear_fd fd)" "obeys R arg_buffer"
  unfolding arg_buffer_def argfd_def fdalloc_def clear_fd_def by (intro steps | simp)+

lemma steps_io [steps]: "obeys R sys_dup" "obeys R sys_read" "obeys R sys_write" "obeys R sys_close" "obeys R sys_fstat"
  unfolding sys_dup_def sys_read_def sys_write_def sys_close_def sys_fstat_def uput_stat_def by (intro steps)+

lemma steps_fails [steps]: "obeys R end_fail" "obeys R (put_fail ip)" "obeys R (upd_nlink ip d)" "obeys R (link_bad ip)"
  unfolding link_bad_def put_fail_def end_fail_def upd_nlink_def by (intro steps)+

lemma steps_sys_link [steps]: "obeys R sys_link"
  unfolding sys_link_def do_link_def by (intro steps)

lemma steps_isdirempty_loop [steps]: "obeys R (isdirempty_loop dp offs)"
  by (induction offs) (simp_all only: isdirempty_loop.simps, (intro steps | assumption)+)

lemma steps_sys_unlink [steps]: "obeys R sys_unlink"
  unfolding sys_unlink_def do_unlink_def isdirempty_def by (intro steps)

lemma steps_create [steps]: "obeys R (create path ty mj mn)"
  unfolding create_def create_new_def by (intro steps)

lemma steps_sys_open [steps]: "obeys R sys_open"
  unfolding sys_open_def open_inode_def open_file_def by (intro steps)

lemma steps_sys_dirs [steps]: "obeys R sys_mkdir" "obeys R sys_mknod" "obeys R sys_chdir"
  unfolding sys_mkdir_def sys_mknod_def sys_chdir_def create_put_def by (intro steps | simp)+

lemma steps_fetch_argv [steps]: "obeys R (fetch_argv n a got)"
  by (induction n arbitrary: a got) (simp_all only: fetch_argv.simps, (intro steps | assumption)+)

lemma steps_sys_exec [steps]: "obeys R (sys_exec im)"
  unfolding sys_exec_def by (intro steps)

lemma steps_sys_pipe [steps]: "obeys R sys_pipe"
  unfolding sys_pipe_def pipe_fds_bad_def by (intro steps)

lemma steps_cont_calls [steps]: "obeys R (cstop name)" "obeys R (cpause name)" "obeys R (cresume name)"
  unfolding cstop_def cpause_def cresume_def by (intro steps)+

lemma steps_cinfo [steps]: "obeys R (cinfo ci)"
  unfolding cinfo_def by (intro steps)

lemma steps_sys_cinfo [steps]: "obeys R sys_cinfo"
  unfolding sys_cinfo_def uget_names_def uput_cinfo_def uput_pinfo_def by (intro steps)

lemma steps_sys_conts [steps]:
  "obeys R sys_ccreate" "obeys R sys_cstart" "obeys R (sys_cfork im)" "obeys R sys_cpause" "obeys R sys_cresume" "obeys R sys_cstop"
  unfolding sys_ccreate_def sys_cstart_def sys_cfork_def sys_cpause_def sys_cresume_def sys_cstop_def with_name_def bad_args_def
    cfork_def cid2cont_def by (intro steps)+

lemma steps_syscalls: "syscalls im n = Some f \<Longrightarrow> obeys R f"
  unfolding syscalls_def by (simp split: if_splits) (auto simp: steps)

lemma steps_syscall [steps]: "obeys R (syscall im)"
  unfolding syscall_def set_eax_def by (intro steps) (auto simp: steps_syscalls)

section \<open>Traps\<close>

lemma steps_interrupts [steps]: "obeys R (kbdintr ks)" "obeys R (uartintr bs)" "obeys R (timerintr c)" "obeys R (unexpected hw f)"
  unfolding kbdintr_def uartintr_def timerintr_def unexpected_def by (intro steps | simp add: same_conts_def)+

lemma steps_interrupt [steps]: "obeys R (interrupt hw f)"
  unfolding interrupt_def by (intro steps)

lemma steps_exit_killed [steps]: "obeys R (exit_killed f)"
  unfolding exit_killed_def by (intro steps)

lemma steps_trap_syscall [steps]: "obeys R (trap_syscall im f)"
  unfolding trap_syscall_def by (intro steps) simp

lemma steps_trap: "obeys R (trap im hw f)"
  unfolding trap_def by (intro steps)

end

end
