(* ===== verification/Return.thy ===== *)
theory Return
  imports Kernel
begin

text \<open>
  Who returns from a trap. The processor keeps running the process that trapped until the kernel returns or switches,
  and the kernel does not return to a process that has been killed: \<open>exit\<close> never returns.
\<close>

section \<open>The running process\<close>

text \<open>
  A relation that does not look at the containers is respected by the whole kernel: the operations that change them
  are built from \<open>upd_cont\<close>.
\<close>

locale free_steps = table_steps R for R :: "'z trapst_scheme \<Rightarrow> 'z trapst_scheme \<Rightarrow> bool" +
  assumes upd_cont_free: "obeys R (upd_cont c f)"
    and upd_proc_free: "obeys R (upd_proc p g)"
    and nextcid_free: "obeys R (kmod (\<lambda>s. s\<lparr>nextcid := n s\<rparr>))"
begin

declare upd_cont_free [steps] upd_proc_free [steps] nextcid_free [steps]

lemma free_ckill [steps]: "obeys R (ckill c)"
  unfolding ckill_def by (intro steps)

lemma free_bzero [steps]: "obeys R (bzero dev b)"
  unfolding bzero_def by (intro steps)

lemma free_balloc_loop [steps]: "obeys R (balloc_loop dev c bs)"
  by (induction bs) (simp_all only: balloc_loop.simps, (intro steps | assumption)+)

lemma free_blocks: "obeys R (balloc dev)" "obeys R (bfree dev b)"
  unfolding balloc_def bfree_def by (intro steps | simp add: same_conts_def)+

lemma free_pages: "obeys R kalloc" "obeys R (kfree v)"
  unfolding kalloc_def kfree_def by (intro steps | simp add: same_conts_def)+

end

sublocale free_steps \<subseteq> cont_steps R
  by unfold_locales (rule free_blocks)+

context free_steps
begin

lemma free_allocproc: "obeys R (allocproc im c)"
  unfolding allocproc_def store_def by (intro steps free_pages | simp add: same_conts_def)+

lemma free_ccreate: "obeys R (ccreate name mp mz md)"
  unfolding ccreate_def ccreate_fill_def alloccont_def by (intro steps)

lemma free_cstart: "obeys R (cstart name)"
  unfolding cstart_def by (intro steps)

end

sublocale free_steps \<subseteq> kern_steps R
  by unfold_locales (rule free_pages free_ckill free_allocproc upd_cont_free free_ccreate free_cstart)+

text \<open>The running process is one such relation.\<close>

interpretation runs: free_steps "\<lambda>s t. cur t = cur (s :: 'z trapst_scheme)"
  by unfold_locales (auto simp: same_conts_def obeys_def kexec)

section \<open>\<open>exit\<close> does not return\<close>

text \<open>If the operation returns, it does so in a state with \<open>Q\<close>; with \<open>Q\<close> false it never returns.\<close>

definition returns :: "('s, 'a) kop \<Rightarrow> ('s \<Rightarrow> bool) \<Rightarrow> bool" where
  "returns m Q \<longleftrightarrow> (\<forall>s a t. m s = Ok a t \<longrightarrow> Q t)"

lemma returns_Ok: "returns m Q \<Longrightarrow> m s = Ok a t \<Longrightarrow> Q t"
  by (simp add: returns_def)

lemma returns_intros:
  "returns (panic msg) Q" "returns (stop h) Q"
  "(\<And>a. returns (f a) Q) \<Longrightarrow> returns (kbind m f) Q"
  "returns n Q \<Longrightarrow> returns (kthen m n) Q"
  "returns m Q \<Longrightarrow> returns n Q \<Longrightarrow> returns (if c then m else n) Q"
  by (auto simp: returns_def kexec split: res.splits)

lemma exit_proc_noret: "returns exit_proc (\<lambda>_. False)"
  unfolding exit_proc_def exit_zombie_def by (intro returns_intros)

lemma exit_unless:
  assumes "kwhen c exit_proc s = Ok () t"
  shows "\<not> c \<and> t = s"
proof (cases c)
  case True
  with assms have "exit_proc s = Ok () t" by (simp add: kwhen_exec)
  with returns_Ok [OF exit_proc_noret] show ?thesis by blast
next
  case False
  with assms show ?thesis by (simp add: kwhen_exec)
qed

text \<open>The process that runs has not been killed.\<close>

definition alive :: "'z ctab_scheme \<Rightarrow> bool" where
  "alive s \<longleftrightarrow> (\<forall>p. cur s = Some p \<longrightarrow> \<not> killed (procs s p))"

lemma mykilled_alive: "returns (kbind mykilled (\<lambda>k. kwhen k exit_proc)) (alive :: 'z files_scheme \<Rightarrow> bool)"
proof -
  have "alive t" if "kbind mykilled (\<lambda>k. kwhen k exit_proc) s = Ok () t" for s t :: "'z files_scheme"
  proof (cases "cur s")
    case None
    with that show ?thesis by (simp add: mykilled_def kbind_exec myproc_exec klift_exec)
  next
    case (Some p)
    with that have "kwhen (killed (procs s p)) exit_proc s = Ok () t" by (simp add: kbind_exec mykilled_exec)
    from exit_unless [OF this] Some show ?thesis by (simp add: alive_def)
  qed
  then show ?thesis by (simp add: returns_def)
qed

lemma exit_killed_alive:
  assumes "and (tf_cs f) 3 = 3" and "exit_killed f s = Ok () t"
  shows "t = s \<and> alive t"
proof (cases "cur s")
  case None
  then show ?thesis using assms(2) by (simp add: exit_killed_def kbind_exec myproc_exec ret_exec alive_def)
next
  case (Some p)
  then have "kwhen (killed (procs s p)) exit_proc s = Ok () t"
    using assms by (simp add: exit_killed_def kbind_exec myproc_exec kget_exec)
  from exit_unless [OF this] Some show ?thesis by (simp add: alive_def)
qed

section \<open>The return from a trap\<close>

text \<open>A trap number the kernel has no handler for.\<close>

definition unexpected_no :: "uint \<Rightarrow> bool" where
  "unexpected_no n \<longleftrightarrow> n \<notin> {32, 33, 36, 39, 46, 47, 63, 64}"

lemma obeys_Ok: "obeys R m \<Longrightarrow> m s = Ok a t \<Longrightarrow> R s t"
  unfolding obeys_def by (metis res_state.simps(1))

lemma unexpected_kills:
  assumes "unexpected hw f s = Ok () (t :: 'z trapst_scheme)"
  shows "\<not> alive t \<and> and (tf_cs f) 3 \<noteq> 0"
proof -
  have keep: "cur u = cur s" if "cprintf fmt args s = Ok () (u :: 'z trapst_scheme)" for fmt args u
    using obeys_Ok [OF runs.steps_cprintf that] .
  let ?mp = "if and (tf_cs f) 3 = 0 then None else cur s"
  show ?thesis
  proof (cases ?mp)
    case None
    obtain m :: "('z trapst_scheme, unit) kop" where "kthen m (panic ''trap'') s = Ok () t"
      using assms unfolding unexpected_def kbind_exec myproc_exec res.case None option.case by (rule that)
    then show ?thesis by (rule returns_Ok [OF returns_intros(4) [OF returns_intros(1)]])
  next
    case (Some p)
    then have p: "cur s = Some p" "and (tf_cs f) 3 \<noteq> 0" by (simp_all split: if_splits)
    obtain fmt args where "kthen (cprintf fmt args) (upd_proc p (\<lambda>pr. pr\<lparr>killed := True\<rparr>)) s = Ok () t"
      using assms unfolding unexpected_def kbind_exec myproc_exec res.case Some option.case kget_exec by (rule that)
    then show ?thesis using keep p by (auto simp: kthen_exec upd_proc_exec alive_def split: res.splits)
  qed
qed

lemma trap_syscall_alive: "returns (trap_syscall im f) alive"
  unfolding trap_syscall_def by (intro returns_intros mykilled_alive)

lemma interrupt_unexpected: "unexpected_no (tf_trapno f) \<Longrightarrow> interrupt hw f = unexpected hw f"
  by (simp add: interrupt_def unexpected_no_def)



end
