(* ===== verification/User.thy ===== *)
theory User
  imports Console
begin

text \<open>
  The library of the user programs: \<^verbatim>\<open>ulib.c\<close>, \<^verbatim>\<open>printf.c\<close> and \<^verbatim>\<open>umalloc.c\<close>. A program is a state
  transformer on its own state, in which the system calls it has made are a list, and the answers of the kernel still to
  come another: a system call takes the next answer. When there is none, or it is not one the kernel gives
  to that call, the program stops with \<open>Spin\<close>, still waiting; the end of the process is the stop \<open>Switch\<close>. An array of characters is
  a list, as in the kernel's \<^verbatim>\<open>string.c\<close>, and a read or write outside it, like any undefined behaviour, the stop \<open>Fault\<close>.
\<close>

section \<open>System calls\<close>

datatype ucall =
    UExit | UFork | UWait | UPipe | URead int int | UWrite int "char list" | UWriteNeg int int | UClose int | UKill int
  | UExec "char list" "char list list" | UOpen "char list" int | UMknod "char list" int int | UUnlink "char list"
  | UFstat int | ULink "char list" "char list" | UMkdir "char list" | UChdir "char list" | UDup int | USbrk uint | USleep int
  | UCcreate "char list" int int int | UCstart "char list" | UCfork int | UCpause "char list" | UCresume "char list"
  | UCstop "char list" | UCinfo

datatype ureply = RInt int | RData "char list" | RStat stat | RInfo continfo | RFds int int

record uheader =
  h_ptr :: uint
  h_size :: uint

record uworld =
  ucalls :: "ucall list"
  ureplies :: "ureply list"
  uheap :: "uint \<Rightarrow> uheader"       \<comment> \<open>the headers of \<^verbatim>\<open>umalloc.c\<close> by address\<close>
  ubase :: uint                    \<comment> \<open>\<open>&base\<close>\<close>
  ufreep :: uint                   \<comment> \<open>\<open>freep\<close>\<close>

definition usys :: "ucall \<Rightarrow> (uworld, ureply) kop" where
  "usys c =
     kbind (kget ureplies) (\<lambda>rs. case rs of
       [] \<Rightarrow> stop Spin
     | r # rs' \<Rightarrow> kthen (kmod (\<lambda>s. s\<lparr>ucalls := ucalls s @ [c], ureplies := rs'\<rparr>)) (ret r))"

text \<open>Calls that return a number, a read of at most \<open>n\<close> bytes, and the two calls that do not return.\<close>

definition ucall_int :: "ucall \<Rightarrow> (uworld, int) kop" where
  "ucall_int c = kbind (usys c) (\<lambda>r. case r of RInt n \<Rightarrow> ret n | _ \<Rightarrow> stop Spin)"

definition uread :: "int \<Rightarrow> int \<Rightarrow> (uworld, int \<times> char list) kop" where
  "uread fd n =
     kbind (usys (URead fd n)) (\<lambda>r. case r of
       RInt e \<Rightarrow> if e < 0 then ret (e, []) else stop Spin
     | RData cs \<Rightarrow> if int (length cs) \<le> n then ret (int (length cs), cs) else stop Spin
     | _ \<Rightarrow> stop Spin)"

definition uexit :: "(uworld, 'a) kop" where
  "uexit = kthen (kmod (\<lambda>s. s\<lparr>ucalls := ucalls s @ [UExit]\<rparr>)) (stop Switch)"

definition uexec :: "char list \<Rightarrow> char list list \<Rightarrow> (uworld, int) kop" where
  "uexec path args = kbind (ucall_int (UExec path args)) (\<lambda>r. if r < 0 then ret r else stop Switch)"

text \<open>The string at a pointer.\<close>

definition ustr :: "char list \<Rightarrow> (uworld, char list) kop" where
  "ustr s = klift (cstr_out s)"

text \<open>A loop, from \<open>a\<close> on, until its body gives a result. Every turn of the loops of the programs makes a system call;
  one that does not would run forever in the same state.\<close>

function uloop :: "('a \<Rightarrow> (uworld, 'a + 'b) kop) \<Rightarrow> 'a \<Rightarrow> (uworld, 'b) kop" where
  "uloop body a s =
     (case body a s of
        Stop h t \<Rightarrow> Stop h t
      | Ok (Inr b) t \<Rightarrow> Ok b t
      | Ok (Inl a') t \<Rightarrow> if length (ureplies t) < length (ureplies s) then uloop body a' t else Stop Spin t)"
  by pat_completeness auto
termination
  by (relation "measure (\<lambda>(body, a, s). length (ureplies s))") auto

declare uloop.simps [simp del]

text \<open>The arguments of a program; behind the last there is a null pointer.\<close>

definition arg :: "char list list \<Rightarrow> nat \<Rightarrow> (uworld, char list) kop" where
  "arg argv i = klift (if i < length argv then Some (argv ! i) else None)"

abbreviation (input) NL :: "char list" where "NL \<equiv> [CHR 0x0A]"

section \<open>\<^verbatim>\<open>ulib.c\<close>\<close>

fun strcpy :: "char list \<Rightarrow> char list \<Rightarrow> char list option" where
  "strcpy (_ # s) (c # t) = (if c = NUL then Some (NUL # s) else map_option (Cons c) (strcpy s t))"
| "strcpy s t = None"

fun strcmp :: "char list \<Rightarrow> char list \<Rightarrow> int option" where
  "strcmp (a # p) (b # q) = (if a \<noteq> NUL \<and> a = b then strcmp p q else Some (uchar a - uchar b))"
| "strcmp p q = None"

text \<open>The distance to the first \<open>c\<close>, or \<open>None\<close> for a null pointer.\<close>

fun strchr :: "char list \<Rightarrow> char \<Rightarrow> nat option option" where
  "strchr [] c = None"
| "strchr (a # s) c =
     (if a = NUL then Some None else if a = c then Some (Some 0) else map_option (map_option Suc) (strchr s c))"

definition memset_u :: "char list \<Rightarrow> char \<Rightarrow> nat \<Rightarrow> char list option" where
  "memset_u s c n = (if n \<le> length s then Some (replicate n c @ drop n s) else None)"

primrec gets_loop :: "nat \<Rightarrow> char list \<Rightarrow> (uworld, char list) kop" where
  "gets_loop 0 got = ret got"
| "gets_loop (Suc n) got =
     kbind (uread 0 1) (\<lambda>(cc, cs).
     if cc < 1 then ret got
     else if hd cs = CHR 0x0A \<or> hd cs = CHR 0x0D then ret (got @ [hd cs])
     else gets_loop n (got @ [hd cs]))"

definition gets :: "char list \<Rightarrow> int \<Rightarrow> (uworld, char list) kop" where
  "gets buf lim =
     kbind (gets_loop (nat (lim - 1)) []) (\<lambda>got.
     if length got < length buf then ret (got @ NUL # drop (Suc (length got)) buf) else stop Fault)"

definition stat_u :: "char list \<Rightarrow> (uworld, stat option) kop" where
  "stat_u n =
     kbind (ustr n) (\<lambda>path.
     kbind (ucall_int (UOpen path 0)) (\<lambda>fd.
     if fd < 0 then ret None
     else
       kbind (usys (UFstat fd)) (\<lambda>r.
       kthen (ucall_int (UClose fd))
       (case r of RStat st \<Rightarrow> ret (Some st) | RInt e \<Rightarrow> if e < 0 then ret None else stop Spin | _ \<Rightarrow> stop Spin))))"

text \<open>\<open>None\<close> is an overflow of \<open>int\<close> or a string without an end.\<close>

fun atoi_loop :: "int \<Rightarrow> char list \<Rightarrow> int option" where
  "atoi_loop n [] = None"
| "atoi_loop n (c # s) =
     (if 48 \<le> uchar c \<and> uchar c \<le> 57
      then let m = n * 10 + uchar c - 48 in if n * 10 + uchar c \<le> 2147483647 then atoi_loop m s else None
      else Some n)"

definition atoi :: "char list \<Rightarrow> int option" where
  "atoi s = atoi_loop 0 s"

definition memmove_u :: "char list \<Rightarrow> char list \<Rightarrow> int \<Rightarrow> char list option" where
  "memmove_u dst src n =
     (let k = nat n in if k \<le> length dst \<and> k \<le> length src then Some (take k src @ drop k dst) else None)"

text \<open>The loop of \<open>itoa\<close> with \<open>n\<close> bytes of \<open>tmp\<close> free; the digits so far are in printing order.\<close>

primrec itoa_loop :: "nat \<Rightarrow> nat \<Rightarrow> nat \<Rightarrow> char list \<Rightarrow> char list option" where
  "itoa_loop 0 v radix ds = (if v = 0 \<and> ds \<noteq> [] then Some ds else None)"
| "itoa_loop (Suc n) v radix ds =
     (if v = 0 \<and> ds \<noteq> [] then Some ds
      else if radix = 0 then None
      else let i = v mod radix in itoa_loop n (v div radix) radix (char_of (if i < 10 then i + 48 else i + 97 - 10) # ds))"

definition itoa :: "int \<Rightarrow> nat \<Rightarrow> char list option" where
  "itoa value radix =
     (let sign = radix = 10 \<and> value < 0 in
      if sign \<and> value = - 2147483648 then None
      else map_option (\<lambda>ds. if sign then CHR ''-'' # ds else ds)
        (itoa_loop 16 (nat (if sign then - value else value mod 2 ^ 32)) radix []))"

section \<open>\<^verbatim>\<open>printf.c\<close>\<close>

definition putc :: "int \<Rightarrow> char \<Rightarrow> (uworld, unit) kop" where
  "putc fd c = kthen (ucall_int (UWrite fd [c])) (ret ())"

text \<open>The digits in the order they are stored: the last one first.\<close>

function udigits :: "nat \<Rightarrow> nat \<Rightarrow> char list" where
  "udigits base x =
     ''0123456789ABCDEF'' ! (x mod base) # (if base < 2 \<or> x div base = 0 then [] else udigits base (x div base))"
  by pat_completeness auto
termination
proof (relation "measure snd")
  fix base x :: nat
  assume *: "\<not> (base < 2 \<or> x div base = 0)"
  then have "0 < x" by (cases x) auto
  with * show "((base, x div base), base, x) \<in> measure snd" by simp
qed simp

declare udigits.simps [simp del]

definition printint_u :: "uint \<Rightarrow> nat \<Rightarrow> bool \<Rightarrow> char list" where
  "printint_u xx base sg =
     (let neg = sg \<and> sint xx < 0;
          x = if neg then - xx else xx
      in rev (udigits base (unat x) @ (if neg then ''-'' else [])))"

text \<open>The characters \<open>printf\<close> prints; \<open>pct\<close> is the state behind a percent sign.\<close>

fun printf_out :: "bool \<Rightarrow> char list \<Rightarrow> carg list \<Rightarrow> char list option" where
  "printf_out pct [] args = None"
| "printf_out False (c # fmt) args =
     (if c = NUL then Some []
      else if c = CHR ''%'' then printf_out True fmt args
      else map_option (Cons c) (printf_out False fmt args))"
| "printf_out True (c # fmt) args =
     (if c = NUL then Some []
      else if c = CHR ''d'' then (case args of CInt x # args \<Rightarrow> map_option ((@) (printint_u x 10 True)) (printf_out False fmt args) | _ \<Rightarrow> None)
      else if c = CHR ''x'' \<or> c = CHR ''p''
      then (case args of CInt x # args \<Rightarrow> map_option ((@) (printint_u x 16 False)) (printf_out False fmt args) | _ \<Rightarrow> None)
      else if c = CHR ''s''
      then (case args of
              CStr ms # args \<Rightarrow>
                (case cstr_out (case ms of None \<Rightarrow> cstring ''(null)'' | Some a \<Rightarrow> a) of
                   None \<Rightarrow> None
                 | Some out \<Rightarrow> map_option ((@) out) (printf_out False fmt args))
            | _ \<Rightarrow> None)
      else if c = CHR ''c'' then (case args of CInt x # args \<Rightarrow> map_option (Cons (char_of (unat x))) (printf_out False fmt args) | _ \<Rightarrow> None)
      else if c = CHR ''%'' then map_option (Cons c) (printf_out False fmt args)
      else map_option (\<lambda>out. CHR ''%'' # c # out) (printf_out False fmt args))"

definition printf :: "int \<Rightarrow> char list \<Rightarrow> carg list \<Rightarrow> (uworld, unit) kop" where
  "printf fd fmt args = kbind (klift (printf_out False (cstring fmt) args)) (\<lambda>out. kfor out (putc fd))"

section \<open>\<^verbatim>\<open>umalloc.c\<close>\<close>

text \<open>A header takes 8 bytes. Pointers compare as addresses; \<open>p + n\<close> steps over \<open>n\<close> headers.\<close>

definition set_hdr :: "uint \<Rightarrow> (uheader \<Rightarrow> uheader) \<Rightarrow> (uworld, unit) kop" where
  "set_hdr a f = kmod (\<lambda>s. s\<lparr>uheap := (uheap s)(a := f (uheap s a))\<rparr>)"

text \<open>The loop of \<open>free\<close>: the header behind which \<open>bp\<close> belongs. It does not end if the list is broken.\<close>

partial_function (option) free_find :: "(uint \<Rightarrow> uheader) \<Rightarrow> uint \<Rightarrow> uint \<Rightarrow> uint option" where
  "free_find h bp p =
     (if bp > p \<and> bp < h_ptr (h p) then Some p
      else if p \<ge> h_ptr (h p) \<and> (bp > p \<or> bp < h_ptr (h p)) then Some p
      else free_find h bp (h_ptr (h p)))"

definition spin :: "'a option \<Rightarrow> (uworld, 'a) kop" where
  "spin x = (case x of None \<Rightarrow> stop Spin | Some a \<Rightarrow> ret a)"

definition free :: "uint \<Rightarrow> (uworld, unit) kop" where
  "free ap =
     (let bp = ap - 8 in
      kbind (kget (\<lambda>s. free_find (uheap s) bp (ufreep s))) (\<lambda>found.
      kbind (spin found) (\<lambda>p.
      kbind (kget uheap) (\<lambda>h.
      kthen (if bp + 8 * h_size (h bp) = h_ptr (h p)
             then kthen (set_hdr bp (\<lambda>b. b\<lparr>h_size := h_size b + h_size (h (h_ptr (h p)))\<rparr>))
                 (set_hdr bp (\<lambda>b. b\<lparr>h_ptr := h_ptr (h (h_ptr (h p)))\<rparr>))
             else set_hdr bp (\<lambda>b. b\<lparr>h_ptr := h_ptr (h p)\<rparr>))
     (kbind (kget uheap) (\<lambda>h.
      kthen (if p + 8 * h_size (h p) = bp
             then kthen (set_hdr p (\<lambda>b. b\<lparr>h_size := h_size b + h_size (h bp)\<rparr>))
                 (set_hdr p (\<lambda>b. b\<lparr>h_ptr := h_ptr (h bp)\<rparr>))
             else set_hdr p (\<lambda>b. b\<lparr>h_ptr := bp\<rparr>))
     (kmod (\<lambda>s. s\<lparr>ufreep := p\<rparr>))))))))"

text \<open>\<open>sbrk\<close> returns the old end of the memory as an address, or \<open>-1\<close>.\<close>

definition morecore :: "uint \<Rightarrow> (uworld, uint) kop" where
  "morecore n =
     (let nu = if n < 4096 then 4096 else n in
      kbind (ucall_int (USbrk (nu * 8))) (\<lambda>r.
      if r = -1 then ret 0
      else
        (let hp = word_of_int r in
         kthen (set_hdr hp (\<lambda>b. b\<lparr>h_size := nu\<rparr>))
        (kthen (free (hp + 8))
        (kget ufreep)))))"

text \<open>The search of \<open>malloc\<close>, with \<open>p\<close> the header behind \<open>prevp\<close>. A block that fits is taken; when the search is back at the
  start, the process asks for more memory.\<close>

definition take_block :: "uint \<Rightarrow> uint \<Rightarrow> uint \<Rightarrow> (uworld, uint) kop" where
  "take_block nunits prevp p =
     kbind (kget uheap) (\<lambda>h.
     if h_size (h p) = nunits
     then kthen (set_hdr prevp (\<lambda>b. b\<lparr>h_ptr := h_ptr (h p)\<rparr>))
         (kthen (kmod (\<lambda>s. s\<lparr>ufreep := prevp\<rparr>))
         (ret (p + 8)))
     else
       (let q = p + 8 * (h_size (h p) - nunits) in
        kthen (set_hdr p (\<lambda>b. b\<lparr>h_size := h_size b - nunits\<rparr>))
       (kthen (set_hdr q (\<lambda>b. b\<lparr>h_size := nunits\<rparr>))
       (kthen (kmod (\<lambda>s. s\<lparr>ufreep := prevp\<rparr>))
       (ret (q + 8))))))"

partial_function (option) malloc_loop :: "uint \<Rightarrow> uint \<Rightarrow> uint \<Rightarrow> uworld \<Rightarrow> (uworld, uint) res option" where
  "malloc_loop nunits prevp p s =
     (if h_size (uheap s p) \<ge> nunits then Some (take_block nunits prevp p s)
      else if p = ufreep s
      then (case morecore nunits s of
              Stop x t \<Rightarrow> Some (Stop x t)
            | Ok q t \<Rightarrow> if q = 0 then Some (Ok 0 t) else malloc_loop nunits q (h_ptr (uheap t q)) t)
      else malloc_loop nunits p (h_ptr (uheap s p)) s)"

definition malloc :: "uint \<Rightarrow> (uworld, uint) kop" where
  "malloc nbytes =
     (let nunits = (nbytes + 8 - 1) div 8 + 1 in
      kbind (kget ufreep) (\<lambda>f0.
      kthen (kwhen (f0 = 0)
        (kthen (kmod (\<lambda>s. s\<lparr>ufreep := ubase s\<rparr>))
        (kmod (\<lambda>s. s\<lparr>uheap := (uheap s)(ubase s := \<lparr>h_ptr = ubase s, h_size = 0\<rparr>)\<rparr>))))
      (kbind (kget ufreep) (\<lambda>prevp.
       kbind (kget (\<lambda>s. malloc_loop nunits prevp (h_ptr (uheap s prevp)) s)) (\<lambda>r.
       kbind (spin r) (\<lambda>r. \<lambda>_. r))))))"

end
