(* ===== verification/Uprogs.thy ===== *)
theory Uprogs
  imports User
begin

text \<open>
  The small user programs: \<^verbatim>\<open>cat.c\<close>, \<^verbatim>\<open>wc.c\<close>, \<^verbatim>\<open>echo.c\<close>, \<^verbatim>\<open>echoloop.c\<close>, \<^verbatim>\<open>kill.c\<close>, \<^verbatim>\<open>ln.c\<close>, \<^verbatim>\<open>mkdir.c\<close>, \<^verbatim>\<open>rm.c\<close>, \<^verbatim>\<open>zombie.c\<close>,
  \<^verbatim>\<open>ls.c\<close>, \<^verbatim>\<open>ps.c\<close>, \<^verbatim>\<open>df.c\<close>, \<^verbatim>\<open>free.c\<close> and \<^verbatim>\<open>init.c\<close>. A \<open>main\<close> takes the list of its arguments, each an array of characters.
\<close>

section \<open>\<^verbatim>\<open>cat.c\<close> and \<^verbatim>\<open>wc.c\<close>\<close>

definition cat :: "int \<Rightarrow> (uworld, unit) kop" where
  "cat fd =
     kbind (uloop (\<lambda>_.
       kbind (uread fd 512) (\<lambda>(n, cs).
       if n > 0
       then kbind (ucall_int (UWrite 1 cs)) (\<lambda>m.
          if m \<noteq> n then kthen (printf 1 (''cat: write error'' @ NL) []) uexit else ret (Inl ()))
       else ret (Inr n))) ()) (\<lambda>n.
     kwhen (n < 0) (kthen (printf 1 (''cat: read error'' @ NL) []) uexit))"

text \<open>The loop over the file arguments of \<open>cat\<close>, \<open>wc\<close> and \<open>grep\<close>: open, work, close.\<close>

primrec each_file :: "char list \<Rightarrow> (int \<Rightarrow> char list \<Rightarrow> (uworld, unit) kop) \<Rightarrow> char list list \<Rightarrow> (uworld, unit) kop" where
  "each_file err work [] = uexit"
| "each_file err work (a # as) =
     kbind (ustr a) (\<lambda>path.
     kbind (ucall_int (UOpen path 0)) (\<lambda>fd.
     if fd < 0 then kthen (printf 1 err [CStr (Some a)]) uexit
     else
       kthen (work fd a)
       (kthen (ucall_int (UClose fd))
       (each_file err work as))))"

definition cat_main :: "char list list \<Rightarrow> (uworld, unit) kop" where
  "cat_main argv =
     (if length argv \<le> 1 then kthen (cat 0) uexit
      else each_file (''cat: cannot open %s'' @ NL) (\<lambda>fd _. cat fd) (drop 1 argv))"

record wcount =
  wl :: int
  ww :: int
  wch :: int
  inword :: bool

definition wc_char :: "char \<Rightarrow> wcount \<Rightarrow> wcount" where
  "wc_char c s =
     (let s1 = s\<lparr>wch := wch s + 1\<rparr>;
          s2 = if c = CHR 0x0A then s1\<lparr>wl := wl s1 + 1\<rparr> else s1
      in if strchr (cstring [CHR '' '', CHR 0x0D, CHR 0x09, CHR 0x0A, CHR 0x0B]) c \<noteq> Some None then s2\<lparr>inword := False\<rparr>
         else if \<not> inword s2 then s2\<lparr>ww := ww s2 + 1, inword := True\<rparr>
         else s2)"

definition wc :: "int \<Rightarrow> char list \<Rightarrow> (uworld, unit) kop" where
  "wc fd name =
     kbind (uloop (\<lambda>st.
       kbind (uread fd 512) (\<lambda>(n, cs).
       if n > 0 then ret (Inl (fold wc_char cs st)) else ret (Inr (n, st))))
       \<lparr>wl = 0, ww = 0, wch = 0, inword = False\<rparr>) (\<lambda>(n, st).
     if n < 0 then kthen (printf 1 (''wc: read error'' @ NL) []) uexit
     else printf 1 (''%d %d %d %s'' @ NL) [CInt (word_of_int (wl st)), CInt (word_of_int (ww st)), CInt (word_of_int (wch st)), CStr (Some name)])"

definition wc_main :: "char list list \<Rightarrow> (uworld, unit) kop" where
  "wc_main argv =
     (if length argv \<le> 1 then kthen (wc 0 (cstring [])) uexit
      else each_file (''wc: cannot open %s'' @ NL) wc (drop 1 argv))"

section \<open>One call per argument\<close>

primrec echo_args :: "char list list \<Rightarrow> (uworld, unit) kop" where
  "echo_args [] = ret ()"
| "echo_args (a # as) =
     kthen (printf 1 ''%s%s'' [CStr (Some a), CStr (Some (cstring (if as \<noteq> [] then '' '' else NL)))]) (echo_args as)"

definition echo_main :: "char list list \<Rightarrow> (uworld, unit) kop" where
  "echo_main argv = kthen (echo_args (drop 1 argv)) uexit"

primrec echoloop_loop :: "nat \<Rightarrow> int \<Rightarrow> char list list \<Rightarrow> (uworld, unit) kop" where
  "echoloop_loop 0 tk as = ret ()"
| "echoloop_loop (Suc n) tk as =
     kthen (echo_args as)
     (kthen (ucall_int (USleep tk))
     (echoloop_loop n tk as))"

definition echoloop_main :: "char list list \<Rightarrow> (uworld, unit) kop" where
  "echoloop_main argv =
     kthen (kwhen (length argv < 3)
       (kthen (printf 1 (''usage: echoloop sleep_ticks program_length arg1 [arg2 ...]'' @ NL) []) uexit))
     (kbind (klift (atoi (argv ! 1))) (\<lambda>tk.
      kbind (klift (atoi (argv ! 2))) (\<lambda>len.
      kthen (echoloop_loop (nat len) tk (drop 3 argv)) uexit)))"

primrec kill_args :: "char list list \<Rightarrow> (uworld, unit) kop" where
  "kill_args [] = uexit"
| "kill_args (a # as) = kbind (klift (atoi a)) (\<lambda>n. kthen (ucall_int (UKill n)) (kill_args as))"

definition kill_main :: "char list list \<Rightarrow> (uworld, unit) kop" where
  "kill_main argv =
     kthen (kwhen (length argv < 2) (kthen (printf 2 (''usage: kill pid...'' @ NL) []) uexit))
     (kill_args (drop 1 argv))"

definition ln_main :: "char list list \<Rightarrow> (uworld, unit) kop" where
  "ln_main argv =
     kthen (kwhen (length argv \<noteq> 3) (kthen (printf 2 (''Usage: ln old new'' @ NL) []) uexit))
     (kbind (ustr (argv ! 1)) (\<lambda>old.
      kbind (ustr (argv ! 2)) (\<lambda>new.
      kbind (ucall_int (ULink old new)) (\<lambda>r.
      kthen (kwhen (r < 0) (printf 2 (''link %s %s: failed'' @ NL) [CStr (Some (argv ! 1)), CStr (Some (argv ! 2))]))
      uexit))))"

primrec until_fails :: "(char list \<Rightarrow> ucall) \<Rightarrow> char list \<Rightarrow> char list list \<Rightarrow> (uworld, unit) kop" where
  "until_fails call err [] = uexit"
| "until_fails call err (a # as) =
     kbind (ustr a) (\<lambda>path.
     kbind (ucall_int (call path)) (\<lambda>r.
     if r < 0 then kthen (printf 2 err [CStr (Some a)]) uexit else until_fails call err as))"

definition mkdir_main :: "char list list \<Rightarrow> (uworld, unit) kop" where
  "mkdir_main argv =
     kthen (kwhen (length argv < 2) (kthen (printf 2 (''Usage: mkdir files...'' @ NL) []) uexit))
     (until_fails UMkdir (''mkdir: %s failed to create'' @ NL) (drop 1 argv))"

definition rm_main :: "char list list \<Rightarrow> (uworld, unit) kop" where
  "rm_main argv =
     kthen (kwhen (length argv < 2) (kthen (printf 2 (''Usage: rm files...'' @ NL) []) uexit))
     (until_fails UUnlink (''rm: %s failed to delete'' @ NL) (drop 1 argv))"

definition zombie_main :: "(uworld, unit) kop" where
  "zombie_main =
     kbind (ucall_int UFork) (\<lambda>pid.
     kthen (kwhen (pid > 0) (kthen (ucall_int (USleep 5)) (ret ())))
     uexit)"

section \<open>\<^verbatim>\<open>ls.c\<close>\<close>

text \<open>The part of a path behind its last slash, and that part padded with blanks; \<open>buf\<close> starts as zeros.\<close>

definition after_slash :: "char list \<Rightarrow> char list" where
  "after_slash path = rev (takeWhile (\<lambda>c. c \<noteq> CHR ''/'') (rev path))"

definition fmtname :: "char list \<Rightarrow> char list option" where
  "fmtname path =
     map_option (\<lambda>s. let p = after_slash s in
       cstring (if length p \<ge> 14 then p else p @ replicate (14 - length p) CHR '' '')) (cstr_out path)"

text \<open>The line of a file, and the entry of a directory at the front of the bytes read.\<close>

definition ls_line :: "char list \<Rightarrow> stat \<Rightarrow> (uworld, unit) kop" where
  "ls_line path st =
     kbind (klift (fmtname path)) (\<lambda>name.
     printf 1 (''%s %d %d %d'' @ NL)
       [CStr (Some name), CInt (scast (st_type st)), CInt (st_ino st), CInt (st_size st)])"

definition de_inum_u :: "char list \<Rightarrow> nat" where
  "de_inum_u cs = of_char (cs ! 0) + 256 * of_char (cs ! 1)"

definition ls_entry :: "char list \<Rightarrow> char list \<Rightarrow> (uworld, unit) kop" where
  "ls_entry dir cs =
     kwhen (de_inum_u cs \<noteq> 0)
       (let buf = dir @ ''/'' @ take 14 (drop 2 cs) @ [NUL] in
        kbind (stat_u buf) (\<lambda>mst. case mst of
          None \<Rightarrow> printf 1 (''ls: cannot stat %s'' @ NL) [CStr (Some buf)]
        | Some st \<Rightarrow> ls_line buf st))"

definition ls_dir :: "int \<Rightarrow> char list \<Rightarrow> (uworld, unit) kop" where
  "ls_dir fd path =
     (if length path + 1 + 14 + 1 > 512 then printf 1 (''ls: path too long'' @ NL) []
      else uloop (\<lambda>_.
        kbind (uread fd 16) (\<lambda>(n, cs).
        if n = 16 then kthen (ls_entry path cs) (ret (Inl ())) else ret (Inr ()))) ())"

definition ls :: "char list \<Rightarrow> (uworld, unit) kop" where
  "ls path =
     kbind (ustr path) (\<lambda>p.
     kbind (ucall_int (UOpen p 0)) (\<lambda>fd.
     if fd < 0 then printf 2 (''ls: cannot open %s'' @ NL) [CStr (Some path)]
     else
       kbind (usys (UFstat fd)) (\<lambda>r. case r of
         RInt e \<Rightarrow>
           if e < 0
           then kthen (printf 2 (''ls: cannot stat %s'' @ NL) [CStr (Some path)])
               (kthen (ucall_int (UClose fd)) (ret ()))
           else stop Spin
       | RStat st \<Rightarrow>
           kthen (if st_type st = 2 then ls_line path st else if st_type st = 1 then ls_dir fd p else ret ())
           (kthen (ucall_int (UClose fd)) (ret ()))
       | _ \<Rightarrow> stop Spin)))"

definition ls_main :: "char list list \<Rightarrow> (uworld, unit) kop" where
  "ls_main argv =
     (if length argv < 2 then kthen (ls (cstring ''.'')) uexit
      else kthen (kfor (drop 1 argv) ls) uexit)"

section \<open>\<^verbatim>\<open>ps.c\<close>, \<^verbatim>\<open>df.c\<close> and \<^verbatim>\<open>free.c\<close>\<close>

text \<open>A \<open>struct continfo\<close> of its own, filled by the kernel. \<open>cinfo\<close> with a null pointer faults.\<close>

definition get_cinfo :: "char list \<Rightarrow> (uworld, continfo) kop" where
  "get_cinfo err =
     kbind (malloc 14692) (\<lambda>ci.
     if ci = 0 then stop Fault
     else
       kbind (usys UCinfo) (\<lambda>r. case r of
         RInfo x \<Rightarrow> ret x
       | RInt e \<Rightarrow> if e = 1 then stop Spin else kthen (printf 1 err []) uexit
       | _ \<Rightarrow> stop Spin))"

fun pi_name_of :: "procstate \<Rightarrow> char list" where
  "pi_name_of UNUSED = ''unused''"
| "pi_name_of EMBRYO = ''embryo''"
| "pi_name_of SLEEPING = ''sleep ''"
| "pi_name_of RUNNABLE = ''runble''"
| "pi_name_of RUNNING = ''run   ''"
| "pi_name_of ZOMBIE = ''zombie''"

text \<open>The processes of a container; an index beyond the array of 64 is undefined.\<close>

definition each_proc :: "cinfo_t \<Rightarrow> (pinfo \<Rightarrow> (uworld, unit) kop) \<Rightarrow> (uworld, unit) kop" where
  "each_proc c work =
     kfor [0..<nat (ci_mproc c)] (\<lambda>k.
       if k \<ge> NPROC then stop Fault
       else kwhen (pi_state (ci_procs c k) \<noteq> UNUSED) (work (ci_procs c k)))"

definition ps_main :: "(uworld, unit) kop" where
  "ps_main =
     kthen (get_cinfo (''ps: failed to get container info'' @ NL))
     (kbind (get_cinfo (''info: failed to get container info'' @ NL)) (\<lambda>ci.
      kthen (kfor [0..<NCONT] (\<lambda>i.
        let c = ci_conts ci i in
        kwhen (ci_state c \<noteq> CUNUSED)
          (kthen (printf 1 (''Container %d (%s) processes:'' @ NL) [CInt (word_of_int (ci_cid c)), CStr (Some (ci_name c))])
          (kthen (each_proc c (\<lambda>p.
             printf 1 (CHR 0x09 # ''%d %s %s'' @ NL)
               [CInt (word_of_int (pi_pid p)), CStr (Some (cstring (pi_name_of (pi_state p)))), CStr (Some (pi_name p))]))
          (printf 1 NL [])))))
      uexit))"

text \<open>Division of a signed number by a positive one, towards zero.\<close>

definition cdiv :: "int \<Rightarrow> int \<Rightarrow> int" where
  "cdiv a b = (if a < 0 then - (- a div b) else a div b)"

definition df_main :: "(uworld, unit) kop" where
  "df_main =
     kbind (get_cinfo (''df: failed to get container info'' @ NL)) (\<lambda>ci.
     kthen (kfor [0..<NCONT] (\<lambda>i.
       let c = ci_conts ci i in
       kwhen (ci_state c \<noteq> CUNUSED)
         (kthen (printf 1 (''Container %d: %s'' @ NL) [CInt (word_of_int (ci_cid c)), CStr (Some (ci_name c))])
         (printf 1 (CHR 0x09 # ''Disk: %dkb/%dkb/%dkb (Used/ Available/ Max)'' @ NL)
           [CInt (ci_udsk c div 1024), CInt (ci_mdsk c div 1024 - ci_udsk c div 1024), CInt (ci_mdsk c div 1024)]))))
     uexit)"

definition free_main :: "(uworld, unit) kop" where
  "free_main =
     kbind (get_cinfo (''free: failed to get container info'' @ NL)) (\<lambda>ci.
     kthen (kfor [0..<NCONT] (\<lambda>i.
       let c = ci_conts ci i; used = word_of_int (cdiv (ci_usz c) 1024) in
       kwhen (ci_state c \<noteq> CUNUSED)
         (kthen (printf 1 (''Container %d: %s'' @ NL) [CInt (word_of_int (ci_cid c)), CStr (Some (ci_name c))])
         (printf 1 (CHR 0x09 # ''Memory: %dkb/%dkb/%dmb (Used/ Available/ Max)'' @ NL)
           [CInt used, CInt (ci_msz c div 1024 - used), CInt (ci_msz c div 1024 div 1024)]))))
     uexit)"

section \<open>\<^verbatim>\<open>init.c\<close>\<close>

definition create_vcs :: "(uworld, unit) kop" where
  "create_vcs =
     kfor [0..<NCONT] (\<lambda>i.
       let dname = ''vc'' @ [char_of (48 + i)] in
       kbind (ucall_int (UOpen dname 2)) (\<lambda>fd.
       kthen (if fd < 0 then ucall_int (UMknod dname 1 (int i + 2)) else ucall_int (UClose fd)) (ret ())))"

definition init_wait :: "int \<Rightarrow> (uworld, unit) kop" where
  "init_wait child =
     uloop (\<lambda>_. kbind (ucall_int UWait) (\<lambda>wpid.
       if wpid \<ge> 0 \<and> wpid \<noteq> child then kthen (printf 1 (''zombie!'' @ NL) []) (ret (Inl ())) else ret (Inr ()))) ()"

definition init_main :: "(uworld, unit) kop" where
  "init_main =
     kbind (ucall_int (UOpen ''console'' 2)) (\<lambda>fd.
     kthen (kwhen (fd < 0)
       (kthen (ucall_int (UMknod ''console'' 1 1)) (kthen (ucall_int (UOpen ''console'' 2)) (ret ()))))
     (kthen (ucall_int (UDup 0))
     (kthen (ucall_int (UDup 0))
     (kthen create_vcs
     (uloop (\<lambda>_.
        kthen (printf 1 (''init: starting sh'' @ NL) [])
        (kbind (ucall_int UFork) (\<lambda>pid.
         kthen (kwhen (pid < 0) (kthen (printf 1 (''init: fork failed'' @ NL) []) uexit))
        (kthen (kwhen (pid = 0)
          (kthen (uexec ''sh'' [''sh'']) (kthen (printf 1 (''init: exec sh failed'' @ NL) []) uexit)))
        (kthen (init_wait pid)
        (ret (Inl ()))))))) ())))))"

end
