(* ===== verification/Ctool.thy ===== *)
theory Ctool
  imports Uprogs
begin

text \<open>
  \<^verbatim>\<open>ctool.c\<close>, the program that creates, starts and inspects containers. What the C code reads before it has
  written it is an argument of the definition: whether the rest of \<open>args\<close> in \<open>start\<close> happens to be zero, and
  what \<open>totalticks\<close> in \<open>info\<close> starts from.
\<close>

section \<open>Creating\<close>

definition ctool_usage :: "char list \<Rightarrow> (uworld, unit) kop" where
  "ctool_usage u = kthen (printf 1 (''usage: ctool %s'' @ NL) [CStr (Some (cstring u))]) uexit"

definition write_count :: "int \<Rightarrow> int \<Rightarrow> char list \<Rightarrow> (uworld, int) kop" where
  "write_count fd n cs = ucall_int (if n < 0 then UWriteNeg fd n else UWrite fd cs)"

text \<open>Both files stay open.\<close>

definition ctool_cp :: "char list \<Rightarrow> char list \<Rightarrow> (uworld, int) kop" where
  "ctool_cp dst file =
     kbind (ustr dst) (\<lambda>d.
     kbind (ustr file) (\<lambda>f.
     let path = d @ ''/'' @ f in
     kbind (ucall_int (UOpen f 0)) (\<lambda>f0.
     if f0 = -1 then ret (-1)
     else
       kbind (ucall_int (UOpen path 0x201)) (\<lambda>f1.
       if f1 = -1
       then kthen (printf 1 (''failed to create file |%s|'' @ NL) [CStr (Some (cstring path))])
           (kthen (ucall_int (UClose f0))
           (ret (-1)))
       else
         uloop (\<lambda>_.
           kbind (uread f0 1024) (\<lambda>(count, cs).
           if count \<noteq> 0 then kthen (write_count f1 count cs) (ret (Inl ())) else ret (Inr 1))) ()))))"

record cflags =
  last_flag :: nat
  f_mproc :: int
  f_msz :: int
  f_mdsk :: int

text \<open>One argument of \<open>create\<close>: the number behind a flag is the next argument.\<close>

definition create_flag :: "char list list \<Rightarrow> nat \<Rightarrow> cflags \<Rightarrow> (uworld, cflags) kop" where
  "create_flag argv i fl =
     kbind (arg argv i) (\<lambda>a.
     kbind (klift (strcmp a (cstring ''-p''))) (\<lambda>p.
     kbind (klift (strcmp a (cstring ''-m''))) (\<lambda>m.
     kbind (klift (strcmp a (cstring ''-d''))) (\<lambda>d.
     if p = 0 \<or> m = 0 \<or> d = 0
     then
       kbind (arg argv (i + 1)) (\<lambda>v.
       kbind (klift (atoi v)) (\<lambda>n.
       ret (let g = fl\<lparr>last_flag := max (last_flag fl) (i + 1)\<rparr> in
            if p = 0 then g\<lparr>f_mproc := n\<rparr> else if m = 0 then g\<lparr>f_msz := n\<rparr> else g\<lparr>f_mdsk := n\<rparr>)))
     else ret fl))))"

primrec create_flags :: "char list list \<Rightarrow> nat list \<Rightarrow> cflags \<Rightarrow> (uworld, cflags) kop" where
  "create_flags argv [] fl = ret fl"
| "create_flags argv (i # is) fl = kbind (create_flag argv i fl) (create_flags argv is)"

definition ctool_create :: "char list list \<Rightarrow> (uworld, unit) kop" where
  "ctool_create argv =
     kthen (kwhen (length argv < 4)
       (ctool_usage ''create <name> [-p <max_processes>] [-m <max_memory>] [-d <max_disk>] prog [prog2.. ]''))
     (kbind (create_flags argv [0..<length argv] \<lparr>last_flag = 2, f_mproc = 64, f_msz = 268435456, f_mdsk = 268435456\<rparr>) (\<lambda>fl.
      kbind (arg argv 2) (\<lambda>a2.
      kbind (ustr a2) (\<lambda>name.
      kbind (ucall_int (UMkdir name)) (\<lambda>r.
      kthen (kwhen (r \<noteq> 0) (kthen (printf 1 (''Error creating directory %s'' @ NL) [CStr (Some a2)]) uexit))
     (kthen (kfor (drop (last_flag fl + 1) argv) (\<lambda>a.
        kbind (ctool_cp a2 a) (\<lambda>c.
        kwhen (c \<noteq> 1) (printf 1 (''Failed to copy %s into folder %s. Continuing...'' @ NL) [CStr (Some a), CStr (Some a2)]))))
     (kbind (ucall_int (UCcreate name (f_mproc fl) (f_msz fl) (f_mdsk fl))) (\<lambda>c.
      if c = 1 then printf 1 (''Created container %s'' @ NL) [CStr (Some a2)]
      else kthen (printf 1 (''Failed to create container %s'' @ NL) [CStr (Some a2)]) uexit))))))))"

section \<open>Starting\<close>

text \<open>Copies the arguments from index 4 on; \<open>args\<close> has room for 32.\<close>

primrec start_args :: "char list list \<Rightarrow> nat \<Rightarrow> (uworld, char list list) kop" where
  "start_args [] k = ret []"
| "start_args (a # as) k =
     kbind (klift (strlen a)) (\<lambda>n.
     kbind (malloc (word_of_nat n + 1)) (\<lambda>p.
     if k \<ge> 32 \<or> p = 0 then stop Fault
     else kbind (start_args as (Suc k)) (\<lambda>rest. ret (take n a # rest))))"

definition ctool_start :: "bool \<Rightarrow> char list list \<Rightarrow> (uworld, unit) kop" where
  "ctool_start zeros argv =
     kthen (kwhen (length argv < 5) (ctool_usage ''ctool start <name> <vc> prog arg1 [arg2 ...]''))
     (kbind (ustr (argv ! 3)) (\<lambda>vcname.
      kbind (ucall_int (UOpen vcname 2)) (\<lambda>vc.
      kthen (kwhen (vc = -1) (kthen (printf 1 (''Couldn'' @ [CHR 0x27] @ ''t open virtual console %s'' @ NL) [CStr (Some (argv ! 3))]) uexit))
     (kbind (start_args (drop 4 argv) 0) (\<lambda>args.
      kbind (ustr (argv ! 2)) (\<lambda>name.
      kbind (ucall_int (UCstart name)) (\<lambda>c.
      kthen (kwhen (c < 0) (kthen (printf 1 (''Failed to start container %s'' @ NL) [CStr (Some (argv ! 2))]) uexit))
     (kbind (ucall_int (UCfork c)) (\<lambda>pid.
      if pid = 0
      then kthen (kfor [0, 1, 2] (\<lambda>fd. kthen (ucall_int (UClose fd)) (ret ())))
          (kthen (kfor [0 :: int, 1, 2] (\<lambda>_. kthen (ucall_int (UDup vc)) (ret ())))
          (kthen (if zeros \<and> length args < 32 then uexec (hd args) args else stop Fault)
          (kthen (printf 1 (''Failed to start process %s on container'' @ NL) [CStr (Some (cstring (hd args)))])
          (kthen (ucall_int (UCstop name))
          uexit))))
      else printf 1 (''Starting container %s on vc %s'' @ NL) [CStr (Some (argv ! 2)), CStr (Some (argv ! 3))])))))))))"

section \<open>Pausing, resuming and stopping\<close>

definition ctool_state :: "char list \<Rightarrow> (char list \<Rightarrow> ucall) \<Rightarrow> char list \<Rightarrow> char list \<Rightarrow> char list list \<Rightarrow> (uworld, unit) kop" where
  "ctool_state u call done bad argv =
     kthen (kwhen (length argv < 2) (ctool_usage u))
     (kbind (arg argv 2) (\<lambda>a.
      kbind (ustr a) (\<lambda>name.
      kbind (ucall_int (call name)) (\<lambda>r.
      if r = 1 then printf 1 (done @ NL) [CStr (Some a)] else printf 1 (bad @ NL) []))))"

definition ctool_pause :: "char list list \<Rightarrow> (uworld, unit) kop" where
  "ctool_pause = ctool_state ''ctool pause <name>'' UCpause ''Paused %s'' ''ctool: pause failed''"

definition ctool_resume :: "char list list \<Rightarrow> (uworld, unit) kop" where
  "ctool_resume = ctool_state ''ctool resume <name>'' UCresume ''Resumed %s'' ''ctool: resume failed''"

definition ctool_stop :: "char list list \<Rightarrow> (uworld, unit) kop" where
  "ctool_stop = ctool_state ''ctool stop <name>'' UCstop ''Stopped %s'' ''ctool: stop failed''"

section \<open>Information\<close>

fun ci_name_of :: "contstate \<Rightarrow> char list" where
  "ci_name_of CUNUSED = ''unused''"
| "ci_name_of CEMBRYO = ''embryo''"
| "ci_name_of CREADY = ''ready ''"
| "ci_name_of CRUNNABLE = ''runnable''"
| "ci_name_of CRUNNING = ''running''"
| "ci_name_of CPAUSED = ''paused''"
| "ci_name_of CSTOPPING = ''stopping''"

text \<open>The processes in use of a container, and the sum of their ticks added to \<open>t\<close>; an index beyond the array is undefined.\<close>

definition live_procs :: "cinfo_t \<Rightarrow> pinfo list option" where
  "live_procs c =
     (if ci_mproc c > int NPROC then None
      else Some (filter (\<lambda>p. pi_state p \<noteq> UNUSED) (map (ci_procs c) [0..<nat (ci_mproc c)])))"

definition add_ticks :: "pinfo list \<Rightarrow> uint \<Rightarrow> uint" where
  "add_ticks ps t = fold (\<lambda>p t. t + pi_ticks p) ps t"

primrec total_ticks :: "cinfo_t list \<Rightarrow> uint \<Rightarrow> uint option" where
  "total_ticks [] t = Some t"
| "total_ticks (c # cs) t =
     (if ci_state c = CUNUSED then total_ticks cs t
      else case live_procs c of None \<Rightarrow> None | Some ps \<Rightarrow> total_ticks cs (add_ticks ps t))"

text \<open>Signed division; by zero it traps.\<close>

definition sdivide :: "uint \<Rightarrow> uint \<Rightarrow> uint option" where
  "sdivide a b =
     (if b = 0 then None
      else Some (word_of_int (if sint b < 0 then - cdiv (sint a) (- sint b) else cdiv (sint a) (sint b))))"

definition info_cont :: "uint \<Rightarrow> cinfo_t \<Rightarrow> (uworld, unit) kop" where
  "info_cont tot c =
     kbind (klift (live_procs c)) (\<lambda>ps.
     let ct = add_ticks ps 0 in
     kthen (printf 1 (''Container %d: %s (/%s) %s'' @ NL)
       [CInt (word_of_int (ci_cid c)), CStr (Some (ci_name c)), CStr (Some (ci_name c)), CStr (Some (cstring (ci_name_of (ci_state c))))])
     (kbind (klift (sdivide (ct * 100) tot)) (\<lambda>share.
      kthen (printf 1 (CHR 0x09 # ''Executed %d%% (%d/%d) of the time'' @ NL) [CInt share, CInt ct, CInt tot])
     (kthen (printf 1 ([CHR 0x09, CHR 0x09] @ ''Used'' @ [CHR 0x09] @ ''Available'' @ NL) [])
     (kthen (printf 1 ([CHR 0x09] @ ''Proc: '' @ [CHR 0x09] @ ''%d'' @ [CHR 0x09] @ ''%d'' @ NL @ [CHR 0x09] @ ''Mem: '' @ [CHR 0x09] @ ''%dkb'' @ [CHR 0x09] @ ''%dmb'' @ NL @
         [CHR 0x09] @ ''Disk: '' @ [CHR 0x09] @ ''%dkb'' @ [CHR 0x09] @ ''%dmb'' @ NL)
       [CInt (word_of_nat (length ps)), CInt (word_of_int (ci_mproc c)), CInt (word_of_int (cdiv (ci_usz c) 1024)),
        CInt (ci_msz c div 1024 div 1024), CInt (ci_udsk c div 1024), CInt (ci_mdsk c div 1024 div 1024)])
     (kthen (printf 1 (CHR 0x09 # ''Processes:'' @ NL) [])
     (kthen (kfor ps (\<lambda>p.
        printf 1 ([CHR 0x09, CHR 0x09] @ ''%d %s %s '' @ [CHR 0x09] @ ''(%d%% CPU time)'' @ NL)
          [CInt (word_of_int (pi_pid p)), CStr (Some (cstring (pi_name_of (pi_state p)))), CStr (Some (pi_name p)),
           CInt (100 * pi_ticks p div tot)]))
     (printf 1 NL []))))))))"

definition ctool_info :: "uint \<Rightarrow> (uworld, unit) kop" where
  "ctool_info junk =
     kbind (get_cinfo (''info: failed to get container info'' @ NL)) (\<lambda>ci.
     let cs = map (ci_conts ci) [0..<NCONT] in
     kbind (klift (total_ticks cs junk)) (\<lambda>tot.
     kfor cs (\<lambda>c. kwhen (ci_state c \<noteq> CUNUSED) (info_cont tot c))))"

section \<open>The program\<close>

definition ctool_main :: "bool \<Rightarrow> uint \<Rightarrow> char list list \<Rightarrow> (uworld, unit) kop" where
  "ctool_main zeros junk argv =
     (if length argv = 1 then ctool_usage ''<tool> <cmd> [<arg> ...]''
      else
        kbind (arg argv 1) (\<lambda>cmd.
        kthen (if strcmp cmd (cstring ''create'') = Some 0 then ctool_create argv
               else if strcmp cmd (cstring ''start'') = Some 0 then ctool_start zeros argv
               else if strcmp cmd (cstring ''info'') = Some 0 then ctool_info junk
               else if strcmp cmd (cstring ''resume'') = Some 0 then ctool_resume argv
               else if strcmp cmd (cstring ''stop'') = Some 0 then ctool_stop argv
               else if strcmp cmd (cstring ''pause'') = Some 0 then ctool_pause argv
               else printf 1 (''ctool: command not found.'' @ NL) [])
        uexit))"

end
