(* ===== verification/Grep.thy ===== *)
theory Grep
  imports Uprogs
begin

text \<open>
  \<^verbatim>\<open>grep.c\<close>: the matcher for patterns with \<open>^\<close>, \<open>.\<close>, \<open>*\<close> and \<open>$\<close>, and the loop that cuts the input into lines. The matcher is compared
  with the language of the pattern: it accepts a line exactly if some part of the line is in it.
\<close>

section \<open>The matcher\<close>

function matchhere :: "char list \<Rightarrow> char list \<Rightarrow> bool option"
  and matchstar :: "char \<Rightarrow> char list \<Rightarrow> char list \<Rightarrow> bool option" where
  "matchhere re text =
     (case re of
        [] \<Rightarrow> None
      | r0 # re1 \<Rightarrow>
          if r0 = NUL then Some True
          else
            (case re1 of
               [] \<Rightarrow> None
             | r1 # re2 \<Rightarrow>
                 if r1 = CHR ''*'' then matchstar r0 re2 text
                 else
                   (case text of
                      [] \<Rightarrow> None
                    | t # ts \<Rightarrow>
                        if r0 = CHR ''$'' \<and> r1 = NUL then Some (t = NUL)
                        else if t \<noteq> NUL \<and> (r0 = CHR ''.'' \<or> r0 = t) then matchhere re1 ts
                        else Some False)))"
| "matchstar c re text =
     (case matchhere re text of
        None \<Rightarrow> None
      | Some b \<Rightarrow>
          if b then Some True
          else
            (case text of
               [] \<Rightarrow> None
             | t # ts \<Rightarrow> if t \<noteq> NUL \<and> (t = c \<or> c = CHR ''.'') then matchstar c re ts else Some False))"
  by pat_completeness auto
termination
  by (relation "inv_image (less_than <*lex*> less_than <*lex*> less_than)
    (\<lambda>x. case x of Inl (re, text) \<Rightarrow> (length re, 0, length text) | Inr (c, re, text) \<Rightarrow> (length re, 1, length text))") auto

declare matchhere.simps [simp del] matchstar.simps [simp del]

fun match_from :: "char list \<Rightarrow> char list \<Rightarrow> bool option" where
  "match_from re [] = None"
| "match_from re (t # ts) =
     (case matchhere re (t # ts) of
        None \<Rightarrow> None
      | Some b \<Rightarrow> if b then Some True else if t \<noteq> NUL then match_from re ts else Some False)"

definition match :: "char list \<Rightarrow> char list \<Rightarrow> bool option" where
  "match re text =
     (case re of
        [] \<Rightarrow> None
      | r0 # re1 \<Rightarrow> if r0 = CHR ''^'' then matchhere re1 text else match_from re text)"

section \<open>Lines\<close>

text \<open>The lines of a buffer, which ends with a NUL: those that match are written, and what is left behind the last end of
  a line, with whether there was one.\<close>

function grep_lines :: "char list \<Rightarrow> bool \<Rightarrow> char list \<Rightarrow> (uworld, bool \<times> char list) kop" where
  "grep_lines pattern any p s =
     (case strchr p CHR 0x0A of
        None \<Rightarrow> Stop Fault s
      | Some None \<Rightarrow> Ok (any, p) s
      | Some (Some k) \<Rightarrow>
          (case match pattern (p[k := NUL]) of
             None \<Rightarrow> Stop Fault s
           | Some b \<Rightarrow>
               (case kwhen b (kthen (ucall_int (UWrite 1 (take (Suc k) p))) (ret ())) s of
                  Stop h t \<Rightarrow> Stop h t
                | Ok u t \<Rightarrow> grep_lines pattern True (drop (Suc k) p) t)))"
  by pat_completeness auto
termination
proof (relation "measure (\<lambda>(pattern, any, p, s). length p)", simp)
  fix pattern any p s x y b z u t
  assume "strchr p CHR 0x0A = Some x"
  then have "p \<noteq> []" by (cases p) auto
  then show "((pattern, True, drop (Suc y) p, t), pattern, any, p, s :: uworld) \<in> measure (\<lambda>(pattern, any, p, s). length p)" by simp
qed

declare grep_lines.simps [simp del]

text \<open>The state of the loop is the part of \<open>buf\<close> in use, of \<open>m\<close> bytes.\<close>

definition grep :: "char list \<Rightarrow> int \<Rightarrow> (uworld, unit) kop" where
  "grep pattern fd =
     uloop (\<lambda>kept.
       kbind (uread fd (1024 - int (length kept) - 1)) (\<lambda>(n, cs).
       if n > 0
       then kbind (grep_lines pattern False (kept @ cs @ [NUL])) (\<lambda>(any, p).
          ret (Inl (if any then butlast p else [])))
       else ret (Inr ()))) []"

definition grep_main :: "char list list \<Rightarrow> (uworld, unit) kop" where
  "grep_main argv =
     (if length argv \<le> 1 then kthen (printf 2 (''usage: grep pattern [file ...]'' @ NL) []) uexit
      else if length argv \<le> 2 then kthen (grep (argv ! 1) 0) uexit
      else each_file (''grep: cannot open %s'' @ NL) (\<lambda>fd _. grep (argv ! 1) fd) (drop 2 argv))"

section \<open>The language of a pattern\<close>

datatype rx_item = One char | Star char

text \<open>A pattern as a list of items, and whether it ends with \<open>$\<close>.\<close>

fun pat_items :: "char list \<Rightarrow> rx_item list \<times> bool" where
  "pat_items [] = ([], False)"
| "pat_items [c] = (if c = CHR ''$'' then ([], True) else ([One c], False))"
| "pat_items (c # d # cs) =
     (if d = CHR ''*'' then apfst (Cons (Star c)) (pat_items cs) else apfst (Cons (One c)) (pat_items (d # cs)))"

definition fits :: "char \<Rightarrow> char \<Rightarrow> bool" where
  "fits c a \<longleftrightarrow> c = CHR ''.'' \<or> c = a"

fun rx_lang :: "rx_item list \<Rightarrow> char list set" where
  "rx_lang [] = {[]}"
| "rx_lang (One c # is) = {a # w |a w. fits c a \<and> w \<in> rx_lang is}"
| "rx_lang (Star c # is) = {v @ w |v w. (\<forall>a \<in> set v. fits c a) \<and> w \<in> rx_lang is}"

text \<open>A text starts with a string of the language, and ends with it if the pattern says so.\<close>

definition starts :: "char list \<Rightarrow> char list \<Rightarrow> bool" where
  "starts p s \<longleftrightarrow> (\<exists>w v. s = w @ v \<and> w \<in> rx_lang (fst (pat_items p)) \<and> (snd (pat_items p) \<longrightarrow> v = []))"

lemma starts_base [simp]: "starts [] s" "starts [CHR ''$''] s \<longleftrightarrow> s = []"
  by (auto simp: starts_def)

lemma startsI: "w \<in> rx_lang (fst (pat_items p)) \<Longrightarrow> (snd (pat_items p) \<longrightarrow> v = []) \<Longrightarrow> starts p (w @ v)"
  unfolding starts_def by blast

lemma starts_one:
  assumes "pat_items (c # cs) = apfst (Cons (One c)) (pat_items cs)"
  shows "starts (c # cs) s \<longleftrightarrow> (\<exists>a t. s = a # t \<and> fits c a \<and> starts cs t)"
proof
  assume "starts (c # cs) s"
  then obtain w v where "s = w @ v" "w \<in> rx_lang (One c # fst (pat_items cs))" "snd (pat_items cs) \<longrightarrow> v = []"
    unfolding starts_def assms by auto
  moreover from this(2) obtain a x where "w = a # x" "fits c a" "x \<in> rx_lang (fst (pat_items cs))" by auto
  ultimately show "\<exists>a t. s = a # t \<and> fits c a \<and> starts cs t" using startsI [of x cs v] by auto
next
  assume "\<exists>a t. s = a # t \<and> fits c a \<and> starts cs t"
  then obtain a w v where *: "s = (a # w) @ v" "fits c a" "w \<in> rx_lang (fst (pat_items cs))" "snd (pat_items cs) \<longrightarrow> v = []"
    by (auto simp: starts_def)
  then have "a # w \<in> rx_lang (One c # fst (pat_items cs))" by simp
  with * show "starts (c # cs) s" unfolding starts_def assms fst_apfst snd_apfst by blast
qed

lemma starts_star: "starts (c # CHR ''*'' # cs) s \<longleftrightarrow> (\<exists>v t. s = v @ t \<and> (\<forall>a \<in> set v. fits c a) \<and> starts cs t)"
proof
  assume "starts (c # CHR ''*'' # cs) s"
  then obtain w v where "s = w @ v" "w \<in> rx_lang (Star c # fst (pat_items cs))" "snd (pat_items cs) \<longrightarrow> v = []"
    unfolding starts_def by auto
  moreover from this(2) obtain u x where "w = u @ x" "\<forall>a \<in> set u. fits c a" "x \<in> rx_lang (fst (pat_items cs))" by auto
  ultimately have "s = u @ (x @ v) \<and> (\<forall>a \<in> set u. fits c a) \<and> starts cs (x @ v)" using startsI [of x cs v] by auto
  then show "\<exists>v t. s = v @ t \<and> (\<forall>a \<in> set v. fits c a) \<and> starts cs t" by blast
next
  assume "\<exists>v t. s = v @ t \<and> (\<forall>a \<in> set v. fits c a) \<and> starts cs t"
  then obtain u w v where *: "s = (u @ w) @ v" "\<forall>a \<in> set u. fits c a" "w \<in> rx_lang (fst (pat_items cs))" "snd (pat_items cs) \<longrightarrow> v = []"
    by (auto simp: starts_def)
  then have "u @ w \<in> rx_lang (Star c # fst (pat_items cs))" by auto
  moreover have "pat_items (c # CHR ''*'' # cs) = apfst (Cons (Star c)) (pat_items cs)" by simp
  ultimately show "starts (c # CHR ''*'' # cs) s" using * unfolding starts_def by (metis fst_apfst snd_apfst)
qed

lemma starts_star_step:
  "starts (c # CHR ''*'' # cs) s \<longleftrightarrow> starts cs s \<or> (\<exists>a t. s = a # t \<and> fits c a \<and> starts (c # CHR ''*'' # cs) t)"
proof
  assume "starts (c # CHR ''*'' # cs) s"
  then obtain v t where "s = v @ t" "\<forall>a \<in> set v. fits c a" "starts cs t" unfolding starts_star by blast
  then show "starts cs s \<or> (\<exists>a t. s = a # t \<and> fits c a \<and> starts (c # CHR ''*'' # cs) t)"
    unfolding starts_star by (cases v) auto
next
  assume "starts cs s \<or> (\<exists>a t. s = a # t \<and> fits c a \<and> starts (c # CHR ''*'' # cs) t)"
  then show "starts (c # CHR ''*'' # cs) s"
  proof
    assume "starts cs s"
    then have "s = [] @ s \<and> (\<forall>a \<in> set []. fits c a) \<and> starts cs s" by simp
    then show ?thesis unfolding starts_star by blast
  next
    assume "\<exists>a t. s = a # t \<and> fits c a \<and> starts (c # CHR ''*'' # cs) t"
    then obtain a v t where "s = (a # v) @ t" "\<forall>x \<in> set (a # v). fits c x" "starts cs t" unfolding starts_star by auto
    then show ?thesis unfolding starts_star by blast
  qed
qed

section \<open>The matcher decides the language\<close>

lemma matchstar_correct:
  assumes "\<And>s. NUL \<notin> set s \<Longrightarrow> matchhere (p @ [NUL]) (s @ [NUL]) = Some (starts p s)" and "NUL \<notin> set s"
  shows "matchstar c (p @ [NUL]) (s @ [NUL]) = Some (starts (c # CHR ''*'' # p) s)"
  using assms(2)
proof (induction s)
  case Nil
  then show ?case using assms(1) [of "[]"] by (subst matchstar.simps) (simp add: starts_star_step [of c p "[]"])
next
  case (Cons a s)
  then show ?case
    using assms(1) [of "a # s"] by (subst matchstar.simps) (auto simp: starts_star_step [of c p "a # s"] fits_def)
qed

lemma matchhere_correct:
  "NUL \<notin> set p \<Longrightarrow> NUL \<notin> set s \<Longrightarrow> matchhere (p @ [NUL]) (s @ [NUL]) = Some (starts p s)"
proof (induction p arbitrary: s rule: pat_items.induct)
  case 1
  then show ?case by (subst matchhere.simps) simp
next
  case (2 c)
  have nil: "matchhere [NUL] t = Some True" for t by (subst matchhere.simps) simp
  show ?case
  proof (cases "c = CHR ''$''")
    case True
    then show ?thesis using 2 by (subst matchhere.simps) (cases s; auto)
  next
    case False
    then show ?thesis using 2 starts_one [of c "[]" s] by (subst matchhere.simps) (cases s; auto simp: nil fits_def)
  qed
next
  case (3 c d cs)
  show ?case
  proof (cases "d = CHR ''*''")
    case True
    then have "matchhere ((c # d # cs) @ [NUL]) (s @ [NUL]) = matchstar c (cs @ [NUL]) (s @ [NUL])"
      using 3 by (subst matchhere.simps) auto
    also have "\<dots> = Some (starts (c # d # cs) s)"
      unfolding True using 3 True by (intro matchstar_correct) auto
    finally show ?thesis .
  next
    case False
    then show ?thesis
      using 3 starts_one [of c "d # cs" s] by (subst matchhere.simps) (cases s; auto simp: fits_def)
  qed
qed

lemma match_from_correct:
  "NUL \<notin> set p \<Longrightarrow> NUL \<notin> set s \<Longrightarrow> match_from (p @ [NUL]) (s @ [NUL]) = Some (\<exists>u v. s = u @ v \<and> starts p v)"
proof (induction s)
  case Nil
  then show ?case using matchhere_correct [of p "[]"] by simp
next
  case (Cons a s)
  then show ?case using matchhere_correct [of p "a # s"] by (auto simp: Cons_eq_append_conv)
qed

text \<open>
  C40. The matcher of \<open>grep\<close> decides the language of its pattern. On a pattern and a line without NUL bytes it reads
  nothing beyond their ends, terminates, and answers yes exactly if some part of the line is a string of
  the pattern's language: one at the start of the line if the pattern begins with \<open>^\<close>, and one at its end if it ends with \<open>$\<close>.
\<close>

theorem grep_match_language:
  assumes "NUL \<notin> set p" and "NUL \<notin> set s"
  shows "match (cstring p) (cstring s) =
    Some (case p of
      [] \<Rightarrow> True
    | c # q \<Rightarrow>
        if c = CHR ''^''
        then \<exists>w v. s = w @ v \<and> w \<in> rx_lang (fst (pat_items q)) \<and> (snd (pat_items q) \<longrightarrow> v = [])
        else \<exists>u w v. s = u @ w @ v \<and> w \<in> rx_lang (fst (pat_items p)) \<and> (snd (pat_items p) \<longrightarrow> v = []))"
proof (cases p)
  case Nil
  then show ?thesis using match_from_correct [of "[]" s] assms by (auto simp: match_def cstring_def)
next
  case (Cons c q)
  then show ?thesis
    using matchhere_correct [of q s] match_from_correct [of p s] assms by (auto simp: match_def cstring_def starts_def)
qed

theorem grep_match_language_witness:
  "NUL \<notin> set ''b*.$'' \<and> match (cstring ''b*.$'') (cstring ''abbc'') = Some True \<and> match (cstring ''^b'') (cstring ''ab'') = Some False"
proof -
  have "''bb'' @ ''c'' \<in> rx_lang [Star CHR ''b'', One CHR ''.'']"
    unfolding rx_lang.simps(3) by (rule CollectI, rule exI, rule exI, rule conjI, rule refl) (simp add: fits_def)
  then have "\<exists>u w v. ''abbc'' = u @ w @ v \<and> w \<in> rx_lang [Star CHR ''b'', One CHR ''.''] \<and> v = []"
    by (intro exI [of _ "''a''"] exI [of _ "''bb'' @ ''c''"] exI [of _ "[]"]) (simp del: rx_lang.simps)
  moreover have "w \<notin> rx_lang [One CHR ''b'']" if "''ab'' = w @ v" for w v
    using that by (auto simp: fits_def Cons_eq_append_conv)
  ultimately show ?thesis
    using grep_match_language [of "''b*.$''" "''abbc''"] grep_match_language [of "''^b''" "''ab''"] by auto
qed

section \<open>A line in two reads\<close>

text \<open>A read without the end of a line empties the buffer, so a line that arrives in two parts is looked at from its second part on.\<close>

definition two_reads :: uworld where
  "two_reads = \<lparr>ucalls = [], ureplies = [RData ''ab'', RData (''c'' @ NL), RData []],
     uheap = (\<lambda>_. \<lparr>h_ptr = 0, h_size = 0\<rparr>), ubase = 0, ufreep = 0\<rparr>"

lemma grep_loses_split_line:
  "\<exists>t. grep (cstring ''abc'') 0 two_reads = Ok () t \<and> ucalls t = [URead 0 1023, URead 0 1023, URead 0 1023]"
  by (simp add: grep_def two_reads_def uloop.simps uread_def usys_def kexec grep_lines.simps cstring_def match_def
      matchhere.simps)

end
