(* ===== verification/Sh.thy ===== *)
theory Sh
  imports Uprogs
begin

text \<open>
  \<^verbatim>\<open>sh.c\<close>, the shell. A command line is a character array \<open>b\<close> with its end at \<open>es\<close>; a pointer into it is an index,
  and the pointer \<open>ps\<close> the parser moves along is the state of the parsing functions. A token is kept as its two pointers,
  as in the code; \<open>nulterminate\<close> cuts the array into strings and \<open>runcmd\<close> reads them. The parser's functions call
  each other, so they take a number of steps they may use; \<open>4 * n + 4\<close> steps are enough for a line of \<open>n\<close> characters.
  The nodes of a command are values, so the failure of their allocation is not modelled.
\<close>

section \<open>Commands\<close>

type_synonym tok = "nat \<times> nat"

text \<open>A command with strings of type \<open>'t\<close>; the parser's are tokens.\<close>

datatype 't cmd =
    EXEC "'t list"
  | REDIR "'t cmd" 't int int
  | PIPE "'t cmd" "'t cmd"
  | LIST "'t cmd" "'t cmd"
  | BACK "'t cmd"

text \<open>The constructor functions; the node they allocate is a value.\<close>

abbreviation (input) execcmd :: "'t cmd" where "execcmd \<equiv> EXEC []"
abbreviation (input) redircmd :: "'t cmd \<Rightarrow> 't \<Rightarrow> int \<Rightarrow> int \<Rightarrow> 't cmd" where
  "redircmd c file mode fd \<equiv> REDIR c file mode fd"
abbreviation (input) pipecmd :: "'t cmd \<Rightarrow> 't cmd \<Rightarrow> 't cmd" where "pipecmd l r \<equiv> PIPE l r"
abbreviation (input) listcmd :: "'t cmd \<Rightarrow> 't cmd \<Rightarrow> 't cmd" where "listcmd l r \<equiv> LIST l r"
abbreviation (input) backcmd :: "'t cmd \<Rightarrow> 't cmd" where "backcmd c \<equiv> BACK c"

section \<open>Tokens\<close>

definition is_ws :: "char \<Rightarrow> bool" where
  "is_ws c \<longleftrightarrow> strchr (cstring [CHR '' '', CHR 0x09, CHR 0x0D, CHR 0x0A, CHR 0x0B]) c \<noteq> Some None"

definition is_sym :: "char \<Rightarrow> bool" where
  "is_sym c \<longleftrightarrow> strchr (cstring ''<|>&;()'') c \<noteq> Some None"

definition ch :: "char list \<Rightarrow> nat \<Rightarrow> (nat, char) kop" where
  "ch b i = klift (if i < length b then Some (b ! i) else None)"

function skip_ws :: "char list \<Rightarrow> nat \<Rightarrow> nat \<Rightarrow> nat" where
  "skip_ws b es s = (if s < es \<and> is_ws (b ! s) then skip_ws b es (s + 1) else s)"
  by pat_completeness auto
termination
  by (relation "measure (\<lambda>(b, es, s). es - s)") auto

function word_end :: "char list \<Rightarrow> nat \<Rightarrow> nat \<Rightarrow> nat" where
  "word_end b es s = (if s < es \<and> \<not> is_ws (b ! s) \<and> \<not> is_sym (b ! s) then word_end b es (s + 1) else s)"
  by pat_completeness auto
termination
  by (relation "measure (\<lambda>(b, es, s). es - s)") auto

declare skip_ws.simps [simp del] word_end.simps [simp del]

text \<open>A token of kind \<open>c\<close> from \<open>q\<close> to \<open>eq\<close>; the pointer moves to the next one.\<close>

definition token :: "char list \<Rightarrow> nat \<Rightarrow> char \<Rightarrow> nat \<Rightarrow> nat \<Rightarrow> (nat, char \<times> tok) kop" where
  "token b es c q eq = kthen (kmod (\<lambda>_. skip_ws b es eq)) (ret (c, (q, eq)))"

definition gettoken :: "char list \<Rightarrow> nat \<Rightarrow> (nat, char \<times> tok) kop" where
  "gettoken b es =
     kbind (kget (skip_ws b es)) (\<lambda>s.
     kbind (ch b s) (\<lambda>c.
     if c = NUL then token b es c s s
     else if c \<in> set ''|();&<'' then token b es c s (s + 1)
     else if c = CHR ''>''
     then kbind (ch b (s + 1)) (\<lambda>d. if d = CHR ''>'' then token b es CHR ''+'' s (s + 2) else token b es c s (s + 1))
     else token b es CHR ''a'' s (word_end b es s)))"

definition peek :: "char list \<Rightarrow> nat \<Rightarrow> char list \<Rightarrow> (nat, bool) kop" where
  "peek b es toks =
     kthen (kmod (skip_ws b es))
     (kbind (kget (\<lambda>s. s)) (\<lambda>s.
      kbind (ch b s) (\<lambda>c.
      ret (c \<noteq> NUL \<and> strchr (cstring toks) c \<noteq> Some None))))"

section \<open>Parsing\<close>

primrec parseredirs :: "nat \<Rightarrow> char list \<Rightarrow> nat \<Rightarrow> tok cmd \<Rightarrow> (nat, tok cmd) kop" where
  "parseredirs 0 b es c = stop Spin"
| "parseredirs (Suc n) b es c =
     kbind (peek b es ''<>'') (\<lambda>more.
     if \<not> more then ret c
     else
       kbind (gettoken b es) (\<lambda>(t, _).
       kbind (gettoken b es) (\<lambda>(w, file).
       if w \<noteq> CHR ''a'' then panic ''missing file for redirection''
       else parseredirs n b es (if t = CHR ''<'' then redircmd c file 0 0 else redircmd c file 0x201 1))))"

text \<open>The command under the redirections gets another argument: \<open>parseexec\<close> keeps a pointer to it.\<close>

fun add_arg :: "'t \<Rightarrow> 't cmd \<Rightarrow> 't cmd" where
  "add_arg a (EXEC as) = EXEC (as @ [a])"
| "add_arg a (REDIR c file mode fd) = REDIR (add_arg a c) file mode fd"
| "add_arg a c = c"

primrec parseargs :: "nat \<Rightarrow> char list \<Rightarrow> nat \<Rightarrow> nat \<Rightarrow> tok cmd \<Rightarrow> (nat, tok cmd) kop" where
  "parseargs 0 b es argc c = stop Spin"
| "parseargs (Suc n) b es argc c =
     kbind (peek b es ''|)&;'') (\<lambda>fin.
     if fin then ret c
     else
       kbind (gettoken b es) (\<lambda>(t, a).
       if t = NUL then ret c
       else if t \<noteq> CHR ''a'' then panic ''syntax''
       else if argc + 1 \<ge> 10 then panic ''too many args''
       else
         kbind (parseredirs n b es (add_arg a c)) (\<lambda>c'.
         parseargs n b es (argc + 1) c')))"

primrec parseback :: "nat \<Rightarrow> char list \<Rightarrow> nat \<Rightarrow> tok cmd \<Rightarrow> (nat, tok cmd) kop" where
  "parseback 0 b es c = stop Spin"
| "parseback (Suc n) b es c =
     kbind (peek b es ''&'') (\<lambda>more.
     if \<not> more then ret c else kthen (gettoken b es) (parseback n b es (backcmd c)))"

fun parseline :: "nat \<Rightarrow> char list \<Rightarrow> nat \<Rightarrow> (nat, tok cmd) kop"
  and parsepipe :: "nat \<Rightarrow> char list \<Rightarrow> nat \<Rightarrow> (nat, tok cmd) kop"
  and parseexec :: "nat \<Rightarrow> char list \<Rightarrow> nat \<Rightarrow> (nat, tok cmd) kop"
  and parseblock :: "nat \<Rightarrow> char list \<Rightarrow> nat \<Rightarrow> (nat, tok cmd) kop" where
  "parseline 0 b es = stop Spin"
| "parseline (Suc n) b es =
     kbind (parsepipe n b es) (\<lambda>c.
     kbind (parseback n b es c) (\<lambda>c.
     kbind (peek b es '';'') (\<lambda>more.
     if \<not> more then ret c
     else kthen (gettoken b es) (kbind (parseline n b es) (\<lambda>r. ret (listcmd c r))))))"
| "parsepipe 0 b es = stop Spin"
| "parsepipe (Suc n) b es =
     kbind (parseexec n b es) (\<lambda>c.
     kbind (peek b es ''|'') (\<lambda>more.
     if \<not> more then ret c
     else kthen (gettoken b es) (kbind (parsepipe n b es) (\<lambda>r. ret (pipecmd c r)))))"
| "parseexec 0 b es = stop Spin"
| "parseexec (Suc n) b es =
     kbind (peek b es ''('') (\<lambda>block.
     if block then parseblock n b es
     else kbind (parseredirs n b es execcmd) (\<lambda>c. parseargs n b es 0 c))"
| "parseblock 0 b es = stop Spin"
| "parseblock (Suc n) b es =
     kbind (peek b es ''('') (\<lambda>ok.
     if \<not> ok then panic ''parseblock''
     else
       kthen (gettoken b es)
       (kbind (parseline n b es) (\<lambda>c.
        kbind (peek b es '')'') (\<lambda>ok.
        if \<not> ok then panic ''syntax - missing )''
        else kthen (gettoken b es) (parseredirs n b es c)))))"

fun nulterminate :: "tok cmd \<Rightarrow> char list \<Rightarrow> char list" where
  "nulterminate (EXEC as) b = fold (\<lambda>(q, eq) b. b[eq := NUL]) as b"
| "nulterminate (REDIR c (q, eq) mode fd) b = (nulterminate c b)[eq := NUL]"
| "nulterminate (PIPE l r) b = nulterminate r (nulterminate l b)"
| "nulterminate (LIST l r) b = nulterminate r (nulterminate l b)"
| "nulterminate (BACK c) b = nulterminate c b"

section \<open>Running\<close>

definition sh_panic :: "char list \<Rightarrow> (uworld, 'a) kop" where
  "sh_panic msg = kthen (printf 2 (''%s'' @ NL) [CStr (Some (cstring msg))]) uexit"

text \<open>The whole line, and the array cut into strings.\<close>

definition parsecmd :: "char list \<Rightarrow> (uworld, tok cmd \<times> char list) kop" where
  "parsecmd b =
     kbind (klift (strlen b)) (\<lambda>es.
     case parseline (4 * es + 4) b es 0 of
       Stop (Panic msg) _ \<Rightarrow> sh_panic msg
     | Stop h _ \<Rightarrow> stop h
     | Ok c i \<Rightarrow>
         (let s = skip_ws b es i in
          if s \<noteq> es
          then kthen (printf 2 (''leftovers: %s'' @ NL) [CStr (Some (drop s b))]) (sh_panic ''syntax'')
          else ret (c, nulterminate c b)))"

definition fork1 :: "(uworld, int) kop" where
  "fork1 = kbind (ucall_int UFork) (\<lambda>child. if child = -1 then sh_panic ''fork'' else ret child)"

definition in_child :: "(uworld, unit) kop \<Rightarrow> (uworld, unit) kop" where
  "in_child work = kbind fork1 (\<lambda>child. kwhen (child = 0) work)"

definition do_call :: "ucall \<Rightarrow> (uworld, unit) kop" where
  "do_call c = kthen (ucall_int c) (ret ())"

definition tok_str :: "char list \<Rightarrow> tok \<Rightarrow> (uworld, char list) kop" where
  "tok_str b t = ustr (drop (fst t) b)"

primrec tok_strs :: "char list \<Rightarrow> tok list \<Rightarrow> (uworld, char list list) kop" where
  "tok_strs b [] = ret []"
| "tok_strs b (t # ts) = kbind (tok_str b t) (\<lambda>s. kbind (tok_strs b ts) (\<lambda>r. ret (s # r)))"

text \<open>A child with one end of the pipe as its standard input or output.\<close>

definition pipe_end :: "int \<Rightarrow> int \<Rightarrow> int \<Rightarrow> int \<Rightarrow> (uworld, unit) kop" where
  "pipe_end fd e p0 p1 =
     kthen (do_call (UClose fd)) (kthen (do_call (UDup e)) (kthen (do_call (UClose p0)) (do_call (UClose p1))))"

primrec runcmd :: "char list \<Rightarrow> tok cmd \<Rightarrow> (uworld, unit) kop" where
  "runcmd b (EXEC as) =
     (if as = [] then uexit
      else
        kbind (tok_strs b as) (\<lambda>argv.
        kthen (uexec (hd argv) argv)
        (kthen (printf 2 (''exec %s failed'' @ NL) [CStr (Some (cstring (hd argv)))])
        uexit)))"
| "runcmd b (REDIR c file mode fd) =
     kthen (do_call (UClose fd))
     (kbind (tok_str b file) (\<lambda>path.
      kbind (ucall_int (UOpen path mode)) (\<lambda>r.
      if r < 0 then kthen (printf 2 (''open %s failed'' @ NL) [CStr (Some (cstring path))]) uexit
      else kthen (runcmd b c) uexit)))"
| "runcmd b (LIST l r) =
     kthen (in_child (runcmd b l))
     (kthen (do_call UWait)
     (kthen (runcmd b r)
     uexit))"
| "runcmd b (PIPE l r) =
     kbind (usys UPipe) (\<lambda>x. case x of
       RFds p0 p1 \<Rightarrow>
         kthen (in_child (kthen (pipe_end 1 p1 p0 p1) (runcmd b l)))
         (kthen (in_child (kthen (pipe_end 0 p0 p0 p1) (runcmd b r)))
         (kthen (do_call (UClose p0))
         (kthen (do_call (UClose p1))
         (kthen (do_call UWait)
         (kthen (do_call UWait)
         uexit)))))
     | RInt e \<Rightarrow> if e < 0 then sh_panic ''pipe'' else stop Spin
     | _ \<Rightarrow> stop Spin)"
| "runcmd b (BACK c) = kthen (in_child (runcmd b c)) uexit"

section \<open>The shell\<close>

definition getcmd :: "char list \<Rightarrow> int \<Rightarrow> (uworld, int \<times> char list) kop" where
  "getcmd buf nbuf =
     kthen (printf 2 ''$ '' [])
     (kbind (klift (memset_u buf NUL (nat nbuf))) (\<lambda>buf.
      kbind (gets buf nbuf) (\<lambda>buf.
      kbind (klift (if buf = [] then None else Some (hd buf))) (\<lambda>c.
      ret (if c = NUL then -1 else 0, buf)))))"

definition sh_cd :: "char list \<Rightarrow> (uworld, unit) kop" where
  "sh_cd buf =
     kbind (klift (strlen buf)) (\<lambda>n.
     let buf' = buf[n - 1 := NUL] in
     kbind (ustr (drop 3 buf')) (\<lambda>dir.
     kbind (ucall_int (UChdir dir)) (\<lambda>r.
     kwhen (r < 0) (printf 2 (''cannot cd %s'' @ NL) [CStr (Some (drop 3 buf'))]))))"

definition sh_main :: "(uworld, unit) kop" where
  "sh_main =
     kthen (uloop (\<lambda>_.
       kbind (ucall_int (UOpen ''console'' 2)) (\<lambda>fd.
       if fd < 0 then ret (Inr ())
       else if fd \<ge> 3 then kthen (do_call (UClose fd)) (ret (Inr ()))
       else ret (Inl ()))) ())
     (kthen (uloop (\<lambda>buf.
        kbind (getcmd buf 100) (\<lambda>(r, buf).
        if r < 0 then ret (Inr ())
        else if take 3 buf = ''cd '' then kthen (sh_cd buf) (ret (Inl buf))
        else
          kthen (in_child (kbind (parsecmd buf) (\<lambda>(c, b). runcmd b c)))
          (kthen (do_call UWait)
          (ret (Inl buf))))) (replicate 100 NUL))
     uexit)"

section \<open>Tokens lie in the line\<close>

text \<open>\<open>b\<close> holds a string that ends at \<open>es\<close>.\<close>

definition line :: "char list \<Rightarrow> nat \<Rightarrow> bool" where
  "line b es \<longleftrightarrow> strlen b = Some es"

lemma line_facts:
  assumes "line b es"
  shows "es < length b" and "b ! es = NUL" and "i < es \<Longrightarrow> b ! i \<noteq> NUL"
proof -
  have "es < length b \<and> b ! es = NUL \<and> (\<forall>i < es. b ! i \<noteq> NUL)"
    using assms unfolding line_def
  proof (induction b arbitrary: es)
    case (Cons c b)
    then show ?case by (auto split: if_splits simp: less_Suc_eq_0_disj)
  qed simp
  then show "es < length b" and "b ! es = NUL" and "i < es \<Longrightarrow> b ! i \<noteq> NUL" by auto
qed

definition word_char :: "char \<Rightarrow> bool" where
  "word_char c \<longleftrightarrow> c \<noteq> NUL \<and> \<not> is_ws c \<and> \<not> is_sym c"

lemma ws_sym: "is_ws c \<longleftrightarrow> c \<in> {CHR '' '', CHR 0x09, CHR 0x0D, CHR 0x0A, CHR 0x0B}" "is_sym c \<longleftrightarrow> c \<in> set ''<|>&;()''"
  by (auto simp: is_ws_def is_sym_def cstring_def)

lemma skip_ws_unfold:
  "s < es \<Longrightarrow> is_ws (b ! s) \<Longrightarrow> skip_ws b es s = skip_ws b es (s + 1)" "\<not> (s < es \<and> is_ws (b ! s)) \<Longrightarrow> skip_ws b es s = s"
  by (subst skip_ws.simps, simp)+

lemma skip_ws_le: "s \<le> es \<Longrightarrow> s \<le> skip_ws b es s \<and> skip_ws b es s \<le> es"
proof (induction b es s rule: skip_ws.induct)
  case (1 b es s)
  then show ?case by (cases "s < es \<and> is_ws (b ! s)") (auto simp: skip_ws_unfold)
qed

lemma skip_ws_stop: "s \<le> es \<Longrightarrow> skip_ws b es s < es \<Longrightarrow> \<not> is_ws (b ! skip_ws b es s)"
proof (induction b es s rule: skip_ws.induct)
  case (1 b es s)
  then show ?case by (cases "s < es \<and> is_ws (b ! s)") (auto simp: skip_ws_unfold)
qed

lemma skip_ws_idem: "s \<le> es \<Longrightarrow> skip_ws b es (skip_ws b es s) = skip_ws b es s"
  using skip_ws_stop [of s es b] by (intro skip_ws_unfold(2)) auto

lemma word_end_spec:
  "s \<le> es \<Longrightarrow> s \<le> word_end b es s \<and> word_end b es s \<le> es \<and>
    (\<forall>k. s \<le> k \<and> k < word_end b es s \<longrightarrow> \<not> is_ws (b ! k) \<and> \<not> is_sym (b ! k)) \<and>
    (word_end b es s < es \<longrightarrow> is_ws (b ! word_end b es s) \<or> is_sym (b ! word_end b es s))"
proof (induction b es s rule: word_end.induct)
  case (1 b es s)
  show ?case
  proof (cases "s < es \<and> \<not> is_ws (b ! s) \<and> \<not> is_sym (b ! s)")
    case True
    then have e: "word_end b es s = word_end b es (s + 1)" by (subst word_end.simps) simp
    have k: "s \<le> k \<longleftrightarrow> k = s \<or> s + 1 \<le> k" for k by auto
    show ?thesis using "1.IH" [OF True] True unfolding e k by auto
  next
    case False
    then have "word_end b es s = s" by (subst word_end.simps) auto
    then show ?thesis using "1.prems" False by auto
  qed
qed

text \<open>A word: not empty, all word characters, and none behind it.\<close>

definition tok_ok :: "char list \<Rightarrow> nat \<Rightarrow> tok \<Rightarrow> bool" where
  "tok_ok b es t \<longleftrightarrow> (case t of (q, eq) \<Rightarrow> q < eq \<and> eq \<le> es \<and> (\<forall>k. q \<le> k \<and> k < eq \<longrightarrow> word_char (b ! k)) \<and> \<not> word_char (b ! eq))"

text \<open>The operation, started at \<open>i\<close>, panics or moves forward to some \<open>j\<close> with \<open>P\<close>; it does not fault and has steps enough.\<close>

definition goes :: "nat \<Rightarrow> nat \<Rightarrow> (nat, 'a) kop \<Rightarrow> ('a \<Rightarrow> nat \<Rightarrow> bool) \<Rightarrow> bool" where
  "goes es i m P \<longleftrightarrow> (case m i of Ok a j \<Rightarrow> i \<le> j \<and> j \<le> es \<and> P a j | Stop (Panic _) _ \<Rightarrow> True | Stop _ _ \<Rightarrow> False)"

lemma goes_kbind:
  assumes "goes es i m P" and "\<And>a j. i \<le> j \<Longrightarrow> j \<le> es \<Longrightarrow> P a j \<Longrightarrow> goes es j (f a) Q"
  shows "goes es i (kbind m f) Q"
proof (cases "m i")
  case (Ok a j)
  then have j: "i \<le> j" "j \<le> es" "P a j" using assms(1) by (simp_all add: goes_def)
  from assms(2) [OF this] show ?thesis using j(1) Ok unfolding goes_def kbind_exec
    by (cases "f a j") (auto split: halt.splits)
next
  case (Stop h j)
  then show ?thesis using assms(1) by (simp add: goes_def kbind_exec)
qed

lemma goes_kthen:
  assumes "goes es i m P" and "\<And>a j. i \<le> j \<Longrightarrow> j \<le> es \<Longrightarrow> P a j \<Longrightarrow> goes es j n Q"
  shows "goes es i (kthen m n) Q"
proof (cases "m i")
  case (Ok a j)
  then have j: "i \<le> j" "j \<le> es" "P a j" using assms(1) by (simp_all add: goes_def)
  from assms(2) [OF this] show ?thesis using j(1) Ok unfolding goes_def kthen_exec
    by (cases "n j") (auto split: halt.splits)
next
  case (Stop h j)
  then show ?thesis using assms(1) by (simp add: goes_def kthen_exec)
qed

lemma goes_ret: "i \<le> es \<Longrightarrow> P a i \<Longrightarrow> goes es i (ret a) P"
  by (simp add: goes_def kexec)

lemma goes_panic: "goes es i (panic msg) P"
  by (simp add: goes_def kexec)

lemma goes_weaken: "goes es i m P \<Longrightarrow> (\<And>a j. i \<le> j \<Longrightarrow> j \<le> es \<Longrightarrow> P a j \<Longrightarrow> Q a j) \<Longrightarrow> goes es i m Q"
  by (auto simp: goes_def split: res.splits halt.splits)
lemma strchr_defined: "strchr (cstring s) c \<noteq> None"
  by (induction s) (auto simp: cstring_def)

lemma strchr_member: "NUL \<notin> set s \<Longrightarrow> c \<noteq> NUL \<Longrightarrow> strchr (cstring s) c \<noteq> Some None \<longleftrightarrow> c \<in> set s"
proof (induction s)
  case (Cons a s)
  then show ?case using strchr_defined [of s c] by (auto simp: cstring_def)
qed (simp add: cstring_def)

lemma ch_exec: "i < length b \<Longrightarrow> ch b i s = Ok (b ! i) s"
  by (simp add: ch_def kexec)

lemma peek_exec:
  assumes "line b es" and "i \<le> es" and "NUL \<notin> set toks"
  shows "peek b es toks i = Ok (skip_ws b es i < es \<and> b ! skip_ws b es i \<in> set toks) (skip_ws b es i)"
proof -
  have s: "skip_ws b es i \<le> es" using skip_ws_le [OF assms(2)] by simp
  then have "skip_ws b es i < length b" using line_facts(1) [OF assms(1)] by simp
  then have "peek b es toks i = Ok (b ! skip_ws b es i \<noteq> NUL \<and> strchr (cstring toks) (b ! skip_ws b es i) \<noteq> Some None) (skip_ws b es i)"
    by (simp add: peek_def kexec ch_exec)
  moreover have "b ! skip_ws b es i \<noteq> NUL \<longleftrightarrow> skip_ws b es i < es"
    using line_facts(2,3) [OF assms(1)] s by (metis le_neq_implies_less nat_neq_iff)
  ultimately show ?thesis using strchr_member [OF assms(3)] by auto
qed

lemma peek_goes:
  assumes "line b es" and "i \<le> es" and "NUL \<notin> set toks"
  shows "goes es i (peek b es toks) (\<lambda>r j. j = skip_ws b es i \<and> (r \<longrightarrow> j < es \<and> b ! j \<in> set toks))"
  using peek_exec [OF assms] skip_ws_le [OF assms(2), of b] by (simp add: goes_def)

lemma token_goes:
  assumes "i \<le> q" and "q \<le> e" and "e \<le> es" and "i \<le> es"
  shows "goes es i (token b es c q e) (\<lambda>(c', t) j. c' = c \<and> t = (q, e) \<and> e \<le> j)"
  using skip_ws_le [of e es b] assms by (simp add: goes_def token_def kexec)

lemma gettoken_goes:
  assumes l: "line b es" and i: "i \<le> es"
  shows "goes es i (gettoken b es) (\<lambda>(c, t) j. (c \<noteq> NUL \<or> skip_ws b es i < es \<longrightarrow> i < j) \<and> (c = CHR ''a'' \<longrightarrow> tok_ok b es t))"
proof -
  define s where "s = skip_ws b es i"
  have s: "i \<le> s" "s \<le> es" "s < es \<Longrightarrow> \<not> is_ws (b ! s)"
    using skip_ws_le [OF i] skip_ws_stop [OF i] by (auto simp: s_def)
  note lf = line_facts [OF l]
  let ?P = "\<lambda>(c, t) j. (c \<noteq> NUL \<or> skip_ws b es i < es \<longrightarrow> i < j) \<and> (c = CHR ''a'' \<longrightarrow> tok_ok b es t)"
  have tok: "goes es i (gettoken b es) ?P"
    if "gettoken b es i = token b es c s e i" "s < e \<or> c = NUL \<and> s = es" "s \<le> e" "e \<le> es" "c \<noteq> CHR ''a'' \<or> tok_ok b es (s, e)" for c e
  proof -
    have "goes es i (token b es c s e) ?P" by (rule goes_weaken [OF token_goes]) (use that(2-5) s i in \<open>auto simp: s_def [symmetric]\<close>)
    then show ?thesis by (simp add: goes_def that(1))
  qed
  have rd: "ch b s = (\<lambda>j. Ok (b ! s) j)" using lf(1) s(2) by (simp add: fun_eq_iff ch_exec)
  have run: "gettoken b es i = (
      if b ! s = NUL then token b es NUL s s
      else if b ! s \<in> set ''|();&<'' then token b es (b ! s) s (s + 1)
      else if b ! s = CHR ''>''
      then kbind (ch b (s + 1)) (\<lambda>d. if d = CHR ''>'' then token b es CHR ''+'' s (s + 2) else token b es (b ! s) s (s + 1))
      else token b es CHR ''a'' s (word_end b es s)) i"
    by (simp add: gettoken_def kbind_exec kget_exec rd s_def [symmetric])
  have lt: "s < es" if "b ! s \<noteq> NUL" using that lf(2) s(2) by (metis le_neq_implies_less)
  have lt2: "s + 1 < es" if "b ! s \<noteq> NUL" "b ! (s + 1) = CHR ''>''"
  proof -
    have "s + 1 \<le> es" "s + 1 \<noteq> es" using lt [OF that(1)] that(2) lf(2) by auto
    then show ?thesis by simp
  qed
  have word: "s < word_end b es s \<and> tok_ok b es (s, word_end b es s)" if "s < es" "\<not> is_sym (b ! s)"
  proof -
    have "word_end b es s = word_end b es (s + 1)" using that s(3) by (subst word_end.simps) simp
    then have lt: "s < word_end b es s" using word_end_spec [of "s + 1" es b] that(1) by simp
    have sp: "word_end b es s \<le> es" "\<forall>k. s \<le> k \<and> k < word_end b es s \<longrightarrow> \<not> is_ws (b ! k) \<and> \<not> is_sym (b ! k)"
      "word_end b es s < es \<longrightarrow> is_ws (b ! word_end b es s) \<or> is_sym (b ! word_end b es s)"
      using word_end_spec [of s es b] that(1) by auto
    have "word_char (b ! k)" if "s \<le> k" "k < word_end b es s" for k
      using that sp(1,2) lf(3) [of k] by (auto simp: word_char_def)
    moreover have "\<not> word_char (b ! word_end b es s)"
      using sp(1,3) lf(2) by (cases "word_end b es s = es") (auto simp: word_char_def)
    ultimately show ?thesis using lt sp(1) by (simp add: tok_ok_def)
  qed
  consider "b ! s = NUL" | "b ! s \<noteq> NUL" "b ! s \<in> set ''|();&<''" | "b ! s = CHR ''>''" "b ! (s + 1) = CHR ''>''"
    | "b ! s = CHR ''>''" "b ! (s + 1) \<noteq> CHR ''>''" | "b ! s \<noteq> NUL" "\<not> is_sym (b ! s)"
    by (auto simp: ws_sym)
  then show ?thesis
  proof cases
    case 1
    moreover from 1 have "s = es" using lf(3) s(2) by (metis le_neq_implies_less)
    ultimately show ?thesis by (intro tok [of NUL s]) (simp_all add: run)
  next
    case 2
    then show ?thesis using lt by (intro tok [of "b ! s" "s + 1"]) (simp only: run if_False if_True, auto)
  next
    case 3
    then show ?thesis using lt lt2 lf(1) by (intro tok [of "CHR ''+''" "s + 2"]) (auto simp: run kbind_exec ch_exec)
  next
    case 4
    then show ?thesis using lt lf(1) by (intro tok [of "CHR ''>''" "s + 1"]) (auto simp: run kbind_exec ch_exec)
  next
    case 5
    then show ?thesis using word [OF lt] word_end_spec [OF s(2), of b] by (intro tok [of "CHR ''a''" "word_end b es s"]) (auto simp: run ws_sym)
  qed
qed

lemma goes_if: "(c \<Longrightarrow> goes es i m P) \<Longrightarrow> (\<not> c \<Longrightarrow> goes es i n P) \<Longrightarrow> goes es i (if c then m else n) P"
  by simp

lemma goes_peek:
  assumes "line b es" and "i \<le> es" and "NUL \<notin> set toks"
    and "\<And>j. i \<le> j \<Longrightarrow> j < es \<Longrightarrow> skip_ws b es j = j \<Longrightarrow> b ! j \<in> set toks \<Longrightarrow> goes es j (f True) Q"
    and "\<And>j. i \<le> j \<Longrightarrow> j \<le> es \<Longrightarrow> goes es j (f False) Q"
  shows "goes es i (kbind (peek b es toks) f) Q"
proof (rule goes_kbind [OF peek_goes [OF assms(1-3)]])
  fix r j
  assume j: "i \<le> j" "j \<le> es" "j = skip_ws b es i \<and> (r \<longrightarrow> j < es \<and> b ! j \<in> set toks)"
  then have "skip_ws b es j = j" using skip_ws_idem [OF assms(2)] by simp
  then show "goes es j (f r) Q" using j assms(4) [of j] assms(5) [of j] by (cases r) auto
qed

lemma goes_gettoken:
  assumes "line b es" and "i \<le> es"
    and "\<And>c q e j. i \<le> j \<Longrightarrow> j \<le> es \<Longrightarrow> (c \<noteq> NUL \<or> skip_ws b es i < es \<Longrightarrow> i < j) \<Longrightarrow> (c = CHR ''a'' \<Longrightarrow> tok_ok b es (q, e)) \<Longrightarrow>
      goes es j (f (c, (q, e))) Q"
  shows "goes es i (kbind (gettoken b es) f) Q"
  by (rule goes_kbind [OF gettoken_goes [OF assms(1,2)]]) (auto intro: assms(3))

lemma goes_skiptoken:
  assumes "line b es" and "i < es" and "skip_ws b es i = i" and "\<And>j. i < j \<Longrightarrow> j \<le> es \<Longrightarrow> goes es j m Q"
  shows "goes es i (kthen (gettoken b es) m) Q"
  by (rule goes_kthen [OF gettoken_goes [OF assms(1)]]) (use assms in \<open>auto intro: assms(4)\<close>)
section \<open>The parser's results are well-formed\<close>

fun cmd_ok :: "char list \<Rightarrow> nat \<Rightarrow> tok cmd \<Rightarrow> bool" where
  "cmd_ok b es (EXEC as) \<longleftrightarrow> length as < 10 \<and> (\<forall>t \<in> set as. tok_ok b es t)"
| "cmd_ok b es (REDIR c file mode fd) \<longleftrightarrow> cmd_ok b es c \<and> tok_ok b es file"
| "cmd_ok b es (PIPE l r) \<longleftrightarrow> cmd_ok b es l \<and> cmd_ok b es r"
| "cmd_ok b es (LIST l r) \<longleftrightarrow> cmd_ok b es l \<and> cmd_ok b es r"
| "cmd_ok b es (BACK c) \<longleftrightarrow> cmd_ok b es c"

text \<open>The number of arguments of the simple command under redirections.\<close>

fun argc_of :: "'t cmd \<Rightarrow> nat option" where
  "argc_of (EXEC as) = Some (length as)"
| "argc_of (REDIR c file mode fd) = argc_of c"
| "argc_of c = None"

lemma add_arg_ok:
  "cmd_ok b es c \<Longrightarrow> argc_of c = Some k \<Longrightarrow> k + 1 < 10 \<Longrightarrow> tok_ok b es a \<Longrightarrow>
    cmd_ok b es (add_arg a c) \<and> argc_of (add_arg a c) = Some (k + 1)"
  by (induction a c rule: add_arg.induct) auto

lemma parseredirs_goes:
  assumes "line b es"
  shows "i \<le> es \<Longrightarrow> es - i < n \<Longrightarrow> cmd_ok b es c \<Longrightarrow>
    goes es i (parseredirs n b es c) (\<lambda>c' _. cmd_ok b es c' \<and> argc_of c' = argc_of c)"
proof (induction n arbitrary: i c)
  case (Suc n)
  have go: "goes es j (parseredirs n b es (REDIR c t mode fd)) (\<lambda>c' _. cmd_ok b es c' \<and> argc_of c' = argc_of c)"
    if "i < j" "j \<le> es" "tok_ok b es t" for j t mode fd
    using Suc.IH [of j "REDIR c t mode fd"] Suc.prems that by simp
  show ?case
    unfolding parseredirs.simps
    by (rule goes_peek [OF assms Suc.prems(1)])
      (use Suc.prems in \<open>auto intro!: goes_gettoken [OF assms] goes_ret goes_panic go\<close>)
qed simp
lemma parseargs_goes:
  assumes "line b es"
  shows "i \<le> es \<Longrightarrow> es - i < n \<Longrightarrow> cmd_ok b es c \<Longrightarrow> argc_of c = Some argc \<Longrightarrow>
    goes es i (parseargs n b es argc c) (\<lambda>c' _. cmd_ok b es c')"
proof (induction n arbitrary: i argc c)
  case (Suc n)
  have go: "goes es j (kbind (parseredirs n b es (add_arg t c)) (\<lambda>c'. parseargs n b es (Suc argc) c')) (\<lambda>c' _. cmd_ok b es c')"
    if "i < j" "j \<le> es" "tok_ok b es t" "Suc argc < 10" for j t
  proof -
    have "cmd_ok b es (add_arg t c)" "argc_of (add_arg t c) = Some (Suc argc)"
      using add_arg_ok [of b es c argc t] Suc.prems that by simp_all
    then show ?thesis
      using Suc.prems that by (intro goes_kbind [OF parseredirs_goes [OF assms]] Suc.IH) auto
  qed
  show ?case
    unfolding parseargs.simps
    by (rule goes_peek [OF assms Suc.prems(1)])
      (use Suc.prems in \<open>auto intro!: goes_gettoken [OF assms] goes_ret goes_panic go\<close>)
qed simp

lemma parseback_goes:
  assumes "line b es"
  shows "i \<le> es \<Longrightarrow> es - i < n \<Longrightarrow> cmd_ok b es c \<Longrightarrow> goes es i (parseback n b es c) (\<lambda>c' _. cmd_ok b es c')"
proof (induction n arbitrary: i c)
  case (Suc n)
  show ?case
    unfolding parseback.simps
    by (rule goes_peek [OF assms Suc.prems(1)])
      (use Suc.prems in \<open>auto intro!: goes_skiptoken [OF assms] goes_ret Suc.IH\<close>)
qed simp

lemma parse_goes:
  assumes "line b es"
  shows "i \<le> es \<Longrightarrow> 4 * (es - i) + 4 \<le> n \<Longrightarrow> goes es i (parseline n b es) (\<lambda>c _. cmd_ok b es c)"
    and "i \<le> es \<Longrightarrow> 4 * (es - i) + 3 \<le> n \<Longrightarrow> goes es i (parsepipe n b es) (\<lambda>c _. cmd_ok b es c)"
    and "i \<le> es \<Longrightarrow> 4 * (es - i) + 2 \<le> n \<Longrightarrow> goes es i (parseexec n b es) (\<lambda>c _. cmd_ok b es c)"
    and "i \<le> es \<Longrightarrow> 4 * (es - i) + 1 \<le> n \<Longrightarrow> goes es i (parseblock n b es) (\<lambda>c _. cmd_ok b es c)"
proof (induction n arbitrary: i)
  case (Suc n)
  {
    case 1
    then show ?case
      unfolding parseline.simps
      by (auto intro!: goes_kbind [OF Suc.IH(2)] goes_kbind [OF parseback_goes [OF assms]] goes_peek [OF assms]
          goes_skiptoken [OF assms] goes_kbind [OF Suc.IH(1)] goes_ret)
  next
    case 2
    then show ?case
      unfolding parsepipe.simps
      by (auto intro!: goes_kbind [OF Suc.IH(3)] goes_peek [OF assms] goes_skiptoken [OF assms] goes_kbind [OF Suc.IH(2)] goes_ret)
  next
    case 3
    then show ?case
      unfolding parseexec.simps
      by (auto intro!: goes_peek [OF assms] Suc.IH(4) goes_kbind [OF parseredirs_goes [OF assms]] parseargs_goes [OF assms])
  next
    case 4
    then show ?case
      unfolding parseblock.simps
      by (auto intro!: goes_peek [OF assms] goes_panic goes_skiptoken [OF assms] goes_kbind [OF Suc.IH(1)]
          goes_weaken [OF parseredirs_goes [OF assms]]) arith+
  }
qed simp_all
section \<open>The strings of a command\<close>

definition tok_text :: "char list \<Rightarrow> tok \<Rightarrow> char list" where
  "tok_text b t = take (snd t - fst t) (drop (fst t) b)"

lemma cstr_out_take: "n < length s \<Longrightarrow> s ! n = NUL \<Longrightarrow> (\<And>k. k < n \<Longrightarrow> s ! k \<noteq> NUL) \<Longrightarrow> cstr_out s = Some (take n s)"
proof (induction s arbitrary: n)
  case (Cons c s)
  show ?case
  proof (cases n)
    case (Suc m)
    have "c \<noteq> NUL" using Cons.prems(3) [of 0] Suc by simp
    moreover have "cstr_out s = Some (take m s)" using Cons.prems Suc Cons.prems(3) [of "Suc _"] by (intro Cons.IH) auto
    ultimately show ?thesis by (simp add: Suc)
  qed (use Cons.prems in simp)
qed simp

lemma fold_cut:
  "length (fold (\<lambda>(q, e) b. b[e := NUL]) as b) = length b \<and>
   (\<forall>k < length b. fold (\<lambda>(q, e) b. b[e := NUL]) as b ! k = (if k \<in> snd ` set as then NUL else b ! k))"
  by (induction as arbitrary: b) (auto simp: nth_list_update split: prod.splits)

lemma nulterminate_nth:
  "length (nulterminate c b) = length b \<and> (\<forall>k < length b. nulterminate c b ! k = (if k \<in> snd ` set_cmd c then NUL else b ! k))"
proof (induction c arbitrary: b)
  case (EXEC as)
  then show ?case using fold_cut [of as b] by simp
next
  case (REDIR c t mode fd)
  obtain q e where "t = (q, e)" by (cases t)
  then show ?case using REDIR.IH [of b] by (cases "e < length b") (auto simp: nth_list_update)
qed auto

lemma cmd_ok_toks: "cmd_ok b es c \<Longrightarrow> t \<in> set_cmd c \<Longrightarrow> tok_ok b es t"
  by (induction c) auto

lemma nulterminate_strings:
  assumes l: "line b es" and c: "cmd_ok b es c" and t: "t \<in> set_cmd c"
  shows "cstr_out (drop (fst t) (nulterminate c b)) = Some (tok_text b t)"
proof -
  obtain q e where te: "t = (q, e)" by (cases t)
  have ok: "q < e" "e \<le> es" "\<And>k. q \<le> k \<Longrightarrow> k < e \<Longrightarrow> word_char (b ! k)"
    using cmd_ok_toks [OF c t] by (auto simp: tok_ok_def te)
  have len: "es < length b" using line_facts(1) [OF l] .
  let ?b = "nulterminate c b"
  have n: "length ?b = length b" "\<And>k. k < length b \<Longrightarrow> ?b ! k = (if k \<in> snd ` set_cmd c then NUL else b ! k)"
    using nulterminate_nth [of c b] by auto
  have free: "k \<notin> snd ` set_cmd c" if "q \<le> k" "k < e" for k
    using cmd_ok_toks [OF c] ok(3) [OF that] by (auto simp: tok_ok_def)
  have same: "?b ! k = b ! k" if "q \<le> k" "k < e" for k using free [OF that] n(2) [of k] ok(2) len that by simp
  have "e \<in> snd ` set_cmd c" using t te by force
  then have "?b ! e = NUL" using n(2) [of e] ok(2) len by simp
  then have "cstr_out (drop q ?b) = Some (take (e - q) (drop q ?b))"
    using ok same len n(1) by (intro cstr_out_take) (auto simp: word_char_def)
  also have "take (e - q) (drop q ?b) = take (e - q) (drop q b)"
    using same ok len n(1) by (intro nth_equalityI) auto
  finally show ?thesis by (simp add: te tok_text_def)
qed



end
