(* ===== verification/Shprint.thy ===== *)
theory Shprint
  imports Sh
begin

text \<open>
  A grammar of command lines, a printer for it, and the round trip: the parser of \<^verbatim>\<open>sh.c\<close> reads a printed line back
  as the command it stands for.
\<close>

section \<open>Command lines\<close>

datatype redir = In "char list" | Out "char list" | App "char list"

text \<open>A simple command has redirections before and after each of its words. A line is a pipeline, a number of ampersands, and
  perhaps a semicolon and another line.\<close>

datatype item = Simple "redir list" "(char list \<times> redir list) list" | Block cline "redir list"
  and pipeline = Single item | Piped item pipeline
  and cline = Last pipeline nat | Seq pipeline nat cline

primrec lex_redir :: "redir \<Rightarrow> char list list" where
  "lex_redir (In f) = [''<'', f]"
| "lex_redir (Out f) = [''>'', f]"
| "lex_redir (App f) = [''>>'', f]"

definition lex_redirs :: "redir list \<Rightarrow> char list list" where
  "lex_redirs rs = concat (map lex_redir rs)"

definition lex_args :: "(char list \<times> redir list) list \<Rightarrow> char list list" where
  "lex_args as = concat (map (\<lambda>(a, rs). a # lex_redirs rs) as)"

primrec lex_item :: "item \<Rightarrow> char list list"
  and lex_pipe :: "pipeline \<Rightarrow> char list list"
  and lex_line :: "cline \<Rightarrow> char list list" where
  "lex_item (Simple rs as) = lex_redirs rs @ lex_args as"
| "lex_item (Block l rs) = ''('' # lex_line l @ '')'' # lex_redirs rs"
| "lex_pipe (Single i) = lex_item i"
| "lex_pipe (Piped i p) = lex_item i @ ''|'' # lex_pipe p"
| "lex_line (Last p n) = lex_pipe p @ replicate n ''&''"
| "lex_line (Seq p n l) = lex_pipe p @ replicate n ''&'' @ '';'' # lex_line l"

definition render :: "char list list \<Rightarrow> char list" where
  "render ts = concat (map (\<lambda>l. l @ '' '') ts)"

definition print_line :: "cline \<Rightarrow> char list" where
  "print_line l = render (lex_line l)"

text \<open>The command a line stands for.\<close>

primrec wrap :: "redir \<Rightarrow> char list cmd \<Rightarrow> char list cmd" where
  "wrap (In f) c = REDIR c f 0 0"
| "wrap (Out f) c = REDIR c f 0x201 1"
| "wrap (App f) c = REDIR c f 0x201 1"

definition the_args :: "(char list \<times> redir list) list \<Rightarrow> char list cmd \<Rightarrow> char list cmd" where
  "the_args as c = fold (\<lambda>(a, rs) c. fold wrap rs (add_arg a c)) as c"

primrec cmd_item :: "item \<Rightarrow> char list cmd"
  and cmd_pipe :: "pipeline \<Rightarrow> char list cmd"
  and cmd_line :: "cline \<Rightarrow> char list cmd" where
  "cmd_item (Simple rs as) = the_args as (fold wrap rs (EXEC []))"
| "cmd_item (Block l rs) = fold wrap rs (cmd_line l)"
| "cmd_pipe (Single i) = cmd_item i"
| "cmd_pipe (Piped i p) = PIPE (cmd_item i) (cmd_pipe p)"
| "cmd_line (Last p n) = (BACK ^^ n) (cmd_pipe p)"
| "cmd_line (Seq p n l) = LIST ((BACK ^^ n) (cmd_pipe p)) (cmd_line l)"

text \<open>Words are made of word characters, and a simple command has fewer than ten.\<close>

definition is_word :: "char list \<Rightarrow> bool" where
  "is_word w \<longleftrightarrow> w \<noteq> [] \<and> (\<forall>c \<in> set w. word_char c)"

primrec redir_file :: "redir \<Rightarrow> char list" where
  "redir_file (In f) = f"
| "redir_file (Out f) = f"
| "redir_file (App f) = f"

definition redirs_ok :: "redir list \<Rightarrow> bool" where
  "redirs_ok rs \<longleftrightarrow> (\<forall>r \<in> set rs. is_word (redir_file r))"

definition args_ok :: "(char list \<times> redir list) list \<Rightarrow> bool" where
  "args_ok as \<longleftrightarrow> (\<forall>(a, rs) \<in> set as. is_word a \<and> redirs_ok rs)"

primrec item_ok :: "item \<Rightarrow> bool"
  and pipeline_ok :: "pipeline \<Rightarrow> bool"
  and line_ok :: "cline \<Rightarrow> bool" where
  "item_ok (Simple rs as) \<longleftrightarrow> redirs_ok rs \<and> args_ok as \<and> length as < 10"
| "item_ok (Block l rs) \<longleftrightarrow> line_ok l \<and> redirs_ok rs"
| "pipeline_ok (Single i) \<longleftrightarrow> item_ok i"
| "pipeline_ok (Piped i p) \<longleftrightarrow> item_ok i \<and> pipeline_ok p"
| "line_ok (Last p n) \<longleftrightarrow> pipeline_ok p"
| "line_ok (Seq p n l) \<longleftrightarrow> pipeline_ok p \<and> line_ok l"

section \<open>Reading a printed token\<close>

definition lexeme :: "char list \<Rightarrow> bool" where
  "lexeme l \<longleftrightarrow> is_word l \<or> l \<in> {''<'', ''>'', ''>>'', ''('', '')'', ''|'', ''&'', '';''}"

definition kind :: "char list \<Rightarrow> char" where
  "kind l = (if is_word l then CHR ''a'' else if l = ''>>'' then CHR ''+'' else hd l)"

text \<open>The lexemes \<open>ts\<close> are what is left of the line from \<open>i\<close> on.\<close>

definition left :: "char list \<Rightarrow> nat \<Rightarrow> nat \<Rightarrow> char list list \<Rightarrow> bool" where
  "left b es i ts \<longleftrightarrow> line b es \<and> i \<le> es \<and> take (es - i) (drop i b) = render ts \<and> (\<forall>l \<in> set ts. lexeme l)"

lemma lexeme_head: "lexeme l \<Longrightarrow> l \<noteq> [] \<and> hd l \<noteq> NUL \<and> \<not> is_ws (hd l)"
  by (cases l) (auto simp: lexeme_def is_word_def word_char_def ws_sym)

lemma left_nth:
  assumes "left b es i ts" and "k < length (render ts)"
  shows "i + k < es" and "b ! (i + k) = render ts ! k"
proof -
  have t: "take (es - i) (drop i b) = render ts" using assms(1) by (simp add: left_def)
  have b: "i \<le> es" "es < length b" using assms(1) line_facts(1) by (auto simp: left_def)
  then have "length (render ts) = es - i" unfolding t [symmetric] by simp
  with assms(2) show lt: "i + k < es" by simp
  have "render ts ! k = take (es - i) (drop i b) ! k" by (simp only: t)
  also have "\<dots> = b ! (i + k)" using lt b by simp
  finally show "b ! (i + k) = render ts ! k" ..
qed

lemma left_Nil: "left b es i [] \<longleftrightarrow> line b es \<and> i = es"
  using line_facts(1) [of b es] by (auto simp: left_def render_def)

lemma left_skip:
  assumes "left b es i ts"
  shows "skip_ws b es i = i"
proof (cases ts)
  case Nil
  then show ?thesis using assms by (intro skip_ws_unfold(2)) (simp add: left_Nil)
next
  case (Cons l ts')
  then have l: "lexeme l" using assms by (simp add: left_def)
  then have "l \<noteq> []" "\<not> is_ws (hd l)" using lexeme_head by auto
  then have "b ! i = hd l" using left_nth(2) [OF assms, of 0] by (cases l) (simp_all add: Cons render_def)
  then show ?thesis using \<open>\<not> is_ws (hd l)\<close> by (intro skip_ws_unfold(2)) simp
qed

lemma left_Cons:
  assumes "left b es i (l # ts)"
  shows "\<And>k. k < length l \<Longrightarrow> i + k < es \<and> b ! (i + k) = l ! k" and "b ! (i + length l) = CHR '' ''" and "i + length l < es"
    and "left b es (i + length l + 1) ts" and "lexeme l" and "tok_text b (i, i + length l) = l"
proof -
  have r: "render (l # ts) = l @ CHR '' '' # render ts" by (simp add: render_def)
  have l: "line b es" "i \<le> es" "take (es - i) (drop i b) = l @ CHR '' '' # render ts" "\<forall>x \<in> set (l # ts). lexeme x"
    using assms by (simp_all add: left_def r)
  show nth: "i + k < es \<and> b ! (i + k) = l ! k" if "k < length l" for k
    using left_nth [OF assms, of k] that by (simp add: r nth_append)
  show sp: "b ! (i + length l) = CHR '' ''" and lt: "i + length l < es"
    using left_nth [OF assms, of "length l"] by (simp_all add: r)
  have "take (es - (i + length l + 1)) (drop (i + length l + 1) b) = drop (length l + 1) (take (es - i) (drop i b))"
    by (simp add: drop_take add.commute add.left_commute)
  then show "left b es (i + length l + 1) ts" using l lt by (simp add: left_def)
  show "lexeme l" using l(4) by simp
  have "take (length l) (take (es - i) (drop i b)) = l" by (simp only: l(3)) simp
  then show "tok_text b (i, i + length l) = l" using lt by (simp add: tok_text_def min_absorb1)
qed

lemma left_peek:
  assumes "left b es i ts" and "NUL \<notin> set toks"
  shows "peek b es toks i = Ok (ts \<noteq> [] \<and> hd (hd ts) \<in> set toks) i"
proof -
  have l: "line b es" "i \<le> es" using assms(1) by (simp_all add: left_def)
  show ?thesis
  proof (cases ts)
    case Nil
    then show ?thesis using peek_exec [OF l assms(2)] left_skip [OF assms(1)] assms(1) by (simp add: left_Nil)
  next
    case (Cons x xs)
    then have "x \<noteq> []" using assms(1) lexeme_head by (auto simp: left_def)
    then have "i < es" "b ! i = hd x"
      using left_Cons(1) [of b es i x xs 0] assms(1) Cons by (auto simp: hd_conv_nth)
    then show ?thesis using peek_exec [OF l assms(2)] left_skip [OF assms(1)] Cons by simp
  qed
qed

text \<open>The end of a word in front of a blank.\<close>

lemma word_end_word:
  assumes "left b es i (l # ts)" and "is_word l"
  shows "word_end b es i = i + length l"
proof -
  have "word_end b es (i + k) = i + length l" if "k \<le> length l" for k
    using that
  proof (induction "length l - k" arbitrary: k)
    case 0
    then have "word_end b es (i + k) = i + k" using left_Cons(2) [OF assms(1)] by (subst word_end.simps) (simp add: ws_sym)
    then show ?case using 0 by simp
  next
    case (Suc n)
    then have k: "k < length l" by simp
    have "word_char (b ! (i + k))" "i + k < es"
      using left_Cons(1) [OF assms(1) k] assms(2) k by (auto simp: is_word_def)
    then have "word_end b es (i + k) = word_end b es (i + Suc k)" by (subst word_end.simps) (simp add: word_char_def)
    then show ?case using Suc.hyps(1) [of "Suc k"] Suc.hyps(2) k by simp
  qed
  from this [of 0] show ?thesis by simp
qed

lemma left_gettoken:
  assumes "left b es i (l # ts)"
  shows "gettoken b es i = Ok (kind l, (i, i + length l)) (i + length l + 1)"
proof -
  have s: "skip_ws b es i = i" by (rule left_skip [OF assms])
  have rd: "ch b k s = Ok (b ! k) s" if "k \<le> es" for k s
    using that assms line_facts(1) [of b es] by (intro ch_exec) (auto simp: left_def)
  have skip: "skip_ws b es (i + length l) = i + length l + 1"
    using left_Cons(2,3) [OF assms] left_skip [OF left_Cons(4) [OF assms]] by (subst skip_ws.simps) (simp add: ws_sym)
  have i: "i \<le> es" using assms by (simp add: left_def)
  have h: "l \<noteq> []" "b ! i = hd l"
    using lexeme_head [OF left_Cons(5) [OF assms]] left_Cons(1) [OF assms, of 0] by (auto simp: hd_conv_nth)
  have tok: "token b es c i (i + length l) i = Ok (c, (i, i + length l)) (i + length l + 1)" for c
    by (simp add: token_def kexec skip)
  consider (word) "is_word l" | (one) "\<not> is_word l" "length l = 1" "hd l \<in> set ''|();&<''" | (out) "l = ''>''" | (app) "l = ''>>''"
    using left_Cons(5) [OF assms] by (cases "is_word l") (auto simp: lexeme_def)
  then show ?thesis
  proof cases
    case word
    then have "word_char (hd l)" using h(1) by (simp add: is_word_def)
    then show ?thesis
      using word_end_word [OF assms word] word h tok i
      by (auto simp: gettoken_def kbind_exec kget_exec s rd kind_def word_char_def ws_sym)
  next
    case one
    then show ?thesis using h tok [of "hd l"] i by (auto simp: gettoken_def kbind_exec kget_exec s rd kind_def)
  next
    case out
    have nw: "\<not> is_word l" by (simp add: out is_word_def word_char_def ws_sym)
    show ?thesis using h tok [of "hd l"] i left_Cons(2,3) [OF assms] nw
      by (simp add: gettoken_def kbind_exec kget_exec s rd kind_def out)
  next
    case app
    have nw: "\<not> is_word l" by (simp add: app is_word_def word_char_def ws_sym)
    have "b ! (i + 1) = CHR ''>''" "i + 1 < es" using left_Cons(1) [OF assms, of 1] by (simp_all add: app)
    then show ?thesis using h tok [of "CHR ''+''"] i nw by (simp add: gettoken_def kbind_exec kget_exec s rd kind_def app)
  qed
qed

lemma left_gettoken_end: "left b es i [] \<Longrightarrow> gettoken b es i = Ok (NUL, (i, i)) i"
  using line_facts(1,2) [of b es] left_skip [of b es i "[]"]
  by (simp add: left_Nil gettoken_def kbind_exec kget_exec ch_exec token_def kexec)

section \<open>Parsing a printed line\<close>

text \<open>The operation reads the lexemes in front of \<open>ts\<close> and returns a command whose strings are those of \<open>C\<close>.\<close>

definition yields :: "char list \<Rightarrow> nat \<Rightarrow> nat \<Rightarrow> (nat, tok cmd) kop \<Rightarrow> char list cmd \<Rightarrow> char list list \<Rightarrow> bool" where
  "yields b es i m C ts \<longleftrightarrow> (\<exists>c j. m i = Ok c j \<and> left b es j ts \<and> map_cmd (tok_text b) c = C)"

lemma yields_ret: "left b es i ts \<Longrightarrow> map_cmd (tok_text b) c = C \<Longrightarrow> yields b es i (ret c) C ts"
  by (simp add: yields_def kexec)

lemma yields_kbind:
  assumes "yields b es i m C ts" and "\<And>c j. left b es j ts \<Longrightarrow> map_cmd (tok_text b) c = C \<Longrightarrow> yields b es j (f c) D us"
  shows "yields b es i (kbind m f) D us"
  using assms unfolding yields_def kbind_exec by fastforce

lemma yields_peek:
  assumes "left b es i ts" and "NUL \<notin> set toks" and "yields b es i (f (ts \<noteq> [] \<and> hd (hd ts) \<in> set toks)) C us"
  shows "yields b es i (kbind (peek b es toks) f) C us"
  using assms left_peek [OF assms(1,2)] by (simp add: yields_def kbind_exec)

lemma yields_token:
  assumes "left b es i (l # ts)"
    and "\<And>j. left b es j ts \<Longrightarrow> tok_text b (i, i + length l) = l \<Longrightarrow> yields b es j (f (kind l, (i, i + length l))) C us"
  shows "yields b es i (kbind (gettoken b es) f) C us"
  using assms(2) [OF left_Cons(4,6) [OF assms(1)]] left_gettoken [OF assms(1)] by (simp add: yields_def kbind_exec)

lemma yields_skip:
  assumes "left b es i (l # ts)" and "\<And>j. left b es j ts \<Longrightarrow> yields b es j m C us"
  shows "yields b es i (kthen (gettoken b es) m) C us"
  using assms(2) [OF left_Cons(4) [OF assms(1)]] left_gettoken [OF assms(1)] by (simp add: yields_def kthen_exec)

text \<open>Nothing is left, or the next lexeme starts with one of the characters.\<close>

definition follow :: "char list \<Rightarrow> char list list \<Rightarrow> bool" where
  "follow cs ts \<longleftrightarrow> ts = [] \<or> hd (hd ts) \<in> set cs"

lemma word_head: "is_word w \<Longrightarrow> hd w \<notin> set ''<|>&;()'' \<and> kind w = CHR ''a''"
  by (cases w) (auto simp: is_word_def word_char_def ws_sym kind_def)

lemma kind_symbol: "kind ''<'' = CHR ''<''" "kind ''>'' = CHR ''>''" "kind ''>>'' = CHR ''+''"
  by (simp_all add: kind_def is_word_def word_char_def ws_sym)

lemma redirs_yield:
  assumes "redirs_ok rs" and "left b es i (lex_redirs rs @ ts)" and "ts = [] \<or> hd (hd ts) \<notin> set ''<>''" and "length rs < n"
  shows "yields b es i (parseredirs n b es c) (fold wrap rs (map_cmd (tok_text b) c)) ts"
  using assms
proof (induction rs arbitrary: i c n)
  case Nil
  then obtain m where "n = Suc m" by (cases n) auto
  then show ?case using Nil by (auto intro!: yields_peek [where ts = ts] yields_ret simp: lex_redirs_def)
next
  case (Cons r rs)
  then obtain m where n: "n = Suc m" by (cases n) auto
  have f: "is_word (redir_file r)" "redirs_ok rs" using Cons.prems(1) by (simp_all add: redirs_ok_def)
  obtain s where s: "lex_redir r = [s, redir_file r]" "hd s \<in> set ''<>''"
    "wrap r C = (if kind s = CHR ''<'' then REDIR C (redir_file r) 0 0 else REDIR C (redir_file r) 0x201 1)" for C
    by (cases r) (auto simp: kind_symbol)
  have left: "left b es i (s # redir_file r # lex_redirs rs @ ts)" using Cons.prems(2) by (simp add: lex_redirs_def s(1))
  have next_one: "yields b es j (parseredirs m b es (if kind s = CHR ''<'' then REDIR c t 0 0 else REDIR c t 0x201 1))
      (fold wrap (r # rs) (map_cmd (tok_text b) c)) ts" if "left b es j (lex_redirs rs @ ts)" "tok_text b t = redir_file r" for j t
  proof -
    have "map_cmd (tok_text b) (if kind s = CHR ''<'' then REDIR c t 0 0 else REDIR c t 0x201 1) = wrap r (map_cmd (tok_text b) c)"
      using that(2) by (simp add: s(3))
    then show ?thesis
      using Cons.IH [OF f(2) that(1) Cons.prems(3), of m "if kind s = CHR ''<'' then REDIR c t 0 0 else REDIR c t 0x201 1"]
        Cons.prems(4) n by simp
  qed
  note nx = next_one [where t = "(x, y)" for x y]
  show ?case
    unfolding n parseredirs.simps
    by (rule yields_peek [OF left]) (use s(2) word_head [OF f(1)] in
      \<open>auto intro!: yields_token [OF left] yields_token [where l = "redir_file r" and ts = "lex_redirs rs @ ts"] simp del: fold.simps dest!: nx split: if_splits\<close>)
qed

lemma map_add_arg: "map_cmd f (add_arg a c) = add_arg (f a) (map_cmd f c)"
  by (induction a c rule: add_arg.induct) auto

lemma follow_redirs:
  assumes "args_ok as" and "ts = [] \<or> hd (hd ts) \<notin> set ''<>''"
  shows "lex_args as @ ts = [] \<or> hd (hd (lex_args as @ ts)) \<notin> set ''<>''"
proof (cases as)
  case (Cons x xs)
  then have "is_word (fst x)" using assms(1) by (auto simp: args_ok_def)
  then show ?thesis using word_head by (auto simp: Cons lex_args_def split_beta)
qed (use assms(2) in \<open>simp add: lex_args_def\<close>)

lemma redirs_length: "length (lex_redirs rs) = 2 * length rs"
proof (induction rs)
  case (Cons r rs)
  then show ?case by (cases r) (simp_all add: lex_redirs_def)
qed (simp add: lex_redirs_def)

lemma args_yield:
  assumes "args_ok as" and "left b es i (lex_args as @ ts)" and "follow ''|)&;'' ts" and "argc + length as < 10"
    and "length (lex_args as) < n"
  shows "yields b es i (parseargs n b es argc c) (the_args as (map_cmd (tok_text b) c)) ts"
  using assms
proof (induction as arbitrary: i argc c n)
  case Nil
  then obtain m where n: "n = Suc m" by (cases n) auto
  have left: "left b es i ts" using Nil by (simp add: lex_args_def)
  show ?case
  proof (cases "ts = []")
    case True
    then have "kbind (gettoken b es) f i = f (NUL, (i, i)) i" for f :: "char \<times> tok \<Rightarrow> (nat, tok cmd) kop"
      using left_gettoken_end left by (simp add: kbind_exec)
    then show ?thesis
      unfolding n parseargs.simps
      by (intro yields_peek [OF left]) (use True left in \<open>auto simp: yields_def kexec the_args_def\<close>)
  next
    case False
    then show ?thesis
      unfolding n parseargs.simps
      by (intro yields_peek [OF left]) (use Nil left in \<open>auto simp: follow_def the_args_def intro!: yields_ret\<close>)
  qed
next
  case (Cons x as)
  obtain a rs where x: "x = (a, rs)" by (cases x)
  obtain m where n: "n = Suc m" using Cons.prems(5) by (cases n) auto
  have ok: "is_word a" "redirs_ok rs" "args_ok as" using Cons.prems(1) by (auto simp: args_ok_def x)
  have left: "left b es i (a # lex_redirs rs @ lex_args as @ ts)" using Cons.prems(2) by (simp add: lex_args_def x)
  have f: "ts = [] \<or> hd (hd ts) \<notin> set ''<>''" using Cons.prems(3) by (auto simp: follow_def)
  have step: "yields b es j (kbind (parseredirs m b es (add_arg t c)) (\<lambda>c'. parseargs m b es (Suc argc) c'))
      (the_args (x # as) (map_cmd (tok_text b) c)) ts"
    if "left b es j (lex_redirs rs @ lex_args as @ ts)" "tok_text b t = a" for j t
  proof (rule yields_kbind [OF redirs_yield [OF ok(2) that(1) follow_redirs [OF ok(3) f]]])
    show "length rs < m" using Cons.prems(5) n redirs_length [of rs] by (simp add: lex_args_def x)
    fix c' k
    assume k: "left b es k (lex_args as @ ts)" "map_cmd (tok_text b) c' = fold wrap rs (map_cmd (tok_text b) (add_arg t c))"
    have "the_args (x # as) (map_cmd (tok_text b) c) = the_args as (map_cmd (tok_text b) c')"
      using that(2) by (simp add: the_args_def x k(2) map_add_arg)
    then show "yields b es k (parseargs m b es (Suc argc) c') (the_args (x # as) (map_cmd (tok_text b) c)) ts"
      using Cons.IH [OF ok(3) k(1) Cons.prems(3), of "Suc argc" m c'] Cons.prems(4,5) n by (simp add: lex_args_def x)
  qed
  have "argc + 1 < 10" using Cons.prems(4) by simp
  then show ?case
    unfolding n parseargs.simps
    by (intro yields_peek [OF left]) (use word_head [OF ok(1)] in \<open>auto intro!: yields_token [OF left] dest!: step [where t = "(u, v)" for u v]\<close>)
qed

lemma back_yield:
  assumes "left b es i (replicate k ''&'' @ ts)" and "ts = [] \<or> hd (hd ts) \<noteq> CHR ''&''" and "k < n"
  shows "yields b es i (parseback n b es c) ((BACK ^^ k) (map_cmd (tok_text b) c)) ts"
  using assms
proof (induction k arbitrary: i c n)
  case 0
  then obtain m where "n = Suc m" by (cases n) auto
  then show ?case using 0 by (auto intro!: yields_peek [where ts = ts] yields_ret)
next
  case (Suc k)
  then obtain m where n: "n = Suc m" by (cases n) auto
  have left: "left b es i (''&'' # replicate k ''&'' @ ts)" using Suc.prems(1) by simp
  show ?case
    unfolding n parseback.simps
    by (intro yields_peek [OF left])
      (use Suc.IH [OF _ Suc.prems(2), of _ m "BACK c"] Suc.prems(3) n in \<open>auto intro!: yields_skip [OF left] simp: funpow_swap1\<close>)
qed

lemma follow_simple:
  assumes "redirs_ok rs" and "args_ok as" and "follow cs ts" and "CHR ''('' \<notin> set cs"
  shows "lex_redirs rs @ lex_args as @ ts = [] \<or> hd (hd (lex_redirs rs @ lex_args as @ ts)) \<noteq> CHR ''(''"
proof (cases rs)
  case Nil
  then show ?thesis
  proof (cases as)
    case (Cons x xs)
    then have "is_word (fst x)" using assms(2) by (auto simp: args_ok_def)
    then show ?thesis using word_head by (auto simp: Cons lex_args_def lex_redirs_def Nil split_beta)
  qed (use assms(3,4) Nil in \<open>auto simp: lex_args_def lex_redirs_def follow_def\<close>)
next
  case (Cons r rs')
  then show ?thesis by (cases r) (auto simp: lex_redirs_def)
qed

lemma simple_yields:
  assumes "left b es i (lex_item (Simple rs as) @ ts)" and "item_ok (Simple rs as)" and "follow ''|&;)'' ts"
    and "4 * length (lex_item (Simple rs as) @ ts) + 2 \<le> n"
  shows "yields b es i (parseexec n b es) (cmd_item (Simple rs as)) ts"
proof -
  obtain m where n: "n = Suc m" using assms(4) by (cases n) auto
  have ok: "redirs_ok rs" "args_ok as" "length as < 10" using assms(2) by simp_all
  have left: "left b es i (lex_redirs rs @ lex_args as @ ts)" using assms(1) by simp
  have f: "follow ''|)&;'' ts" "ts = [] \<or> hd (hd ts) \<notin> set ''<>''" using assms(3) by (auto simp: follow_def)
  have "yields b es i (kbind (parseredirs m b es (EXEC [])) (\<lambda>c. parseargs m b es 0 c)) (cmd_item (Simple rs as)) ts"
  proof (rule yields_kbind [OF redirs_yield [OF ok(1) left follow_redirs [OF ok(2) f(2)]]])
    show "length rs < m" using assms(4) n redirs_length [of rs] by simp
    fix c j
    assume "left b es j (lex_args as @ ts)" "map_cmd (tok_text b) c = fold wrap rs (map_cmd (tok_text b) (EXEC []))"
    then show "yields b es j (parseargs m b es 0 c) (cmd_item (Simple rs as)) ts"
      using args_yield [OF ok(2) _ f(1), of b es j 0 m c] ok(3) assms(4) n by simp
  qed
  then show ?thesis
    unfolding n parseexec.simps
    using follow_simple [OF ok(1,2) assms(3)] by (intro yields_peek [OF left]) auto
qed

text \<open>What the three mutually recursive functions owe for an item, a pipeline and a line.\<close>

definition item_read :: "item \<Rightarrow> bool" where
  "item_read x \<longleftrightarrow> (\<forall>b es i ts n. left b es i (lex_item x @ ts) \<longrightarrow> follow ''|&;)'' ts \<longrightarrow> 4 * length (lex_item x @ ts) + 2 \<le> n \<longrightarrow>
     yields b es i (parseexec n b es) (cmd_item x) ts)"

definition pipe_read :: "pipeline \<Rightarrow> bool" where
  "pipe_read p \<longleftrightarrow> (\<forall>b es i ts n. left b es i (lex_pipe p @ ts) \<longrightarrow> follow ''&;)'' ts \<longrightarrow> 4 * length (lex_pipe p @ ts) + 3 \<le> n \<longrightarrow>
     yields b es i (parsepipe n b es) (cmd_pipe p) ts)"

definition line_read :: "cline \<Rightarrow> bool" where
  "line_read l \<longleftrightarrow> (\<forall>b es i ts n. left b es i (lex_line l @ ts) \<longrightarrow> follow '')'' ts \<longrightarrow> 4 * length (lex_line l @ ts) + 4 \<le> n \<longrightarrow>
     yields b es i (parseline n b es) (cmd_line l) ts)"

lemma read_rules:
  "item_read x \<Longrightarrow> left b es i (lex_item x @ ts) \<Longrightarrow> follow ''|&;)'' ts \<Longrightarrow> 4 * length (lex_item x @ ts) + 2 \<le> n \<Longrightarrow>
    yields b es i (parseexec n b es) (cmd_item x) ts"
  "pipe_read p \<Longrightarrow> left b es i (lex_pipe p @ ts) \<Longrightarrow> follow ''&;)'' ts \<Longrightarrow> 4 * length (lex_pipe p @ ts) + 3 \<le> n \<Longrightarrow>
    yields b es i (parsepipe n b es) (cmd_pipe p) ts"
  "line_read l \<Longrightarrow> left b es i (lex_line l @ ts) \<Longrightarrow> follow '')'' ts \<Longrightarrow> 4 * length (lex_line l @ ts) + 4 \<le> n \<Longrightarrow>
    yields b es i (parseline n b es) (cmd_line l) ts"
  unfolding item_read_def pipe_read_def line_read_def by blast+

lemma block_read:
  assumes "line_read l" and "redirs_ok rs"
  shows "item_read (Block l rs)"
  unfolding item_read_def
proof (intro allI impI)
  fix b es i ts n
  assume prems: "left b es i (lex_item (Block l rs) @ ts)" "follow ''|&;)'' ts" "4 * length (lex_item (Block l rs) @ ts) + 2 \<le> n"
  let ?us = "'')'' # lex_redirs rs @ ts" and ?C = "fold wrap rs (cmd_line l)"
  obtain m where n: "n = Suc (Suc m)" using prems(3) by (cases n; cases "n - 1") auto
  have left: "left b es i (''('' # lex_line l @ ?us)" using prems(1) by simp
  have f: "ts = [] \<or> hd (hd ts) \<notin> set ''<>''" using prems(2) by (auto simp: follow_def)
  have redirs: "yields b es j (parseredirs m b es c) ?C ts"
    if "left b es j (lex_redirs rs @ ts)" "map_cmd (tok_text b) c = cmd_line l" for j c
    using redirs_yield [OF assms(2) that(1) f, of m c] that(2) prems(3) n redirs_length [of rs] by simp
  have tail: "yields b es j (kbind (peek b es '')'') (\<lambda>ok. if \<not> ok then panic ''syntax - missing )''
      else kthen (gettoken b es) (parseredirs m b es c))) ?C ts"
    if "left b es j ?us" "map_cmd (tok_text b) c = cmd_line l" for j c
    by (rule yields_peek [OF that(1)]) (auto intro!: yields_skip [OF that(1)] redirs that(2))
  have body: "yields b es j (kbind (parseline m b es) (\<lambda>c. kbind (peek b es '')'') (\<lambda>ok. if \<not> ok then panic ''syntax - missing )''
      else kthen (gettoken b es) (parseredirs m b es c)))) ?C ts" if "left b es j (lex_line l @ ?us)" for j
  proof (rule yields_kbind [OF _ tail])
    show "yields b es j (parseline m b es) (cmd_line l) ?us"
      by (rule read_rules(3) [OF assms(1) that]) (use prems(3) n in \<open>simp_all add: follow_def\<close>)
  qed
  show "yields b es i (parseexec n b es) (cmd_item (Block l rs)) ts"
    unfolding n parseexec.simps parseblock.simps
    by (intro yields_peek [OF left]) (auto intro!: yields_peek [OF left] yields_skip [OF left] body)
qed

lemma single_read: "item_read x \<Longrightarrow> pipe_read (Single x)"
  unfolding pipe_read_def
proof (intro allI impI)
  fix b es i ts n
  assume x: "item_read x" and prems: "left b es i (lex_pipe (Single x) @ ts)" "follow ''&;)'' ts" "4 * length (lex_pipe (Single x) @ ts) + 3 \<le> n"
  obtain m where n: "n = Suc m" using prems(3) by (cases n) auto
  have item: "yields b es i (parseexec m b es) (cmd_item x) ts" 
    by (rule read_rules(1) [OF x]) (use prems n in \<open>auto simp: follow_def\<close>)
  show "yields b es i (parsepipe n b es) (cmd_pipe (Single x)) ts"
    unfolding n parsepipe.simps
    by (rule yields_kbind [OF item], rule yields_peek) (use prems(2) in \<open>auto simp: follow_def intro!: yields_ret\<close>)
qed

lemma piped_read: "item_read x \<Longrightarrow> pipe_read p \<Longrightarrow> pipe_read (Piped x p)"
  unfolding pipe_read_def [of "Piped x p"]
proof (intro allI impI)
  fix b es i ts n
  assume x: "item_read x" "pipe_read p" and prems: "left b es i (lex_pipe (Piped x p) @ ts)" "follow ''&;)'' ts"
    "4 * length (lex_pipe (Piped x p) @ ts) + 3 \<le> n"
  obtain m where n: "n = Suc m" using prems(3) by (cases n) auto
  have item: "yields b es i (parseexec m b es) (cmd_item x) (''|'' # lex_pipe p @ ts)"
    by (rule read_rules(1) [OF x(1)]) (use prems n in \<open>simp_all add: follow_def\<close>)
  have rest: "yields b es j (parsepipe m b es) (cmd_pipe p) ts" if "left b es j (lex_pipe p @ ts)" for j
    by (rule read_rules(2) [OF x(2) that prems(2)]) (use prems(3) n in simp)
  show "yields b es i (parsepipe n b es) (cmd_pipe (Piped x p)) ts"
    unfolding n parsepipe.simps
  proof (rule yields_kbind [OF item], rule yields_peek, assumption, simp)
    fix c j
    assume j: "left b es j (''|'' # lex_pipe p @ ts)" and c: "map_cmd (tok_text b) c = cmd_item x"
    show "yields b es j (if \<not> (''|'' # lex_pipe p @ ts \<noteq> [] \<and> hd (hd (''|'' # lex_pipe p @ ts)) \<in> set ''|'') then ret c
        else kthen (gettoken b es) (kbind (parsepipe m b es) (\<lambda>r. ret (PIPE c r)))) (cmd_pipe (Piped x p)) ts"
      using c by (auto intro!: yields_skip [OF j] yields_kbind [OF rest] yields_ret)
  qed
qed

text \<open>The pipeline and the ampersands at the front of a line.\<close>

lemma front_read:
  assumes "pipe_read p" and "left b es i (lex_pipe p @ replicate k ''&'' @ ts)" and "follow '';)'' ts"
    and "4 * length (lex_pipe p @ replicate k ''&'' @ ts) + 3 \<le> m"
    and "\<And>c j. left b es j ts \<Longrightarrow> map_cmd (tok_text b) c = (BACK ^^ k) (cmd_pipe p) \<Longrightarrow> yields b es j (f c) C us"
  shows "yields b es i (kbind (parsepipe m b es) (\<lambda>c. kbind (parseback m b es c) f)) C us"
proof (rule yields_kbind)
  have "follow ''&;)'' (replicate k ''&'' @ ts)" using assms(3) by (cases k) (auto simp: follow_def)
  then show "yields b es i (parsepipe m b es) (cmd_pipe p) (replicate k ''&'' @ ts)"
    by (rule read_rules(2) [OF assms(1,2) _ assms(4)])
next
  fix c j
  assume j: "left b es j (replicate k ''&'' @ ts)" and c: "map_cmd (tok_text b) c = cmd_pipe p"
  have "yields b es j (parseback m b es c) ((BACK ^^ k) (map_cmd (tok_text b) c)) ts"
    using assms(3,4) by (intro back_yield [OF j]) (auto simp: follow_def)
  then show "yields b es j (kbind (parseback m b es c) f) C us"
    unfolding c by (rule yields_kbind) (rule assms(5))
qed

lemma last_read: "pipe_read p \<Longrightarrow> line_read (Last p k)"
  unfolding line_read_def
proof (intro allI impI)
  fix b es i ts n
  assume p: "pipe_read p" and prems: "left b es i (lex_line (Last p k) @ ts)" "follow '')'' ts" "4 * length (lex_line (Last p k) @ ts) + 4 \<le> n"
  obtain m where n: "n = Suc m" using prems(3) by (cases n) auto
  show "yields b es i (parseline n b es) (cmd_line (Last p k)) ts"
    unfolding n parseline.simps
  proof (rule front_read [OF p, of b es i k ts])
    fix c j
    assume j: "left b es j ts" "map_cmd (tok_text b) c = (BACK ^^ k) (cmd_pipe p)"
    show "yields b es j (kbind (peek b es '';'') (\<lambda>more. if \<not> more then ret c
        else kthen (gettoken b es) (kbind (parseline m b es) (\<lambda>r. ret (LIST c r))))) (cmd_line (Last p k)) ts"
      by (rule yields_peek [OF j(1)]) (use prems(2) j in \<open>auto simp: follow_def intro!: yields_ret\<close>)
  qed (use prems n in \<open>auto simp: follow_def\<close>)
qed

lemma seq_read: "pipe_read p \<Longrightarrow> line_read l \<Longrightarrow> line_read (Seq p k l)"
  unfolding line_read_def [of "Seq p k l"]
proof (intro allI impI)
  fix b es i ts n
  assume p: "pipe_read p" "line_read l" and prems: "left b es i (lex_line (Seq p k l) @ ts)" "follow '')'' ts"
    "4 * length (lex_line (Seq p k l) @ ts) + 4 \<le> n"
  obtain m where n: "n = Suc m" using prems(3) by (cases n) auto
  have rest: "yields b es j (parseline m b es) (cmd_line l) ts" if "left b es j (lex_line l @ ts)" for j
    by (rule read_rules(3) [OF p(2) that prems(2)]) (use prems(3) n in simp)
  show "yields b es i (parseline n b es) (cmd_line (Seq p k l)) ts"
    unfolding n parseline.simps
  proof (rule front_read [OF p(1), of b es i k "'';'' # lex_line l @ ts"])
    fix c j
    assume j: "left b es j ('';'' # lex_line l @ ts)" "map_cmd (tok_text b) c = (BACK ^^ k) (cmd_pipe p)"
    show "yields b es j (kbind (peek b es '';'') (\<lambda>more. if \<not> more then ret c
        else kthen (gettoken b es) (kbind (parseline m b es) (\<lambda>r. ret (LIST c r))))) (cmd_line (Seq p k l)) ts"
      by (rule yields_peek [OF j(1)]) (use j(2) in \<open>auto intro!: yields_skip [OF j(1)] yields_kbind [OF rest] yields_ret\<close>)
  qed (use prems n in \<open>auto simp: follow_def\<close>)
qed

lemma parse_reads: "item_ok x \<longrightarrow> item_read x" "pipeline_ok p \<longrightarrow> pipe_read p" "line_ok l \<longrightarrow> line_read l"
proof (induction x and p and l)
  case (Simple rs as)
  then show ?case unfolding item_read_def using simple_yields by blast
qed (auto intro: block_read single_read piped_read last_read seq_read)

section \<open>The round trip\<close>

lemma lex_redirs_lexeme: "redirs_ok rs \<Longrightarrow> l \<in> set (lex_redirs rs) \<Longrightarrow> lexeme l"
proof (induction rs)
  case (Cons r rs)
  then show ?case by (cases r) (auto simp: redirs_ok_def lex_redirs_def lexeme_def)
qed (simp add: lex_redirs_def)

lemma lex_args_lexeme: "args_ok as \<Longrightarrow> l \<in> set (lex_args as) \<Longrightarrow> lexeme l"
  using lex_redirs_lexeme by (fastforce simp: args_ok_def lex_args_def lexeme_def)

lemma lexeme_symbols: "lexeme ''(''" "lexeme '')''" "lexeme ''|''" "lexeme ''&''" "lexeme '';''"
  by (simp_all add: lexeme_def)

lemma lex_lexeme:
  "item_ok x \<Longrightarrow> \<forall>l \<in> set (lex_item x). lexeme l" "pipeline_ok p \<Longrightarrow> \<forall>l \<in> set (lex_pipe p). lexeme l"
  "line_ok c \<Longrightarrow> \<forall>l \<in> set (lex_line c). lexeme l"
proof (induction x and p and c)
  case (Simple rs as)
  then show ?case using lex_redirs_lexeme lex_args_lexeme by auto
next
  case (Block l rs)
  then show ?case using lex_redirs_lexeme by (auto simp: lexeme_symbols)
qed (auto simp: lexeme_symbols)

lemma render_facts:
  assumes "\<forall>l \<in> set ts. lexeme l"
  shows "NUL \<notin> set (render ts)" and "length ts \<le> length (render ts)"
proof -
  have "NUL \<notin> set l" if "lexeme l" for l using that by (auto simp: lexeme_def is_word_def word_char_def)
  then show "NUL \<notin> set (render ts)" using assms by (auto simp: render_def)
  show "length ts \<le> length (render ts)" by (induction ts) (simp_all add: render_def)
qed

lemma strlen_printed: "NUL \<notin> set s \<Longrightarrow> strlen (cstring s) = Some (length s)"
  by (induction s) (auto simp: cstring_def)

text \<open>
  C39. The shell reads back what is printed. For every command line of the grammar, with redirections, arguments, blocks,
  pipelines, background commands and lists nested to any depth, words of any length and fewer than ten of them in a simple command,
  the parser reads the whole printed line and returns exactly the command the line stands for: pipelines and lists group to the right,
  redirections apply from the inside out and an ampersand to the whole pipeline before it.
\<close>

theorem sh_parse_print:
  assumes "line_ok l" and "b = cstring (print_line l)" and "es = length (print_line l)"
  shows "\<exists>c. parseline (4 * es + 4) b es 0 = Ok c es \<and> map_cmd (tok_text b) c = cmd_line l"
proof -
  note lx = lex_lexeme(3) [OF assms(1)]
  have "strlen b = Some es" using strlen_printed [OF render_facts(1) [OF lx]] by (simp add: assms(2,3) print_line_def)
  then have left: "left b es 0 (lex_line l @ [])"
    using lx by (simp add: left_def line_def assms(2,3) print_line_def cstring_def)
  have "length (lex_line l) \<le> es" using render_facts(2) [OF lx] by (simp add: assms(3) print_line_def)
  then have "yields b es 0 (parseline (4 * es + 4) b es) (cmd_line l) []"
    using parse_reads(3) [of l] assms(1) by (intro read_rules(3) [OF _ left]) (simp_all add: follow_def)
  then show ?thesis by (auto simp: yields_def left_Nil)
qed

text \<open>An example: \<open>(ls > f ) | wc & ; cat < f\<close>.\<close>

theorem sh_parse_print_witness:
  "let l = Seq (Piped (Block (Last (Single (Simple [] [(''ls'', [Out ''f''])])) 0) []) (Single (Simple [] [(''wc'', [])]))) 1
         (Last (Single (Simple [] [(''cat'', [In ''f''])])) 0)
   in \<exists>c. parseline 116 (cstring (print_line l)) 28 0 = Ok c 28 \<and>
        map_cmd (tok_text (cstring (print_line l))) c =
          LIST (BACK (PIPE (REDIR (EXEC [''ls'']) ''f'' 0x201 1) (EXEC [''wc'']))) (REDIR (EXEC [''cat'']) ''f'' 0 0)"
proof -
  let ?l = "Seq (Piped (Block (Last (Single (Simple [] [(''ls'', [Out ''f''])])) 0) []) (Single (Simple [] [(''wc'', [])]))) 1
         (Last (Single (Simple [] [(''cat'', [In ''f''])])) 0)"
  have ok: "line_ok ?l" by (simp add: redirs_ok_def args_ok_def is_word_def word_char_def ws_sym)
  have len: "length (print_line ?l) = 28" by (simp add: print_line_def render_def lex_args_def lex_redirs_def)
  have "cmd_line ?l = LIST (BACK (PIPE (REDIR (EXEC [''ls'']) ''f'' 0x201 1) (EXEC [''wc'']))) (REDIR (EXEC [''cat'']) ''f'' 0 0)"
    by (simp add: the_args_def)
  then show ?thesis using sh_parse_print [OF ok refl refl] unfolding len by (simp only: Let_def mult_numeral_1 arith_simps)
qed

end
