(* ===== verification/Mkfs.thy ===== *)
theory Mkfs
  imports Fs
begin

text \<open>
  \<^verbatim>\<open>mkfs.c\<close>, the host program that builds the file system image. Its state is the image as a sequence of
  sectors and the program's global variables. A transfer between the program and the image file succeeds or fails as the host
  decides: \<open>hostok\<close> says so for each in turn; what a file to be copied delivers to successive calls of \<open>read\<close> is an argument. A failed
  assertion and an exit with an error are the stop \<open>Panic\<close>. The host is a little-endian machine.
\<close>

section \<open>The layout\<close>

abbreviation (input) NINODES :: nat where "NINODES \<equiv> 200"
abbreviation (input) nlog :: nat where "nlog \<equiv> 30"

definition nbitmap :: nat where "nbitmap = FSSIZE div (BSIZE * 8) + 1"
definition ninodeblocks :: nat where "ninodeblocks = NINODES div IPB + 1"
definition nmeta :: nat where "nmeta = 2 + nlog + ninodeblocks + nbitmap"
definition nblocks :: nat where "nblocks = FSSIZE - nmeta"

lemmas layout_nums = nbitmap_def ninodeblocks_def nmeta_def nblocks_def

record mkfs =
  img :: "nat \<Rightarrow> block"
  imgsecs :: nat              \<comment> \<open>the sectors of the image file\<close>
  mk_sb :: superblock
  freeinode :: uint
  freeblock :: uint
  hostok :: "nat \<Rightarrow> bool"
  hostn :: nat                \<comment> \<open>the calls made so far\<close>

text \<open>Intel byte order: the bytes are stored one by one and read back as a number.\<close>

definition xshort :: "ushort \<Rightarrow> ushort" where
  "xshort x = bld16 (bst16 (\<lambda>_. 0) 0 x) 0"

definition xint :: "uint \<Rightarrow> uint" where
  "xint x = bld32 (bst32 (\<lambda>_. 0) 0 x) 0"

lemma x_id [simp]: "xshort x = x" "xint y = y"
  by (simp_all add: xshort_def xint_def)

section \<open>Sectors\<close>

definition host_call :: "string \<Rightarrow> (mkfs, unit) kop" where
  "host_call msg =
     kbind (kget (\<lambda>m. hostok m (hostn m))) (\<lambda>ok.
     kthen (kmod (\<lambda>m. m\<lparr>hostn := hostn m + 1\<rparr>))
     (kwhen (\<not> ok) (panic msg)))"

text \<open>The sector at the byte \<open>sec * BSIZE\<close>, a 32-bit number.\<close>

definition sector :: "uint \<Rightarrow> nat" where
  "sector sec = unat (sec * 512) div BSIZE"

definition wsect :: "uint \<Rightarrow> block \<Rightarrow> (mkfs, unit) kop" where
  "wsect sec b =
     kthen (host_call ''lseek'')
     (kthen (host_call ''write'')
     (kmod (\<lambda>m. m\<lparr>img := (img m)(sector sec := b), imgsecs := max (imgsecs m) (sector sec + 1)\<rparr>)))"

definition rsect :: "uint \<Rightarrow> (mkfs, block) kop" where
  "rsect sec =
     kthen (host_call ''lseek'')
     (kthen (host_call ''read'')
     (kbind (kget imgsecs) (\<lambda>n.
      if sector sec < n then kget (\<lambda>m. img m (sector sec)) else panic ''read'')))"

section \<open>Inodes\<close>

definition winode :: "uint \<Rightarrow> dinode \<Rightarrow> (mkfs, unit) kop" where
  "winode inum d =
     kbind (kget (\<lambda>m. IBLOCK inum (mk_sb m))) (\<lambda>bn.
     kbind (rsect bn) (\<lambda>b.
     wsect bn (put_dinode b (unat inum mod IPB) d)))"

definition rinode :: "uint \<Rightarrow> (mkfs, dinode) kop" where
  "rinode inum =
     kbind (kget (\<lambda>m. IBLOCK inum (mk_sb m))) (\<lambda>bn.
     kbind (rsect bn) (\<lambda>b.
     ret (get_dinode b (unat inum mod IPB))))"

definition mk_ialloc :: "ushort \<Rightarrow> (mkfs, uint) kop" where
  "mk_ialloc ty =
     kbind (kget freeinode) (\<lambda>inum.
     kthen (kmod (\<lambda>m. m\<lparr>freeinode := freeinode m + 1\<rparr>))
     (kthen (winode inum \<lparr>di_type = xshort ty, di_major = 0, di_minor = 0, di_nlink = xshort 1, di_size = xint 0, di_addrs = (\<lambda>_. 0)\<rparr>)
     (ret inum)))"

section \<open>Files\<close>

text \<open>\<open>freeblock++\<close>\<close>

definition fresh :: "(mkfs, uint) kop" where
  "fresh = kbind (kget freeblock) (\<lambda>x. kthen (kmod (\<lambda>m. m\<lparr>freeblock := freeblock m + 1\<rparr>)) (ret x))"

definition addr_of :: "nat \<Rightarrow> dinode \<Rightarrow> (mkfs, dinode) kop" where
  "addr_of k din =
     (if xint (di_addrs din k) = 0
      then kbind fresh (\<lambda>x. ret (din\<lparr>di_addrs := (di_addrs din)(k := xint x)\<rparr>))
      else ret din)"

text \<open>The sector \<open>x\<close> of block \<open>fbn\<close> of a file.\<close>

definition iappend_block :: "nat \<Rightarrow> dinode \<Rightarrow> (mkfs, dinode \<times> uint) kop" where
  "iappend_block fbn din =
     (if fbn < NDIRECT
      then kbind (addr_of fbn din) (\<lambda>din. ret (din, xint (di_addrs din fbn)))
      else
        kbind (addr_of NDIRECT din) (\<lambda>din.
        kbind (rsect (xint (di_addrs din NDIRECT))) (\<lambda>ind.
        kbind (if bld32 ind (4 * (fbn - NDIRECT)) = 0
               then kbind fresh (\<lambda>x.
                    let ind' = bst32 ind (4 * (fbn - NDIRECT)) (xint x) in
                    kthen (wsect (xint (di_addrs din NDIRECT)) ind') (ret ind'))
               else ret ind) (\<lambda>ind.
        ret (din, xint (bld32 ind (4 * (fbn - NDIRECT))))))))"

text \<open>The loop over the pieces \<open>(off, n1)\<close> of the range, of which \<open>p\<close> is what is left to copy.\<close>

primrec iappend_loop :: "(nat \<times> nat) list \<Rightarrow> byte list \<Rightarrow> dinode \<Rightarrow> (mkfs, dinode) kop" where
  "iappend_loop [] p din = ret din"
| "iappend_loop (c # cs) p din =
     (let fbn = fst c div BSIZE in
      if fbn \<ge> 140 then panic ''fbn < MAXFILE''
      else
        kbind (iappend_block fbn din) (\<lambda>(din, x).
        kbind (rsect x) (\<lambda>b.
        kthen (wsect x (put_bytes ((!) p) 0 (fst c mod BSIZE) (snd c) b))
        (iappend_loop cs (drop (snd c) p) din))))"

definition iappend :: "uint \<Rightarrow> byte list \<Rightarrow> (mkfs, unit) kop" where
  "iappend inum p =
     kbind (rinode inum) (\<lambda>din.
     let off = unat (xint (di_size din)) in
     kbind (iappend_loop (chunks off (length p)) p din) (\<lambda>din.
     winode inum (din\<lparr>di_size := xint (word_of_nat (off + length p))\<rparr>)))"

text \<open>The free map: the first \<open>n\<close> blocks are in use.\<close>

definition mk_balloc :: "nat \<Rightarrow> (mkfs, unit) kop" where
  "mk_balloc n =
     (if n \<ge> BSIZE * 8 then panic ''used < BSIZE*8''
      else kbind (kget (\<lambda>m. sb_bmapstart (mk_sb m))) (\<lambda>bm. wsect bm (fold map_set [0..<n] (\<lambda>_. 0))))"

section \<open>The program\<close>

definition put_sb :: "superblock \<Rightarrow> block \<Rightarrow> block" where
  "put_sb s b =
     bst32 (bst32 (bst32 (bst32 (bst32 (bst32 (bst32 b 0 (sb_size s)) 4 (sb_nblocks s)) 8 (sb_ninodes s)) 12 (sb_nlog s))
       16 (sb_logstart s)) 20 (sb_inodestart s)) 24 (sb_bmapstart s)"

definition mkfs_sb :: superblock where
  "mkfs_sb = \<lparr>sb_size = xint (word_of_nat FSSIZE), sb_nblocks = xint (word_of_nat nblocks), sb_ninodes = xint (word_of_nat NINODES),
     sb_nlog = xint (word_of_nat nlog), sb_logstart = xint 2, sb_inodestart = xint (word_of_nat (2 + nlog)),
     sb_bmapstart = xint (word_of_nat (2 + nlog + ninodeblocks))\<rparr>"

text \<open>The bytes of a directory entry; the name is cut to \<open>DIRSIZ\<close> characters or padded with zeros.\<close>

definition entry :: "uint \<Rightarrow> char list \<Rightarrow> byte list" where
  "entry inum name =
     map (put_dirent \<lparr>de_inum = xshort (ucast inum), de_name = take DIRSIZ (name @ replicate DIRSIZ NUL)\<rparr>) [0..<16]"

text \<open>The loop that copies what the reads deliver; a read of nothing ends it.\<close>

primrec mk_copy :: "uint \<Rightarrow> byte list list \<Rightarrow> (mkfs, unit) kop" where
  "mk_copy inum [] = ret ()"
| "mk_copy inum (r # rs) = (if r = [] then ret () else kthen (iappend inum r) (mk_copy inum rs))"

definition mk_file :: "(char list \<Rightarrow> byte list list option) \<Rightarrow> uint \<Rightarrow> char list \<Rightarrow> (mkfs, unit) kop" where
  "mk_file host rootino name =
     (if CHR ''/'' \<in> set name then panic ''index(argv[i], /) == 0''
      else case host name of
        None \<Rightarrow> panic name
      | Some reads \<Rightarrow>
          (let name' = if name \<noteq> [] \<and> hd name = CHR ''_'' then tl name else name in
           kbind (mk_ialloc 2) (\<lambda>inum.
           kthen (iappend rootino (entry inum name'))
           (mk_copy inum reads))))"

text \<open>The end of the root directory is moved to the end of its last block.\<close>

definition fix_root :: "uint \<Rightarrow> (mkfs, unit) kop" where
  "fix_root rootino =
     kbind (rinode rootino) (\<lambda>din.
     winode rootino (din\<lparr>di_size := xint ((xint (di_size din) div 512 + 1) * 512)\<rparr>))"

text \<open>\<open>argv\<close> holds the arguments; \<open>opened\<close> is whether the image could be opened.\<close>

definition mkfs_main :: "(char list \<Rightarrow> byte list list option) \<Rightarrow> bool \<Rightarrow> char list list \<Rightarrow> (mkfs, unit) kop" where
  "mkfs_main host opened argv =
     (if length argv < 2 then panic ''Usage: mkfs fs.img files...''
      else if \<not> opened then panic (argv ! 1)
      else
        kthen (kmod (\<lambda>m. m\<lparr>mk_sb := mkfs_sb, freeblock := word_of_nat nmeta\<rparr>))
        (kthen (kfor [0..<FSSIZE] (\<lambda>i. wsect (word_of_nat i) (\<lambda>_. 0)))
        (kthen (wsect 1 (put_sb mkfs_sb (\<lambda>_. 0)))
        (kbind (mk_ialloc 1) (\<lambda>rootino.
         if rootino \<noteq> 1 then panic ''rootino == ROOTINO''
         else
           kthen (iappend rootino (entry rootino ''.''))
           (kthen (iappend rootino (entry rootino ''..''))
           (kthen (kfor (drop 2 argv) (mk_file host rootino))
           (kthen (fix_root rootino)
           (kbind (kget freeblock) (\<lambda>fb. mk_balloc (unat fb)))))))))))"

text \<open>What the program starts from: an empty image.\<close>

definition mkfs0 :: "(nat \<Rightarrow> bool) \<Rightarrow> mkfs" where
  "mkfs0 ok = \<lparr>img = (\<lambda>_ _. 0), imgsecs = 0, mk_sb = mkfs_sb\<lparr>sb_size := 0, sb_nblocks := 0, sb_ninodes := 0, sb_nlog := 0,
     sb_logstart := 0, sb_inodestart := 0, sb_bmapstart := 0\<rparr>, freeinode = 1, freeblock = 0, hostok = ok, hostn = 0\<rparr>"

section \<open>Runs without host errors\<close>

text \<open>With the layout in place and a host that serves every call, the state is the image, the first block and the first inode not in use;
  \<open>does\<close> says that an operation returns \<open>r\<close> and what it makes of them.\<close>

type_synonym mkview = "(nat \<Rightarrow> block) \<times> nat \<times> nat"

definition mk_at :: "mkfs \<Rightarrow> mkview \<Rightarrow> bool" where
  "mk_at m v \<longleftrightarrow> (\<forall>n. hostok m n) \<and> imgsecs m = FSSIZE \<and> mk_sb m = mkfs_sb \<and> v = (img m, unat (freeblock m), unat (freeinode m))"

definition does :: "mkview \<Rightarrow> (mkfs, 'a) kop \<Rightarrow> 'a \<Rightarrow> mkview \<Rightarrow> bool" where
  "does v op r w \<longleftrightarrow> (\<forall>m. mk_at m v \<longrightarrow> (\<exists>t. op m = Ok r t \<and> mk_at t w))"

lemma does_ret: "does v (ret r) r v"
  by (simp add: does_def kexec)

lemma does_kbind: "does u op r v \<Longrightarrow> does v (f r) q w \<Longrightarrow> does u (kbind op f) q w"
  unfolding does_def kbind_exec by fastforce

lemma does_kthen: "does u op r v \<Longrightarrow> does v op' q w \<Longrightarrow> does u (kthen op op') q w"
  unfolding does_def kthen_exec by fastforce

lemma unat_num: "n < 2 ^ 32 \<Longrightarrow> unat (word_of_nat n :: uint) = n"
  by (simp add: unat_of_nat take_bit_nat_eq_self)

lemma sector_eq: "unat sec < FSSIZE \<Longrightarrow> sector sec = unat sec"
proof -
  assume lt: "unat sec < FSSIZE"
  then have "unat (sec * 512) = unat sec * 512" by (subst unat_mult_lem [THEN iffD1]) simp_all
  then show ?thesis by (simp add: sector_def)
qed

lemma does_wsect: "unat sec < FSSIZE \<Longrightarrow> does (im, fb, fi) (wsect sec b) () (im(unat sec := b), fb, fi)"
  by (auto simp: does_def wsect_def host_call_def kexec mk_at_def sector_eq)

lemma does_rsect: "unat sec < FSSIZE \<Longrightarrow> does (im, fb, fi) (rsect sec) (im (unat sec)) (im, fb, fi)"
  by (auto simp: does_def rsect_def host_call_def kexec mk_at_def sector_eq)

lemma does_fresh: "fb < FSSIZE \<Longrightarrow> does (im, fb, fi) fresh (word_of_nat fb) (im, fb + 1, fi)"
  by (auto simp: does_def fresh_def kexec mk_at_def unat_word_ariths)

text \<open>The inode table starts at block 32 and has 26 blocks.\<close>

lemma IBLOCK_num: "i < 208 \<Longrightarrow> unat (IBLOCK (word_of_nat i) mkfs_sb) = 32 + i div 8" "i < 208 \<Longrightarrow> unat (word_of_nat i :: uint) = i"
proof -
  assume i: "i < 208"
  show n: "unat (word_of_nat i :: uint) = i" using i by (simp add: unat_of_nat take_bit_nat_eq_self)
  have "unat (word_of_nat i div 8 + 32 :: uint) = i div 8 + 32" using i n by (simp add: unat_word_ariths unat_div)
  then show "unat (IBLOCK (word_of_nat i) mkfs_sb) = 32 + i div 8" by (simp add: IBLOCK_def mkfs_sb_def)
qed

definition dino :: "(nat \<Rightarrow> block) \<Rightarrow> nat \<Rightarrow> dinode" where
  "dino im i = get_dinode (im (32 + i div 8)) (i mod 8)"

definition set_dino :: "(nat \<Rightarrow> block) \<Rightarrow> nat \<Rightarrow> dinode \<Rightarrow> nat \<Rightarrow> block" where
  "set_dino im i d = im(32 + i div 8 := put_dinode (im (32 + i div 8)) (i mod 8) d)"

lemma does_get:
  "(\<And>m. mk_at m v \<Longrightarrow> g m = r) \<Longrightarrow> does v (f r) q w \<Longrightarrow> does v (kbind (kget g) f) q w"
  by (simp add: does_def kexec)

lemma does_winode:
  assumes "i < 208"
  shows "does (im, fb, fi) (winode (word_of_nat i) d) () (set_dino im i d, fb, fi)"
proof -
  let ?bn = "IBLOCK (word_of_nat i) mkfs_sb"
  have bn: "unat ?bn < FSSIZE" "unat ?bn = 32 + i div 8" using IBLOCK_num [OF assms] assms by simp_all
  show ?thesis
    unfolding winode_def
    by (rule does_get [where r = ?bn], simp add: mk_at_def, rule does_kbind [OF does_rsect [OF bn(1)]])
      (use does_wsect [OF bn(1)] IBLOCK_num(2) [OF assms] in \<open>simp add: set_dino_def bn(2)\<close>)
qed

lemma does_rinode:
  assumes "i < 208"
  shows "does (im, fb, fi) (rinode (word_of_nat i)) (dino im i) (im, fb, fi)"
proof -
  let ?bn = "IBLOCK (word_of_nat i) mkfs_sb"
  have bn: "unat ?bn < FSSIZE" "unat ?bn = 32 + i div 8" using IBLOCK_num [OF assms] assms by simp_all
  show ?thesis
    unfolding rinode_def
    by (rule does_get [where r = ?bn], simp add: mk_at_def, rule does_kbind [OF does_rsect [OF bn(1)]])
      (use does_ret IBLOCK_num(2) [OF assms] in \<open>simp add: dino_def bn(2)\<close>)
qed

lemma dino_set:
  "j \<noteq> i \<Longrightarrow> dino (set_dino im i d) j = dino im j"
  "dino (set_dino im i d) i = d\<lparr>di_addrs := (\<lambda>k. if k \<le> NDIRECT then di_addrs d k else 0)\<rparr>"
proof -
  have "j mod 8 \<noteq> i mod 8" if "j div 8 = i div 8" "j \<noteq> i" using that by (metis div_mult_mod_eq)
  then show "j \<noteq> i \<Longrightarrow> dino (set_dino im i d) j = dino im j"
    by (auto simp: dino_def set_dino_def get_put_dinode_other)
  show "dino (set_dino im i d) i = d\<lparr>di_addrs := (\<lambda>k. if k \<le> NDIRECT then di_addrs d k else 0)\<rparr>"
    by (simp add: dino_def set_dino_def get_put_dinode_same)
qed

section \<open>The blocks of the files\<close>

text \<open>A file has 141 places for the address of a block: twelve direct ones, that of the indirect block, and the 128 in there. \<open>place\<close> is
  the one of block \<open>f\<close> of the file, and a file of \<open>n\<close> bytes uses those that \<open>has\<close> names, \<open>nblk n\<close> in number.\<close>

definition fslot :: "(nat \<Rightarrow> block) \<Rightarrow> dinode \<Rightarrow> nat \<Rightarrow> uint" where
  "fslot im d k =
     (if k \<le> NDIRECT then di_addrs d k
      else if di_addrs d NDIRECT = 0 then 0
      else bld32 (im (unat (di_addrs d NDIRECT))) (4 * (k - 13)))"

definition place :: "nat \<Rightarrow> nat" where
  "place f = (if f < NDIRECT then f else f + 1)"

definition has :: "nat \<Rightarrow> nat \<Rightarrow> bool" where
  "has n k \<longleftrightarrow> 512 * (if k \<le> NDIRECT then k else k - 1) < n"

definition nblk :: "nat \<Rightarrow> nat" where
  "nblk n = (n + 511) div 512 + (if 6144 < n then 1 else 0)"

text \<open>Blocks from \<open>fb\<close> on are free and zero; below it, behind the meta-data, no two places have the same block.\<close>

definition alloc_ok :: "nat set \<Rightarrow> (nat \<Rightarrow> dinode) \<Rightarrow> (nat \<Rightarrow> nat) \<Rightarrow> (nat \<Rightarrow> block) \<Rightarrow> nat \<Rightarrow> bool" where
  "alloc_ok I F S im fb \<longleftrightarrow> 83 \<le> fb \<and> fb \<le> FSSIZE \<and> (\<forall>b \<ge> fb. im b = (\<lambda>_. 0)) \<and>
     (\<forall>i \<in> I. \<forall>k < 141. if has (S i) k then 83 \<le> unat (fslot im (F i) k) \<and> unat (fslot im (F i) k) < fb else fslot im (F i) k = 0) \<and>
     (\<forall>i \<in> I. \<forall>j \<in> I. \<forall>k < 141. \<forall>l < 141. has (S i) k \<longrightarrow> has (S j) l \<longrightarrow> fslot im (F i) k = fslot im (F j) l \<longrightarrow> i = j \<and> k = l)"

lemma alloc_okD:
  assumes "alloc_ok I F S im fb"
  shows "83 \<le> fb" and "fb \<le> FSSIZE" and "b \<ge> fb \<Longrightarrow> im b = (\<lambda>_. 0)"
    and "i \<in> I \<Longrightarrow> k < 141 \<Longrightarrow> has (S i) k \<Longrightarrow> 83 \<le> unat (fslot im (F i) k) \<and> unat (fslot im (F i) k) < fb"
    and "i \<in> I \<Longrightarrow> k < 141 \<Longrightarrow> \<not> has (S i) k \<Longrightarrow> fslot im (F i) k = 0"
    and "i \<in> I \<Longrightarrow> j \<in> I \<Longrightarrow> k < 141 \<Longrightarrow> l < 141 \<Longrightarrow> has (S i) k \<Longrightarrow> has (S j) l \<Longrightarrow> fslot im (F i) k = fslot im (F j) l \<Longrightarrow> i = j \<and> k = l"
  using assms unfolding alloc_ok_def by (metis (no_types, lifting))+

lemma has_grow:
  assumes "0 < m" and "m \<le> 512 - o1 mod 512" and "k < 141"
  shows "has (o1 + m) k \<longleftrightarrow> has o1 k \<or> o1 mod 512 = 0 \<and> (k = place (o1 div 512) \<or> o1 div 512 = 12 \<and> k = 12)"
proof -
  let ?f = "o1 div 512" and ?q = "if k \<le> 12 then k else k - 1"
  have o1: "o1 = 512 * ?f + o1 mod 512" "o1 mod 512 < 512" by simp_all
  have "512 * ?q < o1 + m \<longleftrightarrow> 512 * ?q < o1 \<or> o1 mod 512 = 0 \<and> ?q = ?f"
  proof (cases "?q = ?f")
    case True
    then show ?thesis using o1 assms(1) by linarith
  next
    case False
    then consider "?q < ?f" | "?f < ?q" by linarith
    then show ?thesis using o1 assms(2) False by cases linarith+
  qed
  then show ?thesis by (auto simp: has_def place_def)
qed

lemma nblk_grow:
  assumes "0 < m" and "m \<le> 512 - o1 mod 512"
  shows "nblk (o1 + m) = nblk o1 + (if o1 mod 512 = 0 then if o1 div 512 = 12 then 2 else 1 else 0)"
proof -
  let ?f = "o1 div 512"
  have o1: "o1 = 512 * ?f + o1 mod 512" "o1 mod 512 < 512" by simp_all
  have up: "(512 * f + r + 511) div 512 = (if r = 0 then f else f + 1)" if "r < 513" for f r :: nat
    using that by (cases "r = 0") (simp_all add: div_nat_eqI)
  have "(o1 + 511) div 512 = (if o1 mod 512 = 0 then ?f else ?f + 1)" using up [of "o1 mod 512" ?f] o1 by simp
  moreover have "(o1 + m + 511) div 512 = ?f + 1" using up [of "o1 mod 512 + m" ?f] o1 assms by (simp add: add.assoc)
  moreover have "6144 < o1 + m \<longleftrightarrow> 6144 < o1 \<or> o1 mod 512 = 0 \<and> ?f = 12" using o1 assms by (cases "?f \<le> 11"; cases "?f = 12") linarith+
  moreover have "\<not> 6144 < o1" if "o1 mod 512 = 0" "?f = 12" using that o1 by linarith
  ultimately show ?thesis by (auto simp: nblk_def)
qed

text \<open>A file that gets more places, and an image in which the others have their old addresses.\<close>

lemma alloc_ok_step:
  assumes ok: "alloc_ok I F S im fb" and fb: "fb \<le> fb'" "fb' \<le> FSSIZE" and zero: "\<And>b. b \<ge> fb' \<Longrightarrow> im' b = (\<lambda>_. 0)"
    and old: "\<And>j k. j \<in> I \<Longrightarrow> k < 141 \<Longrightarrow> has (S j) k \<Longrightarrow> fslot im' (F' j) k = fslot im (F j) k"
    and other: "\<And>j. j \<in> I \<Longrightarrow> j \<noteq> i \<Longrightarrow> S' j = S j" and grow: "\<And>k. has (S i) k \<Longrightarrow> has (S' i) k"
    and none: "\<And>j k. j \<in> I \<Longrightarrow> k < 141 \<Longrightarrow> \<not> has (S' j) k \<Longrightarrow> fslot im' (F' j) k = 0"
    and new: "\<And>k. k < 141 \<Longrightarrow> has (S' i) k \<Longrightarrow> \<not> has (S i) k \<Longrightarrow> fb \<le> unat (fslot im' (F' i) k) \<and> unat (fslot im' (F' i) k) < fb'"
    and inj: "\<And>k l. k < 141 \<Longrightarrow> l < 141 \<Longrightarrow> has (S' i) k \<Longrightarrow> \<not> has (S i) k \<Longrightarrow> has (S' i) l \<Longrightarrow> \<not> has (S i) l \<Longrightarrow>
      fslot im' (F' i) k = fslot im' (F' i) l \<Longrightarrow> k = l"
  shows "alloc_ok I F' S' im' fb'"
proof -
  note D = alloc_okD [OF ok]
  have split: "has (S j) k \<or> j = i \<and> \<not> has (S i) k" if "j \<in> I" "has (S' j) k" for j k
    using that other [of j] by (cases "j = i") auto
  have rng: "83 \<le> unat (fslot im' (F' j) k) \<and> unat (fslot im' (F' j) k) < fb'" if "j \<in> I" "k < 141" "has (S' j) k" for j k
    using split [OF that(1,3)] old [OF that(1,2)] D(4) [OF that(1,2)] new [OF that(2)] that fb(1) D(1) by fastforce
  have uniq: "j = j' \<and> k = k'"
    if a: "j \<in> I" "k < 141" "has (S' j) k" and b: "j' \<in> I" "k' < 141" "has (S' j') k'" and eq: "fslot im' (F' j) k = fslot im' (F' j') k'" for j k j' k'
  proof -
    have low: "unat (fslot im' (F' j) k) < fb" if "j \<in> I" "k < 141" "has (S j) k" for j k
      using old [OF that] D(4) [OF that] by simp
    consider "has (S j) k" "has (S j') k'" | "has (S j) k" "j' = i" "\<not> has (S i) k'" | "j = i" "\<not> has (S i) k" "has (S j') k'"
      | "j = i" "\<not> has (S i) k" "j' = i" "\<not> has (S i) k'"
      using split [OF a(1,3)] split [OF b(1,3)] by blast
    then show ?thesis
    proof cases
      case 1
      then show ?thesis using D(6) [OF a(1) b(1) a(2) b(2)] old a b eq by simp
    next
      case 2
      then show ?thesis using low [OF a(1,2)] new [OF b(2)] b eq by fastforce
    next
      case 3
      then show ?thesis using low [OF b(1,2)] new [OF a(2)] a eq by fastforce
    next
      case 4
      then show ?thesis using inj [OF a(2) b(2)] a b eq by blast
    qed
  qed
  have "83 \<le> fb'" using D(1) fb(1) by simp
  then show ?thesis unfolding alloc_ok_def using fb(2) zero rng none uniq by (simp split del: if_split) (metis (no_types, lifting))
qed
text \<open>Writing a data block leaves all addresses alone: no indirect block is hit.\<close>

lemma write_data:
  assumes ok: "alloc_ok I F S im fb" and i: "i \<in> I" "k < 141" "k \<noteq> 12" "has (S i) k"
    and im'_def: "im' = im(unat (fslot im (F i) k) := b)"
  shows "alloc_ok I F S im' fb" and "\<And>j l. j \<in> I \<Longrightarrow> l < 141 \<Longrightarrow> fslot im' (F j) l = fslot im (F j) l"
proof -
  note D = alloc_okD [OF ok]
  show same: "fslot im' (F j) l = fslot im (F j) l" if "j \<in> I" "l < 141" for j l
  proof (cases "di_addrs (F j) 12 = 0")
    case False
    then have nz: "fslot im (F j) 12 \<noteq> 0" by (simp add: fslot_def)
    then have "has (S j) 12" using D(5) [OF that(1), of 12] by auto
    then have "fslot im (F j) 12 \<noteq> fslot im (F i) k" using D(6) [OF that(1) i(1), of 12 k] i by auto
    then have "unat (di_addrs (F j) 12) \<noteq> unat (fslot im (F i) k)" by (simp add: fslot_def word_unat_eq_iff)
    then show ?thesis by (simp add: fslot_def im'_def)
  qed (simp add: fslot_def)
  have "im' b = (\<lambda>_. 0)" if "b \<ge> fb" for b using D(3) [OF that] D(4) [OF i(1,2,4)] that by (simp add: im'_def)
  then show "alloc_ok I F S im' fb" using ok same unfolding alloc_ok_def by (simp cong: if_cong)
qed

text \<open>One more place, with the first free block.\<close>

lemma one_place:
  assumes ok: "alloc_ok I F S im fb" and i: "i \<in> I" "fb < FSSIZE" and k0: "\<not> has (S i) k0"
    and has: "\<And>k. k < 141 \<Longrightarrow> has n k \<longleftrightarrow> has (S i) k \<or> k = k0" and grow: "S i \<le> n"
    and zero: "\<And>b. b > fb \<Longrightarrow> im' b = (\<lambda>_. 0)"
    and slots: "\<And>j k. j \<in> I \<Longrightarrow> k < 141 \<Longrightarrow> fslot im' (F' j) k = (if j = i \<and> k = k0 then word_of_nat fb else fslot im (F j) k)"
  shows "alloc_ok I F' (S(i := n)) im' (fb + 1)"
proof (rule alloc_ok_step [OF ok, where i = i])
  have u: "unat (word_of_nat fb :: uint) = fb" using i(2) by (simp add: unat_of_nat take_bit_nat_eq_self)
  show "has ((S(i := n)) i) k" if "has (S i) k" for k using that grow by (simp add: has_def)
  show "fslot im' (F' j) k = 0" if "j \<in> I" "k < 141" "\<not> has ((S(i := n)) j) k" for j k
    using that slots [OF that(1,2)] has [OF that(2)] alloc_okD(5) [OF ok that(1,2)] by (auto split: if_splits)
  show "fb \<le> unat (fslot im' (F' i) k) \<and> unat (fslot im' (F' i) k) < fb + 1" if "k < 141" "has ((S(i := n)) i) k" "\<not> has (S i) k" for k
    using that slots [OF i(1) that(1)] has [OF that(1)] u by simp
  show "k = l" if "k < 141" "l < 141" "has ((S(i := n)) i) k" "\<not> has (S i) k" "has ((S(i := n)) i) l" "\<not> has (S i) l" for k l
    using that has by simp
qed (use i k0 zero slots in auto)

text \<open>The result of \<open>iappend_block\<close>: the address of the block, all old addresses kept, and no change but in free blocks and indirect blocks.\<close>

definition block_step :: "nat set \<Rightarrow> (nat \<Rightarrow> dinode) \<Rightarrow> (nat \<Rightarrow> nat) \<Rightarrow> nat \<Rightarrow> nat \<Rightarrow> (nat \<Rightarrow> block) \<Rightarrow> nat \<Rightarrow> dinode \<Rightarrow> (nat \<Rightarrow> block) \<Rightarrow> nat \<Rightarrow> bool" where
  "block_step I F S i n im fb din' im' fb' \<longleftrightarrow>
     alloc_ok I (F(i := din')) (S(i := n)) im' fb' \<and> (\<exists>a. din' = (F i)\<lparr>di_addrs := a\<rparr>) \<and>
     (\<forall>b < 83. im' b = im b) \<and> (\<forall>j \<in> I. \<forall>k < 141. has (S j) k \<longrightarrow> fslot im' ((F(i := din')) j) k = fslot im (F j) k) \<and>
     (\<forall>j \<in> I. \<forall>k < 141. k \<noteq> 12 \<longrightarrow> has (S j) k \<longrightarrow> im' (unat (fslot im (F j) k)) = im (unat (fslot im (F j) k)))"

lemma block_old:
  assumes ok: "alloc_ok I F S im fb" and i: "i \<in> I" and n: "S i \<le> n" "\<And>k. k < 141 \<Longrightarrow> has n k \<longleftrightarrow> has (S i) k"
  shows "block_step I F S i n im fb (F i) im fb"
proof -
  have "alloc_ok I F (S(i := n)) im fb"
  proof (rule alloc_ok_step [OF ok, where i = i])
    show "has ((S(i := n)) i) k" if "has (S i) k" for k using that n(1) by (simp add: has_def)
    show "fslot im (F j) k = 0" if "j \<in> I" "k < 141" "\<not> has ((S(i := n)) j) k" for j k
      using that n(2) [OF that(2)] alloc_okD(5) [OF ok that(1,2)] by (auto split: if_splits)
  qed (use n alloc_okD [OF ok] in auto)
  moreover have "F i = (F i)\<lparr>di_addrs := di_addrs (F i)\<rparr>" by simp
  ultimately show ?thesis unfolding block_step_def by (metis fun_upd_triv)
qed

lemma block_direct:
  assumes ok: "alloc_ok I F S im fb" and i: "i \<in> I" "fb < FSSIZE" and f: "f < 12" "\<not> has (S i) f"
    and n: "S i \<le> n" "\<And>k. k < 141 \<Longrightarrow> has n k \<longleftrightarrow> has (S i) k \<or> k = f"
  shows "block_step I F S i n im fb ((F i)\<lparr>di_addrs := (di_addrs (F i))(f := word_of_nat fb)\<rparr>) im (fb + 1)"
proof -
  let ?d = "(F i)\<lparr>di_addrs := (di_addrs (F i))(f := word_of_nat fb)\<rparr>"
  have slots: "fslot im ((F(i := ?d)) j) k = (if j = i \<and> k = f then word_of_nat fb else fslot im (F j) k)" for j k
    using f(1) by (auto simp: fslot_def)
  have "alloc_ok I (F(i := ?d)) (S(i := n)) im (fb + 1)"
    by (rule one_place [OF ok i f(2) n(2,1) _ slots]) (use alloc_okD(3) [OF ok] in auto)
  then show ?thesis unfolding block_step_def slots using f(2) by auto
qed

lemma block_entry:
  assumes ok: "alloc_ok I F S im fb" and i: "i \<in> I" "fb < FSSIZE" and f: "12 < f" "f < 140" "\<not> has (S i) (f + 1)" "has (S i) 12"
    and n: "S i \<le> n" "\<And>k. k < 141 \<Longrightarrow> has n k \<longleftrightarrow> has (S i) k \<or> k = f + 1"
    and x_def: "x = unat (di_addrs (F i) 12)"
  shows "block_step I F S i n im fb (F i) (im(x := bst32 (im x) (4 * (f - 12)) (word_of_nat fb))) (fb + 1)"
proof -
  note D = alloc_okD [OF ok]
  let ?im = "im(x := bst32 (im x) (4 * (f - 12)) (word_of_nat fb))"
  have a: "fslot im (F j) 12 = di_addrs (F j) 12" for j by (simp add: fslot_def)
  have x: "83 \<le> x" "x < fb" using D(4) [OF i(1) _ f(4)] by (simp_all add: a x_def)
  then have nz: "di_addrs (F i) 12 \<noteq> 0" unfolding x_def by (intro notI) simp
  have other: "unat (di_addrs (F j) 12) \<noteq> x" if "j \<in> I" "j \<noteq> i" "di_addrs (F j) 12 \<noteq> 0" for j
  proof -
    have "has (S j) 12" using D(5) [OF that(1), of 12] that(3) by (auto simp: a)
    then have "fslot im (F j) 12 \<noteq> fslot im (F i) 12" using D(6) [OF that(1) i(1), of 12 12] f(4) that(2) by auto
    then show ?thesis by (simp add: a x_def word_unat_eq_iff)
  qed
  have slots: "fslot ?im (F j) k = (if j = i \<and> k = f + 1 then word_of_nat fb else fslot im (F j) k)" if "j \<in> I" "k < 141" for j k
  proof (cases "j = i")
    case True
    have "bld32 (bst32 (im x) (4 * (f - 12)) v) (4 * (k - 13)) = (if k = f + 1 then v else bld32 (im x) (4 * (k - 13)))" if "12 < k" for v
    proof (cases "k = f + 1")
      case True
      then show ?thesis by simp
    next
      case False
      then have "4 * (f - 12) + 4 \<le> 4 * (k - 13) \<or> 4 * (k - 13) + 4 \<le> 4 * (f - 12)" using that f(1) by auto
      then show ?thesis using False by simp
    qed
    then show ?thesis using True f(1) nz by (simp add: fslot_def x_def [symmetric] cong: if_cong)
  next
    case False
    then show ?thesis using other [OF that(1) False] by (simp add: fslot_def)
  qed
  have "alloc_ok I F (S(i := n)) ?im (fb + 1)"
    by (rule one_place [OF ok i f(3) n(2,1) _ slots]) (use D(3) x in auto)
  moreover have "fslot im (F j) k \<noteq> di_addrs (F i) 12" if "j \<in> I" "k < 141" "k \<noteq> 12" "has (S j) k" for j k
    using D(6) [OF that(1) i(1) that(2), of 12] f(4) that(3,4) by (auto simp: a)
  then have "?im (unat (fslot im (F j) k)) = im (unat (fslot im (F j) k))" if "j \<in> I" "k < 141" "k \<noteq> 12" "has (S j) k" for j k
    using that by (auto simp: x_def word_unat_eq_iff)
  moreover have "\<exists>a. F i = (F i)\<lparr>di_addrs := a\<rparr>" by (rule exI [of _ "di_addrs (F i)"]) simp
  moreover have "F(i := F i) = F" by simp
  ultimately show ?thesis unfolding block_step_def using slots f(3) x by auto
qed

lemma block_indirect:
  assumes ok: "alloc_ok I F S im fb" and i: "i \<in> I" "fb + 1 < FSSIZE" and f: "\<not> has (S i) 12" "\<not> has (S i) 13"
    and n: "S i \<le> n" "\<And>k. k < 141 \<Longrightarrow> has n k \<longleftrightarrow> has (S i) k \<or> k = 13 \<or> k = 12"
  shows "block_step I F S i n im fb ((F i)\<lparr>di_addrs := (di_addrs (F i))(12 := word_of_nat fb)\<rparr>)
    (im(fb := bst32 (\<lambda>_. 0) 0 (word_of_nat (fb + 1)))) (fb + 2)"
proof -
  note D = alloc_okD [OF ok]
  let ?d = "(F i)\<lparr>di_addrs := (di_addrs (F i))(12 := word_of_nat fb)\<rparr>" and ?im = "im(fb := bst32 (\<lambda>_. 0) 0 (word_of_nat (fb + 1)))"
  have u: "unat (word_of_nat fb :: uint) = fb" "unat (word_of_nat (fb + 1) :: uint) = fb + 1"
    using i(2) by (intro unat_num; simp)+
  have nz: "(word_of_nat fb :: uint) \<noteq> 0" using u(1) D(1) by (intro notI) simp
  have z: "bld32 (\<lambda>_. 0) j = 0" for j by (simp add: bld32_def)
  have none: "\<not> has (S i) k" if "12 \<le> k" for k using f that by (auto simp: has_def)
  have slot_i: "fslot ?im ?d k = (if k < 12 then fslot im (F i) k else if k = 12 then word_of_nat fb else if k = 13 then word_of_nat (fb + 1) else 0)" for k
    using nz u bld32_same [of "\<lambda>_. 0" 0] bld32_other(1) [of 0 "4 * (k - 13)" "\<lambda>_. 0"] z by (auto simp: fslot_def)
  have slot_j: "fslot ?im (F j) k = fslot im (F j) k" if "j \<in> I" for j k
  proof (cases "di_addrs (F j) 12 = 0")
    case False
    then have "has (S j) 12" using D(5) [OF that, of 12] by (auto simp: fslot_def)
    then show ?thesis using D(4) [OF that, of 12] by (auto simp: fslot_def)
  qed (simp add: fslot_def)
  have old: "fslot ?im ((F(i := ?d)) j) k = fslot im (F j) k" if "j \<in> I" "k < 141" "has (S j) k" for j k
    using that slot_j [OF that(1)] slot_i [of k] none [of k] by auto
  have "alloc_ok I (F(i := ?d)) (S(i := n)) ?im (fb + 2)"
  proof (rule alloc_ok_step [OF ok, where i = i])
    show "has ((S(i := n)) i) k" if "has (S i) k" for k using that n(1) by (simp add: has_def)
    show "fslot ?im ((F(i := ?d)) j) k = 0" if "j \<in> I" "k < 141" "\<not> has ((S(i := n)) j) k" for j k
      using that n(2) [OF that(2)] slot_j [OF that(1)] slot_i [of k] D(5) [OF that(1,2)] by (auto split: if_splits)
    show "fb \<le> unat (fslot ?im ((F(i := ?d)) i) k) \<and> unat (fslot ?im ((F(i := ?d)) i) k) < fb + 2"
      if "k < 141" "has ((S(i := n)) i) k" "\<not> has (S i) k" for k
      using that n(2) [OF that(1)] slot_i [of k] u by auto
    show "k = l" if "k < 141" "l < 141" "has ((S(i := n)) i) k" "\<not> has (S i) k" "has ((S(i := n)) i) l" "\<not> has (S i) l"
      "fslot ?im ((F(i := ?d)) i) k = fslot ?im ((F(i := ?d)) i) l" for k l
      using that n(2) [of k] n(2) [of l] slot_i u by (auto simp: word_unat_eq_iff)
  qed (use i D(3) old in auto)
  moreover have "?im (unat (fslot im (F j) k)) = im (unat (fslot im (F j) k))" if "j \<in> I" "k < 141" "has (S j) k" for j k
    using D(4) [OF that] by simp
  ultimately show ?thesis unfolding block_step_def using old D(1) by auto
qed
lemma does_addr_of:
  "di_addrs d k \<noteq> 0 \<Longrightarrow> does v (addr_of k d) d v"
  "di_addrs d k = 0 \<Longrightarrow> fb < FSSIZE \<Longrightarrow>
    does (im, fb, fi) (addr_of k d) (d\<lparr>di_addrs := (di_addrs d)(k := word_of_nat fb)\<rparr>) (im, fb + 1, fi)"
  by (simp add: addr_of_def does_ret, simp add: addr_of_def) (rule does_kbind [OF does_fresh [unfolded One_nat_def add_Suc_right add_0_right] does_ret], simp)

lemma iappend_block_old:
  assumes "fslot im d (place f) \<noteq> 0" and "12 \<le> f \<Longrightarrow> unat (di_addrs d 12) < FSSIZE"
  shows "does (im, fb, fi) (iappend_block f d) (d, fslot im d (place f)) (im, fb, fi)"
proof (cases "f < 12")
  case True
  then show ?thesis using assms(1)
    by (auto simp: iappend_block_def place_def fslot_def intro!: does_kbind [OF does_addr_of(1)] does_ret)
next
  case False
  have nz: "di_addrs d 12 \<noteq> 0" "bld32 (im (unat (di_addrs d 12))) (4 * (f - 12)) \<noteq> 0"
    "fslot im d (place f) = bld32 (im (unat (di_addrs d 12))) (4 * (f - 12))"
    using assms(1) False by (auto simp: place_def fslot_def split: if_splits)
  show ?thesis
    using nz(2) False unfolding iappend_block_def nz(3)
    by (auto intro!: does_kbind [OF does_addr_of(1) [OF nz(1)]] does_kbind [OF does_rsect] does_kbind [OF does_ret] does_ret assms(2))
qed

lemma iappend_block_new:
  assumes "does v (addr_of 12 d) d' (im, fb, fi)" and "\<not> f < 12" and "x = di_addrs d' 12" and "unat x < FSSIZE" and "fb < FSSIZE"
    and "bld32 (im (unat x)) (4 * (f - 12)) = 0"
  shows "does v (iappend_block f d) (d', word_of_nat fb) (im(unat x := bst32 (im (unat x)) (4 * (f - 12)) (word_of_nat fb)), fb + 1, fi)"
proof -
  let ?b = "bst32 (im (unat x)) (4 * (f - 12)) (word_of_nat fb)"
  have w: "does (im, fb, fi) (kbind fresh (\<lambda>y. let ind' = bst32 (im (unat x)) (4 * (f - 12)) (xint y) in
      kthen (wsect (xint x) ind') (ret ind'))) ?b (im(unat x := ?b), fb + 1, fi)"
    by (rule does_kbind [OF does_fresh [OF assms(5)]]) (simp add: Let_def does_kthen [OF does_wsect [OF assms(4)] does_ret])
  have r: "does w (ret (d', xint (bld32 ?b (4 * (f - 12))))) (d', word_of_nat fb) w" for w by (simp add: does_ret)
  show ?thesis
    unfolding iappend_block_def if_not_P [OF assms(2)]
    by (rule does_kbind [OF assms(1)], rule does_kbind [OF does_rsect], use assms(3,4) in simp, rule does_kbind [where r = ?b])
      (use w r assms(3,6) in simp_all)
qed

lemma iappend_block_does:
  assumes ok: "alloc_ok I F S im fb" and i: "i \<in> I" and m: "0 < m" "m \<le> 512 - S i mod 512" and f: "f = S i div 512" "f < 140"
    and room: "fb + nblk (S i + m) \<le> FSSIZE + nblk (S i)"
  shows "\<exists>d im' fb'. does (im, fb, fi) (iappend_block f (F i)) (d, fslot im' d (place f)) (im', fb', fi) \<and>
    block_step I F S i (S i + m) im fb d im' fb' \<and> fb' + nblk (S i) = fb + nblk (S i + m) \<and>
    (\<not> has (S i) (place f) \<longrightarrow> im' (unat (fslot im' d (place f))) = (\<lambda>_. 0))"
proof -
  note D = alloc_okD [OF ok]
  have pl: "place f < 141" using f(2) by (simp add: place_def)
  have grow: "has (S i + m) k \<longleftrightarrow> has (S i) k \<or> S i mod 512 = 0 \<and> (k = place f \<or> f = 12 \<and> k = 12)" if "k < 141" for k
    using has_grow [OF m that] by (simp add: f(1))
  have size: "S i = 512 * f + S i mod 512" by (simp add: f(1))
  have at12: "has (S i) 12" if "12 < f \<or> f = 12 \<and> S i mod 512 \<noteq> 0" using that size by (auto simp: has_def)
  have a12: "unat (di_addrs (F i) 12) < FSSIZE" "di_addrs (F i) 12 \<noteq> 0" if "has (S i) 12"
    using D(4) [OF i _ that] D(2) by (auto simp: fslot_def)
  show ?thesis
  proof (cases "S i mod 512 = 0")
    case False
    then have h: "has (S i) (place f)" using size by (auto simp: has_def place_def)
    have "fslot im (F i) (place f) \<noteq> 0" using D(4) [OF i pl h] by (intro notI) simp
    then have "does (im, fb, fi) (iappend_block f (F i)) (F i, fslot im (F i) (place f)) (im, fb, fi)"
      using a12(1) [OF at12] False by (intro iappend_block_old) (auto simp: le_less)
    moreover have "block_step I F S i (S i + m) im fb (F i) im fb" using grow False by (intro block_old [OF ok i]) auto
    ultimately show ?thesis using nblk_grow [OF m] False h by auto
  next
    case True
    then have none: "\<not> has (S i) (place f)" and s: "S i = 512 * f" using size by (auto simp: has_def place_def)
    have gap: "fslot im (F i) (place f) = 0" using D(5) [OF i pl none] .
    have room: "fb < FSSIZE" "f = 12 \<Longrightarrow> fb + 1 < FSSIZE" and cnt: "nblk (S i + m) = nblk (S i) + (if f = 12 then 2 else 1)"
      using nblk_grow [OF m] room True f(1) by (auto split: if_splits)
    have u: "unat (word_of_nat fb :: uint) = fb" using room(1) by (intro unat_num) simp
    consider "f < 12" | "f = 12" | "12 < f" by linarith
    then show ?thesis
    proof cases
      case 1
      let ?d = "(F i)\<lparr>di_addrs := (di_addrs (F i))(f := word_of_nat fb)\<rparr>"
      have p: "place f = f" using 1 by (simp add: place_def)
      have a: "di_addrs (F i) f = 0" "fslot im ?d (place f) = word_of_nat fb" using gap 1 by (simp_all add: p fslot_def)
      then have "does (im, fb, fi) (iappend_block f (F i)) (?d, fslot im ?d (place f)) (im, fb + 1, fi)"
        using 1 room(1) by (auto simp: iappend_block_def intro!: does_kbind [OF does_addr_of(2)] does_ret)
      moreover have "block_step I F S i (S i + m) im fb ?d im (fb + 1)"
        using none grow True 1 by (intro block_direct [OF ok i room(1) 1]) (auto simp: p)
      moreover have "im (unat (fslot im ?d (place f))) = (\<lambda>_. 0)" using D(3) [of fb] by (simp add: a(2) u)
      moreover have "fb + 1 + nblk (S i) = fb + nblk (S i + m)" using cnt 1 by simp
      ultimately show ?thesis by blast
    next
      case 2
      let ?d = "(F i)\<lparr>di_addrs := (di_addrs (F i))(12 := word_of_nat fb)\<rparr>" and ?b = "bst32 (\<lambda>_. 0) 0 (word_of_nat (fb + 1))"
      have p: "place f = 13" "\<not> has (S i) 12" "di_addrs (F i) 12 = 0"
        using 2 s D(5) [OF i, of 12] by (auto simp: place_def has_def fslot_def)
      have nz: "(word_of_nat fb :: uint) \<noteq> 0" using u D(1) by (intro notI) simp
      have x: "fslot (im(fb := ?b)) ?d (place f) = word_of_nat (fb + 1)" using nz u by (simp add: p(1) fslot_def del: of_nat_add of_nat_Suc)
      have z: "im fb = (\<lambda>_. 0)" "bld32 (\<lambda>_. 0) 0 = 0" using D(3) by (simp_all add: bld32_def)
      have "does (im, fb, fi) (iappend_block f (F i)) (?d, fslot (im(fb := ?b)) ?d (place f)) (im(fb := ?b), fb + 2, fi)"
        unfolding x using iappend_block_new [OF does_addr_of(2) [OF p(3) room(1)], of f "word_of_nat fb" im fi] u room 2 z by simp
      moreover have "block_step I F S i (S i + m) im fb ?d (im(fb := ?b)) (fb + 2)"
        using none grow True 2 p room(2) by (intro block_indirect [OF ok i]) auto
      moreover have "unat (word_of_nat (fb + 1) :: uint) = fb + 1" using room(2) [OF 2] by (intro unat_num) simp
      then have "(im(fb := ?b)) (unat (fslot (im(fb := ?b)) ?d (place f))) = (\<lambda>_. 0)" unfolding x using D(3) [of "fb + 1"] by (simp del: of_nat_add of_nat_Suc)
      moreover have "fb + 2 + nblk (S i) = fb + nblk (S i + m)" using cnt 2 by simp
      ultimately show ?thesis by blast
    next
      case 3
      let ?x = "unat (di_addrs (F i) 12)"
      let ?b = "bst32 (im ?x) (4 * (f - 12)) (word_of_nat fb)"
      have p: "place f = f + 1" using 3 by (simp add: place_def)
      have h: "has (S i) 12" using at12 3 by simp
      have e: "bld32 (im ?x) (4 * (f - 12)) = 0" "fslot (im(?x := ?b)) (F i) (place f) = word_of_nat fb"
        using gap a12(2) [OF h] 3 by (simp_all add: p fslot_def)
      have "does (im, fb, fi) (iappend_block f (F i)) (F i, fslot (im(?x := ?b)) (F i) (place f)) (im(?x := ?b), fb + 1, fi)"
        unfolding e(2) using iappend_block_new [OF does_addr_of(1) [OF a12(2) [OF h]], of f "di_addrs (F i) 12" fb im fi] a12(1) [OF h] room(1) e(1) 3 by simp
      moreover have "block_step I F S i (S i + m) im fb (F i) (im(?x := ?b)) (fb + 1)"
        using none grow True 3 f(2) h by (intro block_entry [OF ok i room(1)]) (auto simp: p)
      moreover have "?x < fb" using D(4) [OF i _ h] by (simp add: fslot_def)
      then have "(im(?x := ?b)) (unat (fslot (im(?x := ?b)) (F i) (place f))) = (\<lambda>_. 0)" unfolding e(2) u using D(3) [of fb] by simp
      moreover have "fb + 1 + nblk (S i) = fb + nblk (S i + m)" using cnt 3 by simp
      ultimately show ?thesis by blast
    qed
  qed
qed
section \<open>Appending\<close>

text \<open>The first \<open>n\<close> bytes of a file on the image.\<close>

definition fdata :: "(nat \<Rightarrow> block) \<Rightarrow> dinode \<Rightarrow> nat \<Rightarrow> byte list" where
  "fdata im d n = map (\<lambda>p. im (unat (fslot im d (place (p div 512)))) (p mod 512)) [0..<n]"

text \<open>The rest of the last block is zero.\<close>

definition tail_zero :: "nat set \<Rightarrow> (nat \<Rightarrow> dinode) \<Rightarrow> (nat \<Rightarrow> nat) \<Rightarrow> (nat \<Rightarrow> block) \<Rightarrow> bool" where
  "tail_zero I F S im \<longleftrightarrow> (\<forall>j \<in> I. \<forall>p. S j \<le> p \<longrightarrow> p < 71680 \<longrightarrow> has (S j) (place (p div 512)) \<longrightarrow>
     im (unat (fslot im (F j) (place (p div 512)))) (p mod 512) = 0)"

lemma has_place: "q < n \<Longrightarrow> has n (place (q div 512))" "q < 71680 \<Longrightarrow> place (q div 512) < 141" "place f \<noteq> 12"
  "place f = place g \<longleftrightarrow> f = g"
  by (auto simp: has_def place_def split: if_splits)

lemma fdata_write:
  assumes st: "block_step I F S i (S i + m) im fb d im' fb'" and i: "i \<in> I" and f: "f = S i div 512"
    and m: "0 < m" "m \<le> 512 - S i mod 512" "m \<le> length p" "S i + m \<le> 71680"
    and x: "x = unat (fslot im' d (place f))" and im'': "im'' = im'(x := put_bytes ((!) p) 0 (S i mod 512) m (im' x))"
    and z: "tail_zero I F S im" "\<not> has (S i) (place f) \<longrightarrow> im' x = (\<lambda>_. 0)"
  shows "alloc_ok I (F(i := d)) (S(i := S i + m)) im'' fb'" and "fdata im'' d (S i + m) = fdata im (F i) (S i) @ take m p"
    and "\<And>j. j \<in> I \<Longrightarrow> j \<noteq> i \<Longrightarrow> S j \<le> 71680 \<Longrightarrow> fdata im'' (F j) (S j) = fdata im (F j) (S j)"
    and "tail_zero I (F(i := d)) (S(i := S i + m)) im''"
proof -
  let ?F = "F(i := d)" and ?S = "S(i := S i + m)"
  have ok: "alloc_ok I ?F ?S im' fb'" using st by (simp add: block_step_def)
  have sb: "fslot im' (?F j) k = fslot im (F j) k" if "j \<in> I" "k < 141" "has (S j) k" for j k using st that by (simp add: block_step_def)
  have bb: "im' (unat (fslot im (F j) k)) = im (unat (fslot im (F j) k))" if "j \<in> I" "k < 141" "k \<noteq> 12" "has (S j) k" for j k
    using st that by (simp add: block_step_def)
  have h: "place f < 141" "has (?S i) (place f)" using has_place(1) [of "S i" "S i + m"] has_place(2) [of "S i"] m f by simp_all
  have x': "x = unat (fslot im' (?F i) (place f))" by (simp add: x)
  note w = write_data [OF ok i h(1) has_place(3) h(2) im'' [unfolded x']]
  show "alloc_ok I ?F ?S im'' fb'" by (rule w(1))
  have grow: "has (?S j) k" if "has (S j) k" for j k using that by (auto simp: has_def)
  have byte: "im'' (unat (fslot im'' (?F j) k)) r = (if j = i \<and> k = place f then put_bytes ((!) p) 0 (S i mod 512) m (im' x) r
      else im (unat (fslot im (F j) k)) r)" if j: "j \<in> I" "k < 141" "k \<noteq> 12" "has (S j) k" for j k r
  proof -
    have "fslot im'' (?F j) k = fslot im' (?F j) k" by (rule w(2) [OF j(1,2)])
    moreover have "fslot im' (?F j) k = fslot im' (?F i) (place f) \<longleftrightarrow> j = i \<and> k = place f"
      using alloc_okD(6) [OF ok j(1) i j(2) h(1) grow [OF j(4)] h(2)] by blast
    ultimately show ?thesis using sb [OF j(1,2,4)] bb [OF j] by (auto simp: im'' x' word_unat_eq_iff)
  qed
  have eq: "fdata im'' (?F j) (S j) = fdata im (F j) (S j)" if j: "j \<in> I" "S j \<le> 71680" for j
    unfolding fdata_def
  proof (rule map_cong [OF refl])
    fix q assume "q \<in> set [0..<S j]"
    then have q: "q < S j" "place (q div 512) < 141" "has (S j) (place (q div 512))" using has_place(1,2) j(2) by auto
    have "put_bytes ((!) p) 0 (S i mod 512) m (im' x) (q mod 512) = im' x (q mod 512)" if "j = i" "q div 512 = f"
    proof -
      have "q < S i" "q div 512 = S i div 512" using q(1) that f by simp_all
      then have "q mod 512 < S i mod 512" using div_mult_mod_eq [of q 512] div_mult_mod_eq [of "S i" 512] by linarith
      then show ?thesis by (simp add: put_bytes_def)
    qed
    moreover have "im' x = im (unat (fslot im (F j) (place (q div 512))))" if "j = i" "q div 512 = f"
      using sb [OF j(1) q(2,3)] bb [OF j(1) q(2) has_place(3) q(3)] that by (simp add: x)
    ultimately show "im'' (unat (fslot im'' (?F j) (place (q div 512)))) (q mod 512) = im (unat (fslot im (F j) (place (q div 512)))) (q mod 512)"
      using byte [OF j(1) q(2) has_place(3) q(3)] by (auto simp: has_place(4))
  qed
  show "fdata im'' (F j) (S j) = fdata im (F j) (S j)" if "j \<in> I" "j \<noteq> i" "S j \<le> 71680" for j using eq [OF that(1,3)] that(2) by simp
  have new: "im'' (unat (fslot im'' d (place ((S i + t) div 512)))) ((S i + t) mod 512) = p ! t" if "t < m" for t
  proof -
    have t: "(S i + t) div 512 = f" "(S i + t) mod 512 = S i mod 512 + t" using chunk_block [of t m "S i"] that m(2) by (simp_all add: f)
    have "fslot im'' d (place f) = fslot im' d (place f)" using w(2) [OF i h(1)] by simp
    then show ?thesis using that by (simp add: t im'' x put_bytes_def)
  qed
  have "fdata im'' d (S i + m) = fdata im'' d (S i) @ map (\<lambda>t. im'' (unat (fslot im'' d (place ((S i + t) div 512)))) ((S i + t) mod 512)) [0..<m]"
    by (intro nth_equalityI) (auto simp: fdata_def nth_append)
  also have "map (\<lambda>t. im'' (unat (fslot im'' d (place ((S i + t) div 512)))) ((S i + t) mod 512)) [0..<m] = take m p"
    using new m(3) by (intro nth_equalityI) simp_all
  finally show "fdata im'' d (S i + m) = fdata im (F i) (S i) @ take m p" using eq [OF i] m(4) by simp
  have zero: "im'' (unat (fslot im'' (?F j) (place (q div 512)))) (q mod 512) = 0"
    if j: "j \<in> I" "?S j \<le> q" "q < 71680" "has (?S j) (place (q div 512))" for j q
  proof -
    let ?k = "place (q div 512)"
    have k: "?k < 141" "?k \<noteq> 12" "S j \<le> q" using has_place(2,3) j by (auto split: if_splits)
    have tz: "im (unat (fslot im (F j) ?k)) (q mod 512) = 0" if "has (S j) ?k" using z(1) j(1,3) k(3) that by (simp add: tail_zero_def)
    show ?thesis
    proof (cases "j = i \<and> q div 512 = f")
      case True
      then have "S i + m \<le> q" "q div 512 = S i div 512" using j(2) f by simp_all
      then have "S i mod 512 + m \<le> q mod 512" using div_mult_mod_eq [of q 512] div_mult_mod_eq [of "S i" 512] by linarith
      moreover have "unat (fslot im'' (?F j) ?k) = x" using w(2) [OF i h(1)] True by (simp add: x)
      moreover have "im'' x = put_bytes ((!) p) 0 (S i mod 512) m (im' x)" by (simp add: im'')
      ultimately have "im'' (unat (fslot im'' (?F j) ?k)) (q mod 512) = im' x (q mod 512)" by (simp add: put_bytes_def)
      moreover have "im' x = im (unat (fslot im (F j) ?k))" if "has (S j) ?k"
        using sb [OF j(1) k(1) that] bb [OF j(1) k(1,2) that] True by (simp add: x)
      ultimately show ?thesis using tz z(2) True by (cases "has (S j) ?k") auto
    next
      case False
      then have "has (S j) ?k" using j(4) has_grow [OF m(1,2) k(1)] k(2) f by (auto simp: has_place(4) split: if_splits)
      then show ?thesis using byte [OF j(1) k(1,2)] tz False by (auto simp: has_place(4))
    qed
  qed
  then show "tail_zero I ?F ?S im''" unfolding tail_zero_def by blast
qed

lemma iappend_loop_does:
  assumes "alloc_ok I F S im fb" and "i \<in> I" and "S i + length p \<le> 71680" and "fb + nblk (S i + length p) \<le> FSSIZE + nblk (S i)"
    and "\<forall>j \<in> I. S j \<le> 71680" and "tail_zero I F S im"
  shows "\<exists>d im' fb'. does (im, fb, fi) (iappend_loop (chunks (S i) (length p)) p (F i)) d (im', fb', fi) \<and>
    alloc_ok I (F(i := d)) (S(i := S i + length p)) im' fb' \<and> fb' + nblk (S i) = fb + nblk (S i + length p) \<and> (\<exists>a. d = (F i)\<lparr>di_addrs := a\<rparr>) \<and>
    (\<forall>b < 83. im' b = im b) \<and> fdata im' d (S i + length p) = fdata im (F i) (S i) @ p \<and>
    (\<forall>j \<in> I. j \<noteq> i \<longrightarrow> fdata im' (F j) (S j) = fdata im (F j) (S j)) \<and> tail_zero I (F(i := d)) (S(i := S i + length p)) im'"
  using assms
proof (induction "length p" arbitrary: p F S im fb rule: less_induct)
  case less
  show ?case
  proof (cases "p = []")
    case True
    then show ?thesis using less.prems(1,6) does_ret by (intro exI [of _ "F i"] exI [of _ im] exI [of _ fb] conjI exI [of _ "di_addrs (F i)"]) auto
  next
    case False
    define f m where "f = S i div 512" and "m = min (length p) (512 - S i mod 512)"
    have "S i mod 512 < 512" by simp
    then have m: "0 < m" "m \<le> 512 - S i mod 512" "m \<le> length p" using False by (auto simp: m_def)
    have f140: "f < 140" using less.prems(3) False by (cases p) (auto simp: f_def)
    have mono: "nblk (S i + m) \<le> nblk (S i + length p)" using m(3) by (auto simp: nblk_def intro!: add_mono div_le_mono)
    obtain d im1 fb1 where d: "does (im, fb, fi) (iappend_block f (F i)) (d, fslot im1 d (place f)) (im1, fb1, fi)"
      "block_step I F S i (S i + m) im fb d im1 fb1" "fb1 + nblk (S i) = fb + nblk (S i + m)"
      "\<not> has (S i) (place f) \<longrightarrow> im1 (unat (fslot im1 d (place f))) = (\<lambda>_. 0)"
      using iappend_block_does [OF less.prems(1,2) m(1,2) f_def f140] less.prems(4) mono by (meson add_left_mono order_trans)
    define x where "x = fslot im1 d (place f)"
    define im2 where "im2 = im1(unat x := put_bytes ((!) p) 0 (S i mod 512) m (im1 (unat x)))"
    have m4: "S i + m \<le> 71680" using m(3) less.prems(3) by simp
    note w = fdata_write [OF d(2) less.prems(2) f_def m m4 refl im2_def [unfolded x_def] less.prems(6) d(4)]
    let ?S = "S(i := S i + m)" and ?F = "F(i := d)"
    have h: "place f < 141" "has (S i + m) (place f)" using f140 m(1) has_place(1) [of "S i" "S i + m"] by (simp_all add: place_def f_def)
    have xr: "83 \<le> unat x" "unat x < FSSIZE"
      using alloc_okD(2,4) [OF _, of I ?F ?S im1 fb1] d(2) less.prems(2) h by (fastforce simp: x_def block_step_def)+
    have bound: "\<forall>j \<in> I. ?S j \<le> 71680" using less.prems(5) m4 by simp
    obtain d' im' fb' where ih: "does (im2, fb1, fi) (iappend_loop (chunks (S i + m) (length (drop m p))) (drop m p) d) d' (im', fb', fi)"
      "alloc_ok I (?F(i := d')) (?S(i := S i + m + length (drop m p))) im' fb'" "fb' + nblk (S i + m) = fb1 + nblk (S i + m + length (drop m p))"
      "\<exists>a. d' = d\<lparr>di_addrs := a\<rparr>" "\<forall>b < 83. im' b = im2 b" "fdata im' d' (S i + m + length (drop m p)) = fdata im2 d (S i + m) @ drop m p"
      "\<forall>j \<in> I. j \<noteq> i \<longrightarrow> fdata im' (F j) (S j) = fdata im2 (F j) (S j)" "tail_zero I (?F(i := d')) (?S(i := S i + m + length (drop m p))) im'"
      using less.hyps [of "drop m p" ?F ?S im2 fb1, OF _ w(1) less.prems(2) _ _ bound w(4)] m less.prems(3,4) d(3) m4 False by auto
    have len: "S i + m + length (drop m p) = S i + length p" using m(3) by simp
    have "does (im, fb, fi) (iappend_loop (chunks (S i) (length p)) p (F i)) d' (im', fb', fi)"
      using False f140 d(1) does_rsect [OF xr(2)] does_wsect [OF xr(2)] ih(1)
      by (subst chunks_Cons) (auto simp: Let_def m_def [symmetric] f_def [symmetric] x_def im2_def intro!: does_kbind does_kthen)
    moreover have "im' b = im b" if "b < 83" for b using ih(5) d(2) xr(1) that by (simp add: im2_def block_step_def)
    moreover have "\<exists>a. d' = (F i)\<lparr>di_addrs := a\<rparr>" using ih(4) d(2) by (auto simp: block_step_def)
    moreover have "fdata im' d' (S i + length p) = fdata im (F i) (S i) @ p" using ih(6) [unfolded len] w(2) by simp
    ultimately show ?thesis using ih(2,3,7,8) d(3) w(3) less.prems(5) unfolding len by (intro exI [of _ d'] exI [of _ im'] exI [of _ fb']) simp
  qed
qed
section \<open>Inodes and their contents\<close>

text \<open>The size of inode \<open>i\<close> and its content; a good image has its first \<open>fi - 1\<close> inodes in use.\<close>

definition isize :: "(nat \<Rightarrow> block) \<Rightarrow> nat \<Rightarrow> nat" where
  "isize im i = unat (di_size (dino im i))"

definition content :: "(nat \<Rightarrow> block) \<Rightarrow> nat \<Rightarrow> byte list" where
  "content im i = fdata im (dino im i) (isize im i)"

definition good :: "(nat \<Rightarrow> block) \<Rightarrow> nat \<Rightarrow> nat \<Rightarrow> bool" where
  "good im fb fi \<longleftrightarrow> 1 \<le> fi \<and> fi \<le> 208 \<and> alloc_ok {1..<fi} (dino im) (isize im) im fb \<and> (\<forall>i \<in> {1..<fi}. isize im i \<le> 71680) \<and>
     tail_zero {1..<fi} (dino im) (isize im) im"

text \<open>A change of inode \<open>i\<close> and of data blocks only.\<close>

definition only :: "nat \<Rightarrow> nat \<Rightarrow> (nat \<Rightarrow> block) \<Rightarrow> (nat \<Rightarrow> block) \<Rightarrow> bool" where
  "only i fi im im' \<longleftrightarrow> (\<forall>j \<in> {1..<fi}. j \<noteq> i \<longrightarrow> dino im' j = dino im j \<and> content im' j = content im j) \<and>
     (\<forall>b. b < 32 \<or> 58 \<le> b \<and> b < 83 \<longrightarrow> im' b = im b)"

lemma only_trans: "only i fi im im' \<Longrightarrow> only i fi im' im'' \<Longrightarrow> only i fi im im''"
  unfolding only_def by metis

lemma content_length [simp]: "length (content im i) = isize im i"
  by (simp add: content_def fdata_def)

lemma alloc_ok_table:
  assumes ok: "alloc_ok I F S im fb" and "\<And>b. 83 \<le> b \<Longrightarrow> im' b = im b" and "\<And>j k. j \<in> I \<Longrightarrow> k \<le> 12 \<Longrightarrow> di_addrs (F' j) k = di_addrs (F j) k"
  shows "alloc_ok I F' S im' fb" and "\<And>j. j \<in> I \<Longrightarrow> S j \<le> 71680 \<Longrightarrow> fdata im' (F' j) (S j) = fdata im (F j) (S j)"
    and "tail_zero I F S im \<Longrightarrow> tail_zero I F' S im'"
proof -
  note D = alloc_okD [OF ok]
  have low: "83 \<le> unat (di_addrs (F j) 12)" if "j \<in> I" "di_addrs (F j) 12 \<noteq> 0" for j
    using D(4) [OF that(1), of 12] D(5) [OF that(1), of 12] that(2) by (auto simp: fslot_def)
  have slots: "fslot im' (F' j) k = fslot im (F j) k" if "j \<in> I" for j k
    using assms(2) [OF low [OF that]] assms(3) [OF that] by (simp add: fslot_def)
  show "alloc_ok I F' S im' fb" using ok assms(2) D(1) slots unfolding alloc_ok_def by (simp cong: if_cong)
  show "fdata im' (F' j) (S j) = fdata im (F j) (S j)" if j: "j \<in> I" "S j \<le> 71680" for j
    unfolding fdata_def
  proof (rule map_cong [OF refl])
    fix q assume "q \<in> set [0..<S j]"
    then have "83 \<le> unat (fslot im (F j) (place (q div 512)))" using D(4) [OF j(1)] has_place(1,2) j(2) by auto
    then show "im' (unat (fslot im' (F' j) (place (q div 512)))) (q mod 512) = im (unat (fslot im (F j) (place (q div 512)))) (q mod 512)"
      using assms(2) slots [OF j(1)] by simp
  qed
  show "tail_zero I F' S im'" if z: "tail_zero I F S im"
    unfolding tail_zero_def
  proof (intro ballI allI impI)
    fix j q
    assume j: "j \<in> I" "S j \<le> q" "q < 71680" "has (S j) (place (q div 512))"
    then have "83 \<le> unat (fslot im (F j) (place (q div 512)))" using D(4) [OF j(1) has_place(2) j(4)] by simp
    then show "im' (unat (fslot im' (F' j) (place (q div 512)))) (q mod 512) = 0"
      using assms(2) slots [OF j(1)] z j by (simp add: tail_zero_def)
  qed
qed

lemma alloc_ok_insert:
  assumes ok: "alloc_ok I F S im fb" and "\<And>k. fslot im (F i) k = 0" and "S i = 0"
  shows "alloc_ok (insert i I) F S im fb"
proof -
  have "\<not> has (S i) k" for k using assms(3) by (simp add: has_def)
  then show ?thesis using ok assms(2) unfolding alloc_ok_def by simp
qed

lemma set_dino_blocks: "i < 208 \<Longrightarrow> b < 32 \<or> 58 \<le> b \<Longrightarrow> set_dino im i d b = im b"
proof -
  assume "i < 208" and b: "b < 32 \<or> 58 \<le> b"
  then have "i div 8 < 26" by (simp add: less_mult_imp_div_less)
  then have "b \<noteq> 32 + i div 8" using b by auto
  then show ?thesis by (simp add: set_dino_def)
qed

lemma iappend_does:
  assumes g: "good im fb fi" and i: "1 \<le> i" "i < fi" and n: "isize im i + length p \<le> 71680"
    and room: "fb + nblk (isize im i + length p) \<le> FSSIZE + nblk (isize im i)"
  shows "\<exists>im' fb'. does (im, fb, fi) (iappend (word_of_nat i) p) () (im', fb', fi) \<and> good im' fb' fi \<and>
    fb' + nblk (isize im i) = fb + nblk (isize im i + length p) \<and> content im' i = content im i @ p \<and> only i fi im im' \<and>
    di_type (dino im' i) = di_type (dino im i) \<and> di_nlink (dino im' i) = di_nlink (dino im i)"
proof -
  have I: "i \<in> {1..<fi}" "i < 208" using i g by (auto simp: good_def)
  have ok: "alloc_ok {1..<fi} (dino im) (isize im) im fb" "\<forall>j \<in> {1..<fi}. isize im j \<le> 71680" "tail_zero {1..<fi} (dino im) (isize im) im" using g by (simp_all add: good_def)
  define n' where "n' = isize im i + length p"
  obtain d im1 fb' a where l: "does (im, fb, fi) (iappend_loop (chunks (isize im i) (length p)) p (dino im i)) d (im1, fb', fi)"
    "alloc_ok {1..<fi} ((dino im)(i := d)) ((isize im)(i := n')) im1 fb'" "fb' + nblk (isize im i) = fb + nblk n'"
    "d = (dino im i)\<lparr>di_addrs := a\<rparr>" "\<forall>b < 83. im1 b = im b" "fdata im1 d n' = content im i @ p"
    "\<forall>j \<in> {1..<fi}. j \<noteq> i \<longrightarrow> fdata im1 (dino im j) (isize im j) = content im j"
    "tail_zero {1..<fi} ((dino im)(i := d)) ((isize im)(i := n')) im1"
    using iappend_loop_does [OF ok(1) I(1) n room ok(2,3)] unfolding n'_def content_def by blast
  define d' where "d' = d\<lparr>di_size := word_of_nat n'\<rparr>"
  define im' where "im' = set_dino im1 i d'"
  have same: "im1 b = im b" if "b < 83" for b using l(5) that by blast
  then have dino1: "dino im1 j = dino im j" if "j \<in> {1..<fi}" for j using that g by (auto simp: dino_def good_def)
  have dino': "dino im' j = (if j = i then d'\<lparr>di_addrs := (\<lambda>k. if k \<le> 12 then di_addrs d' k else 0)\<rparr> else dino im j)" if "j \<in> {1..<fi}" for j
    using dino_set(1) [of _ i im1 d'] dino_set(2) [of im1 i d'] dino1 [OF that] by (simp add: im'_def)
  have u: "unat (word_of_nat n' :: uint) = n'" using n by (intro unat_num) (simp add: n'_def)
  have size': "isize im' j = ((isize im)(i := n')) j" if "j \<in> {1..<fi}" for j
    unfolding isize_def dino' [OF that] by (simp add: d'_def u)
  have addrs: "di_addrs (dino im' j) k = di_addrs (((dino im)(i := d)) j) k" if "j \<in> {1..<fi}" "k \<le> 12" for j k
    using dino' [OF that(1)] that(2) by (auto simp: d'_def)
  have data: "im' b = im1 b" if "83 \<le> b" for b using that I(2) by (simp add: im'_def set_dino_blocks)
  have t: "alloc_ok {1..<fi} (dino im') ((isize im)(i := n')) im' fb'" by (rule alloc_ok_table(1) [OF l(2)]) (use data addrs in auto)
  have t2: "fdata im' (dino im' j) (((isize im)(i := n')) j) = fdata im1 (((dino im)(i := d)) j) (((isize im)(i := n')) j)"
    if "j \<in> {1..<fi}" "((isize im)(i := n')) j \<le> 71680" for j by (rule alloc_ok_table(2) [OF l(2)]) (use data addrs that in auto)
  have small: "((isize im)(i := n')) j \<le> 71680" if "j \<in> {1..<fi}" for j using that ok(2) n by (simp add: n'_def)
  have "alloc_ok {1..<fi} (dino im') (isize im') im' fb'" using t size' unfolding alloc_ok_def by (simp cong: if_cong)
  moreover have "tail_zero {1..<fi} (dino im') ((isize im)(i := n')) im'" by (rule alloc_ok_table(3) [OF l(2)]) (use data addrs l(8) in auto)
  then have "tail_zero {1..<fi} (dino im') (isize im') im'" using size' unfolding tail_zero_def by simp
  ultimately have "good im' fb' fi" using g size' small by (simp add: good_def)
  moreover have c: "content im' j = fdata im1 (((dino im)(i := d)) j) (((isize im)(i := n')) j)" if "j \<in> {1..<fi}" for j
    using t2 [OF that small [OF that]] size' [OF that] by (simp add: content_def)
  then have "content im' i = content im i @ p" using l(6) I(1) by simp
  moreover have "only i fi im im'"
    unfolding only_def
  proof (intro conjI ballI allI impI)
    show "dino im' j = dino im j" "content im' j = content im j" if "j \<in> {1..<fi}" "j \<noteq> i" for j
      using that dino' [OF that(1)] c [OF that(1)] l(7) by simp_all
    show "im' b = im b" if "b < 32 \<or> 58 \<le> b \<and> b < 83" for b using that same I(2) by (auto simp: im'_def set_dino_blocks)
  qed
  moreover have "does (im, fb, fi) (iappend (word_of_nat i) p) () (im', fb', fi)"
    unfolding iappend_def
    by (rule does_kbind [OF does_rinode [OF I(2)]]) (use does_kbind [OF l(1) does_winode [OF I(2)]] in \<open>simp add: im'_def d'_def n'_def isize_def Let_def\<close>)
  moreover have "di_type (dino im' i) = di_type (dino im i)" "di_nlink (dino im' i) = di_nlink (dino im i)"
    using dino' [OF I(1)] by (simp_all add: d'_def l(4))
  ultimately show ?thesis using l(3) unfolding n'_def by blast
qed

text \<open>A new inode.\<close>

lemma ialloc_does:
  assumes g: "good im fb fi" and fi: "fi < 208"
  shows "\<exists>im'. does (im, fb, fi) (mk_ialloc ty) (word_of_nat fi) (im', fb, fi + 1) \<and> good im' fb (fi + 1) \<and> only fi fi im im' \<and>
    content im' fi = [] \<and> di_type (dino im' fi) = ty \<and> di_nlink (dino im' fi) = 1"
proof -
  let ?d = "\<lparr>di_type = ty, di_major = 0, di_minor = 0, di_nlink = 1, di_size = 0, di_addrs = (\<lambda>_. 0)\<rparr>"
  define im' where "im' = set_dino im fi ?d"
  have ok: "alloc_ok {1..<fi} (dino im) (isize im) im fb" "1 \<le> fi" using g by (simp_all add: good_def)
  have dino': "dino im' j = (if j = fi then ?d else dino im j)" for j
    using dino_set(1) [of j fi im ?d] dino_set(2) [of im fi ?d] by (auto simp: im'_def cong: if_cong)
  have blk: "im' b = im b" if "b < 32 \<or> 58 \<le> b" for b using set_dino_blocks [OF fi that] by (simp add: im'_def)
  then have data: "im' b = im b" if "83 \<le> b" for b using that by simp
  have size': "isize im' j = (if j = fi then 0 else isize im j)" for j by (simp add: isize_def dino')
  have "tail_zero {1..<fi} (dino im') (isize im) im'" "alloc_ok {1..<fi} (dino im') (isize im) im' fb" and c: "\<And>j. j \<in> {1..<fi} \<Longrightarrow> fdata im' (dino im' j) (isize im j) = content im j"
    using alloc_ok_table [OF ok(1) data, of "dino im'"] g by (auto simp: dino' good_def content_def)
  then have old: "alloc_ok {1..<fi} (dino im') (isize im') im' fb" and z: "tail_zero {1..<fi} (dino im') (isize im') im'"
    unfolding alloc_ok_def tail_zero_def by (simp_all add: size' cong: if_cong)
  have set: "{1..<fi + 1} = insert fi {1..<fi}" using ok(2) by auto
  have "alloc_ok {1..<fi + 1} (dino im') (isize im') im' fb"
    unfolding set by (rule alloc_ok_insert [OF old]) (simp_all add: size' fslot_def dino')
  moreover have "tail_zero {1..<fi + 1} (dino im') (isize im') im'"
    using z unfolding set tail_zero_def by (simp add: size' has_def)
  ultimately have "good im' fb (fi + 1)" using g fi size' by (auto simp: good_def)
  moreover have "only fi fi im im'" using c blk by (auto simp: only_def dino' content_def size')
  moreover have "content im' fi = []" by (simp add: content_def size' fdata_def)
  moreover have "does (im, fb, fi) (mk_ialloc ty) (word_of_nat fi) (im', fb, fi + 1)"
  proof -
    have n: "unat (word_of_nat fi :: uint) = fi" "unat (word_of_nat fi + 1 :: uint) = fi + 1"
      using fi IBLOCK_num(2) [of fi] by (simp_all add: unat_word_ariths)
    have inc: "does (im, fb, fi) (kmod (\<lambda>m. m\<lparr>freeinode := freeinode m + 1\<rparr>)) () (im, fb, fi + 1)"
    proof -
      have "unat (w + 1) = fi + 1" if "unat w = fi" for w :: uint using that fi by (simp add: unat_word_ariths)
      then show ?thesis by (auto simp: does_def mk_at_def kexec)
    qed
    have fi_word: "freeinode m = word_of_nat fi" if "mk_at m (im, fb, fi)" for m using that by (auto simp: mk_at_def)
    show ?thesis
      unfolding mk_ialloc_def
      by (rule does_get [OF fi_word], assumption, rule does_kthen [OF inc], rule does_kthen [OF _ does_ret])
        (use does_winode [OF fi] in \<open>simp add: im'_def\<close>)
  qed
  ultimately show ?thesis by (intro exI [of _ im']) (simp add: dino')
qed

section \<open>The whole image\<close>

text \<open>Bytes \<open>q\<close> have been appended to inode \<open>i\<close>.\<close>

definition appends :: "nat \<Rightarrow> nat \<Rightarrow> (nat \<Rightarrow> block) \<Rightarrow> nat \<Rightarrow> byte list \<Rightarrow> (nat \<Rightarrow> block) \<Rightarrow> nat \<Rightarrow> bool" where
  "appends i fi im fb q im' fb' \<longleftrightarrow> good im' fb' fi \<and> fb' + nblk (isize im i) = fb + nblk (isize im i + length q) \<and>
     content im' i = content im i @ q \<and> only i fi im im' \<and>
     di_type (dino im' i) = di_type (dino im i) \<and> di_nlink (dino im' i) = di_nlink (dino im i)"

lemma onlyD:
  assumes "only i fi im im'"
  shows "1 \<le> j \<Longrightarrow> j < fi \<Longrightarrow> j \<noteq> i \<Longrightarrow> dino im' j = dino im j" and "1 \<le> j \<Longrightarrow> j < fi \<Longrightarrow> j \<noteq> i \<Longrightarrow> content im' j = content im j"
    and "b < 32 \<or> 58 \<le> b \<and> b < 83 \<Longrightarrow> im' b = im b"
  using assms unfolding only_def by auto

lemma nblk_mono: "m \<le> n \<Longrightarrow> nblk m \<le> nblk n"
  by (auto simp: nblk_def intro!: add_mono div_le_mono)

lemma nblk_0 [simp]: "nblk 0 = 0"
  by (simp add: nblk_def)

lemma appends_size: "appends i fi im fb q im' fb' \<Longrightarrow> isize im' i = isize im i + length q"
  using content_length [of im' i] by (simp add: appends_def del: content_length) simp

lemma appends_trans: "appends i fi im fb p im' fb' \<Longrightarrow> appends i fi im' fb' q im'' fb'' \<Longrightarrow> appends i fi im fb (p @ q) im'' fb''"
  using appends_size [of i fi im fb p im' fb'] only_trans [of i fi im im' im''] by (auto simp: appends_def add.assoc)

lemma iappend_appends:
  assumes "good im fb fi" and "1 \<le> i" and "i < fi" and "isize im i + length p \<le> 71680" and "fb + nblk (isize im i + length p) \<le> FSSIZE + nblk (isize im i)"
  shows "\<exists>im' fb'. does (im, fb, fi) (iappend (word_of_nat i) p) () (im', fb', fi) \<and> appends i fi im fb p im' fb'"
  using iappend_does [OF assms] unfolding appends_def .

text \<open>What the reads of a file deliver.\<close>

definition delivered :: "byte list list \<Rightarrow> byte list" where
  "delivered rs = concat (takeWhile (\<lambda>r. r \<noteq> []) rs)"

lemma mk_copy_does:
  assumes "good im fb fi" and "1 \<le> i" "i < fi" and "isize im i + length (delivered rs) \<le> 71680"
    and "fb + nblk (isize im i + length (delivered rs)) \<le> FSSIZE + nblk (isize im i)"
  shows "\<exists>im' fb'. does (im, fb, fi) (mk_copy (word_of_nat i) rs) () (im', fb', fi) \<and> appends i fi im fb (delivered rs) im' fb'"
  using assms
proof (induction rs arbitrary: im fb)
  case (Cons r rs)
  show ?case
  proof (cases "r = []")
    case True
    then show ?thesis using Cons.prems(1) does_ret by (intro exI [of _ im] exI [of _ fb]) (simp add: appends_def delivered_def only_def)
  next
    case False
    then have r: "delivered (r # rs) = r @ delivered rs" by (simp add: delivered_def)
    have le: "nblk (isize im i + length r) \<le> nblk (isize im i + length (delivered (r # rs)))" by (intro nblk_mono) (simp add: r)
    obtain im1 fb1 where a: "does (im, fb, fi) (iappend (word_of_nat i) r) () (im1, fb1, fi)" "appends i fi im fb r im1 fb1"
      using iappend_appends [OF Cons.prems(1-3), of r] Cons.prems(4,5) le unfolding r by auto
    have g: "good im1 fb1 fi" "isize im1 i = isize im i + length r" "fb1 + nblk (isize im i) = fb + nblk (isize im i + length r)"
      using a(2) appends_size [OF a(2)] by (simp_all add: appends_def)
    obtain im2 fb2 where b: "does (im1, fb1, fi) (mk_copy (word_of_nat i) rs) () (im2, fb2, fi)" "appends i fi im1 fb1 (delivered rs) im2 fb2"
      using Cons.IH [OF g(1) Cons.prems(2,3)] Cons.prems(4,5) g(2,3) unfolding r by (auto simp: add.assoc)
    show ?thesis using False does_kthen [OF a(1) b(1)] appends_trans [OF a(2) b(2)] unfolding r by (auto intro!: exI)
  qed
qed (auto simp: appends_def delivered_def only_def intro!: exI does_ret)

text \<open>The directory and the files after the names \<open>ns\<close>.\<close>

definition stored_name :: "char list \<Rightarrow> char list" where
  "stored_name name = (if name \<noteq> [] \<and> hd name = CHR ''_'' then tl name else name)"

definition root_dir :: "char list list \<Rightarrow> byte list" where
  "root_dir ns = entry 1 ''.'' @ entry 1 ''..'' @ concat (map (\<lambda>k. entry (word_of_nat (2 + k)) (stored_name (ns ! k))) [0..<length ns])"

definition file_data :: "(char list \<Rightarrow> byte list list option) \<Rightarrow> char list \<Rightarrow> byte list" where
  "file_data host name = delivered (the (host name))"

definition blocks_of :: "(char list \<Rightarrow> byte list list option) \<Rightarrow> char list list \<Rightarrow> nat" where
  "blocks_of host ns = 83 + nblk (16 * (2 + length ns)) + sum_list (map (\<lambda>n. nblk (length (file_data host n))) ns)"

definition copied :: "(char list \<Rightarrow> byte list list option) \<Rightarrow> char list list \<Rightarrow> (nat \<Rightarrow> block) \<Rightarrow> nat \<Rightarrow> bool" where
  "copied host ns im fb \<longleftrightarrow> good im fb (2 + length ns) \<and> fb = blocks_of host ns \<and>
     content im 1 = root_dir ns \<and> di_type (dino im 1) = 1 \<and> di_nlink (dino im 1) = 1 \<and>
     (\<forall>k < length ns. content im (2 + k) = file_data host (ns ! k) \<and> di_type (dino im (2 + k)) = 2 \<and> di_nlink (dino im (2 + k)) = 1) \<and>
     (\<forall>b. b < 32 \<or> 58 \<le> b \<and> b < 83 \<longrightarrow> im b = (if b = 1 then put_sb mkfs_sb (\<lambda>_. 0) else (\<lambda>_. 0)))"

definition fits_host :: "(char list \<Rightarrow> byte list list option) \<Rightarrow> char list \<Rightarrow> bool" where
  "fits_host host n \<longleftrightarrow> CHR ''/'' \<notin> set n \<and> host n \<noteq> None \<and> length (file_data host n) \<le> 71680"

lemma entry_length [simp]: "length (entry i n) = 16"
  by (simp add: entry_def)

lemma root_dir_snoc: "root_dir (ns @ [n]) = root_dir ns @ entry (word_of_nat (2 + length ns)) (stored_name n)"
proof -
  have "map (\<lambda>k. entry (word_of_nat (2 + k)) (stored_name ((ns @ [n]) ! k))) [0..<length ns] = map (\<lambda>k. entry (word_of_nat (2 + k)) (stored_name (ns ! k))) [0..<length ns]"
    by (rule map_cong) (simp_all add: nth_append)
  from arg_cong [where f = concat, OF this] show ?thesis by (simp add: root_dir_def)
qed

lemma root_dir_length: "length (root_dir ns) = 16 * (2 + length ns)"
  by (induction ns rule: rev_induct) (simp_all add: root_dir_snoc, simp add: root_dir_def)

lemma blocks_of_mono: "blocks_of host ns \<le> blocks_of host (ns @ ms)"
  using nblk_mono [of "16 * (2 + length ns)" "16 * (2 + length (ns @ ms))"] by (simp add: blocks_of_def)

lemma mk_file_does:
  assumes c: "copied host ns im fb" and n: "fits_host host n" and len: "length ns < 206" and room: "blocks_of host (ns @ [n]) \<le> FSSIZE"
  shows "\<exists>im' fb'. does (im, fb, 2 + length ns) (mk_file host 1 n) () (im', fb', 2 + length (ns @ [n])) \<and> copied host (ns @ [n]) im' fb'"
proof -
  define fi where "fi = 2 + length ns"
  have g: "good im fb fi" "fb = blocks_of host ns" "content im 1 = root_dir ns" "2 \<le> fi" "fi < 208" using c len by (auto simp: copied_def fi_def)
  obtain rs where rs: "host n = Some rs" "file_data host n = delivered rs" using n by (auto simp: fits_host_def file_data_def)
  obtain im1 where a: "does (im, fb, fi) (mk_ialloc 2) (word_of_nat fi) (im1, fb, fi + 1)" "good im1 fb (fi + 1)" "only fi fi im im1"
    "content im1 fi = []" "di_type (dino im1 fi) = 2" "di_nlink (dino im1 fi) = 1"
    using ialloc_does [OF g(1,5), of 2] by blast
  have c1: "content im1 1 = root_dir ns" "isize im1 1 = 16 * fi"
    using a(3) g(3,4) content_length [of im1 1] root_dir_length [of ns] by (simp_all add: only_def fi_def del: content_length)
  let ?e = "entry (word_of_nat fi) (stored_name n)"
  have total: "fb + nblk (16 * fi + 16) + nblk (length (delivered rs)) = blocks_of host (ns @ [n]) + nblk (16 * fi)"
    using g(2) rs(2) by (simp add: blocks_of_def fi_def algebra_simps)
  obtain im2 fb2 where b: "does (im1, fb, fi + 1) (iappend 1 ?e) () (im2, fb2, fi + 1)" "appends 1 (fi + 1) im1 fb ?e im2 fb2"
    using iappend_appends [OF a(2) order_refl [of 1], of ?e] c1(2) g(4,5) room total by auto
  have g2: "good im2 fb2 (fi + 1)" "fb2 + nblk (16 * fi) = fb + nblk (16 * fi + 16)" "content im2 fi = []" "dino im2 fi = dino im1 fi"
    "only 1 (fi + 1) im1 im2" using b(2) c1(2) a(4) g(4) onlyD [of 1 "fi + 1" im1 im2 fi] unfolding appends_def by simp_all
  have s2: "isize im2 fi = 0" using content_length [of im2 fi] g2(3) by (simp del: content_length)
  have lim: "length (delivered rs) \<le> 71680" using n rs(2) by (simp add: fits_host_def)
  obtain im3 fb3 where d: "does (im2, fb2, fi + 1) (mk_copy (word_of_nat fi) rs) () (im3, fb3, fi + 1)"
    "appends fi (fi + 1) im2 fb2 (delivered rs) im3 fb3"
    using mk_copy_does [OF g2(1), of fi rs] s2 lim total g2(2) room g(4) by auto
  have g3: "good im3 fb3 (fi + 1)" "fb3 = fb2 + nblk (length (delivered rs))" "only fi (fi + 1) im2 im3" "content im3 fi = delivered rs"
    "di_type (dino im3 fi) = 2" "di_nlink (dino im3 fi) = 1"
    using d(2) s2 a(5,6) g2(3,4) unfolding appends_def by auto
  have old: "content im3 j = content im j" "dino im3 j = dino im j" if "j \<in> {2..<fi}" for j
    using that onlyD(1,2) [OF a(3), of j] onlyD(1,2) [OF g2(5), of j] onlyD(1,2) [OF g3(3), of j] by simp_all
  have root: "content im3 1 = root_dir ns @ ?e" "di_type (dino im3 1) = 1" "di_nlink (dino im3 1) = 1"
    using b(2) c1(1) onlyD(1) [OF a(3), of 1] onlyD(1,2) [OF g3(3), of 1] c g(4) unfolding appends_def copied_def by simp_all
  have blk: "im3 x = im x" if "x < 32 \<or> 58 \<le> x \<and> x < 83" for x 
    using onlyD(3) [OF a(3) that] onlyD(3) [OF g2(5) that] onlyD(3) [OF g3(3) that] by simp
  have "fb3 = blocks_of host (ns @ [n])" using g3(2) g2(2) total by simp
  moreover have "content im3 (2 + k) = file_data host ((ns @ [n]) ! k) \<and> di_type (dino im3 (2 + k)) = 2 \<and> di_nlink (dino im3 (2 + k)) = 1"
    if "k < Suc (length ns)" for k
  proof (cases "k = length ns")
    case True
    then have "2 + k = fi" by (simp add: fi_def)
    then show ?thesis using g3(4-6) rs(2) True by simp
  next
    case False
    then have k: "k < length ns" "2 + k \<in> {2..<fi}" using that by (simp_all add: fi_def)
    moreover have "\<forall>k < length ns. content im (2 + k) = file_data host (ns ! k) \<and> di_type (dino im (2 + k)) = 2 \<and> di_nlink (dino im (2 + k)) = 1"
      using c unfolding copied_def by blast
    ultimately show ?thesis using old [OF k(2)] by (simp add: nth_append)
  qed
  ultimately have "copied host (ns @ [n]) im3 fb3"
    using g3(1) root blk c unfolding copied_def root_dir_snoc by (simp add: fi_def)
  moreover have "mk_file host 1 n = kbind (mk_ialloc 2) (\<lambda>inum. kthen (iappend 1 (entry inum (stored_name n))) (mk_copy inum rs))"
    using n by (simp add: mk_file_def fits_host_def rs(1) stored_name_def Let_def)
  then have "does (im, fb, fi) (mk_file host 1 n) () (im3, fb3, fi + 1)"
    by (simp only:) (rule does_kbind [OF a(1)], rule does_kthen [OF b(1) d(1)])
  moreover have "fi + 1 = 2 + length (ns @ [n])" by (simp add: fi_def)
  ultimately show ?thesis unfolding fi_def by metis
qed

lemma mk_files_does:
  assumes "copied host ns im fb" and "\<forall>n \<in> set ms. fits_host host n" and "length (ns @ ms) \<le> 206" and "blocks_of host (ns @ ms) \<le> FSSIZE"
  shows "\<exists>im' fb'. does (im, fb, 2 + length ns) (kfor ms (mk_file host 1)) () (im', fb', 2 + length (ns @ ms)) \<and> copied host (ns @ ms) im' fb'"
  using assms
proof (induction ms arbitrary: ns im fb)
  case Nil
  then show ?case by (auto simp: kfor.simps intro!: exI does_ret)
next
  case (Cons m ms)
  have "blocks_of host (ns @ [m]) \<le> FSSIZE" using blocks_of_mono [of host "ns @ [m]" ms] Cons.prems(4) by simp
  then obtain im1 fb1 where a: "does (im, fb, 2 + length ns) (mk_file host 1 m) () (im1, fb1, 2 + length (ns @ [m]))" "copied host (ns @ [m]) im1 fb1"
    using mk_file_does [OF Cons.prems(1), of m] Cons.prems(2,3) by auto
  obtain im2 fb2 where "does (im1, fb1, 2 + length (ns @ [m])) (kfor ms (mk_file host 1)) () (im2, fb2, 2 + length (ns @ m # ms))"
    "copied host (ns @ m # ms) im2 fb2"
    using Cons.IH [OF a(2)] Cons.prems(2-4) by auto
  then show ?case unfolding kfor.simps by (intro exI conjI does_kthen [OF a(1)])
qed
text \<open>The image before the first inode: all sectors zero but the super block.\<close>

lemma zero_fill:
  assumes "\<forall>n. hostok m n" and "img m = (\<lambda>_ _. 0)" and "imgsecs m = 0" and "k \<le> FSSIZE"
  shows "\<exists>t. kfor [0..<k] (\<lambda>i. wsect (word_of_nat i) (\<lambda>_. 0)) m = Ok () t \<and> img t = (\<lambda>_ _. 0) \<and> imgsecs t = k \<and>
    hostok t = hostok m \<and> mk_sb t = mk_sb m \<and> freeblock t = freeblock m \<and> freeinode t = freeinode m"
  using assms(4)
proof (induction k)
  case 0
  then show ?case using assms(2,3) by (simp add: kexec)
next
  case (Suc k)
  have s: "sector (word_of_nat k) = k" using Suc.prems sector_eq [of "word_of_nat k"] unat_num [of k] by simp
  obtain t where t: "kfor [0..<k] (\<lambda>i. wsect (word_of_nat i) (\<lambda>_. 0)) m = Ok () t" "img t = (\<lambda>_ _. 0)" "imgsecs t = k" "hostok t = hostok m"
    "mk_sb t = mk_sb m" "freeblock t = freeblock m" "freeinode t = freeinode m"
    using Suc by auto
  moreover have "wsect (word_of_nat k) (\<lambda>_. 0) t = Ok () (t\<lparr>img := (img t)(k := (\<lambda>_. 0)), imgsecs := max (imgsecs t) (k + 1), hostn := hostn t + 2\<rparr>)"
    using assms(1) t(4) by (simp add: wsect_def host_call_def kexec s)
  moreover have "(\<lambda>_ _. 0)(k := (\<lambda>_. 0)) = (\<lambda>_ _. 0 :: byte)" by (simp add: fun_eq_iff)
  ultimately show ?case by (simp add: kfor_append kthen_exec kfor_Cons_exec kfor_Nil_exec)
qed

lemma good_empty: "good ((\<lambda>_ _. 0)(1 := b)) 83 1"
  by (simp add: good_def alloc_ok_def tail_zero_def)

lemma root_does:
  assumes im: "im = (\<lambda>_ _. 0)(1 := put_sb mkfs_sb (\<lambda>_. 0))"
  shows "\<exists>im0 im1 im2. does (im, 83, 1) (mk_ialloc 1) 1 (im0, 83, 2) \<and> does (im0, 83, 2) (iappend 1 (entry 1 ''.'')) () (im1, 84, 2) \<and>
    does (im1, 84, 2) (iappend 1 (entry 1 ''..'')) () (im2, 84, 2) \<and> copied host [] im2 84"
proof -
  have g: "good im 83 1" unfolding im by (rule good_empty)
  have n1: "1 + 1 = (2 :: nat)" "word_of_nat 1 = (1 :: uint)" by simp_all
  obtain im0 where a: "does (im, 83, 1) (mk_ialloc 1) 1 (im0, 83, 2)" "good im0 83 2" "only 1 1 im im0" "content im0 1 = []"
    "di_type (dino im0 1) = 1" "di_nlink (dino im0 1) = 1"
    using ialloc_does [OF g, of 1] unfolding n1 by auto
  have s0: "isize im0 1 = 0" using content_length [of im0 1] a(4) by (simp del: content_length)
  have nb: "nblk 16 = 1" "nblk 32 = 1" by (simp_all add: nblk_def)
  obtain im1 fb1 where b: "does (im0, 83, 2) (iappend 1 (entry 1 ''.'')) () (im1, fb1, 2)" "appends 1 2 im0 83 (entry 1 ''.'') im1 fb1"
    using iappend_appends [OF a(2) order_refl [of 1], of "entry 1 ''.''"] s0 nb unfolding n1 by auto
  have b3: "good im1 fb1 2" "fb1 = 84" "isize im1 1 = 16" "only 1 2 im0 im1" "content im1 1 = entry 1 ''.''" "di_type (dino im1 1) = 1" "di_nlink (dino im1 1) = 1"
    using b(2) appends_size [OF b(2)] s0 a(4,5,6) nb unfolding appends_def by auto
  obtain im2 fb2 where c: "does (im1, fb1, 2) (iappend 1 (entry 1 ''..'')) () (im2, fb2, 2)" "appends 1 2 im1 fb1 (entry 1 ''..'') im2 fb2"
    using iappend_appends [OF b3(1) order_refl [of 1], of "entry 1 ''..''"] b3(2,3) nb unfolding n1 by auto
  have c3: "good im2 fb2 2" "fb2 = 84" "only 1 2 im1 im2" "content im2 1 = entry 1 ''.'' @ entry 1 ''..''" "di_type (dino im2 1) = 1" "di_nlink (dino im2 1) = 1"
    using c(2) b3 nb unfolding appends_def by auto
  have blk: "im2 x = im x" if "x < 32 \<or> 58 \<le> x \<and> x < 83" for x
    using onlyD(3) [OF a(3) that] onlyD(3) [OF b3(4) that] onlyD(3) [OF c3(3) that] by simp
  have "copied host [] im2 84"
    using c3 blk nb by (simp add: copied_def blocks_of_def root_dir_def im)
  then show ?thesis using a(1) b(1) c(1) b3(2) c3(2) by blast
qed

text \<open>The bits of the free map.\<close>

lemma map_bit_fold: "map_bit (fold map_set [0..<n] d) x \<longleftrightarrow> x < n \<or> map_bit d x"
  by (induction n) (auto simp: map_bit_set)

lemma map_bit_zero: "\<not> map_bit (\<lambda>_. 0) x"
  by (simp add: map_bit_def)

lemma get_put_sb: "get_sb (put_sb s b) = s"
  by (simp add: get_sb_def put_sb_def)
text \<open>The last steps: the size of the root directory and the free map.\<close>

lemma sizes_cong:
  assumes "\<And>j. j \<in> I \<Longrightarrow> S' j = S j"
  shows "alloc_ok I F S' im fb = alloc_ok I F S im fb" and "tail_zero I F S' im = tail_zero I F S im"
  using assms unfolding alloc_ok_def tail_zero_def by (auto cong: if_cong)

lemma finish_does:
  assumes c: "copied host ns im fb" and len: "length ns \<le> 206" and room: "fb < 4096" and n: "n = 16 * (2 + length ns)"
  shows "\<exists>im'. does (im, fb, 2 + length ns) (kthen (fix_root 1) (kbind (kget freeblock) (\<lambda>x. mk_balloc (unat x)))) () (im', fb, 2 + length ns) \<and>
    im' 1 = put_sb mkfs_sb (\<lambda>_. 0) \<and> (\<forall>x < FSSIZE. map_bit (im' (58 + x div 4096)) (x mod 4096) \<longleftrightarrow> x < fb) \<and>
    alloc_ok {1..<2 + length ns} (dino im') (\<lambda>i. if i = 1 then n else isize im' i) im' fb \<and>
    tail_zero {1..<2 + length ns} (dino im') (\<lambda>i. if i = 1 then n else isize im' i) im' \<and>
    isize im' 1 = (n div 512 + 1) * 512 \<and> di_type (dino im' 1) = 1 \<and> di_nlink (dino im' 1) = 1 \<and> fdata im' (dino im' 1) n = root_dir ns \<and>
    (\<forall>k < length ns. content im' (2 + k) = file_data host (ns ! k) \<and> di_type (dino im' (2 + k)) = 2 \<and> di_nlink (dino im' (2 + k)) = 1)"
proof -
  define fi where "fi = 2 + length ns"
  let ?I = "{1..<fi}" and ?bm = "fold map_set [0..<fb] (\<lambda>_. 0)"
  have g: "good im fb fi" "content im 1 = root_dir ns" "di_type (dino im 1) = 1" "di_nlink (dino im 1) = 1"
    "\<forall>k < length ns. content im (2 + k) = file_data host (ns ! k) \<and> di_type (dino im (2 + k)) = 2 \<and> di_nlink (dino im (2 + k)) = 1"
    "\<forall>b. b < 32 \<or> 58 \<le> b \<and> b < 83 \<longrightarrow> im b = (if b = 1 then put_sb mkfs_sb (\<lambda>_. 0) else (\<lambda>_. 0))"
    using c unfolding copied_def fi_def by blast+
  have fi: "2 \<le> fi" "fi \<le> 208" using len by (simp_all add: fi_def)
  have s1: "isize im 1 = n" using content_length [of im 1] g(2) root_dir_length [of ns] by (simp add: n del: content_length)
  define d where "d = (dino im 1)\<lparr>di_size := (di_size (dino im 1) div 512 + 1) * 512\<rparr>"
  define im1 where "im1 = set_dino im 1 d"
  define im' where "im' = im1(58 := ?bm)"
  have i1: "(1 :: nat) < 208" "word_of_nat 1 = (1 :: uint)" by simp_all
  have fix1: "does (im, fb, fi) (fix_root 1) () (im1, fb, fi)"
    unfolding fix_root_def using does_kbind [OF does_rinode [OF i1(1)]] does_winode [OF i1(1), of im fb fi d] by (simp add: im1_def d_def)
  have "sb_bmapstart mkfs_sb = 58" "unat (58 :: uint) = 58" by (simp_all add: mkfs_sb_def layout_nums)
  then have bm: "does (im1, fb, fi) (kbind (kget freeblock) (\<lambda>x. mk_balloc (unat x))) () (im', fb, fi)"
    using room does_wsect [of 58 im1 fb fi ?bm] by (auto simp: does_def mk_balloc_def kexec mk_at_def im'_def)
  have run: "does (im, fb, fi) (kthen (fix_root 1) (kbind (kget freeblock) (\<lambda>x. mk_balloc (unat x)))) () (im', fb, fi)"
    by (rule does_kthen [OF fix1 bm])
  have blk: "im' b = (if b = 58 then ?bm else im b)" if "b < 32 \<or> 58 \<le> b" for b
    using set_dino_blocks [OF i1(1) that, of im d] by (simp add: im'_def im1_def)
  have dino': "dino im' j = (if j = 1 then d\<lparr>di_addrs := (\<lambda>k. if k \<le> 12 then di_addrs d k else 0)\<rparr> else dino im j)" if "j < 208" for j
  proof -
    have "j div 8 < 26" using that by (simp add: less_mult_imp_div_less)
    then have "dino im' j = dino im1 j" by (simp add: im'_def dino_def)
    then show ?thesis using dino_set(1) [of j 1 im d] dino_set(2) [of im 1 d] by (simp add: im1_def)
  qed
  have word_size: "unat ((w div 512 + 1) * 512 :: uint) = (unat w div 512 + 1) * 512" if "unat w \<le> 4096" for w
  proof -
    have "unat w div 512 \<le> 8" using that by (simp add: div_le_mono [of _ 4096, simplified])
    then show ?thesis by (simp add: unat_word_ariths unat_div)
  qed
  have "n \<le> 4096" using len by (simp add: n)
  then have size1: "isize im' 1 = (n div 512 + 1) * 512" using s1 word_size [of "di_size (dino im 1)"] dino' [of 1] by (simp add: isize_def d_def)
  have sizes: "(\<lambda>i. if i = 1 then n else isize im' i) j = isize im j" if "j \<in> ?I" for j
    using that fi(2) s1 dino' [of j] by (simp add: isize_def)
  have addrs: "di_addrs (dino im' j) k = di_addrs (dino im j) k" if "j \<in> ?I" "k \<le> 12" for j k
    using that fi(2) dino' [of j] by (simp add: d_def)
  have data: "im' b = im b" if "83 \<le> b" for b using that blk [of b] by simp
  have ok: "alloc_ok ?I (dino im) (isize im) im fb" "tail_zero ?I (dino im) (isize im) im" "\<forall>j \<in> ?I. isize im j \<le> 71680" using g(1) by (simp_all add: good_def)
  have ok': "alloc_ok ?I (dino im') (isize im) im' fb" "tail_zero ?I (dino im') (isize im) im'"
    and same: "\<And>j. j \<in> ?I \<Longrightarrow> fdata im' (dino im' j) (isize im j) = content im j"
    using alloc_ok_table [OF ok(1) data addrs] ok(2,3) by (auto simp: content_def)
  have "alloc_ok ?I (dino im') (\<lambda>i. if i = 1 then n else isize im' i) im' fb" "tail_zero ?I (dino im') (\<lambda>i. if i = 1 then n else isize im' i) im'"
    using ok' sizes_cong [of ?I "\<lambda>i. if i = 1 then n else isize im' i" "isize im"] sizes by blast+
  moreover have "map_bit (im' (58 + x div 4096)) (x mod 4096) \<longleftrightarrow> x < fb" if "x < FSSIZE" for x
  proof (cases "x < 4096")
    case True
    then show ?thesis using blk [of 58] by (simp add: map_bit_fold map_bit_zero)
  next
    case False
    then have "1 \<le> x div 4096" "x div 4096 < 25" using that by (simp_all add: less_mult_imp_div_less)
    then have "im' (58 + x div 4096) = (\<lambda>_. 0)" using blk [of "58 + x div 4096"] g(6) by simp
    then show ?thesis using False room by (simp add: map_bit_zero)
  qed
  moreover have "im' 1 = put_sb mkfs_sb (\<lambda>_. 0)" using blk [of 1] g(6) by simp
  moreover have "fdata im' (dino im' 1) n = root_dir ns" using same [of 1] fi(1) s1 g(2) by simp
  moreover have "di_type (dino im' 1) = 1" "di_nlink (dino im' 1) = 1" using dino' [of 1] g(3,4) by (simp_all add: d_def)
  moreover have "content im' (2 + k) = file_data host (ns ! k) \<and> di_type (dino im' (2 + k)) = 2 \<and> di_nlink (dino im' (2 + k)) = 1" if "k < length ns" for k
  proof -
    have "2 + k \<in> ?I" "2 + k \<noteq> 1" "2 + k < 208" using that fi(2) by (auto simp: fi_def)
    then show ?thesis using same [of "2 + k"] sizes [of "2 + k"] dino' [of "2 + k"] g(5) that by (simp add: content_def)
  qed
  ultimately show ?thesis using run size1 unfolding fi_def by blast
qed
lemma filled_image:
  assumes "\<forall>n. ok n"
  shows "\<exists>t. kfor [0..<FSSIZE] (\<lambda>i. wsect (word_of_nat i) (\<lambda>_. 0)) ((mkfs0 ok)\<lparr>mk_sb := mkfs_sb, freeblock := word_of_nat nmeta\<rparr>) = Ok () t \<and>
    mk_at t (\<lambda>_ _. 0, 83, 1)"
proof -
  define m where "m = (mkfs0 ok)\<lparr>mk_sb := mkfs_sb, freeblock := word_of_nat nmeta\<rparr>"
  have m: "hostok m = ok" "img m = (\<lambda>_ _. 0)" "imgsecs m = 0" "mk_sb m = mkfs_sb" "freeblock m = 83" "freeinode m = 1"
    by (simp_all add: m_def mkfs0_def layout_nums)
  then have host: "\<forall>n. hostok m n" using assms by simp
  obtain t where t: "kfor [0..<FSSIZE] (\<lambda>i. wsect (word_of_nat i) (\<lambda>_. 0)) m = Ok () t" and e: "img t = (\<lambda>_ _. 0)" "imgsecs t = FSSIZE"
    "hostok t = hostok m" "mk_sb t = mk_sb m" "freeblock t = freeblock m" "freeinode t = freeinode m"
    using zero_fill [OF host m(2,3) order_refl] by blast
  have "mk_at t (\<lambda>_ _. 0, 83, 1)" using e host m by (simp add: mk_at_def)
  then show ?thesis using t unfolding m_def by blast
qed

lemma mkfs_run:
  assumes "\<forall>n. ok n" and "\<forall>n \<in> set names. fits_host host n" and "length names \<le> 206" and "blocks_of host names < 4096"
    and "n = 16 * (2 + length names)"
  shows "\<exists>t. mkfs_main host True (prog # target # names) (mkfs0 ok) = Ok () t \<and> get_sb (img t 1) = mkfs_sb \<and>
    (\<forall>x < FSSIZE. map_bit (img t (58 + x div 4096)) (x mod 4096) \<longleftrightarrow> x < blocks_of host names) \<and>
    alloc_ok {1..<2 + length names} (dino (img t)) (\<lambda>i. if i = 1 then n else isize (img t) i) (img t) (blocks_of host names) \<and>
    tail_zero {1..<2 + length names} (dino (img t)) (\<lambda>i. if i = 1 then n else isize (img t) i) (img t) \<and>
    isize (img t) 1 = (n div 512 + 1) * 512 \<and> di_type (dino (img t) 1) = 1 \<and> di_nlink (dino (img t) 1) = 1 \<and>
    fdata (img t) (dino (img t) 1) n = root_dir names \<and>
    (\<forall>k < length names. content (img t) (2 + k) = file_data host (names ! k) \<and> di_type (dino (img t) (2 + k)) = 2 \<and> di_nlink (dino (img t) (2 + k)) = 1)"
proof -
  let ?im = "(\<lambda>_ _. 0)(1 := put_sb mkfs_sb (\<lambda>_. 0))" and ?m = "(mkfs0 ok)\<lparr>mk_sb := mkfs_sb, freeblock := word_of_nat nmeta\<rparr>"
  obtain m1 where m1: "kfor [0..<FSSIZE] (\<lambda>i. wsect (word_of_nat i) (\<lambda>_. 0)) ?m = Ok () m1" "mk_at m1 (\<lambda>_ _. 0, 83, 1)"
    using filled_image [OF assms(1)] by blast
  have "unat (1 :: uint) = 1" by simp
  then have sb: "does (\<lambda>_ _. 0, 83, 1) (wsect 1 (put_sb mkfs_sb (\<lambda>_. 0))) () (?im, 83, 1)"
    using does_wsect [of 1 "\<lambda>_ _. 0"] by simp
  obtain im0 im1 im2 where r: "does (?im, 83, 1) (mk_ialloc 1) 1 (im0, 83, 2)" "does (im0, 83, 2) (iappend 1 (entry 1 ''.'')) () (im1, 84, 2)"
    "does (im1, 84, 2) (iappend 1 (entry 1 ''..'')) () (im2, 84, 2)" "copied host [] im2 84"
    using root_does by blast
  obtain im3 fb where f: "does (im2, 84, 2) (kfor names (mk_file host 1)) () (im3, fb, 2 + length names)" "copied host names im3 fb"
    using mk_files_does [OF r(4), of names] assms(2,3,4) by auto
  have fb: "fb = blocks_of host names" using f(2) unfolding copied_def by blast
  obtain im4 where e: "does (im3, fb, 2 + length names) (kthen (fix_root 1) (kbind (kget freeblock) (\<lambda>x. mk_balloc (unat x)))) () (im4, fb, 2 + length names)"
    and post: "im4 1 = put_sb mkfs_sb (\<lambda>_. 0)" "\<forall>x < FSSIZE. map_bit (im4 (58 + x div 4096)) (x mod 4096) \<longleftrightarrow> x < fb"
    "alloc_ok {1..<2 + length names} (dino im4) (\<lambda>i. if i = 1 then n else isize im4 i) im4 fb"
    "tail_zero {1..<2 + length names} (dino im4) (\<lambda>i. if i = 1 then n else isize im4 i) im4"
    "isize im4 1 = (n div 512 + 1) * 512" "di_type (dino im4 1) = 1" "di_nlink (dino im4 1) = 1" "fdata im4 (dino im4 1) n = root_dir names"
    "\<forall>k < length names. content im4 (2 + k) = file_data host (names ! k) \<and> di_type (dino im4 (2 + k)) = 2 \<and> di_nlink (dino im4 (2 + k)) = 1"
    using finish_does [OF f(2) assms(3) _ assms(5)] assms(4) fb by blast
  let ?rest = "kthen (wsect 1 (put_sb mkfs_sb (\<lambda>_. 0))) (kbind (mk_ialloc 1) (\<lambda>rootino. if rootino \<noteq> 1 then panic ''rootino == ROOTINO''
         else kthen (iappend rootino (entry rootino ''.''))
           (kthen (iappend rootino (entry rootino ''..''))
           (kthen (kfor names (mk_file host rootino))
           (kthen (fix_root rootino) (kbind (kget freeblock) (\<lambda>fb. mk_balloc (unat fb))))))))"
  have "does (\<lambda>_ _. 0, 83, 1) ?rest () (im4, fb, 2 + length names)"
    by (rule does_kthen [OF sb], rule does_kbind [OF r(1)]) (use does_kthen [OF r(2) does_kthen [OF r(3) does_kthen [OF f(1) e]]] in simp)
  then obtain t where t: "?rest m1 = Ok () t" "mk_at t (im4, fb, 2 + length names)" using m1(2) unfolding does_def by blast
  have two: "drop 2 (prog # target # names) = names" by (simp add: numeral_2_eq_2)
  have main: "mkfs_main host True (prog # target # names) (mkfs0 ok) = Ok () t"
    unfolding mkfs_main_def two using t(1) by (simp add: kthen_exec [of "kmod _"] kthen_exec [of "kfor _ _"] kmod_exec m1(1))
  have im: "img t = im4" using t(2) by (simp add: mk_at_def)
  have "get_sb (img t 1) = mkfs_sb" unfolding im post(1) by (rule get_put_sb)
  with main post(2-) show ?thesis by (intro exI [of _ t] conjI) (simp_all only: im fb)
qed

text \<open>
  C12. \<open>mkfs\<close> builds a consistent file system that holds the files it was given. When the host serves all calls, no name
  has a slash, every file can be read and has at most 140 blocks, there are at most 206 files, and everything fits into
  the blocks one block of the free map describes, the program ends without an error. On the image, read with the kernel's own view of
  the structures: the super block is the layout; the free map marks exactly the meta-data and the blocks the
  files use; no two files share a block, no block of a file lies in the meta-data, and every file has all the blocks its size asks for;
  the root directory is a directory whose entries are the two dots and the files' names, in order, behind which its last block is zero;
  and inode \<open>2 + k\<close> is a file with one link that holds exactly the bytes of the \<open>k\<close>th argument.
\<close>

theorem mkfs_builds_image:
  assumes "\<forall>n. ok n" and "\<forall>n \<in> set names. fits_host host n" and "length names \<le> 206" and "blocks_of host names < 4096"
    and "n = 16 * (2 + length names)"
  shows "\<exists>t. mkfs_main host True (prog # target # names) (mkfs0 ok) = Ok () t \<and> get_sb (img t 1) = mkfs_sb \<and>
    (\<forall>x < FSSIZE. map_bit (img t (58 + x div 4096)) (x mod 4096) \<longleftrightarrow> x < blocks_of host names) \<and>
    alloc_ok {1..<2 + length names} (dino (img t)) (\<lambda>i. if i = 1 then n else isize (img t) i) (img t) (blocks_of host names) \<and>
    tail_zero {1..<2 + length names} (dino (img t)) (\<lambda>i. if i = 1 then n else isize (img t) i) (img t) \<and>
    isize (img t) 1 = (n div 512 + 1) * 512 \<and> di_type (dino (img t) 1) = 1 \<and> di_nlink (dino (img t) 1) = 1 \<and>
    fdata (img t) (dino (img t) 1) n = root_dir names \<and>
    (\<forall>k < length names. content (img t) (2 + k) = file_data host (names ! k) \<and> di_type (dino (img t) (2 + k)) = 2 \<and> di_nlink (dino (img t) (2 + k)) = 1)"
  by (rule mkfs_run [OF assms])

text \<open>An example: one file, delivered in two reads.\<close>

theorem mkfs_builds_image_witness:
  "\<exists>t. mkfs_main (\<lambda>n. if n = ''_a'' then Some [[1, 2], [3]] else None) True [''mkfs'', ''fs.img'', ''_a''] (mkfs0 (\<lambda>_. True)) = Ok () t \<and>
     get_sb (img t 1) = mkfs_sb \<and> content (img t) 2 = [1, 2, 3] \<and> di_type (dino (img t) 2) = 2 \<and>
     fdata (img t) (dino (img t) 1) 48 = entry 1 ''.'' @ entry 1 ''..'' @ entry 2 ''a'' \<and>
     map_bit (img t 58) 84 \<and> \<not> map_bit (img t 58) 85"
proof -
  let ?host = "\<lambda>n. if n = ''_a'' then Some [[1, 2], [3]] else None"
  have d: "file_data ?host ''_a'' = [1, 2, 3]" by (simp add: file_data_def delivered_def)
  have fits: "\<forall>n \<in> set [''_a'']. fits_host ?host n" by (simp add: fits_host_def d)
  have b: "blocks_of ?host [''_a''] = 85" by (simp add: blocks_of_def d nblk_def)
  have r: "root_dir [''_a''] = entry 1 ''.'' @ entry 1 ''..'' @ entry 2 ''a''" by (simp add: root_dir_def stored_name_def)
  obtain t where "mkfs_main ?host True [''mkfs'', ''fs.img'', ''_a''] (mkfs0 (\<lambda>_. True)) = Ok () t" "get_sb (img t 1) = mkfs_sb"
    and bits: "\<forall>x < FSSIZE. map_bit (img t (58 + x div 4096)) (x mod 4096) \<longleftrightarrow> x < 85"
    and "fdata (img t) (dino (img t) 1) 48 = root_dir [''_a'']" "\<forall>k < 1. content (img t) (2 + k) = file_data ?host ([''_a''] ! k) \<and> di_type (dino (img t) (2 + k)) = 2"
    using mkfs_builds_image [of "\<lambda>_. True" "[''_a'']" ?host 48 "''mkfs''" "''fs.img''"] fits b by auto
  then show ?thesis using r d bits [rule_format, of 84] bits [rule_format, of 85] by auto
qed

end
