(* ===== verification/Image.thy ===== *)
theory Image
  imports Mkfs
begin

text \<open>
  The kernel on an image made by \<^verbatim>\<open>mkfs.c\<close>: the addresses and bytes the kernel finds through an inode are those the
  program has put there. \<open>on_image\<close> is a kernel whose disk, seen through its buffer cache, is the image.
\<close>

section \<open>The kernel's view of the image\<close>

definition on_image :: "(nat \<Rightarrow> block) \<Rightarrow> 'z fsst_scheme \<Rightarrow> bool" where
  "on_image im s \<longleftrightarrow> sb s = mkfs_sb \<and> disksize s = int FSSIZE \<and> (\<forall>b. unat b < FSSIZE \<longrightarrow> view s b = im (unat b))"

lemma image_inode: "on_image im s \<Longrightarrow> i < 208 \<Longrightarrow> disk_inode s (word_of_nat i) = dino im i \<and> IBLOCK (word_of_nat i) (sb s) < word_of_int (disksize s)"
  using IBLOCK_num [of i] by (auto simp: on_image_def disk_inode_def dino_def word_less_nat_alt)

lemma image_addrs:
  assumes im: "on_image im s" and ok: "alloc_ok I F S im fb" and i: "i \<in> I" "S i \<le> 71680" and ino: "\<And>k. k \<le> 12 \<Longrightarrow> i_addrs ino k = di_addrs (F i) k"
    and b: "512 * b < S i"
  shows "faddr s ino b = fslot im (F i) (place b)" and "mapped s ino b"
proof -
  note D = alloc_okD [OF ok]
  have pl: "b < 140" "place b < 141" "has (S i) (place b)" using b i(2) has_place(1) [of "512 * b" "S i"] by (simp_all add: place_def)
  have r: "83 \<le> unat (fslot im (F i) (place b))" "unat (fslot im (F i) (place b)) < FSSIZE" using D(4) [OF i(1) pl(2,3)] D(2) by simp_all
  have h12: "83 \<le> unat (i_addrs ino 12) \<and> unat (i_addrs ino 12) < FSSIZE" if "12 \<le> b"
  proof -
    have "has (S i) 12" using that b by (simp add: has_def)
    then show ?thesis using D(4) [OF i(1), of 12] D(2) ino [of 12] by (auto simp: fslot_def)
  qed
  have nz: "w \<noteq> 0" if "83 \<le> unat w" for w :: uint using that by (intro notI) simp
  have on: "w < word_of_int (disksize s)" if "unat w < FSSIZE" for w :: uint using that im by (simp add: on_image_def word_less_nat_alt)
  show eq: "faddr s ino b = fslot im (F i) (place b)"
  proof (cases "b < 12")
    case True
    then show ?thesis using ino [of b] by (simp add: faddr_def fslot_def place_def)
  next
    case False
    then have "view s (i_addrs ino 12) = im (unat (i_addrs ino 12))" "di_addrs (F i) 12 \<noteq> 0"
      using h12 nz im ino [of 12] by (auto simp: on_image_def)
    then show ?thesis using False ino [of 12] by (simp add: faddr_def fslot_def place_def)
  qed
  show "mapped s ino b" using pl(1) h12 r nz on unfolding mapped_def eq by auto
qed

lemma image_bytes:
  assumes "on_image im s" and "alloc_ok I F S im fb" and "i \<in> I" and "S i \<le> 71680" and "\<And>k. k \<le> 12 \<Longrightarrow> i_addrs ino k = di_addrs (F i) k"
  shows "map (fbyte s ino) [0..<S i] = fdata im (F i) (S i)" and "filled s ino (S i)"
proof -
  show "filled s ino (S i)" using image_addrs(2) [OF assms] by (simp add: filled_def)
  have "fbyte s ino p = im (unat (fslot im (F i) (place (p div 512)))) (p mod 512)" if p: "p < S i" for p
  proof -
    have b: "512 * (p div 512) < S i" using p by (meson le_less_trans times_div_less_eq_dividend)
    have "unat (fslot im (F i) (place (p div 512))) < FSSIZE"
      using alloc_okD(2,4) [OF assms(2)] assms(3) has_place(1,2) [of p] p assms(4) by (meson le_less_trans less_le_trans)
    then show ?thesis using image_addrs(1) [OF assms b] assms(1) by (simp add: fbyte_def on_image_def)
  qed
  then show "map (fbyte s ino) [0..<S i] = fdata im (F i) (S i)" by (simp add: fdata_def)
qed

text \<open>Locking an inode that is not loaded and reading from its start.\<close>

lemma image_read:
  assumes im: "on_image im s" and ok: "alloc_ok I (dino im) S im fb" and i: "i \<in> I" "i < 208" "S i = isize im i" "S i \<le> 71680"
    and ty: "di_type (dino im i) = 2" and txn: "in_txn k s"
    and ip: "i_inum (inodes s ip) = word_of_nat i" "i_dev (inodes s ip) = 1" "\<not> i_valid (inodes s ip)" "1 \<le> i_ref (inodes s ip)"
      "\<not> sl_locked (slocks s (InodeLock ip))"
  shows "\<exists>t. kthen (ilock (Some ip)) (readi ip 0 n) s = Ok (int (min (unat n) (S i)), take (unat n) (fdata im (dino im i) (S i))) t \<and> view t = view s"
proof -
  let ?i = "(of_dinode (dino im i) (inodes s ip))\<lparr>i_valid := True\<rparr>"
  note d = image_inode [OF im i(2)]
  obtain u where u: "ilock (Some ip) s = Ok () u" "in_txn k u" "view u = view s" "sb u = sb s" "disksize u = disksize s" "inodes u ip = ?i"
    using ilock_spec [OF txn ip(4,5)] ip(1-3) d ty by auto
  have im': "on_image im u" using im u(3-5) by (simp add: on_image_def)
  have f: "i_dev ?i = 1" "i_type ?i \<noteq> 3" "unat (i_size ?i) = S i" "\<And>k. k \<le> 12 \<Longrightarrow> i_addrs ?i k = di_addrs (dino im i) k"
    using ip(2) ty i(3) by (simp_all add: of_dinode_def isize_def)
  note bytes = image_bytes [OF im' ok i(1,4) f(4)]
  obtain t where t: "readi ip 0 n u = Ok (int (read_len ?i 0 n), map (fbyte u ?i) [0..<read_len ?i 0 n]) t" "view t = view u"
    using readi_run [OF u(2), of ip 0 n] u(6) f(1-3) bytes(2) by auto
  have len: "read_len ?i 0 n = min (unat n) (S i)" using f(3) by (simp add: read_len_def)
  have "take (unat n) (map (fbyte u ?i) [0..<S i]) = map (fbyte u ?i) [0..<min (unat n) (S i)]"
    by (cases "unat n \<le> S i") (simp_all add: take_map min_def)
  then show ?thesis using t u(1,3) bytes(1) unfolding len by (simp add: kthen_exec)
qed

text \<open>An example: a kernel just started on the image, with a reference to inode 2 in its cache.\<close>

definition kernel_ex :: "(nat \<Rightarrow> block) \<Rightarrow> console" where
  "kernel_ex im = (fsst.extend (fs_ex im (\<lambda>_. inode0\<lparr>i_dev := 1, i_inum := 2, i_ref := 1\<rparr>))
     (console.fields input0 (\<lambda>_. input0) 1 False True (\<lambda>_. 0) 0 True [] (\<lambda>_. \<lparr>dev_read = None, dev_write = None\<rparr>)))
     \<lparr>sb := mkfs_sb, disk := im, disksize := int FSSIZE\<rparr>"

lemma kernel_ex_facts:
  "in_txn 0 (kernel_ex im)" "on_image im (kernel_ex im)" "inodes (kernel_ex im) ip = inode0\<lparr>i_dev := 1, i_inum := 2, i_ref := 1\<rparr>"
  "\<not> sl_locked (slocks (kernel_ex im) (InodeLock ip))"
proof -
  let ?s = "fs_ex im (\<lambda>_. inode0\<lparr>i_dev := 1, i_inum := 2, i_ref := 1\<rparr>)" and ?k = "kernel_ex im"
  have eq: "bufs ?k = bufs ?s" "slocks ?k = slocks ?s" "lh_n ?k = lh_n ?s" "log_size ?k = log_size ?s" "outstanding ?k = outstanding ?s"
    "lh_block ?k = lh_block ?s" "held ?k = held ?s" "conts ?k = conts ?s" "cur ?k = cur ?s" "inodes ?k = inodes ?s" "disk ?k = im"
    "sb ?k = mkfs_sb" "disksize ?k = int FSSIZE"
    by (simp_all add: kernel_ex_def fsst.defs)
  have bl: "blocked ?k = blocked ?s" by (simp add: blocked_def [abs_def] eq)
  have inv: "\<not> b_valid (bufs ?s i)" "\<not> caches b (bufs ?s i)" if "i < NBUF" for i b
    using core_eqs(1) [OF bio_up_facts(6) [OF that]] by (simp_all add: caches_def fs_ex_def logst.defs log_ex_fields buf0_def)
  have "bc_ok xs ?k = bc_ok xs ?s" for xs using inv(1) by (simp add: bc_ok_def eq bl)
  moreover have "bready ?k = bready ?s" by (simp add: bready_def rows_ok_def eq)
  ultimately have "in_txn 0 ?k = in_txn 0 ?s" by (simp add: in_txn_def idle_def dirtyb_def dset_def lh_words_def eq bl)
  then show "in_txn 0 ?k" using fs_ex_txn [of 0] by simp
  show "on_image im ?k" using inv(2) view_uncached [of _ ?k] by (simp add: on_image_def eq)
  show "inodes ?k ip = inode0\<lparr>i_dev := 1, i_inum := 2, i_ref := 1\<rparr>" "\<not> sl_locked (slocks ?k (InodeLock ip))"
    by (simp_all add: eq fs_ex_fields)
qed

end
