(* ===== verification/Quota.thy ===== *)
theory Quota
  imports Kernel
begin

text \<open>
  The quotas of the containers hold across the whole kernel. \<open>quota_ok\<close> says that every container is within its memory,
  disk and process limits, that a container not in use has no pages and no disk blocks, and that the container of
  the running process is in use. It is kept by \<open>trap\<close>: the laws of \<open>kern_steps\<close> are shown for it here.
\<close>

section \<open>Changes in a sequence of steps\<close>

text \<open>From a state with \<open>P\<close> the operation ends, by returning or stopping, in a state with \<open>Q\<close>.\<close>

definition leads :: "('s \<Rightarrow> bool) \<Rightarrow> ('s, 'a) kop \<Rightarrow> ('s \<Rightarrow> bool) \<Rightarrow> bool" where
  "leads P m Q \<longleftrightarrow> (\<forall>s. P s \<longrightarrow> Q (res_state (m s)))"

lemma leads_keeps: "leads I m I \<longleftrightarrow> keeps I m"
  by (simp add: leads_def keeps_def)

lemma leads_obeys: "leads I m I \<Longrightarrow> obeys (\<lambda>s t. I s \<longrightarrow> I t) m"
  by (simp add: leads_keeps keeps_obeys)

lemma leads_weaken: "leads P m Q \<Longrightarrow> (\<And>s. P' s \<Longrightarrow> P s) \<Longrightarrow> leads P' m Q"
  by (simp add: leads_def)

lemma leads_kept: "keeps Q m \<Longrightarrow> (\<And>s. P s \<Longrightarrow> Q s) \<Longrightarrow> leads P m Q"
  by (simp add: leads_def keeps_def)

lemma leads_kbind:
  assumes "keeps P m" and "\<And>s. P s \<Longrightarrow> Q s" and "\<And>a. leads P (f a) Q"
  shows "leads P (kbind m f) Q"
  unfolding leads_def
proof (intro allI impI)
  fix s
  assume P: "P s"
  show "Q (res_state (kbind m f s))"
  proof (cases "m s")
    case (Ok a t)
    with assms(1) P have "P t" by (rule keeps_Ok)
    with assms(3) Ok show ?thesis by (simp add: kbind_def leads_def)
  next
    case (Stop h t)
    with assms(1) P have "P t" unfolding keeps_def by (metis res_state.simps(2))
    with assms(2) Stop show ?thesis by (simp add: kbind_def)
  qed
qed

lemma leads_kthen: "keeps P m \<Longrightarrow> (\<And>s. P s \<Longrightarrow> Q s) \<Longrightarrow> leads P n Q \<Longrightarrow> leads P (kthen m n) Q"
  unfolding kthen_def by (rule leads_kbind)

lemma leads_kget: "(\<And>a. leads (\<lambda>s. P s \<and> g s = a) (f a) Q) \<Longrightarrow> leads P (kbind (kget g) f) Q"
  by (simp add: leads_def kbind_def kget_def)

lemma leads_upd: "leads P (upd_cont c f) M \<Longrightarrow> leads M n Q \<Longrightarrow> leads P (kthen (upd_cont c f) n) Q"
  by (simp add: leads_def kthen_exec upd_cont_exec)

lemma leads_if: "(b \<Longrightarrow> leads P m Q) \<Longrightarrow> (\<not> b \<Longrightarrow> leads P n Q) \<Longrightarrow> leads P (if b then m else n) Q"
  by simp

lemma leads_option:
  "(\<And>a. x = Some a \<Longrightarrow> leads P (f a) Q) \<Longrightarrow> (x = None \<Longrightarrow> leads P n Q) \<Longrightarrow> leads P (case x of None \<Rightarrow> n | Some a \<Rightarrow> f a) Q"
  by (cases x) auto

lemma leads_prod: "(\<And>a b. x = (a, b) \<Longrightarrow> leads P (f a b) Q) \<Longrightarrow> leads P (case x of (a, b) \<Rightarrow> f a b) Q"
  by (cases x) simp

section \<open>The invariant\<close>

definition idle_cont :: "cont \<Rightarrow> bool" where
  "idle_cont c \<longleftrightarrow> cstate c = CUNUSED \<or> cstate c = CEMBRYO"

definition cont_ok :: "cont \<Rightarrow> bool" where
  "cont_ok c \<longleftrightarrow>
     0 \<le> upg c \<and> upg c * 4096 \<le> uint (msz c) \<and> msz c \<le> MAX_CONT_MEM \<and>
     udsk c \<le> mdsk c \<and> mdsk c \<le> MAX_CONT_DSK \<and>
     mproc c \<le> int NPROC \<and>
     (idle_cont c \<longrightarrow> upg c = 0 \<and> udsk c = 0)"

definition quota_ok :: "'z ctab_scheme \<Rightarrow> bool" where
  "quota_ok s \<longleftrightarrow> (\<forall>i. cont_ok (conts s i)) \<and> (\<forall>c. curcont s = Some c \<longrightarrow> \<not> idle_cont (conts s c))"

lemma curcont_same: "same_conts s t \<Longrightarrow> curcont t = curcont s"
  by (auto simp: same_conts_def curcont_def split: option.splits)

lemma quota_same: "same_conts s t \<Longrightarrow> quota_ok t = quota_ok s"
  by (simp add: quota_ok_def curcont_same) (simp add: same_conts_def)

text \<open>A change of one container that leaves it in order.\<close>

lemma quota_upd:
  assumes "\<And>s. P s \<Longrightarrow> quota_ok s" and "\<And>s. P s \<Longrightarrow> cont_ok (f (conts s c))"
    and "\<And>s. P s \<Longrightarrow> curcont s = Some c \<Longrightarrow> \<not> idle_cont (f (conts s c))"
  shows "leads P (upd_cont c f) quota_ok"
  using assms by (simp add: leads_def upd_cont_exec quota_ok_def)

text \<open>A predicate on the container table and the running process's container; what leaves them alone keeps it.\<close>

definition stable :: "('z ctab_scheme \<Rightarrow> bool) \<Rightarrow> bool" where
  "stable P \<longleftrightarrow> (\<forall>s t. same_conts s t \<longrightarrow> P s \<longrightarrow> P t)"

lemma stable_intros [intro]:
  "stable quota_ok" "stable (\<lambda>s. f (conts s))" "stable (\<lambda>s. curcont s = x)"
  "stable P \<Longrightarrow> stable Q \<Longrightarrow> stable (\<lambda>s. P s \<and> Q s)"
  by (simp_all add: stable_def quota_same curcont_same) (auto simp: same_conts_def)

lemma stable_keeps: "obeys same_conts m \<Longrightarrow> stable P \<Longrightarrow> keeps P m"
  unfolding stable_def keeps_def obeys_def by blast

lemma leads_same:
  "obeys same_conts m \<Longrightarrow> stable P \<Longrightarrow> (\<And>s. P s \<Longrightarrow> Q s) \<Longrightarrow> leads P n Q \<Longrightarrow> leads P (kthen m n) Q"
  "obeys same_conts m' \<Longrightarrow> stable P \<Longrightarrow> (\<And>s. P s \<Longrightarrow> Q s) \<Longrightarrow> (\<And>a. leads P (f a) Q) \<Longrightarrow> leads P (kbind m' f) Q"
  by (auto intro!: leads_kthen leads_kbind stable_keeps)

lemma leads_last: "obeys same_conts m \<Longrightarrow> stable Q \<Longrightarrow> (\<And>s. P s \<Longrightarrow> Q s) \<Longrightarrow> leads P m Q"
  by (auto intro!: leads_kept stable_keeps)

lemma leads_mycont:
  assumes "\<And>s. P s \<Longrightarrow> Q s" and "\<And>c. leads (\<lambda>s. P s \<and> curcont s = Some c) (f c) Q"
  shows "leads P (kbind mycont f) Q"
  using assms by (auto simp: leads_def kbind_def kexec curcont_def split: option.splits)

lemma leads_ckill:
  fixes P :: "'z console_scheme \<Rightarrow> bool"
  assumes "stable P" and "stable Q" and "\<And>s. P s \<Longrightarrow> Q s" and "leads P (upd_cont c (\<lambda>x. x\<lparr>cstate := CSTOPPING\<rparr>)) Q"
  shows "leads P (ckill c) Q"
  unfolding ckill_def
  by (rule leads_upd [OF assms(4)] leads_same(1) | rule leads_last | assumption | rule assms(1-3) | intro steps)+

section \<open>Disk space\<close>

text \<open>A property of a container that stopping it, if it is in use, and changing its accounts do not affect.\<close>

definition acct_free :: "(cont \<Rightarrow> bool) \<Rightarrow> bool" where
  "acct_free X \<longleftrightarrow> (\<forall>c u n. X c \<longrightarrow> \<not> idle_cont c \<longrightarrow>
     X (c\<lparr>cstate := CSTOPPING\<rparr>) \<and> X (c\<lparr>udsk := u\<rparr>) \<and> X (c\<lparr>upg := n\<rparr>))"

definition quota_and :: "(cont \<Rightarrow> bool) \<Rightarrow> nat \<Rightarrow> 'z ctab_scheme \<Rightarrow> bool" where
  "quota_and X i s \<longleftrightarrow> quota_ok s \<and> X (conts s i)"

lemma stable_quota_and [intro]: "stable (quota_and X i)"
  unfolding quota_and_def by (intro stable_intros)

lemma quota_and_upd:
  assumes "acct_free X" and "\<And>s. P s \<Longrightarrow> quota_and X i s \<and> curcont s = Some c"
    and "\<And>s. P s \<Longrightarrow> cont_ok (f (conts s c)) \<and> \<not> idle_cont (f (conts s c)) \<and>
      ((\<exists>u. f (conts s c) = (conts s c)\<lparr>udsk := u\<rparr>) \<or> (\<exists>n. f (conts s c) = (conts s c)\<lparr>upg := n\<rparr>) \<or>
       f (conts s c) = (conts s c)\<lparr>cstate := CSTOPPING\<rparr>)"
  shows "leads P (upd_cont c f) (quota_and X i)"
  unfolding leads_def upd_cont_exec res_state.simps
proof (intro allI impI)
  fix s
  assume P: "P s"
  have q: "quota_ok s" "X (conts s i)" "curcont s = Some c" using assms(2) [OF P] by (auto simp: quota_and_def)
  have "\<not> idle_cont (conts s c)" using q(1,3) by (simp add: quota_ok_def)
  then have "X (((conts s)(c := f (conts s c))) i)"
    using assms(1) assms(3) [OF P] q(2) unfolding acct_free_def by (cases "i = c") auto
  moreover have "quota_ok (s\<lparr>conts := (conts s)(c := f (conts s c))\<rparr>)"
    using assms(3) [OF P] q by (simp add: quota_ok_def)
  ultimately show "quota_and X i (s\<lparr>conts := (conts s)(c := f (conts s c))\<rparr>)" by (simp add: quota_and_def)
qed

lemma cont_ok_stop: "cont_ok c \<Longrightarrow> cont_ok (c\<lparr>cstate := CSTOPPING\<rparr>) \<and> \<not> idle_cont (c\<lparr>cstate := CSTOPPING\<rparr>)"
  by (simp add: cont_ok_def idle_cont_def)

lemma cont_ok_udsk:
  assumes "cont_ok c" and "\<not> idle_cont c"
  shows "\<not> mdsk c < udsk c + 512 \<Longrightarrow> cont_ok (c\<lparr>udsk := udsk c + 512\<rparr>)"
    and "512 < udsk c \<Longrightarrow> cont_ok (c\<lparr>udsk := udsk c - 512\<rparr>)"
proof -
  show "\<not> mdsk c < udsk c + 512 \<Longrightarrow> cont_ok (c\<lparr>udsk := udsk c + 512\<rparr>)"
    using assms by (simp add: cont_ok_def idle_cont_def not_less)
  assume "512 < udsk c"
  then have "udsk c - 512 \<le> udsk c" by (simp add: word_le_nat_alt unat_sub_if_size word_less_nat_alt word_size)
  then have "udsk c - 512 \<le> mdsk c" using assms(1) by (auto simp: cont_ok_def)
  then show "cont_ok (c\<lparr>udsk := udsk c - 512\<rparr>)" using assms by (simp add: cont_ok_def idle_cont_def)
qed

lemma balloc_loop_quota:
  fixes X :: "cont \<Rightarrow> bool" and i c :: nat
  defines "J \<equiv> quota_and X i"
  defines "P \<equiv> \<lambda>s :: 'z console_scheme. J s \<and> curcont s = Some c \<and> \<not> mdsk (conts s c) < udsk (conts s c) + 512"
  assumes "acct_free X"
  shows "leads P (balloc_loop dev c bs) J"
proof (induction bs)
  case Nil
  show ?case by (simp add: P_def leads_def kexec)
next
  case (Cons b bs)
  have stab: "stable P" "stable J" unfolding P_def J_def by (intro stable_intros stable_quota_and)+
  have PJ: "\<And>s. P s \<Longrightarrow> J s" by (simp add: P_def)
  have upd: "leads P (upd_cont c (\<lambda>cc. cc\<lparr>udsk := udsk cc + 512\<rparr>)) J"
    unfolding J_def
  proof (rule quota_and_upd [OF assms(3)])
    fix s
    assume "P s"
    then show "quota_and X i s \<and> curcont s = Some c" by (simp add: P_def J_def)
    from \<open>P s\<close> have *: "cont_ok (conts s c)" "\<not> idle_cont (conts s c)" "\<not> mdsk (conts s c) < udsk (conts s c) + 512"
      by (auto simp: P_def J_def quota_and_def quota_ok_def)
    show "cont_ok ((conts s c)\<lparr>udsk := udsk (conts s c) + 512\<rparr>) \<and> \<not> idle_cont ((conts s c)\<lparr>udsk := udsk (conts s c) + 512\<rparr>) \<and>
       ((\<exists>u. (conts s c)\<lparr>udsk := udsk (conts s c) + 512\<rparr> = (conts s c)\<lparr>udsk := u\<rparr>) \<or>
        (\<exists>n. (conts s c)\<lparr>udsk := udsk (conts s c) + 512\<rparr> = (conts s c)\<lparr>upg := n\<rparr>) \<or>
        (conts s c)\<lparr>udsk := udsk (conts s c) + 512\<rparr> = (conts s c)\<lparr>cstate := CSTOPPING\<rparr>)"
      using cont_ok_udsk(1) [OF *] *(2) by (auto simp: idle_cont_def)
  qed
  show ?case
    unfolding balloc_loop.simps bzero_def
    by (assumption | rule leads_option Cons.IH leads_upd [OF upd] leads_same stab PJ leads_last | intro steps)+
qed

lemma balloc_quota:
  assumes "acct_free X"
  shows "leads (quota_and X i) (balloc dev) (quota_and X i :: 'z console_scheme \<Rightarrow> bool)"
  unfolding balloc_def
proof (rule leads_mycont, assumption, rule leads_kget, rule leads_prod, rule leads_if)
  fix c and x :: "cont \<times> superblock" and cc sbk
  let ?P = "\<lambda>s. (quota_and X i (s :: 'z console_scheme) \<and> curcont s = Some c) \<and> (conts s c, sb s) = x"
  show "leads ?P (kthen (ckill c) (ret 0)) (quota_and X i)"
  proof -
    have upd: "leads (\<lambda>s. quota_and X i s \<and> curcont s = Some c) (upd_cont c (\<lambda>x. x\<lparr>cstate := CSTOPPING\<rparr>))
        (quota_and X i :: 'z console_scheme \<Rightarrow> bool)"
      by (rule quota_and_upd [OF assms]) (auto simp: quota_and_def quota_ok_def cont_ok_stop)
    have "leads (\<lambda>s. quota_and X i s \<and> curcont s = Some c) (ckill c) (quota_and X i :: 'z console_scheme \<Rightarrow> bool)"
      by (rule leads_ckill [OF _ _ _ upd]) (auto intro: stable_intros stable_quota_and)
    then show ?thesis by (simp add: leads_def kexec split: res.split) (metis res.exhaust res_state.simps)
  qed
next
  fix c and x :: "cont \<times> superblock" and cc sbk
  assume "x = (cc, sbk)" and "\<not> mdsk cc < udsk cc + 512"
  then show "leads (\<lambda>s. (quota_and X i (s :: 'z console_scheme) \<and> curcont s = Some c) \<and> (conts s c, sb s) = x)
      (balloc_loop dev c (map (\<lambda>k. BPB * k) [0..<(unat (sb_size sbk) + (BPB - 1)) div BPB])) (quota_and X i)"
    by (intro leads_weaken [OF balloc_loop_quota [OF assms]]) auto
qed

lemma bfree_quota:
  assumes "acct_free X"
  shows "leads (quota_and X i) (bfree dev b) (quota_and X i :: 'z console_scheme \<Rightarrow> bool)"
  unfolding bfree_def
proof (rule leads_mycont, assumption, rule leads_kget)
  fix c u
  let ?Q = "quota_and X i :: 'z console_scheme \<Rightarrow> bool"
  let ?P = "\<lambda>s. (quota_and X i (s :: 'z console_scheme) \<and> curcont s = Some c) \<and> udsk (conts s c) = u"
  let ?rest = "kbind (readsb dev) (\<lambda>sbk. kthen (kmod (\<lambda>s. s\<lparr>sb := sbk\<rparr>)) (kbind (bread dev (BBLOCK b sbk)) (\<lambda>bp.
      kbind (kget (\<lambda>s. bdata (bufs s bp))) (\<lambda>d.
      if \<not> map_bit d (unat b mod BPB) then panic ''freeing free block''
      else kthen (upd_buf bp (\<lambda>bf. bf\<lparr>bdata := map_clear (unat b mod BPB) (bdata bf)\<rparr>)) (kthen (log_write bp) (brelse bp))))))"
  have rest: "leads ?Q ?rest ?Q"
    by (rule leads_last) ((intro steps | simp add: same_conts_def)+, auto)
  have upd: "leads ?P (upd_cont c (\<lambda>cc. cc\<lparr>udsk := udsk cc - 512\<rparr>)) ?Q" if "512 < u"
    by (rule quota_and_upd [OF assms])
      (use that in \<open>auto simp: quota_and_def quota_ok_def idle_cont_def intro!: cont_ok_udsk(2)\<close>)
  show "leads ?P (kthen (kwhen (512 < u) (upd_cont c (\<lambda>cc. cc\<lparr>udsk := udsk cc - 512\<rparr>))) ?rest) ?Q"
  proof (cases "512 < u")
    case True
    then show ?thesis using leads_upd [OF upd rest] by (simp add: kwhen_def)
  next
    case False
    have "leads ?P ?rest ?Q" by (rule leads_weaken [OF rest]) simp
    with False show ?thesis by (simp add: leads_def kexec)
  qed
qed

lemma quota_and_steps:
  assumes "acct_free X"
  shows "cont_steps (\<lambda>s t. quota_and X i (s :: 'z console_scheme) \<longrightarrow> quota_and X i t)"
proof
  fix s t :: "'z console_scheme"
  show "same_conts s t \<Longrightarrow> quota_and X i s \<longrightarrow> quota_and X i t"
    using stable_quota_and [of X i] unfolding stable_def by blast
qed (auto intro!: leads_obeys balloc_quota bfree_quota assms)

section \<open>Memory\<close>

lemma word_charge:
  assumes "cont_ok c"
  shows "msz c < word_of_int (upg c * 4096 + 4096) \<longleftrightarrow> uint (msz c) < upg c * 4096 + 4096"
proof -
  have m: "uint (msz c) \<le> 268435456" using assms by (simp add: cont_ok_def word_le_def)
  have "upg c * 4096 \<le> uint (msz c)" "0 \<le> upg c" using assms by (auto simp: cont_ok_def)
  with m have "0 \<le> upg c * 4096 + 4096" "upg c * 4096 + 4096 < 2 ^ LENGTH(32)" by simp_all
  then have "uint (word_of_int (upg c * 4096 + 4096) :: uint) = upg c * 4096 + 4096"
    unfolding uint_word_of_int by (rule mod_pos_pos_trivial)
  then show ?thesis by (simp add: word_less_def)
qed

lemma cont_ok_upg:
  assumes "cont_ok c" and "\<not> idle_cont c"
  shows "\<not> msz c < word_of_int (upg c * 4096 + 4096) \<Longrightarrow> cont_ok (c\<lparr>upg := upg c + 1\<rparr>)"
    and "0 < upg c \<Longrightarrow> cont_ok (c\<lparr>upg := upg c - 1\<rparr>)"
  using assms word_charge [OF assms(1)] by (auto simp: cont_ok_def idle_cont_def)

text \<open>The container \<open>kalloc\<close> and \<open>kfree\<close> charge is the running process's, once there are processes.\<close>

lemma leads_charged:
  assumes "\<And>s. P s \<Longrightarrow> Q s" and "\<not> ui \<Longrightarrow> leads P (f 0) Q"
    and "\<And>c. ui \<Longrightarrow> leads (\<lambda>s. P s \<and> curcont s = Some c) (f c) Q"
  shows "leads P (kbind (if ui then mycont else ret 0) f) Q"
  using assms leads_mycont [of P Q f] by (cases ui) (auto simp: leads_def kexec)

lemma kalloc_charge:
  fixes X :: "cont \<Rightarrow> bool" and i c :: nat
  defines "Q \<equiv> quota_and X i :: 'z console_scheme \<Rightarrow> bool"
  assumes "acct_free X" and "stable P" and "\<And>s. P s \<Longrightarrow> Q s"
    and "ui \<Longrightarrow> (\<And>s. P s \<Longrightarrow> curcont s = Some c \<and> \<not> msz (conts s c) < word_of_int (upg (conts s c) * 4096 + 4096))"
  shows "leads P (kbind (kget use_lock) (\<lambda>lk. kthen (kwhen lk (acquire Lkmem))
       (kbind (kget freelist) (\<lambda>r.
        kthen (kwhen (r \<noteq> 0)
          (kthen (kmod (\<lambda>s. s\<lparr>freelist := ld32 (mem s) r\<rparr>))
          (kwhen ui (upd_cont c (\<lambda>c. c\<lparr>upg := upg c + 1\<rparr>)))))
       (kthen (kwhen lk (release Lkmem)) (ret r)))))) Q"
proof -
  have stab: "stable Q" unfolding Q_def by auto
  have fin: "leads Q (kthen (kwhen lk (release Lkmem)) (ret r)) Q" for lk and r :: uint
    by (rule leads_last) (auto intro: stab intro!: steps)
  have upd: "leads P (upd_cont c (\<lambda>c. c\<lparr>upg := upg c + 1\<rparr>)) Q" if ui
    unfolding Q_def
    by (rule quota_and_upd [OF assms(2)])
      (use assms(4,5) that in \<open>auto simp: Q_def quota_and_def quota_ok_def idle_cont_def intro!: cont_ok_upg(1)\<close>)
  have tail: "leads P (kthen (kwhen ui (upd_cont c (\<lambda>c. c\<lparr>upg := upg c + 1\<rparr>))) (kthen (kwhen lk (release Lkmem)) (ret r))) Q"
    for lk and r :: uint
  proof (cases ui)
    case True
    then show ?thesis using leads_upd [OF upd fin] by (simp add: kwhen_def)
  next
    case False
    have "leads P (kthen (kwhen lk (release Lkmem)) (ret r)) Q" by (rule leads_weaken [OF fin]) (rule assms(4))
    with False show ?thesis by (simp add: leads_def kexec)
  qed
  have got: "leads P (kthen (kwhen (r \<noteq> 0) (kthen (kmod (\<lambda>s. s\<lparr>freelist := ld32 (mem s) r\<rparr>))
       (kwhen ui (upd_cont c (\<lambda>c. c\<lparr>upg := upg c + 1\<rparr>))))) (kthen (kwhen lk (release Lkmem)) (ret r))) Q" for lk and r :: uint
  proof (cases "r = 0")
    case True
    have "leads P (kthen (kwhen lk (release Lkmem)) (ret r)) Q" by (rule leads_weaken [OF fin]) (rule assms(4))
    with True show ?thesis by (simp add: leads_def kexec)
  next
    case False
    have "obeys same_conts (kmod (\<lambda>s :: 'z console_scheme. s\<lparr>freelist := ld32 (mem s) r\<rparr>))"
      by (intro steps) (simp add: same_conts_def)
    from leads_same(1) [OF this assms(3,4) tail] False show ?thesis by (simp add: kwhen_def kthen_assoc)
  qed
  show ?thesis by (rule leads_same assms(3) got | erule assms(4) | intro steps)+
qed

lemma kthen_ret: "kthen (ret a) n = n"
  by (rule ext) (simp add: kexec)

lemma leads_stop_cont:
  fixes X :: "cont \<Rightarrow> bool" and P :: "'z console_scheme \<Rightarrow> bool"
  assumes "acct_free X" and "\<And>s. P s \<Longrightarrow> quota_and X i s"
  shows "leads P (kbind mycont (\<lambda>c. kthen (ckill c) (ret r))) (quota_and X i)"
proof (rule leads_mycont [OF assms(2)])
  fix c
  let ?P = "\<lambda>s :: 'z console_scheme. quota_and X i s \<and> curcont s = Some c"
  have "leads ?P (upd_cont c (\<lambda>x. x\<lparr>cstate := CSTOPPING\<rparr>)) (quota_and X i)"
    by (rule quota_and_upd [OF assms(1)]) (auto simp: quota_and_def quota_ok_def cont_ok_stop)
  then have "leads ?P (ckill c) (quota_and X i)"
    by (rule leads_ckill [rotated 3]) (auto intro!: stable_intros(4) stable_intros(3))
  then show "leads (\<lambda>s. P s \<and> curcont s = Some c) (kthen (ckill c) (ret r)) (quota_and X i)"
    using assms(2) by (simp add: leads_def kexec split: res.split) (metis res.exhaust res_state.simps)
qed

lemma kalloc_quota:
  assumes "acct_free X"
  shows "leads (quota_and X i) kalloc (quota_and X i :: 'z console_scheme \<Rightarrow> bool)"
  unfolding kalloc_def
proof (rule leads_kget, rule leads_charged)
  fix ui
  let ?Q = "quota_and X i :: 'z console_scheme \<Rightarrow> bool"
  let ?take = "\<lambda>c. kbind (kget use_lock) (\<lambda>lk. kthen (kwhen lk (acquire Lkmem))
       (kbind (kget freelist) (\<lambda>r.
        kthen (kwhen (r \<noteq> 0)
          (kthen (kmod (\<lambda>s. s\<lparr>freelist := ld32 (mem s) r\<rparr>))
          (kwhen ui (upd_cont c (\<lambda>c. c\<lparr>upg := upg c + 1\<rparr>)))))
       (kthen (kwhen lk (release Lkmem)) (ret r)))))"
  let ?body = "\<lambda>c cc. if ui \<and> msz cc < word_of_int (upg cc * 4096 + 4096)
       then kbind mycont (\<lambda>c'. kthen (ckill c') (ret 0)) else ?take c"
  show "leads (\<lambda>s. ?Q s \<and> userinited s = ui) (kbind (kget (\<lambda>s. conts s 0)) (?body 0)) ?Q" if "\<not> ui"
  proof -
    have "leads ?Q (?take 0) ?Q" by (rule kalloc_charge [OF assms]) (use that in auto)
    then show ?thesis using that by (simp add: leads_def kexec)
  qed
  show "leads (\<lambda>s. (?Q s \<and> userinited s = ui) \<and> curcont s = Some c) (kbind (kget (\<lambda>s. conts s c)) (?body c)) ?Q" if ui for c
  proof (rule leads_kget, rule leads_if)
    fix cc :: cont
    assume lim: "\<not> (ui \<and> msz cc < word_of_int (upg cc * 4096 + 4096))"
    have "leads (\<lambda>s. ?Q s \<and> curcont s = Some c \<and> conts s c = cc) (?take c) ?Q"
      by (rule kalloc_charge [OF assms]) (use that lim in \<open>auto intro!: stable_intros(4) stable_intros(3) stable_intros(2)\<close>)
    then show "leads (\<lambda>s. ((?Q s \<and> userinited s = ui) \<and> curcont s = Some c) \<and> conts s c = cc) (?take c) ?Q"
      by (rule leads_weaken) simp
  qed (rule leads_stop_cont [OF assms], simp)
qed simp

lemma kfree_quota:
  assumes "acct_free X"
  shows "leads (quota_and X i) (kfree v) (quota_and X i :: 'z console_scheme \<Rightarrow> bool)"
  unfolding kfree_def
proof (rule leads_kget, rule leads_charged)
  fix ui
  let ?Q = "quota_and X i :: 'z console_scheme \<Rightarrow> bool"
  let ?body = "\<lambda>c. kbind (kget kend) (\<lambda>e.
     if v mod PGSIZE \<noteq> 0 \<or> v < e \<or> PHYSTOP \<le> V2P v then panic ''kfree''
     else
       kthen (kmod (\<lambda>s. s\<lparr>mem := memset (mem s) v 1 PGSIZE\<rparr>))
       (kbind (kget use_lock) (\<lambda>lk.
        kthen (kwhen lk (acquire Lkmem))
       (kthen (kmod (\<lambda>s. s\<lparr>mem := st32 (mem s) v (freelist s)\<rparr>))
       (kthen (kmod (\<lambda>s. s\<lparr>freelist := v\<rparr>))
       (kbind (kget (\<lambda>s. upg (conts s c))) (\<lambda>n.
        kthen (kwhen (ui \<and> n > 0) (upd_cont c (\<lambda>c. c\<lparr>upg := upg c - 1\<rparr>)))
       (kwhen lk (release Lkmem)))))))))"
  have fin: "leads ?Q (kwhen lk (release Lkmem)) ?Q" for lk
    by (rule leads_last) (auto intro!: steps)
  have acct: "leads P (kbind (kget (\<lambda>s. upg (conts s c))) (\<lambda>n.
        kthen (kwhen (ui \<and> n > 0) (upd_cont c (\<lambda>c. c\<lparr>upg := upg c - 1\<rparr>))) (kwhen lk (release Lkmem)))) ?Q"
    if "\<And>s. P s \<Longrightarrow> ?Q s \<and> (ui \<longrightarrow> curcont s = Some c)" for P c lk
  proof (rule leads_kget)
    fix n
    show "leads (\<lambda>s. P s \<and> upg (conts s c) = n) (kthen (kwhen (ui \<and> n > 0) (upd_cont c (\<lambda>c. c\<lparr>upg := upg c - 1\<rparr>))) (kwhen lk (release Lkmem))) ?Q"
    proof (cases "ui \<and> n > 0")
      case True
      have "leads (\<lambda>s. P s \<and> upg (conts s c) = n) (upd_cont c (\<lambda>c. c\<lparr>upg := upg c - 1\<rparr>)) ?Q"
        by (rule quota_and_upd [OF assms])
          (use that True in \<open>auto simp: quota_and_def quota_ok_def idle_cont_def intro!: cont_ok_upg(2)\<close>)
      with True show ?thesis using leads_upd [OF _ fin] by (simp add: kwhen_def)
    next
      case False
      have "leads (\<lambda>s. P s \<and> upg (conts s c) = n) (kwhen lk (release Lkmem)) ?Q"
        by (rule leads_weaken [OF fin]) (use that in auto)
      then show ?thesis unfolding kwhen_def [of "ui \<and> n > 0"] if_not_P [OF False] kthen_ret .
    qed
  qed
  have body: "leads P (?body c) ?Q" if P: "\<And>s. P s \<Longrightarrow> ?Q s \<and> (ui \<longrightarrow> curcont s = Some c)" and st: "stable P" for P c
  proof -
    have PQ: "\<And>s. P s \<Longrightarrow> ?Q s" using P by simp
    show ?thesis
      by (rule leads_if acct [OF P] leads_same st leads_last stable_quota_and
          | assumption | erule PQ | intro steps | simp add: same_conts_def)+
  qed
  show "leads (\<lambda>s. ?Q s \<and> userinited s = ui) (?body 0) ?Q" if "\<not> ui"
    by (rule leads_weaken [OF body [of ?Q]]) (use that in auto)
  show "leads (\<lambda>s. (?Q s \<and> userinited s = ui) \<and> curcont s = Some c) (?body c) ?Q" if ui for c
    by (rule leads_weaken [OF body [of "\<lambda>s. ?Q s \<and> curcont s = Some c"]])
      (auto intro!: stable_intros(4) stable_intros(3))
qed simp

section \<open>Processes and containers\<close>

lemma leads_kbind_res:
  assumes "\<And>s a t. P s \<Longrightarrow> m s = Ok a t \<Longrightarrow> M a t" and "\<And>s h t. P s \<Longrightarrow> m s = Stop h t \<Longrightarrow> Q t" and "\<And>a. leads (M a) (f a) Q"
  shows "leads P (kbind m f) Q"
  using assms by (auto simp: leads_def kbind_def split: res.split)

lemma leads_via: "keeps J m \<Longrightarrow> (\<And>s. P s \<Longrightarrow> J s) \<Longrightarrow> (\<And>s. J s \<Longrightarrow> Q s) \<Longrightarrow> leads P m Q"
  by (simp add: leads_def keeps_def)

lemma quota_and_True: "quota_and (\<lambda>_. True) i = quota_ok"
  by (rule ext) (simp add: quota_and_def)

lemma acct_free_simps [simp]:
  "acct_free (\<lambda>_. True)" "acct_free (\<lambda>c. \<not> idle_cont c)" "acct_free (\<lambda>c. cstate c = CEMBRYO)" "acct_free (\<lambda>c. mdsk c = md)"
  by (auto simp: acct_free_def idle_cont_def)

text \<open>Updates of a container whose state is known.\<close>

lemma quota_and_change:
  assumes "\<And>c. cont_ok c \<Longrightarrow> X c \<Longrightarrow> cont_ok (f c) \<and> Y (f c)" and "\<And>c. X c \<Longrightarrow> idle_cont c \<or> \<not> idle_cont (f c)"
  shows "leads (quota_and X i) (upd_cont i f) (quota_and Y i)"
  using assms by (auto simp: leads_def upd_cont_exec quota_and_def quota_ok_def)

lemma allocproc_quota: "leads quota_ok (allocproc im i) (quota_ok :: 'z console_scheme \<Rightarrow> bool)"
proof -
  let ?J = "quota_and (\<lambda>c. \<not> idle_cont c) i :: 'z console_scheme \<Rightarrow> bool"
  have same: "keeps ?J m" if "obeys same_conts m" for m :: "('z console_scheme, 'a) kop"
    by (rule stable_keeps [OF that]) auto
  have alloc: "keeps ?J kalloc" using kalloc_quota [of "\<lambda>c. \<not> idle_cont c" i] by (simp add: leads_keeps)
  have member: "keeps ?J (upd_proc p (\<lambda>pr. pr\<lparr>ticks := 0, pcont := Some i\<rparr>))" for p
    by (auto simp: keeps_def upd_proc_exec quota_and_def quota_ok_def curcont_def split: option.splits if_splits)
  have count: "keeps ?J (upd_cont i (\<lambda>c. c\<lparr>uproc := uproc c + 1\<rparr>))"
    unfolding leads_keeps [symmetric] by (rule quota_and_change) (auto simp: cont_ok_def idle_cont_def)
  have st: "obeys same_conts (store a v :: ('z console_scheme, unit) kop)" for a v
    unfolding store_def by (intro steps) (simp add: same_conts_def)
  show ?thesis
    unfolding allocproc_def
    by (rule leads_kget, rule leads_if, simp add: leads_def kexec, rule leads_via [where J = ?J],
      (rule alloc member count same [OF st] same [OF tab.steps_ptable(1)] same [OF tab.steps_ptable(2)] same [OF tab.steps_find_unused]
         keeps_intros(1-5,7-12) same [OF tab.steps_upd_proc] same [OF tab.steps_kmod] | simp add: same_conts_def; fail)+,
      auto simp: quota_and_def idle_cont_def)
qed

lemma alloccont_quota:
  assumes "quota_ok s"
  shows "alloccont s = Ok (Some i) t \<Longrightarrow> quota_and (\<lambda>c. cstate c = CEMBRYO) i t" and "alloccont s = Ok None t \<Longrightarrow> quota_ok t"
    and "alloccont s = Stop h t \<Longrightarrow> quota_ok t"
proof -
  have ex: "alloccont s =
      (if Lctable \<in> set (held s) then Stop (Panic ''acquire'') s
       else case find (\<lambda>i. cstate (conts s i) = CUNUSED) [0..<NCONT] of
         None \<Rightarrow> Ok None s
       | Some i \<Rightarrow> Ok (Some i) (s\<lparr>conts := (conts s)(i := (conts s i)\<lparr>cstate := CEMBRYO, cid := nextcid s\<rparr>), nextcid := nextcid s + 1\<rparr>))"
    using alloccont_exec [of s] by (auto simp: alloccont_def acquire_exec kexec)
  have cc: "curcont (s\<lparr>conts := C, nextcid := n\<rparr>) = curcont s" for C n
    by (simp add: curcont_def cong: option.case_cong)
  show "quota_and (\<lambda>c. cstate c = CEMBRYO) i t" if "alloccont s = Ok (Some i) t"
  proof -
    have t: "t = s\<lparr>conts := (conts s)(i := (conts s i)\<lparr>cstate := CEMBRYO, cid := nextcid s\<rparr>), nextcid := nextcid s + 1\<rparr>"
      and un: "cstate (conts s i) = CUNUSED"
      using that unfolding ex by (auto simp: find_upt_Some split: if_splits option.splits)
    have "\<forall>c. curcont s = Some c \<longrightarrow> c \<noteq> i" using assms un by (auto simp: quota_ok_def idle_cont_def)
    moreover have "cont_ok ((conts s i)\<lparr>cstate := CEMBRYO, cid := nextcid s\<rparr>)"
      using assms un by (auto simp: quota_ok_def cont_ok_def idle_cont_def)
    ultimately show ?thesis using assms unfolding t quota_and_def quota_ok_def cc by simp
  qed
  show "quota_ok t" if "alloccont s = Ok None t" using that assms unfolding ex by (auto split: if_splits option.splits)
  show "quota_ok t" if "alloccont s = Stop h t" using that assms unfolding ex by (auto split: if_splits option.splits)
qed

lemma ccreate_quota: "leads quota_ok (ccreate name mp mz md) (quota_ok :: 'z console_scheme \<Rightarrow> bool)"
proof -
  let ?J = "\<lambda>i. quota_and (\<lambda>c. cstate c = CEMBRYO) i :: 'z console_scheme \<Rightarrow> bool"
  have JQ: "\<And>s. ?J i s \<Longrightarrow> quota_ok s" for i by (simp add: quota_and_def)
  have path: "keeps (?J i) (namei name)" for i
    unfolding keeps_obeys by (rule cont_steps.steps_namei [OF quota_and_steps]) simp
  have dup: "keeps (?J i) (idup r)" for i r
    unfolding keeps_obeys by (rule cont_steps.steps_idup [OF quota_and_steps]) simp
  have acq: "keeps (?J i) (acquire Lctable)" for i
    by (rule stable_keeps) (auto intro!: steps)
  have upd: "leads (?J i) (upd_cont i f) (?J i)" if "\<And>c. cont_ok c \<Longrightarrow> cstate c = CEMBRYO \<Longrightarrow> cont_ok (f c) \<and> cstate (f c) = CEMBRYO" for i f
    by (rule quota_and_change) (auto simp: that idle_cont_def)
  have fin: "leads (?J i) (upd_cont i (\<lambda>c. c\<lparr>cstate := st\<rparr>)) quota_ok" for i st
    unfolding quota_and_True [of i, symmetric]
    by (rule quota_and_change) (auto simp: cont_ok_def idle_cont_def)
  have body: "leads (?J i) (ccreate_fill name mp mz md i) quota_ok" if "mp \<le> 64" "mz \<le> MAX_CONT_MEM" "md \<le> MAX_CONT_DSK" for i
    unfolding ccreate_fill_def
    by (rule leads_kbind [OF path JQ] leads_option leads_kthen [OF acq JQ] leads_upd [OF fin] leads_upd [OF upd]
          leads_kbind [OF dup JQ] leads_same(2) leads_last
        | assumption | intro steps | rule stable_intros stable_quota_and | use that in \<open>auto simp: cont_ok_def idle_cont_def quota_and_def\<close>)+
  show ?thesis
    unfolding ccreate_def
  proof (rule leads_same(2), intro steps, rule stable_intros, assumption, rule leads_if, simp add: leads_def kexec, rule leads_if,
      simp add: leads_def kexec, rule leads_kbind_res [where M = "\<lambda>mc. case mc of None \<Rightarrow> quota_ok | Some i \<Rightarrow> ?J i"])
    fix s :: "'z console_scheme" and mc t
    assume "quota_ok s" and "alloccont s = Ok mc t"
    then show "(case mc of None \<Rightarrow> quota_ok | Some i \<Rightarrow> ?J i) t"
      by (cases mc) (auto dest: alloccont_quota(1,2))
  next
    fix mc
    assume "\<not> (int NPROC < mp \<or> MAX_CONT_MEM < mz \<or> MAX_CONT_DSK < md)"
    then have ok: "mp \<le> 64" "mz \<le> MAX_CONT_MEM" "md \<le> MAX_CONT_DSK" by auto
    show "leads (case mc of None \<Rightarrow> quota_ok | Some i \<Rightarrow> ?J i) (case mc of None \<Rightarrow> ret (-1) | Some i \<Rightarrow> ccreate_fill name mp mz md i) quota_ok"
      using body [OF ok] by (cases mc) (simp_all add: leads_def kexec)
  qed (auto dest: alloccont_quota(3))
qed

lemma cstart_quota: "leads quota_ok (cstart name) (quota_ok :: 'z console_scheme \<Rightarrow> bool)"
proof -
  let ?J = "\<lambda>md i. quota_and (\<lambda>c. mdsk c = md) i :: 'z console_scheme \<Rightarrow> bool"
  have JQ: "\<And>s. ?J md i s \<Longrightarrow> quota_ok s" for md i by (simp add: quota_and_def)
  have dir: "keeps (?J md i) (dirsize r name)" for md i r
    unfolding keeps_obeys by (rule cont_steps.steps_dirsize [OF quota_and_steps]) simp
  have upd: "leads (?J md i) (upd_cont i (\<lambda>c. c\<lparr>udsk := ud, cstate := CRUNNABLE\<rparr>)) quota_ok" if "\<not> md < ud" for md ud i
    unfolding quota_and_True [of i, symmetric]
    by (rule quota_and_change) (use that in \<open>auto simp: cont_ok_def idle_cont_def\<close>)
  have tail: "leads (?J md i) (kthen (release Lctable) (kbind (klift rd) (\<lambda>r. kbind (dirsize r name) (\<lambda>ud.
      if ud < 1 \<or> md < ud then ret (-1)
      else kthen (acquire Lctable) (kthen (upd_cont i (\<lambda>c. c\<lparr>udsk := ud, cstate := CRUNNABLE\<rparr>))
        (kthen (release Lctable) (kget (\<lambda>s. cid (conts s i))))))))) quota_ok" for md i rd
    by (rule leads_kbind [OF dir JQ] leads_if leads_upd [OF upd] leads_same leads_last
        | assumption | intro steps | rule stable_intros stable_quota_and | erule JQ | simp)+
  show ?thesis
    unfolding cstart_def
  proof (rule leads_same(1), intro steps, rule stable_intros, assumption, rule leads_same(2), intro steps, rule stable_intros,
      assumption, rule leads_option, rule leads_kget, rule leads_prod)
    fix i and x :: "nat option \<times> uint" and rd md
    assume "x = (rd, md)"
    then show "leads (\<lambda>s :: 'z console_scheme. quota_ok s \<and> (rootdir (conts s i), mdsk (conts s i)) = x)
       (kthen (release Lctable) (kbind (klift rd) (\<lambda>r. kbind (dirsize r name) (\<lambda>ud.
         if ud < 1 \<or> md < ud then ret (-1)
         else kthen (acquire Lctable) (kthen (upd_cont i (\<lambda>c. c\<lparr>udsk := ud, cstate := CRUNNABLE\<rparr>))
           (kthen (release Lctable) (kget (\<lambda>s. cid (conts s i))))))))) quota_ok"
      by (intro leads_weaken [OF tail]) (auto simp: quota_and_def)
  qed (rule leads_last, intro steps, auto)
qed

section \<open>The kernel keeps the quotas\<close>

lemma quota_free:
  "leads quota_ok (balloc dev) (quota_ok :: 'z console_scheme \<Rightarrow> bool)" "leads quota_ok (bfree dev b) (quota_ok :: 'z console_scheme \<Rightarrow> bool)"
  "leads quota_ok kalloc (quota_ok :: 'z console_scheme \<Rightarrow> bool)" "leads quota_ok (kfree v) (quota_ok :: 'z console_scheme \<Rightarrow> bool)"
  using balloc_quota [of "\<lambda>_. True"] bfree_quota [of "\<lambda>_. True"] kalloc_quota [of "\<lambda>_. True"] kfree_quota [of "\<lambda>_. True"]
  by (simp_all add: quota_and_True)

lemma quota_states:
  "leads quota_ok (upd_cont c (\<lambda>x. x\<lparr>uproc := n x\<rparr>)) quota_ok" "leads quota_ok (upd_cont c (\<lambda>x. x\<lparr>cstate := CPAUSED\<rparr>)) quota_ok"
  "leads quota_ok (upd_cont c (\<lambda>x. x\<lparr>cstate := CRUNNABLE\<rparr>)) quota_ok" "leads quota_ok (upd_cont c (\<lambda>x. x\<lparr>cstate := CSTOPPING\<rparr>)) quota_ok"
  by (rule quota_upd; auto simp: quota_ok_def cont_ok_def idle_cont_def)+

lemma ckill_quota: "leads quota_ok (ckill c) (quota_ok :: 'z console_scheme \<Rightarrow> bool)"
  by (rule leads_ckill [OF _ _ _ quota_states(4)]) auto

interpretation quota: kern_steps "\<lambda>s t. quota_ok (s :: 'z trapst_scheme) \<longrightarrow> quota_ok t"
  by unfold_locales
    (auto simp: quota_same intro!: leads_obeys quota_free quota_states ckill_quota allocproc_quota ccreate_quota cstart_quota)



end
