(* ===== verification/Ports.thy ===== *)
theory Ports
  imports Trap
begin

unbundle bit_operations_syntax

text \<open>
  The processor's view of the devices: port and memory-mapped input and output (\<^verbatim>\<open>x86.h\<close>). The state records
  every access in \<open>io\<close>, in order. What a port or a register answers is the next element of a list
  the state carries, because it is the device's choice; a loop that polls a register ends with \<open>Spin\<close> when the list has no
  answer that ends it. What the disk delivers is a function of the accesses so far.
\<close>

section \<open>State\<close>

abbreviation (input) NCPU :: nat where "NCPU \<equiv> 8"

datatype access =
    Inb ushort byte | Outb ushort byte | Insl ushort | Outsl ushort block
  | Peek uint uint | Poke uint uint    \<comment> \<open>a load and a store of a device register in memory\<close>

record hw = trapst +
  io :: "access list"
  inputs :: "byte list"           \<comment> \<open>the answers of the ports\<close>
  reginputs :: "uint list"        \<comment> \<open>the answers of the registers in memory\<close>
  ncpu :: nat
  apicids :: "nat \<Rightarrow> byte"        \<comment> \<open>\<open>cpus[i].apicid\<close>\<close>
  ioapicid :: byte
  lapic :: uint
  idequeue :: "nat option"
  havedisk1 :: bool

section \<open>Instructions\<close>

definition logged :: "access \<Rightarrow> ('z hw_scheme, unit) kop" where
  "logged a = kmod (\<lambda>s. s\<lparr>io := io s @ [a]\<rparr>)"

definition inb :: "ushort \<Rightarrow> ('z hw_scheme, byte) kop" where
  "inb p = kbind (kget inputs) (\<lambda>rs.
     case rs of [] \<Rightarrow> stop Spin
     | r # rs' \<Rightarrow> kthen (kmod (\<lambda>s. s\<lparr>inputs := rs'\<rparr>)) (kthen (logged (Inb p r)) (ret r)))"

definition outb :: "ushort \<Rightarrow> byte \<Rightarrow> ('z hw_scheme, unit) kop" where
  "outb p v = logged (Outb p v)"

definition insl :: "(access list \<Rightarrow> block) \<Rightarrow> ushort \<Rightarrow> ('z hw_scheme, block) kop" where
  "insl dsk p = kbind (kget (\<lambda>s. dsk (io s))) (\<lambda>d. kthen (logged (Insl p)) (ret d))"

definition outsl :: "ushort \<Rightarrow> block \<Rightarrow> ('z hw_scheme, unit) kop" where
  "outsl p d = logged (Outsl p d)"

definition peek_reg :: "uint \<Rightarrow> ('z hw_scheme, uint) kop" where
  "peek_reg a = kbind (kget reginputs) (\<lambda>rs.
     case rs of [] \<Rightarrow> stop Spin
     | r # rs' \<Rightarrow> kthen (kmod (\<lambda>s. s\<lparr>reginputs := rs'\<rparr>)) (kthen (logged (Peek a r)) (ret r)))"

definition poke_reg :: "uint \<Rightarrow> uint \<Rightarrow> ('z hw_scheme, unit) kop" where
  "poke_reg a v = logged (Poke a v)"

text \<open>A loop that reads a port until the answer is good.\<close>

primrec poll :: "ushort \<Rightarrow> (byte \<Rightarrow> bool) \<Rightarrow> byte list \<Rightarrow> ('z hw_scheme, byte) kop" where
  "poll p good [] = stop Spin"
| "poll p good (r # rs) =
     kthen (kmod (\<lambda>s. s\<lparr>inputs := rs\<rparr>)) (kthen (logged (Inb p r))
     (if good r then ret r else poll p good rs))"

definition wait_in :: "ushort \<Rightarrow> (byte \<Rightarrow> bool) \<Rightarrow> ('z hw_scheme, byte) kop" where
  "wait_in p good = kbind (kget inputs) (poll p good)"

lemma logged_exec [kexec]: "logged a s = Ok () (s\<lparr>io := io s @ [a]\<rparr>)"
  by (simp add: logged_def kexec)

lemma outb_exec [kexec]: "outb p v s = Ok () (s\<lparr>io := io s @ [Outb p v]\<rparr>)"
  by (simp add: outb_def kexec)

lemma outsl_exec [kexec]: "outsl p d s = Ok () (s\<lparr>io := io s @ [Outsl p d]\<rparr>)"
  by (simp add: outsl_def kexec)

lemma insl_exec [kexec]: "insl dsk p s = Ok (dsk (io s)) (s\<lparr>io := io s @ [Insl p]\<rparr>)"
  by (simp add: insl_def kexec)

lemma poke_reg_exec [kexec]: "poke_reg a v s = Ok () (s\<lparr>io := io s @ [Poke a v]\<rparr>)"
  by (simp add: poke_reg_def kexec)

lemma inb_exec: "inputs s = r # rs \<Longrightarrow> inb p s = Ok r (s\<lparr>inputs := rs, io := io s @ [Inb p r]\<rparr>)"
  by (simp add: inb_def kexec)

lemma poll_exec:
  "dropWhile (\<lambda>r. \<not> good r) rs = r # rs' \<Longrightarrow>
    poll p good rs s = Ok r (s\<lparr>inputs := rs', io := io s @ map (Inb p) (takeWhile (\<lambda>r. \<not> good r) rs) @ [Inb p r]\<rparr>)"
  by (induction rs arbitrary: s) (auto simp: kexec split: if_splits)

lemma wait_in_exec:
  "dropWhile (\<lambda>r. \<not> good r) (inputs s) = r # rs' \<Longrightarrow>
    wait_in p good s = Ok r (s\<lparr>inputs := rs', io := io s @ map (Inb p) (takeWhile (\<lambda>r. \<not> good r) (inputs s)) @ [Inb p r]\<rparr>)"
  by (simp add: wait_in_def kexec poll_exec)

section \<open>An ATA disk\<close>

text \<open>
  What the disk makes of the accesses, by the ATA standard: the registers 0x1f3 to 0x1f6 hold the sector number and the
  drive, a byte to 0x1f7 is a command, and the data port takes the sector of a write or delivers the one of a read.
\<close>

record ata =
  ata_regs :: "ushort \<Rightarrow> byte"
  ata_cmd :: "(byte \<times> bool \<times> nat) option"
  platter :: "bool \<Rightarrow> nat \<Rightarrow> block"

definition ata_lba :: "ata \<Rightarrow> nat" where
  "ata_lba d = unat (ata_regs d 0x1f3) + 256 * unat (ata_regs d 0x1f4) + 65536 * unat (ata_regs d 0x1f5)
     + 16777216 * unat (ata_regs d 0x1f6 AND 0x0f)"

definition put_sector :: "bool \<Rightarrow> nat \<Rightarrow> block \<Rightarrow> (bool \<Rightarrow> nat \<Rightarrow> block) \<Rightarrow> bool \<Rightarrow> nat \<Rightarrow> block" where
  "put_sector dr n x D = D(dr := (D dr)(n := x))"

fun ata_access :: "access \<Rightarrow> ata \<Rightarrow> ata" where
  "ata_access (Outb p v) d =
     (if p = 0x1f7 then d\<lparr>ata_cmd := Some (v, bit (ata_regs d 0x1f6) 4, ata_lba d)\<rparr>
      else d\<lparr>ata_regs := (ata_regs d)(p := v)\<rparr>)"
| "ata_access (Outsl p x) d =
     (case ata_cmd d of
        Some (c, dr, n) \<Rightarrow> if p = 0x1f0 \<and> c = 0x30 then d\<lparr>ata_cmd := None, platter := put_sector dr n x (platter d)\<rparr> else d
      | None \<Rightarrow> d)"
| "ata_access (Insl p) d = (if p = 0x1f0 then d\<lparr>ata_cmd := None\<rparr> else d)"
| "ata_access _ d = d"

definition ata_after :: "(bool \<Rightarrow> nat \<Rightarrow> block) \<Rightarrow> access list \<Rightarrow> ata" where
  "ata_after D0 tr = fold ata_access tr \<lparr>ata_regs = \<lambda>_. 0, ata_cmd = None, platter = D0\<rparr>"

text \<open>The disk \<open>dsk\<close> with the initial content \<open>D0\<close> is such a disk.\<close>

definition ata_disk :: "(bool \<Rightarrow> nat \<Rightarrow> block) \<Rightarrow> (access list \<Rightarrow> block) \<Rightarrow> bool" where
  "ata_disk D0 dsk \<longleftrightarrow> (\<forall>tr dr n. ata_cmd (ata_after D0 tr) = Some (0x20, dr, n) \<longrightarrow> dsk tr = platter (ata_after D0 tr) dr n)"

definition ata_data :: "(bool \<Rightarrow> nat \<Rightarrow> block) \<Rightarrow> access list \<Rightarrow> block" where
  "ata_data D0 tr = (case ata_cmd (ata_after D0 tr) of Some (c, dr, n) \<Rightarrow> platter (ata_after D0 tr) dr n | None \<Rightarrow> \<lambda>_. 0)"

lemma ata_disk_data: "ata_disk D0 (ata_data D0)"
  by (simp add: ata_disk_def ata_data_def)

lemma ata_after_snoc [simp]: "ata_after D0 (tr @ [a]) = ata_access a (ata_after D0 tr)"
  by (simp add: ata_after_def)

lemma ata_after_append: "ata_after D0 (tr @ as) = fold ata_access as (ata_after D0 tr)"
  by (simp add: ata_after_def)

lemma ata_polls [simp]: "fold ata_access (map (Inb p) rs) d = d"
  by (induction rs arbitrary: d) simp_all

text \<open>The four bytes of a number below \<open>2 ^ 28\<close> give it back.\<close>

lemma unat_byte: "unat (ucast (n :: uint) :: byte) = unat n mod 256"
  by (simp add: unsigned_ucast_eq take_bit_eq_mod)

lemma unat_low: "unat (n AND 0xff :: uint) = unat n mod 256" "unat (b AND 0x0f :: byte) = unat b mod 16"
proof -
  have m: "(0xff :: uint) = mask 8" "(0x0f :: byte) = mask 4" by (simp_all add: mask_eq_exp_minus_1)
  show "unat (n AND 0xff :: uint) = unat n mod 256" "unat (b AND 0x0f :: byte) = unat b mod 16"
    unfolding m by (simp_all add: take_bit_eq_mod unat_mod_distrib flip: take_bit_eq_mask)
qed

lemma bytes_sum:
  fixes m :: nat
  assumes "m < 268435456"
  shows "m mod 256 + 256 * (m div 256 mod 256) + 65536 * (m div 65536 mod 256) + 16777216 * (m div 16777216 mod 16) = m"
proof -
  have d: "m div 65536 = m div 256 div 256" "m div 16777216 = m div 256 div 256 div 256" by (simp_all flip: div_mult2_eq)
  have "m div 256 div 256 div 256 mod 16 = m div 256 div 256 div 256" using assms by (simp flip: div_mult2_eq)
  then show ?thesis unfolding d
    using div_mult_mod_eq [of m 256] div_mult_mod_eq [of "m div 256" 256] div_mult_mod_eq [of "m div 256 div 256" 256] by linarith
qed

lemma lba_bytes:
  fixes n :: uint
  assumes "unat n < 2 ^ 28"
  shows "unat (ucast (n AND 0xff) :: byte) + 256 * unat (ucast (drop_bit 8 n AND 0xff) :: byte)
    + 65536 * unat (ucast (drop_bit 16 n AND 0xff) :: byte) + 16777216 * unat (ucast (drop_bit 24 n) AND 0x0f :: byte) = unat n"
  using bytes_sum [of "unat n"] assms
  by (simp add: unat_byte unat_low drop_bit_eq_div unat_div_distrib)

end
