(* ===== verification/Apic.thy ===== *)
theory Apic
  imports Ports
begin

text \<open>
  The interrupt controllers (\<^verbatim>\<open>picirq.c\<close>, \<^verbatim>\<open>ioapic.c\<close>, \<^verbatim>\<open>lapic.c\<close>), the initialisation of the serial
  port (\<^verbatim>\<open>uart.c\<close>) and the clock. Each function is the sequence of register accesses it makes. The
  lemmas read the accesses to the I/O APIC back through its documented behaviour: which interrupts are
  enabled, with which vector and for which processor.
\<close>

section \<open>\<^verbatim>\<open>picirq.c\<close> and \<^verbatim>\<open>ioapic.c\<close>\<close>

abbreviation (input) T_IRQ0 :: uint where "T_IRQ0 \<equiv> 32"
abbreviation (input) IRQ_TIMER :: uint where "IRQ_TIMER \<equiv> 0"
abbreviation (input) IRQ_KBD :: uint where "IRQ_KBD \<equiv> 1"
abbreviation (input) IRQ_COM1 :: uint where "IRQ_COM1 \<equiv> 4"
abbreviation (input) IRQ_IDE :: uint where "IRQ_IDE \<equiv> 14"
abbreviation (input) IRQ_ERROR :: uint where "IRQ_ERROR \<equiv> 19"
abbreviation (input) IRQ_SPURIOUS :: uint where "IRQ_SPURIOUS \<equiv> 31"

definition picinit :: "('z hw_scheme, unit) kop" where
  "picinit = kthen (outb 0x21 0xff) (outb 0xa1 0xff)"

abbreviation (input) IOAPIC :: uint where "IOAPIC \<equiv> 0xFEC00000"

definition ioapicread :: "uint \<Rightarrow> ('z hw_scheme, uint) kop" where
  "ioapicread reg = kthen (poke_reg IOAPIC reg) (peek_reg (IOAPIC + 0x10))"

definition ioapicwrite :: "uint \<Rightarrow> uint \<Rightarrow> ('z hw_scheme, unit) kop" where
  "ioapicwrite reg v = kthen (poke_reg IOAPIC reg) (poke_reg (IOAPIC + 0x10) v)"

definition ioapicinit_entry :: "nat \<Rightarrow> ('z hw_scheme, unit) kop" where
  "ioapicinit_entry i =
     kthen (ioapicwrite (0x10 + 2 * of_nat i) (0x00010000 OR (T_IRQ0 + of_nat i)))
     (ioapicwrite (0x10 + 2 * of_nat i + 1) 0)"

definition ioapicinit :: "('z hw_scheme, unit) kop" where
  "ioapicinit =
     kbind (ioapicread 1) (\<lambda>v.
     kbind (ioapicread 0) (\<lambda>d.
     kbind (kget ioapicid) (\<lambda>i.
     kthen (kwhen (drop_bit 24 d \<noteq> ucast i)
        (cprintf (Some (''ioapicinit: id isn'' @ [CHR 0x27] @ ''t equal to ioapicid; not a MP'' @ [CHR 0x0A, NUL])) []))
     (kfor [0..<unat (drop_bit 16 v AND 0xff) + 1] ioapicinit_entry))))"

definition ioapicenable :: "uint \<Rightarrow> uint \<Rightarrow> ('z hw_scheme, unit) kop" where
  "ioapicenable irq cpunum =
     kthen (ioapicwrite (0x10 + 2 * irq) (T_IRQ0 + irq))
     (ioapicwrite (0x10 + 2 * irq + 1) (push_bit 24 cpunum))"

section \<open>\<^verbatim>\<open>lapic.c\<close>\<close>

text \<open>The indices of the registers are those of an array of words.\<close>

definition lapicw :: "uint \<Rightarrow> uint \<Rightarrow> ('z hw_scheme, unit) kop" where
  "lapicw idx v = kbind (kget lapic) (\<lambda>la.
     kthen (poke_reg (la + 4 * idx) v) (kbind (peek_reg (la + 4 * (0x20 div 4))) (\<lambda>_. ret ())))"

primrec wait_reg :: "uint \<Rightarrow> (uint \<Rightarrow> bool) \<Rightarrow> uint list \<Rightarrow> ('z hw_scheme, unit) kop" where
  "wait_reg a busy [] = stop Spin"
| "wait_reg a busy (r # rs) =
     kthen (kmod (\<lambda>s. s\<lparr>reginputs := rs\<rparr>)) (kthen (logged (Peek a r))
     (if busy r then wait_reg a busy rs else ret ()))"

definition lapicinit :: "('z hw_scheme, unit) kop" where
  "lapicinit = kbind (kget lapic) (\<lambda>la. kwhen (la \<noteq> 0)
     (kthen (lapicw (0xF0 div 4) (0x100 OR (T_IRQ0 + IRQ_SPURIOUS)))
     (kthen (lapicw (0x3E0 div 4) 0xB)
     (kthen (lapicw (0x320 div 4) (0x20000 OR (T_IRQ0 + IRQ_TIMER)))
     (kthen (lapicw (0x380 div 4) 10000000)
     (kthen (lapicw (0x350 div 4) 0x10000)
     (kthen (lapicw (0x360 div 4) 0x10000)
     (kbind (peek_reg (la + 4 * (0x30 div 4))) (\<lambda>v.
      kthen (kwhen (drop_bit 16 v AND 0xff \<ge> 4) (lapicw (0x340 div 4) 0x10000))
     (kthen (lapicw (0x370 div 4) (T_IRQ0 + IRQ_ERROR))
     (kthen (lapicw (0x280 div 4) 0)
     (kthen (lapicw (0x280 div 4) 0)
     (kthen (lapicw (0xB0 div 4) 0)
     (kthen (lapicw (0x310 div 4) 0)
     (kthen (lapicw (0x300 div 4) (0x80000 OR 0x500 OR 0x8000))
     (kthen (kbind (kget reginputs) (wait_reg (la + 4 * (0x300 div 4)) (\<lambda>r. r AND 0x1000 \<noteq> 0)))
     (lapicw (0x80 div 4) 0)))))))))))))))))"

definition lapicid :: "('z hw_scheme, uint) kop" where
  "lapicid = kbind (kget lapic) (\<lambda>la.
     if la = 0 then ret 0 else kbind (peek_reg (la + 4 * (0x20 div 4))) (\<lambda>v. ret (drop_bit 24 v)))"

definition lapiceoi :: "('z hw_scheme, unit) kop" where
  "lapiceoi = kbind (kget lapic) (\<lambda>la. kwhen (la \<noteq> 0) (lapicw (0xB0 div 4) 0))"

definition st16 :: "(uint \<Rightarrow> byte) \<Rightarrow> uint \<Rightarrow> ushort \<Rightarrow> uint \<Rightarrow> byte" where
  "st16 m a v = m(a := ucast v, a + 1 := ucast (drop_bit 8 v))"

definition lapicstartap :: "byte \<Rightarrow> uint \<Rightarrow> ('z hw_scheme, unit) kop" where
  "lapicstartap apicid a =
     kthen (outb 0x70 0xF)
     (kthen (outb 0x71 0x0A)
     (kthen (kmod (\<lambda>s. s\<lparr>mem := st16 (mem s) (0x80000000 + 0x467) 0\<rparr>))
     (kthen (kmod (\<lambda>s. s\<lparr>mem := st16 (mem s) (0x80000000 + 0x469) (ucast (drop_bit 4 a))\<rparr>))
     (kthen (lapicw (0x310 div 4) (push_bit 24 (ucast apicid)))
     (kthen (lapicw (0x300 div 4) (0x500 OR 0x8000 OR 0x4000))
     (kthen (lapicw (0x300 div 4) (0x500 OR 0x8000))
     (kfor [0..<2] (\<lambda>_.
        kthen (lapicw (0x310 div 4) (push_bit 24 (ucast apicid)))
        (lapicw (0x300 div 4) (0x600 OR drop_bit 12 a))))))))))"

section \<open>The clock\<close>

record rtcdate =
  second :: uint
  minute :: uint
  hour :: uint
  day :: uint
  month :: uint
  year :: uint

definition cmos_read :: "byte \<Rightarrow> ('z hw_scheme, uint) kop" where
  "cmos_read reg = kthen (outb 0x70 reg) (kbind (inb 0x71) (\<lambda>b. ret (ucast b)))"

definition fill_rtcdate :: "('z hw_scheme, rtcdate) kop" where
  "fill_rtcdate =
     kbind (cmos_read 0) (\<lambda>se.
     kbind (cmos_read 2) (\<lambda>mi.
     kbind (cmos_read 4) (\<lambda>ho.
     kbind (cmos_read 7) (\<lambda>da.
     kbind (cmos_read 8) (\<lambda>mo.
     kbind (cmos_read 9) (\<lambda>ye.
     ret \<lparr>second = se, minute = mi, hour = ho, day = da, month = mo, year = ye\<rparr>))))))"

text \<open>The loop runs until two readings agree; every round uses answers, so their number bounds it.\<close>

primrec cmos_loop :: "nat \<Rightarrow> ('z hw_scheme, rtcdate) kop" where
  "cmos_loop 0 = stop Spin"
| "cmos_loop (Suc n) =
     kbind fill_rtcdate (\<lambda>t1.
     kbind (cmos_read 0x0a) (\<lambda>a.
     if a AND 0x80 \<noteq> 0 then cmos_loop n
     else kbind fill_rtcdate (\<lambda>t2. if t1 = t2 then ret t1 else cmos_loop n)))"

definition bcd_conv :: "uint \<Rightarrow> uint" where
  "bcd_conv x = drop_bit 4 x * 10 + (x AND 0xf)"

definition cmostime :: "('z hw_scheme, rtcdate) kop" where
  "cmostime =
     kbind (cmos_read 0x0b) (\<lambda>b.
     kbind (kget (\<lambda>s. length (inputs s))) (\<lambda>n.
     kbind (cmos_loop (Suc n)) (\<lambda>t.
     let t = (if b AND 4 = 0
              then \<lparr>second = bcd_conv (second t), minute = bcd_conv (minute t), hour = bcd_conv (hour t),
                    day = bcd_conv (day t), month = bcd_conv (month t), year = bcd_conv (year t)\<rparr>
              else t)
     in ret (t\<lparr>year := year t + 2000\<rparr>))))"

section \<open>\<^verbatim>\<open>uart.c\<close>\<close>

definition uartinit :: "('z hw_scheme, unit) kop" where
  "uartinit =
     kthen (outb 0x3fa 0)
     (kthen (outb 0x3fb 0x80)
     (kthen (outb 0x3f8 (word_of_int (115200 div 9600)))
     (kthen (outb 0x3f9 0)
     (kthen (outb 0x3fb 0x03)
     (kthen (outb 0x3fc 0)
     (kthen (outb 0x3f9 0x01)
     (kbind (inb 0x3fd) (\<lambda>st.
      if st = 0xff then ret ()
      else
        kthen (kmod (\<lambda>s. s\<lparr>has_uart := True\<rparr>))
        (kthen (inb 0x3fa)
        (kthen (inb 0x3f8)
        (kthen (ioapicenable IRQ_COM1 0)
        (kfor (''xv6...'' @ [CHR 0x0A]) (\<lambda>c. uartputc (uchar c))))))))))))))"

section \<open>Interrupt routing\<close>

text \<open>The I/O APIC by its data sheet: the word at its base selects a register, the word 16 bytes further is that register.\<close>

fun ioapic_access :: "access \<Rightarrow> uint \<times> (uint \<Rightarrow> uint) \<Rightarrow> uint \<times> (uint \<Rightarrow> uint)" where
  "ioapic_access (Poke a v) (r, R) = (if a = IOAPIC then (v, R) else if a = IOAPIC + 0x10 then (r, R(r := v)) else (r, R))"
| "ioapic_access _ d = d"

definition ioapic_regs :: "access list \<Rightarrow> uint \<Rightarrow> uint" where
  "ioapic_regs tr = snd (fold ioapic_access tr (0, \<lambda>_. 0))"

lemma ioapicwrite_regs:
  "\<exists>t. ioapicwrite reg v s = Ok () t \<and> ioapic_regs (io t) = (ioapic_regs (io s))(reg := v) \<and> t = s\<lparr>io := io t\<rparr>"
  by (cases "fold ioapic_access (io s) (0, \<lambda>_. 0)") (simp add: ioapicwrite_def kexec ioapic_regs_def)

text \<open>
  \<open>ioapicenable\<close> routes exactly the given interrupt: its entry holds the vector \<open>T_IRQ0 + irq\<close> without the mask bit and
  the number of the processor, and no other register changes.
\<close>

lemma ioapicenable_routes:
  "\<exists>t. ioapicenable irq cpu s = Ok () t \<and> t = s\<lparr>io := io t\<rparr> \<and>
    ioapic_regs (io t) = (ioapic_regs (io s))(0x10 + 2 * irq := T_IRQ0 + irq, 0x10 + 2 * irq + 1 := push_bit 24 cpu)"
proof -
  obtain t where t: "ioapicwrite (0x10 + 2 * irq) (T_IRQ0 + irq) s = Ok () t" "t = s\<lparr>io := io t\<rparr>"
    "ioapic_regs (io t) = (ioapic_regs (io s))(0x10 + 2 * irq := T_IRQ0 + irq)" using ioapicwrite_regs by blast
  obtain u where u: "ioapicwrite (0x10 + 2 * irq + 1) (push_bit 24 cpu) t = Ok () u" "u = t\<lparr>io := io u\<rparr>"
    "ioapic_regs (io u) = (ioapic_regs (io t))(0x10 + 2 * irq + 1 := push_bit 24 cpu)" using ioapicwrite_regs by blast
  have "u = s\<lparr>io := io u\<rparr>" by (subst u(2), subst t(2)) simp
  then show ?thesis using t u by (intro exI [of _ u]) (simp add: ioapicenable_def kexec)
qed

lemma ioapicinit_entry_masks:
  "\<exists>t. ioapicinit_entry i s = Ok () t \<and> t = s\<lparr>io := io t\<rparr> \<and>
    ioapic_regs (io t) = (ioapic_regs (io s))(0x10 + 2 * of_nat i := 0x00010000 OR (T_IRQ0 + of_nat i), 0x10 + 2 * of_nat i + 1 := 0)"
proof -
  let ?a = "0x10 + 2 * of_nat i :: uint" and ?v = "0x00010000 OR (T_IRQ0 + of_nat i) :: uint"
  obtain t where t: "ioapicwrite ?a ?v s = Ok () t" "t = s\<lparr>io := io t\<rparr>" "ioapic_regs (io t) = (ioapic_regs (io s))(?a := ?v)"
    using ioapicwrite_regs by blast
  obtain u where u: "ioapicwrite (?a + 1) 0 t = Ok () u" "u = t\<lparr>io := io u\<rparr>" "ioapic_regs (io u) = (ioapic_regs (io t))(?a + 1 := 0)"
    using ioapicwrite_regs by blast
  have "u = s\<lparr>io := io u\<rparr>" by (subst u(2), subst t(2)) simp
  then show ?thesis using t u by (intro exI [of _ u]) (simp add: ioapicinit_entry_def kexec)
qed

text \<open>After the loop of \<open>ioapicinit\<close> every interrupt it knows is masked and goes to no processor.\<close>

lemma entry_regs_distinct:
  assumes "i < 256" and "j < 256" and "i \<noteq> j"
  shows "(0x10 + 2 * of_nat i :: uint) \<noteq> 0x10 + 2 * of_nat j" "(0x10 + 2 * of_nat i :: uint) \<noteq> 0x10 + 2 * of_nat j + 1"
    "(0x10 + 2 * of_nat i + 1 :: uint) \<noteq> 0x10 + 2 * of_nat j" "(0x10 + 2 * of_nat i + 1 :: uint) \<noteq> 0x10 + 2 * of_nat j + 1"
proof -
  have w: "unat (0x10 + 2 * of_nat k :: uint) = 16 + 2 * k" "unat (0x10 + 2 * of_nat k + 1 :: uint) = 17 + 2 * k" if "k < 256" for k
    using that by (simp_all add: unat_word_ariths unat_of_nat)
  show "(0x10 + 2 * of_nat i :: uint) \<noteq> 0x10 + 2 * of_nat j" "(0x10 + 2 * of_nat i :: uint) \<noteq> 0x10 + 2 * of_nat j + 1"
    "(0x10 + 2 * of_nat i + 1 :: uint) \<noteq> 0x10 + 2 * of_nat j" "(0x10 + 2 * of_nat i + 1 :: uint) \<noteq> 0x10 + 2 * of_nat j + 1"
    using assms(3) unfolding word_unat_eq_iff w [OF assms(1)] w [OF assms(2)] by presburger+
qed

lemma ioapicinit_masks:
  "n \<le> 256 \<Longrightarrow> \<exists>t. kfor [0..<n] ioapicinit_entry s = Ok () t \<and> t = s\<lparr>io := io t\<rparr> \<and>
    (\<forall>i < n. ioapic_regs (io t) (0x10 + 2 * of_nat i) = 0x00010000 OR (T_IRQ0 + of_nat i) \<and> ioapic_regs (io t) (0x10 + 2 * of_nat i + 1) = 0)"
proof (induction n)
  case (Suc n)
  then obtain t where t: "kfor [0..<n] ioapicinit_entry s = Ok () t" "t = s\<lparr>io := io t\<rparr>"
    "\<forall>i < n. ioapic_regs (io t) (0x10 + 2 * of_nat i) = 0x00010000 OR (T_IRQ0 + of_nat i) \<and> ioapic_regs (io t) (0x10 + 2 * of_nat i + 1) = 0" by auto
  obtain u where u: "ioapicinit_entry n t = Ok () u" "u = t\<lparr>io := io u\<rparr>"
    "ioapic_regs (io u) = (ioapic_regs (io t))(0x10 + 2 * of_nat n := 0x00010000 OR (T_IRQ0 + of_nat n), 0x10 + 2 * of_nat n + 1 := 0)"
    using ioapicinit_entry_masks by blast
  have "u = s\<lparr>io := io u\<rparr>" by (subst u(2), subst t(2)) simp
  moreover have "kfor [0..<Suc n] ioapicinit_entry s = Ok () u" using t(1) u(1) by (simp add: kfor_append kexec)
  moreover have "ioapic_regs (io u) (0x10 + 2 * of_nat i) = 0x00010000 OR (T_IRQ0 + of_nat i) \<and> ioapic_regs (io u) (0x10 + 2 * of_nat i + 1) = 0"
    if "i < Suc n" for i
    using t(3) that entry_regs_distinct [of i n] Suc.prems by (cases "i = n") (auto simp: u(3))
  ultimately show ?case by blast
qed (simp add: kexec)

section \<open>The date\<close>

lemma bcd_roundtrip:
  assumes "n < 100"
  shows "bcd_conv (of_nat (16 * (n div 10) + n mod 10)) = of_nat n"
proof -
  define m where "m = 16 * (n div 10) + n mod 10"
  have "n div 10 < 10" "n mod 10 < 10" using assms by simp_all
  then have d: "m div 16 = n div 10" "m mod 16 = n mod 10" "m < 160" "(0xf :: uint) = mask 4" by (simp_all add: m_def mask_eq_exp_minus_1)
  then have u: "unat (of_nat m :: uint) = m" by (simp add: unat_of_nat)
  have "unat (drop_bit 4 (of_nat m :: uint)) = n div 10" "unat ((of_nat m :: uint) AND 0xf) = n mod 10"
    unfolding d(4) using d(1,2) u by (simp_all add: drop_bit_eq_div unat_div_distrib take_bit_eq_mod unat_mod_distrib flip: take_bit_eq_mask)
  then have "unat (bcd_conv (of_nat m)) = unat (of_nat n :: uint)"
    using assms div_mult_mod_eq [of n 10] by (simp add: bcd_conv_def unat_word_ariths unat_of_nat)
  then show ?thesis unfolding m_def by (simp only: word_unat_eq_iff)
qed

lemma cmos_read_exec: "inputs s = r # rs \<Longrightarrow> cmos_read reg s = Ok (ucast r) (s\<lparr>io := io s @ [Outb 0x70 reg, Inb 0x71 r], inputs := rs\<rparr>)"
  by (simp add: cmos_read_def inb_def kexec)

text \<open>When two readings agree and no update is under way, \<open>cmostime\<close> returns the date the registers show, in binary.\<close>

lemma cmostime_date:
  assumes "inputs s = b # [se, mi, ho, da, mo, ye] @ [a] @ [se, mi, ho, da, mo, ye] @ rs" and "b AND 4 = 0" and "a AND 0x80 = 0"
  shows "\<exists>t. cmostime s = Ok \<lparr>second = bcd_conv (ucast se), minute = bcd_conv (ucast mi), hour = bcd_conv (ucast ho),
    day = bcd_conv (ucast da), month = bcd_conv (ucast mo), year = bcd_conv (ucast ye) + 2000\<rparr> t \<and> inputs t = rs"
proof -
  have "(ucast b AND 4 :: uint) = ucast (b AND 4)" "(ucast a AND 0x80 :: uint) = ucast (a AND 0x80)" by (simp_all add: unsigned_and_eq)
  then show ?thesis using assms by (simp add: cmostime_def fill_rtcdate_def cmos_read_exec kexec)
qed

end
