(* ===== verification/Ide.thy ===== *)
theory Ide
  imports Apic
begin

text \<open>
  The IDE disk driver \<^verbatim>\<open>ide.c\<close>, which takes the place of the memory disk on a machine with a disk. A request is a
  buffer in a queue linked through \<open>qnext\<close>; the head is the one the disk works on. \<open>ide_rel\<close> relates the
  state to a list of requests and to the content of the disks without the request under way; \<open>iderw\<close> appends
  to the list and \<open>ideintr\<close> serves its head.
\<close>

section \<open>\<^verbatim>\<open>ide.c\<close>\<close>

definition idewait :: "bool \<Rightarrow> ('z hw_scheme, int) kop" where
  "idewait checkerr =
     kbind (wait_in 0x1f7 (\<lambda>r. r AND 0xc0 = 0x40)) (\<lambda>r.
     ret (if checkerr \<and> r AND 0x21 \<noteq> 0 then -1 else 0))"

text \<open>The search for the second disk: at most 1000 readings of its status.\<close>

primrec find_disk1 :: "nat \<Rightarrow> ('z hw_scheme, unit) kop" where
  "find_disk1 0 = ret ()"
| "find_disk1 (Suc n) =
     kbind (inb 0x1f7) (\<lambda>r. if r \<noteq> 0 then kmod (\<lambda>s. s\<lparr>havedisk1 := True\<rparr>) else find_disk1 n)"

definition ideinit_pio :: "('z hw_scheme, unit) kop" where
  "ideinit_pio =
     kbind (kget ncpu) (\<lambda>n.
     kthen (ioapicenable IRQ_IDE (of_nat n - 1))
     (kthen (idewait False)
     (kthen (outb 0x1f6 (0xe0 OR push_bit 4 1))
     (kthen (find_disk1 1000)
     (outb 0x1f6 (0xe0 OR push_bit 4 0))))))"

definition drive_select :: "uint \<Rightarrow> uint \<Rightarrow> byte" where
  "drive_select dev sector = ucast (0xe0 OR push_bit 4 (dev AND 1) OR (drop_bit 24 sector AND 0x0f))"

definition idestart :: "nat option \<Rightarrow> ('z hw_scheme, unit) kop" where
  "idestart mb =
     (case mb of None \<Rightarrow> panic ''idestart''
      | Some b \<Rightarrow>
     kbind (kget (\<lambda>s. bufs s b)) (\<lambda>bf.
     if of_nat FSSIZE \<le> blockno bf then panic ''incorrect blockno''
     else
       let spb = BSIZE div 512;
           sector = blockno bf * of_nat spb;
           read_cmd = (if spb = 1 then 0x20 else 0xc4);
           write_cmd = (if spb = 1 then 0x30 else 0xc5)
       in if spb > 7 then panic ''idestart''
       else
         kthen (idewait False)
         (kthen (outb 0x3f6 0)
         (kthen (outb 0x1f2 (of_nat spb))
         (kthen (outb 0x1f3 (ucast (sector AND 0xff)))
         (kthen (outb 0x1f4 (ucast (drop_bit 8 sector AND 0xff)))
         (kthen (outb 0x1f5 (ucast (drop_bit 16 sector AND 0xff)))
         (kthen (outb 0x1f6 (drive_select (bdev bf) sector))
         (if b_dirty bf
          then kthen (outb 0x1f7 write_cmd) (outsl 0x1f0 (bdata bf))
          else outb 0x1f7 read_cmd)))))))))"

definition ideintr_data :: "(access list \<Rightarrow> block) \<Rightarrow> nat \<Rightarrow> ('z hw_scheme, unit) kop" where
  "ideintr_data dsk b =
     kbind (kget (\<lambda>s. b_dirty (bufs s b))) (\<lambda>d.
     kwhen (\<not> d)
       (kbind (idewait True) (\<lambda>r.
        kwhen (r \<ge> 0) (kbind (insl dsk 0x1f0) (\<lambda>x. upd_buf b (\<lambda>bf. bf\<lparr>bdata := x\<rparr>))))))"

definition ideintr :: "(access list \<Rightarrow> block) \<Rightarrow> ('z hw_scheme, unit) kop" where
  "ideintr dsk =
     kthen (acquire Lide)
     (kbind (kget idequeue) (\<lambda>q.
      case q of None \<Rightarrow> release Lide
      | Some b \<Rightarrow>
         kthen (kmod (\<lambda>s. s\<lparr>idequeue := qnext (bufs s b)\<rparr>))
         (kthen (ideintr_data dsk b)
         (kthen (upd_buf b (\<lambda>bf. bf\<lparr>b_valid := True\<rparr>))
         (kthen (upd_buf b (\<lambda>bf. bf\<lparr>b_dirty := False\<rparr>))
         (kthen (wakeup (Some (ChBuf b)))
         (kbind (kget idequeue) (\<lambda>q'.
          kthen (kwhen (q' \<noteq> None) (idestart q'))
         (release Lide)))))))))"

text \<open>The walk to the last element of the queue, with the number of steps bounded.\<close>

fun qlast :: "nat \<Rightarrow> (nat \<Rightarrow> nat option) \<Rightarrow> nat \<Rightarrow> nat option" where
  "qlast 0 nx b = None"
| "qlast (Suc n) nx b = (case nx b of None \<Rightarrow> Some b | Some c \<Rightarrow> qlast n nx c)"

definition ide_append :: "nat \<Rightarrow> ('z hw_scheme, unit) kop" where
  "ide_append b =
     kthen (upd_buf b (\<lambda>bf. bf\<lparr>qnext := None\<rparr>))
     (kbind (kget idequeue) (\<lambda>q.
      case q of None \<Rightarrow> kmod (\<lambda>s. s\<lparr>idequeue := Some b\<rparr>)
      | Some h \<Rightarrow>
          kbind (kget (\<lambda>s. qlast (Suc NBUF) (\<lambda>i. qnext (bufs s i)) h)) (\<lambda>l.
          case l of None \<Rightarrow> stop Spin | Some l \<Rightarrow> upd_buf l (\<lambda>bf. bf\<lparr>qnext := Some b\<rparr>))))"

definition ide_wait :: "nat \<Rightarrow> ('z hw_scheme, unit) kop" where
  "ide_wait b =
     kbind (kget (\<lambda>s. bufs s b)) (\<lambda>bf.
     kthen (kwhen (\<not> (b_valid bf \<and> \<not> b_dirty bf)) (sleep (Some (ChBuf b)) (Some Lide)))
     (release Lide))"

definition iderw_pio :: "nat \<Rightarrow> ('z hw_scheme, unit) kop" where
  "iderw_pio b =
     kbind (holdingsleep (BufLock b)) (\<lambda>h.
     kbind (kget (\<lambda>s. bufs s b)) (\<lambda>bf.
     kbind (kget havedisk1) (\<lambda>d1.
     if \<not> h then panic ''iderw: buf not locked''
     else if b_valid bf \<and> \<not> b_dirty bf then panic ''iderw: nothing to do''
     else if bdev bf \<noteq> 0 \<and> \<not> d1 then panic ''iderw: ide disk 1 not present''
     else
       kthen (acquire Lide)
       (kthen (ide_append b)
       (kbind (kget idequeue) (\<lambda>q.
        kthen (kwhen (q = Some b) (idestart (Some b)))
       (ide_wait b)))))))"

section \<open>Requests\<close>

definition drive_of :: "buf \<Rightarrow> bool" where
  "drive_of bf = odd (bdev bf)"

definition wanted :: "buf \<Rightarrow> bool" where
  "wanted bf \<longleftrightarrow> blockno bf < of_nat FSSIZE \<and> \<not> (b_valid bf \<and> \<not> b_dirty bf)"

text \<open>A disk that works on a request: a write has been transferred already, a read waits to be fetched.\<close>

definition under_way :: "buf \<Rightarrow> (bool \<Rightarrow> nat \<Rightarrow> block) \<Rightarrow> ata \<Rightarrow> bool" where
  "under_way bf D d \<longleftrightarrow>
     (if b_dirty bf then platter d = put_sector (drive_of bf) (unat (blockno bf)) (bdata bf) D
      else platter d = D \<and> ata_cmd d = Some (0x20, drive_of bf, unat (blockno bf)))"

text \<open>What serving a request means for its buffer and for the disks.\<close>

definition serve :: "buf \<Rightarrow> (bool \<Rightarrow> nat \<Rightarrow> block) \<Rightarrow> buf \<times> (bool \<Rightarrow> nat \<Rightarrow> block)" where
  "serve bf D =
     (bf\<lparr>bdata := if b_dirty bf then bdata bf else D (drive_of bf) (unat (blockno bf)), b_valid := True, b_dirty := False\<rparr>,
      if b_dirty bf then put_sector (drive_of bf) (unat (blockno bf)) (bdata bf) D else D)"

primrec qlinks :: "(nat \<Rightarrow> nat option) \<Rightarrow> nat option \<Rightarrow> nat list \<Rightarrow> bool" where
  "qlinks nx h [] \<longleftrightarrow> h = None"
| "qlinks nx h (b # bs) \<longleftrightarrow> h = Some b \<and> qlinks nx (nx b) bs"

definition ide_rel :: "(bool \<Rightarrow> nat \<Rightarrow> block) \<Rightarrow> 'z hw_scheme \<Rightarrow> nat list \<Rightarrow> (bool \<Rightarrow> nat \<Rightarrow> block) \<Rightarrow> bool" where
  "ide_rel D0 s bs D \<longleftrightarrow> qlinks (\<lambda>i. qnext (bufs s i)) (idequeue s) bs \<and> distinct bs \<and>
     (\<forall>b \<in> set bs. b < NBUF \<and> wanted (bufs s b)) \<and>
     (case bs of [] \<Rightarrow> platter (ata_after D0 (io s)) = D | b # _ \<Rightarrow> under_way (bufs s b) D (ata_after D0 (io s)))"

text \<open>The status register becomes ready, without an error, as many times as it is waited for.\<close>

definition busy :: "byte \<Rightarrow> bool" where
  "busy r \<longleftrightarrow> r AND 0xc0 \<noteq> 0x40"

primrec ready_times :: "nat \<Rightarrow> byte list \<Rightarrow> bool" where
  "ready_times 0 rs \<longleftrightarrow> True"
| "ready_times (Suc n) rs \<longleftrightarrow>
     (case dropWhile busy rs of [] \<Rightarrow> False | r # rs' \<Rightarrow> r AND 0x21 = 0 \<and> ready_times n rs')"

lemma idewait_exec:
  assumes "dropWhile busy (inputs s) = r # rs"
  shows "\<exists>ps. idewait e s = Ok (if e \<and> r AND 0x21 \<noteq> 0 then -1 else 0) (s\<lparr>inputs := rs, io := io s @ map (Inb 0x1f7) ps\<rparr>)"
proof -
  have "dropWhile (\<lambda>r. \<not> r AND 0xc0 = 0x40) (inputs s) = r # rs" using assms unfolding busy_def .
  from wait_in_exec [OF this, of "0x1f7"] show ?thesis
    by (intro exI [of _ "takeWhile (\<lambda>r. \<not> r AND 0xc0 = 0x40) (inputs s) @ [r]"]) (simp add: idewait_def kexec)
qed

lemma drive_register:
  assumes "unat n < 2 ^ 24"
  shows "drive_select dv n = (if odd dv then 0xf0 else 0xe0)" "drop_bit 24 n = 0"
proof -
  have "unat (drop_bit 24 n) = 0" using assms by (simp add: drop_bit_eq_div unat_div_distrib)
  then show z: "drop_bit 24 n = 0" by (simp add: unat_eq_zero)
  have "dv AND 1 = of_bool (odd dv)" by (simp add: and_one_eq mod_2_eq_odd)
  then show "drive_select dv n = (if odd dv then 0xf0 else 0xe0)" unfolding drive_select_def z by simp
qed

lemma idestart_exec:
  assumes "dropWhile busy (inputs s) = r # rs" and "blockno (bufs s b) < of_nat FSSIZE"
    and "platter (ata_after D0 (io s)) = D"
  shows "\<exists>tr. idestart (Some b) s = Ok () (s\<lparr>inputs := rs, io := io s @ tr\<rparr>) \<and>
    under_way (bufs s b) D (ata_after D0 (io s @ tr))"
proof -
  let ?n = "blockno (bufs s b)"
  obtain ps where ps: "idewait False s = Ok 0 (s\<lparr>inputs := rs, io := io s @ map (Inb 0x1f7) ps\<rparr>)"
    using idewait_exec [OF assms(1), of False] by auto
  have n: "unat ?n < 2 ^ 24" "unat ?n < 2 ^ 28" "\<not> 100000 \<le> ?n" using assms(2) by (simp_all add: word_less_nat_alt word_le_nat_alt)
  define tr where "tr = map (Inb 0x1f7) ps @ [Outb 0x3f6 0, Outb 0x1f2 1, Outb 0x1f3 (ucast (?n AND 0xff)), Outb 0x1f4 (ucast (drop_bit 8 ?n AND 0xff)),
    Outb 0x1f5 (ucast (drop_bit 16 ?n AND 0xff)), Outb 0x1f6 (drive_select (bdev (bufs s b)) ?n)] @
    (if b_dirty (bufs s b) then [Outb 0x1f7 0x30, Outsl 0x1f0 (bdata (bufs s b))] else [Outb 0x1f7 0x20])"
  have "idestart (Some b) s = Ok () (s\<lparr>inputs := rs, io := io s @ tr\<rparr>)"
    using n(3) by (simp add: idestart_def kexec Let_def ps tr_def)
  moreover have "under_way (bufs s b) D (ata_after D0 (io s @ tr))"
    using assms(3) lba_bytes [OF n(2)] unfolding drive_register(2) [OF n(1)] tr_def
    by (simp add: ata_after_append under_way_def drive_of_def drive_register(1) [OF n(1)] ata_lba_def)
  ultimately show ?thesis by blast
qed

section \<open>The queue\<close>

lemma qlinks_cong: "(\<And>b. b \<in> set bs \<Longrightarrow> nx b = nx' b) \<Longrightarrow> qlinks nx h bs = qlinks nx' h bs"
  by (induction bs arbitrary: h) auto

lemma qlinks_last:
  "qlinks nx (Some h) bs \<Longrightarrow> length bs \<le> n \<Longrightarrow> bs \<noteq> [] \<and> qlast n nx h = Some (last bs) \<and> nx (last bs) = None"
proof (induction bs arbitrary: h n)
  case (Cons b bs)
  then obtain m where n: "n = Suc m" by (cases n) auto
  show ?case
  proof (cases "nx b")
    case None
    with Cons.prems n show ?thesis by (cases bs) auto
  next
    case (Some c)
    with Cons.IH [of c m] Cons.prems n show ?thesis by auto
  qed
qed simp

lemma qlinks_snoc:
  "qlinks nx h bs \<Longrightarrow> distinct bs \<Longrightarrow> b \<notin> set bs \<Longrightarrow> bs \<noteq> [] \<Longrightarrow> nx b = None \<Longrightarrow>
    qlinks (nx(last bs := Some b)) h (bs @ [b])"
proof (induction bs arbitrary: h)
  case (Cons c bs)
  show ?case
  proof (cases "bs = []")
    case True
    with Cons.prems show ?thesis by auto
  next
    case False
    then have "last bs \<noteq> c" using Cons.prems(2) last_in_set [of bs] by auto
    with False Cons show ?thesis by simp
  qed
qed simp

lemma queue_bound:
  assumes "ide_rel D0 s bs D"
  shows "length bs \<le> NBUF"
proof -
  have "distinct bs" "set bs \<subseteq> {..<NBUF}" using assms by (auto simp: ide_rel_def)
  then show ?thesis using card_mono [of "{..<NBUF}" "set bs"] by (simp add: distinct_card)
qed

lemma ide_append_exec:
  assumes rel: "ide_rel D0 s bs D" and b: "b \<notin> set bs" "b < NBUF" "wanted (bufs s b)"
  shows "\<exists>B. ide_append b s = Ok () (s\<lparr>bufs := B, idequeue := if bs = [] then Some b else idequeue s\<rparr>) \<and>
    qlinks (\<lambda>i. qnext (B i)) (if bs = [] then Some b else idequeue s) (bs @ [b]) \<and>
    (\<forall>i. \<exists>q. B i = (bufs s i)\<lparr>qnext := q\<rparr>)"
proof -
  have q: "qlinks (\<lambda>i. qnext (bufs s i)) (idequeue s) bs" "distinct bs" using rel by (simp_all add: ide_rel_def)
  define B1 where "B1 = (bufs s)(b := (bufs s b)\<lparr>qnext := None\<rparr>)"
  have B1: "\<exists>q. B1 i = (bufs s i)\<lparr>qnext := q\<rparr>" for i
    by (cases "i = b") (auto simp: B1_def intro: exI [of _ "qnext (bufs s i)"])
  have q1: "qlinks (\<lambda>i. qnext (B1 i)) (idequeue s) bs"
    by (subst qlinks_cong [of bs _ "\<lambda>i. qnext (bufs s i)"]) (use b(1) q(1) in \<open>auto simp: B1_def\<close>)
  show ?thesis
  proof (cases bs)
    case Nil
    then have "ide_append b s = Ok () (s\<lparr>bufs := B1, idequeue := Some b\<rparr>)"
      using q(1) by (simp add: ide_append_def kexec B1_def)
    with Nil B1 show ?thesis by (intro exI [of _ B1]) (auto simp: B1_def)
  next
    case (Cons h hs)
    then have h: "idequeue s = Some h" using q(1) by simp
    have l: "qlast (Suc NBUF) (\<lambda>i. qnext (B1 i)) h = Some (last bs)"
      using qlinks_last [of "\<lambda>i. qnext (B1 i)" h bs "Suc NBUF"] q1 h queue_bound [OF rel] by simp
    define B where "B = B1(last bs := (B1 (last bs))\<lparr>qnext := Some b\<rparr>)"
    have "ide_append b s = Ok () (s\<lparr>bufs := B\<rparr>)"
      using h l unfolding B_def B1_def by (simp add: ide_append_def kexec del: qlast.simps)
    moreover have "qlinks (\<lambda>i. qnext (B i)) (idequeue s) (bs @ [b])"
    proof -
      have "(\<lambda>i. qnext (B i)) = (\<lambda>i. qnext (B1 i))(last bs := Some b)" by (auto simp: B_def)
      with qlinks_snoc [OF q1 q(2) b(1)] Cons show ?thesis by (simp add: B1_def)
    qed
    moreover have "\<exists>q. B i = (bufs s i)\<lparr>qnext := q\<rparr>" for i using B1 [of i] by (auto simp: B_def)
    ultimately show ?thesis using Cons by (intro exI [of _ B]) auto
  qed
qed

lemma same_request:
  "under_way (bf\<lparr>qnext := q\<rparr>) D d = under_way bf D d" "wanted (bf\<lparr>qnext := q\<rparr>) = wanted bf" "serve (bf\<lparr>qnext := q\<rparr>) D = ((fst (serve bf D))\<lparr>qnext := q\<rparr>, snd (serve bf D))"
  by (simp_all add: under_way_def wanted_def serve_def drive_of_def)

section \<open>Serving a request\<close>

lemma ready_less: "ready_times (Suc n) rs \<Longrightarrow> ready_times n rs"
  by (induction n arbitrary: rs) (auto split: list.splits simp del: dropWhile_eq_Nil_conv)

lemma ready_next: "ready_times (Suc n) rs \<Longrightarrow> \<exists>r rs'. dropWhile busy rs = r # rs' \<and> r AND 0x21 = 0 \<and> ready_times n rs'"
  by (auto split: list.splits)

lemma ideintr_data_exec:
  assumes dsk: "ata_disk D0 dsk" and rd: "ready_times (Suc n) (inputs s)"
    and way: "under_way (bufs s b) D (ata_after D0 (io s))"
  shows "\<exists>I tr. ideintr_data dsk b s = Ok () (s\<lparr>inputs := I, io := io s @ tr,
      bufs := (bufs s)(b := (bufs s b)\<lparr>bdata := bdata (fst (serve (bufs s b) D))\<rparr>)\<rparr>) \<and> ready_times n I \<and> platter (ata_after D0 (io s @ tr)) = snd (serve (bufs s b) D)"
proof (cases "b_dirty (bufs s b)")
  case True
  have "ready_times n (inputs s)" using ready_less [OF rd] .
  with True way show ?thesis
    by (intro exI [of _ "inputs s"] exI [of _ "[]"]) (simp add: ideintr_data_def kexec serve_def under_way_def)
next
  case False
  obtain r rs where r: "dropWhile busy (inputs s) = r # rs" "r AND 0x21 = 0" "ready_times n rs" using ready_next [OF rd] by blast
  obtain ps where ps: "idewait True s = Ok 0 (s\<lparr>inputs := rs, io := io s @ map (Inb 0x1f7) ps\<rparr>)"
    using idewait_exec [OF r(1), of True] r(2) by auto
  let ?n = "unat (blockno (bufs s b))" and ?tr = "map (Inb 0x1f7) ps @ [Insl 0x1f0]"
  have d: "platter (ata_after D0 (io s)) = D" "ata_cmd (ata_after D0 (io s)) = Some (0x20, drive_of (bufs s b), ?n)"
    using way False by (simp_all add: under_way_def)
  have "dsk (io s @ map (Inb 0x1f7) ps) = D (drive_of (bufs s b)) ?n"
    using dsk d by (auto simp: ata_disk_def ata_after_append)
  then have "ideintr_data dsk b s = Ok () (s\<lparr>inputs := rs, io := io s @ ?tr, bufs := (bufs s)(b := (bufs s b)\<lparr>bdata := D (drive_of (bufs s b)) ?n\<rparr>)\<rparr>)"
    using False by (simp add: ideintr_data_def kexec ps)
  moreover have "platter (ata_after D0 (io s @ ?tr)) = D" using d(1) by (simp add: ata_after_append)
  ultimately show ?thesis using False r(3) by (intro exI [of _ rs] exI [of _ ?tr]) (simp add: serve_def)
qed

definition wakes :: "chan \<Rightarrow> 'z ctab_scheme \<Rightarrow> nat \<Rightarrow> proc" where
  "wakes ch s p = (if \<exists>i < NCONT. in_row (conts s i) p then woken (Some ch) (procs s p) else procs s p)"

lemma ideintr_exec:
  assumes dsk: "ata_disk D0 dsk" and rd: "ready_times (Suc (Suc n)) (inputs s)"
    and rel: "ide_rel D0 s (b # bs) D" and s: "held s = []" "rows_ok s"
  shows "\<exists>I tr. let t = s\<lparr>procs := wakes (ChBuf b) s, bufs := (bufs s)(b := fst (serve (bufs s b) D)), idequeue := qnext (bufs s b), inputs := I, io := io s @ tr\<rparr> in
    ideintr dsk s = Ok () t \<and> ready_times n I \<and> ide_rel D0 t bs (snd (serve (bufs s b) D))"
proof -
  have q: "idequeue s = Some b" "qlinks (\<lambda>i. qnext (bufs s i)) (qnext (bufs s b)) bs" "distinct (b # bs)"
    and w: "\<And>c. c \<in> set bs \<Longrightarrow> c < NBUF \<and> wanted (bufs s c)" and way: "under_way (bufs s b) D (ata_after D0 (io s))"
    using rel by (auto simp: ide_rel_def)
  let ?B = "(bufs s)(b := fst (serve (bufs s b) D))" and ?D = "snd (serve (bufs s b) D)"
  let ?s = "s\<lparr>held := [Lide], idequeue := qnext (bufs s b)\<rparr>"
  define x where "x = bdata (fst (serve (bufs s b) D))"
  have B: "?B = (bufs s)(b := (bufs s b)\<lparr>bdata := x, b_valid := True, b_dirty := False\<rparr>)" by (simp add: x_def serve_def)
  obtain I tr where data: "ideintr_data dsk b ?s = Ok () (?s\<lparr>inputs := I, io := io s @ tr, bufs := (bufs s)(b := (bufs s b)\<lparr>bdata := x\<rparr>)\<rparr>)"
    "ready_times (Suc n) I" "platter (ata_after D0 (io s @ tr)) = ?D"
    using ideintr_data_exec [OF dsk, of "Suc n" ?s b D] rd way unfolding x_def by auto
  define u where "u = ?s\<lparr>inputs := I, io := io s @ tr, bufs := ?B\<rparr>"
  have wk: "wakeup (Some (ChBuf b)) u = Ok () (u\<lparr>procs := wakes (ChBuf b) s\<rparr>)"
    using wakeup_exec [of u "Some (ChBuf b)"] s by (simp add: u_def rows_ok_def wakes_def [abs_def] cong: if_cong)
  have run: "ideintr dsk s = kthen (kwhen (idequeue u \<noteq> None) (idestart (idequeue u))) (release Lide) (u\<lparr>procs := wakes (ChBuf b) s\<rparr>)"
    using s(1) q(1) data(1) wk unfolding u_def B by (simp add: ideintr_def kexec)
  have q2: "qlinks (\<lambda>i. qnext (?B i)) (qnext (bufs s b)) bs"
    by (subst qlinks_cong [of bs _ "\<lambda>i. qnext (bufs s i)"]) (use q in \<open>auto simp: serve_def\<close>)
  show ?thesis
  proof (cases bs)
    case Nil
    then have "qnext (bufs s b) = None" using q(2) by simp
    with run have "ideintr dsk s = Ok () (u\<lparr>procs := wakes (ChBuf b) s, held := []\<rparr>)" by (simp add: kexec u_def)
    with Nil data q2 s(1) ready_less [OF data(2)] show ?thesis
      by (intro exI [of _ I] exI [of _ tr]) (simp add: ide_rel_def u_def)
  next
    case (Cons c cs)
    then have c: "qnext (bufs s b) = Some c" "c \<noteq> b" "wanted (bufs s c)" using q w [of c] by auto
    obtain r rs where r: "dropWhile busy I = r # rs" "ready_times n rs" using ready_next [OF data(2)] by blast
    obtain tr' where st: "idestart (Some c) (u\<lparr>procs := wakes (ChBuf b) s\<rparr>) = Ok () (u\<lparr>procs := wakes (ChBuf b) s, inputs := rs, io := (io s @ tr) @ tr'\<rparr>)"
      "under_way (bufs s c) ?D (ata_after D0 ((io s @ tr) @ tr'))"
      using idestart_exec [of "u\<lparr>procs := wakes (ChBuf b) s\<rparr>" r rs c D0 ?D] r(1) c data(3) by (auto simp: u_def wanted_def)
    have "ideintr dsk s = Ok () (u\<lparr>procs := wakes (ChBuf b) s, held := [], inputs := rs, io := io s @ tr @ tr'\<rparr>)"
      using run st(1) c(1) by (simp add: kexec u_def)
    moreover have "\<forall>d \<in> set bs. d < NBUF \<and> wanted (?B d)" using w q(3) by auto
    ultimately show ?thesis using Cons st(2) c(2,3) q(3) q2 s(1) r(2)
      by (intro exI [of _ rs] exI [of _ "tr @ tr'"]) (simp add: ide_rel_def u_def)
  qed
qed

section \<open>Any number of requests\<close>

fun serve_all :: "nat list \<Rightarrow> (nat \<Rightarrow> buf) \<Rightarrow> (bool \<Rightarrow> nat \<Rightarrow> block) \<Rightarrow> (nat \<Rightarrow> buf) \<times> (bool \<Rightarrow> nat \<Rightarrow> block)" where
  "serve_all [] B D = (B, D)"
| "serve_all (b # bs) B D = serve_all bs (B(b := fst (serve (B b) D))) (snd (serve (B b) D))"

lemma iderw_exec:
  assumes rel: "ide_rel D0 s bs D" and b: "b \<notin> set bs" "b < NBUF" "wanted (bufs s b)" "sl_locked (slocks s (BufLock b))"
    and d1: "bdev (bufs s b) = 0 \<or> havedisk1 s" and s: "held s = []" "cur s = Some p" and rd: "ready_times (Suc n) (inputs s)"
  shows "\<exists>B I tr. let t = s\<lparr>held := [Lptable], procs := (procs s)(p := (procs s p)\<lparr>chan := Some (ChBuf b), pstate := SLEEPING\<rparr>),
      bufs := B, idequeue := if bs = [] then Some b else idequeue s, inputs := I, io := io s @ tr\<rparr> in
    iderw_pio b s = Stop Switch t \<and> ready_times n I \<and> ide_rel D0 t (bs @ [b]) D \<and> (\<forall>i. \<exists>q. B i = (bufs s i)\<lparr>qnext := q\<rparr>)"
proof -
  let ?q = "if bs = [] then Some b else idequeue s" and ?s = "s\<lparr>held := [Lide]\<rparr>"
  have rel': "ide_rel D0 ?s bs D" using rel by (simp add: ide_rel_def split: list.splits)
  obtain B where B: "ide_append b ?s = Ok () (?s\<lparr>bufs := B, idequeue := ?q\<rparr>)" "qlinks (\<lambda>i. qnext (B i)) ?q (bs @ [b])"
    "\<And>i. \<exists>q. B i = (bufs s i)\<lparr>qnext := q\<rparr>" using ide_append_exec [OF rel' b(1,2)] b(3) by (auto cong: if_cong)
  have same: "wanted (B i) = wanted (bufs s i)" "under_way (B i) = under_way (bufs s i)" "blockno (B i) = blockno (bufs s i)"
    "b_valid (B i) = b_valid (bufs s i)" "b_dirty (B i) = b_dirty (bufs s i)" for i
    using B(3) [of i] by (auto simp: same_request fun_eq_iff)
  have w: "\<forall>c \<in> set (bs @ [b]). c < NBUF \<and> wanted (B c)" "distinct (bs @ [b])"
    using rel b unfolding same by (auto simp: ide_rel_def)
  have nv: "\<not> (b_valid (bufs s b) \<and> \<not> b_dirty (bufs s b))" using b(3) by (simp add: wanted_def)
  have head: "(?q = Some b) = (bs = [])" using rel b(1) by (cases bs) (auto simp: ide_rel_def)
  define u where "u = ?s\<lparr>bufs := B, idequeue := ?q\<rparr>"
  have run: "iderw_pio b s = kthen (kwhen (bs = []) (idestart (Some b))) (ide_wait b) u"
    using holdingsleep_exec [of "BufLock b" s] s(1) b(4) d1 nv B(1) head by (auto simp: iderw_pio_def kexec u_def)
  have wt: "ide_wait b (u\<lparr>inputs := I, io := tr\<rparr>) = Stop Switch (u\<lparr>inputs := I, io := tr, held := [Lptable],
      procs := (procs s)(p := (procs s p)\<lparr>chan := Some (ChBuf b), pstate := SLEEPING\<rparr>)\<rparr>)" for I tr
    using sleep_exec [of "u\<lparr>inputs := I, io := tr\<rparr>" p Lide "ChBuf b"] s nv by (auto simp: ide_wait_def kexec u_def same)
  show ?thesis
  proof (cases "bs = []")
    case True
    obtain r rs where r: "dropWhile busy (inputs s) = r # rs" "ready_times n rs" using ready_next [OF rd] by blast
    obtain tr where st: "idestart (Some b) u = Ok () (u\<lparr>inputs := rs, io := io s @ tr\<rparr>)" "under_way (B b) D (ata_after D0 (io s @ tr))"
      using idestart_exec [of u r rs b D0 D] r(1) b(3) rel True by (auto simp: u_def same wanted_def ide_rel_def)
    have "iderw_pio b s = Stop Switch (u\<lparr>inputs := rs, io := io s @ tr, held := [Lptable],
      procs := (procs s)(p := (procs s p)\<lparr>chan := Some (ChBuf b), pstate := SLEEPING\<rparr>)\<rparr>)" using run True st(1) wt by (simp add: kexec)
    with True st(2) r(2) w B(2,3) show ?thesis
      by (intro exI [of _ B] exI [of _ rs] exI [of _ tr]) (simp add: u_def ide_rel_def)
  next
    case False
    have "iderw_pio b s = Stop Switch (u\<lparr>held := [Lptable],
      procs := (procs s)(p := (procs s p)\<lparr>chan := Some (ChBuf b), pstate := SLEEPING\<rparr>)\<rparr>)"
      using run False wt [where I = "inputs s" and tr = "io s"] by (simp add: kexec u_def)
    moreover have "\<And>i. \<exists>q. B i = (bufs s i)\<lparr>qnext := q\<rparr>" by (rule B(3))
    ultimately show ?thesis using False w B(2) rel ready_less [OF rd]
      by (intro exI [of _ B] exI [of _ "inputs s"] exI [of _ "[]"]) (auto simp: u_def ide_rel_def same split: list.splits)
  qed
qed

lemma serve_all_other: "b \<notin> set bs \<Longrightarrow> fst (serve_all bs B D) b = B b"
  by (induction bs arbitrary: B D) auto

lemma serve_all_done:
  "b \<in> set bs \<Longrightarrow> b_valid (fst (serve_all bs B D) b) \<and> \<not> b_dirty (fst (serve_all bs B D) b)"
proof (induction bs arbitrary: B D)
  case (Cons c bs)
  then show ?case
    by (cases "b \<in> set bs") (auto simp: serve_all_other serve_def)
qed simp

text \<open>A process of the table that runs or waits for one of the requests.\<close>

definition awaits :: "nat set \<Rightarrow> nat \<Rightarrow> 'z ctab_scheme \<Rightarrow> bool" where
  "awaits bs p s \<longleftrightarrow> (\<exists>i < NCONT. in_row (conts s i) p) \<and> (pstate (procs s p) = RUNNABLE \<or>
     (\<exists>b \<in> bs. pstate (procs s p) = SLEEPING \<and> chan (procs s p) = Some (ChBuf b)))"

lemma awaits_wakes: "awaits (insert b bs) p s \<Longrightarrow> awaits bs p (s\<lparr>procs := wakes (ChBuf b) s\<rparr>)"
  by (auto simp: awaits_def wakes_def woken_def)

lemma serve_queue:
  assumes dsk: "ata_disk D0 dsk"
  shows "ready_times (2 * length bs) (inputs s) \<Longrightarrow> ide_rel D0 s bs D \<Longrightarrow> held s = [] \<Longrightarrow> rows_ok s \<Longrightarrow> awaits (set bs) p s \<Longrightarrow>
    \<exists>t. kfor bs (\<lambda>_. ideintr dsk) s = Ok () t \<and> bufs t = fst (serve_all bs (bufs s) D) \<and> ide_rel D0 t [] (snd (serve_all bs (bufs s) D)) \<and>
      held t = [] \<and> awaits {} p t"
proof (induction bs arbitrary: s D)
  case Nil
  then show ?case by (simp add: kexec)
next
  case (Cons b bs)
  let ?D = "snd (serve (bufs s b) D)"
  obtain t where t: "ideintr dsk s = Ok () t" "ready_times (2 * length bs) (inputs t)" "ide_rel D0 t bs ?D"
    "bufs t = (bufs s)(b := fst (serve (bufs s b) D))" "procs t = wakes (ChBuf b) s" "conts t = conts s" "held t = []"
    using ideintr_exec [OF dsk _ Cons.prems(2-4), of "2 * length bs"] Cons.prems(1,3) unfolding Let_def by fastforce
  have "awaits (set bs) p t" using awaits_wakes [of b "set bs" p s] Cons.prems(5) t(5,6) by (simp add: awaits_def)
  moreover have "rows_ok t" using Cons.prems(4) t(6) by (simp add: rows_ok_def)
  ultimately show ?case using Cons.IH [OF t(2,3,7)] unfolding t(4) by (simp add: kexec t(1) fun_upd_def)
qed

text \<open>
  A read that fails is not reported: when the drive signals an error, the buffer keeps the bytes it had and is marked as
  valid all the same.
\<close>

lemma ideintr_read_error:
  assumes "dropWhile busy (inputs s) = r # rs" and "r AND 0x21 \<noteq> 0" and "idequeue s = Some b" and "\<not> b_dirty (bufs s b)"
    and "qnext (bufs s b) = None" and "held s = []" and "rows_ok s"
  shows "\<exists>t. ideintr dsk s = Ok () t \<and> b_valid (bufs t b) \<and> bdata (bufs t b) = bdata (bufs s b)"
proof -
  let ?s = "s\<lparr>held := [Lide], idequeue := None\<rparr>"
  obtain ps where ps: "idewait True ?s = Ok (-1) (?s\<lparr>inputs := rs, io := io s @ map (Inb 0x1f7) ps\<rparr>)"
    using idewait_exec [of ?s r rs True] assms(1,2) by auto
  let ?u = "?s\<lparr>inputs := rs, io := io s @ map (Inb 0x1f7) ps, bufs := (bufs s)(b := (bufs s b)\<lparr>b_valid := True, b_dirty := False\<rparr>)\<rparr>"
  have "rows_ok ?u" "Lptable \<notin> set (held ?u)" using assms(7) by (simp_all add: rows_ok_def)
  from wakeup_exec [OF this, of "Some (ChBuf b)"] obtain P where "wakeup (Some (ChBuf b)) ?u = Ok () (?u\<lparr>procs := P\<rparr>)" by blast
  then show ?thesis using assms(3-6) ps by (simp add: ideintr_def ideintr_data_def kexec)
qed

text \<open>
  C8. The driver serves every request, in the order of arrival. Let the disk drive behave as the ATA standard says, and let it
  become ready without an error as often as it is asked. A process that calls \<open>iderw\<close> for a buffer it has locked, while the
  requests \<open>bs\<close> wait, goes to sleep with its request appended to the queue through the buffers; the disk is started if it was idle. After one
  interrupt for each request in the queue they have all been served, first come first served: each write has stored its
  buffer in its sector, each read has fetched its sector as the writes before it left it, the queue is empty, no other
  buffer has changed, the process is runnable again, and the test of its waiting loop lets it go on.
\<close>

theorem iderw_served:
  assumes "ata_disk D0 dsk" and "ide_rel D0 s bs D" and "b \<notin> set bs" and "b < NBUF" and "wanted (bufs s b)"
    and "sl_locked (slocks s (BufLock b))" and "bdev (bufs s b) = 0 \<or> havedisk1 s"
    and "held s = []" and "cur s = Some p" and "rows_ok s" and "i < NCONT" and "in_row (conts s i) p"
    and "ready_times (2 * length bs + 3) (inputs s)"
  shows "\<exists>t u v. iderw_pio b s = Stop Switch t \<and> (\<forall>i. \<exists>q. bufs t i = (bufs s i)\<lparr>qnext := q\<rparr>) \<and>
    releaseptable t = Ok () u \<and> kfor (bs @ [b]) (\<lambda>_. ideintr dsk) u = Ok () v \<and>
    bufs v = fst (serve_all (bs @ [b]) (bufs t) D) \<and> platter (ata_after D0 (io v)) = snd (serve_all (bs @ [b]) (bufs t) D) \<and>
    idequeue v = None \<and> pstate (procs v p) = RUNNABLE \<and> ide_wait b (v\<lparr>held := [Lide]\<rparr>) = Ok () v"
proof -
  have rd: "ready_times (Suc (2 * length (bs @ [b]))) (inputs s)" using assms(13) by (simp only: length_append list.size) (simp add: eval_nat_numeral)
  obtain t where t: "iderw_pio b s = Stop Switch t" "ready_times (2 * length (bs @ [b])) (inputs t)" "ide_rel D0 t (bs @ [b]) D"
    "\<forall>i. \<exists>q. bufs t i = (bufs s i)\<lparr>qnext := q\<rparr>" "held t = [Lptable]" "conts t = conts s"
    "pstate (procs t p) = SLEEPING" "chan (procs t p) = Some (ChBuf b)"
    using iderw_exec [OF assms(2-9) rd] unfolding Let_def by fastforce
  let ?u = "t\<lparr>held := []\<rparr>"
  have "releaseptable t = Ok () ?u" using t(5) by (simp add: table_defs kexec)
  moreover have "ide_rel D0 ?u (bs @ [b]) D" using t(3) by (simp add: ide_rel_def split: list.splits)
  moreover have "rows_ok ?u" using assms(10) t(6) by (simp add: rows_ok_def)
  moreover have "awaits (set (bs @ [b])) p ?u" using assms(11,12) t(6-8) by (auto simp: awaits_def)
  ultimately obtain v where v: "releaseptable t = Ok () ?u" "kfor (bs @ [b]) (\<lambda>_. ideintr dsk) ?u = Ok () v" "bufs v = fst (serve_all (bs @ [b]) (bufs t) D)"
    "ide_rel D0 v [] (snd (serve_all (bs @ [b]) (bufs t) D))" "held v = []" "awaits {} p v"
    using serve_queue [OF assms(1), of "bs @ [b]" ?u D p] t(2) by auto
  have "b_valid (bufs v b) \<and> \<not> b_dirty (bufs v b)" unfolding v(3) by (rule serve_all_done) simp
  then have "ide_wait b (v\<lparr>held := [Lide]\<rparr>) = Ok () v" using v(5) by (simp add: ide_wait_def kexec)
  moreover have "platter (ata_after D0 (io v)) = snd (serve_all (bs @ [b]) (bufs t) D)" "idequeue v = None" using v(4) by (simp_all add: ide_rel_def)
  moreover have "pstate (procs v p) = RUNNABLE" using v(6) by (simp add: awaits_def)
  ultimately show ?thesis using t(1,4) v(1-3) by blast
qed

text \<open>An example: a write waits, a read of the same sector follows it.\<close>

definition ide_ex :: hw where
  "ide_ex = trapst.extend (trap_ex\<lparr>held := []\<rparr>) (hw.fields [] [] [] 1 (\<lambda>_. 0) 0 0 None True)"

definition ide_pair :: hw where
  "ide_pair = (let B = (bufs ide_ex)(3 := (bufs ide_ex 3)\<lparr>b_valid := True, b_dirty := True, bdev := 1, blockno := 70, bdata := (\<lambda>_. 7), qnext := None\<rparr>,
       4 := (bufs ide_ex 4)\<lparr>b_valid := False, b_dirty := False, bdev := 1, blockno := 70, qnext := None\<rparr>)
     in res_state (idestart (Some 3) (ide_ex\<lparr>bufs := B, idequeue := Some 3, inputs := replicate 9 0x40,
          slocks := (slocks ide_ex)(BufLock 4 := \<lparr>sl_locked = True, sl_pid = 1\<rparr>)\<rparr>)))"

lemma ready_replicate: "n \<le> k \<Longrightarrow> ready_times n (replicate k 0x40)"
proof (induction n arbitrary: k)
  case (Suc n)
  then obtain m where "k = Suc m" by (cases k) auto
  with Suc show ?case by (simp add: busy_def)
qed simp

lemma ide_pair_facts:
  "ide_rel (\<lambda>_ _ _. 0) ide_pair [3] (\<lambda>_ _ _. 0)" "held ide_pair = []" "cur ide_pair = Some 0" "rows_ok ide_pair" "in_row (conts ide_pair 0) 0"
  "wanted (bufs ide_pair 4)" "sl_locked (slocks ide_pair (BufLock 4))" "havedisk1 ide_pair" "ready_times 5 (inputs ide_pair)"
  "b_dirty (bufs ide_pair 3)" "bdata (bufs ide_pair 3) = (\<lambda>_. 7)" "\<not> b_dirty (bufs ide_pair 4)" "\<forall>b \<in> {3, 4}. bdev (bufs ide_pair b) = 1 \<and> blockno (bufs ide_pair b) = 70"
proof -
  define B where "B = (bufs ide_ex)(3 := (bufs ide_ex 3)\<lparr>b_valid := True, b_dirty := True, bdev := 1, blockno := 70, bdata := (\<lambda>_. 7), qnext := None\<rparr>,
       4 := (bufs ide_ex 4)\<lparr>b_valid := False, b_dirty := False, bdev := 1, blockno := 70, qnext := None\<rparr>)"
  define s where "s = ide_ex\<lparr>bufs := B, idequeue := Some 3, inputs := replicate 9 0x40,
          slocks := (slocks ide_ex)(BufLock 4 := \<lparr>sl_locked = True, sl_pid = 1\<rparr>)\<rparr>"
  have B: "b_dirty (B 3)" "bdev (B 3) = 1" "blockno (B 3) = 70" "bdata (B 3) = (\<lambda>_. 7)" "qnext (B 3) = None"
    "\<not> b_valid (B 4)" "\<not> b_dirty (B 4)" "bdev (B 4) = 1" "blockno (B 4) = 70" by (simp_all add: B_def)
  have ex: "held ide_ex = []" "cur ide_ex = Some 0" "rows_ok ide_ex" "in_row (conts ide_ex 0) 0" "io ide_ex = []" "havedisk1 ide_ex"
    using trap_ex_tables rows_ex_facts by (simp_all add: ide_ex_def trapst.defs hw.defs rows_ok_def)
  have "replicate 9 (0x40 :: byte) = 0x40 # replicate 8 0x40" by (simp add: numeral_eq_Suc)
  then have nine: "dropWhile busy (inputs s) = 0x40 # replicate 8 0x40" by (simp add: s_def busy_def)
  obtain tr where tr: "idestart (Some 3) s = Ok () (s\<lparr>inputs := replicate 8 0x40, io := io s @ tr\<rparr>)" "under_way (bufs s 3) (\<lambda>_ _ _. 0) (ata_after (\<lambda>_ _ _. 0) (io s @ tr))"
    using idestart_exec [OF nine, of 3 "\<lambda>_ _ _. 0" "\<lambda>_ _ _. 0"] B ex by (auto simp: s_def ata_after_def)
  have pair: "ide_pair = s\<lparr>inputs := replicate 8 0x40, io := io s @ tr\<rparr>" using tr(1) unfolding ide_pair_def Let_def s_def B_def by simp
  show "ide_rel (\<lambda>_ _ _. 0) ide_pair [3] (\<lambda>_ _ _. 0)" using tr(2) B by (simp add: ide_rel_def pair wanted_def s_def)
  show "held ide_pair = []" "cur ide_pair = Some 0" "rows_ok ide_pair" "in_row (conts ide_pair 0) 0" "wanted (bufs ide_pair 4)"
    "sl_locked (slocks ide_pair (BufLock 4))" "havedisk1 ide_pair" "ready_times 5 (inputs ide_pair)" "b_dirty (bufs ide_pair 3)" "bdata (bufs ide_pair 3) = (\<lambda>_. 7)"
    "\<not> b_dirty (bufs ide_pair 4)" "\<forall>b \<in> {3, 4}. bdev (bufs ide_pair b) = 1 \<and> blockno (bufs ide_pair b) = 70"
    using ex B ready_replicate [of 5 8] by (simp_all add: pair s_def wanted_def rows_ok_def del: ready_times.simps)
qed

theorem iderw_served_witness:
  "\<exists>t u v. iderw_pio 4 ide_pair = Stop Switch t \<and> releaseptable t = Ok () u \<and>
     kfor [3, 4 :: nat] (\<lambda>_. ideintr (ata_data (\<lambda>_ _ _. 0))) u = Ok () v \<and> idequeue v = None \<and>
     bdata (bufs v 4) = (\<lambda>_. 7) \<and> platter (ata_after (\<lambda>_ _ _. 0) (io v)) True 70 = (\<lambda>_. 7)"
proof -
  obtain t u v where r: "iderw_pio 4 ide_pair = Stop Switch t" "\<forall>i. \<exists>q. bufs t i = (bufs ide_pair i)\<lparr>qnext := q\<rparr>" "releaseptable t = Ok () u"
    "kfor ([3] @ [4 :: nat]) (\<lambda>_. ideintr (ata_data (\<lambda>_ _ _. 0))) u = Ok () v" "bufs v = fst (serve_all ([3] @ [4]) (bufs t) (\<lambda>_ _ _. 0))"
    "platter (ata_after (\<lambda>_ _ _. 0) (io v)) = snd (serve_all ([3] @ [4]) (bufs t) (\<lambda>_ _ _. 0))" "idequeue v = None"
    using iderw_served [OF ata_disk_data ide_pair_facts(1) _ _ ide_pair_facts(6,7) _ ide_pair_facts(2,3,4) _ ide_pair_facts(5)] ide_pair_facts(8,9) by auto
  have "\<exists>q. bufs t 3 = (bufs ide_pair 3)\<lparr>qnext := q\<rparr>" "\<exists>q. bufs t 4 = (bufs ide_pair 4)\<lparr>qnext := q\<rparr>" using r(2) by blast+
  then have "b_dirty (bufs t 3)" "bdata (bufs t 3) = (\<lambda>_. 7)" "\<not> b_dirty (bufs t 4)" "\<forall>b \<in> {3, 4}. bdev (bufs t b) = 1 \<and> blockno (bufs t b) = 70"
    using ide_pair_facts(10-13) by auto
  then have "bdata (bufs v 4) = (\<lambda>_. 7)" "platter (ata_after (\<lambda>_ _ _. 0) (io v)) True 70 = (\<lambda>_. 7)"
    unfolding r(5,6) by (simp_all add: serve_def drive_of_def put_sector_def)
  moreover have "kfor [3, 4 :: nat] (\<lambda>_. ideintr (ata_data (\<lambda>_ _ _. 0))) u = Ok () v" using r(4) unfolding append.simps .
  ultimately show ?thesis using r(1,3,7) by blast
qed

end
