(* ===== verification/Boot.thy ===== *)
theory Boot
  imports Ide
begin

text \<open>
  The boot loader \<^verbatim>\<open>bootmain.c\<close>: it reads the kernel, an ELF file from the second sector of the disk on, and puts its segments
  where their headers say. It runs with physical addresses, so the memory here is the physical one. It ends by calling the
  entry point, which is the result; without a valid header it returns to the assembly code.
\<close>

section \<open>\<^verbatim>\<open>bootmain.c\<close>\<close>

abbreviation (input) SECTSIZE :: nat where "SECTSIZE \<equiv> 512"

definition ld16 :: "memory \<Rightarrow> uint \<Rightarrow> ushort" where
  "ld16 m a = word_cat (m (a + 1)) (m a)"

definition waitdisk :: "('z hw_scheme, unit) kop" where
  "waitdisk = kbind (wait_in 0x1F7 (\<lambda>r. r AND 0xC0 = 0x40)) (\<lambda>_. ret ())"

definition put_sect :: "uint \<Rightarrow> block \<Rightarrow> memory \<Rightarrow> memory" where
  "put_sect d x m = (\<lambda>a. if unat (a - d) < SECTSIZE then x (unat (a - d)) else m a)"

definition readsect :: "(access list \<Rightarrow> block) \<Rightarrow> uint \<Rightarrow> uint \<Rightarrow> ('z hw_scheme, unit) kop" where
  "readsect dsk dst off =
     kthen waitdisk
     (kthen (outb 0x1F2 1)
     (kthen (outb 0x1F3 (ucast off))
     (kthen (outb 0x1F4 (ucast (drop_bit 8 off)))
     (kthen (outb 0x1F5 (ucast (drop_bit 16 off)))
     (kthen (outb 0x1F6 (ucast (drop_bit 24 off OR 0xE0)))
     (kthen (outb 0x1F7 0x20)
     (kthen waitdisk
     (kbind (insl dsk 0x1F0) (\<lambda>x. kmod (\<lambda>s. s\<lparr>mem := put_sect dst x (mem s)\<rparr>))))))))))"

text \<open>Every sector takes answers of the disk, so their number bounds the loop.\<close>

primrec readseg_loop :: "(access list \<Rightarrow> block) \<Rightarrow> nat \<Rightarrow> uint \<Rightarrow> uint \<Rightarrow> uint \<Rightarrow> ('z hw_scheme, unit) kop" where
  "readseg_loop dsk 0 epa pa off = stop Spin"
| "readseg_loop dsk (Suc n) epa pa off =
     (if pa < epa then kthen (readsect dsk pa off) (readseg_loop dsk n epa (pa + 512) (off + 1)) else ret ())"

definition readseg :: "(access list \<Rightarrow> block) \<Rightarrow> uint \<Rightarrow> uint \<Rightarrow> uint \<Rightarrow> ('z hw_scheme, unit) kop" where
  "readseg dsk pa cnt off =
     kbind (kget (\<lambda>s. length (inputs s))) (\<lambda>n.
     readseg_loop dsk (Suc n) (pa + cnt) (pa - off mod 512) (off div 512 + 1))"

text \<open>One program header at the address \<open>ph\<close>.\<close>

definition boot_segment :: "(access list \<Rightarrow> block) \<Rightarrow> uint \<Rightarrow> ('z hw_scheme, unit) kop" where
  "boot_segment dsk ph =
     kbind (kget (\<lambda>s. ld32 (mem s) (ph + 12))) (\<lambda>pa.
     kbind (kget (\<lambda>s. ld32 (mem s) (ph + 16))) (\<lambda>filesz.
     kbind (kget (\<lambda>s. ld32 (mem s) (ph + 4))) (\<lambda>off.
     kthen (readseg dsk pa filesz off)
     (kbind (kget (\<lambda>s. ld32 (mem s) (ph + 20))) (\<lambda>memsz.
      kbind (kget (\<lambda>s. ld32 (mem s) (ph + 16))) (\<lambda>filesz.
      kwhen (memsz > filesz)
        (kmod (\<lambda>s. s\<lparr>mem := stosb (mem s) (pa + filesz) 0 (unat (memsz - filesz))\<rparr>))))))))"

definition bootmain :: "(access list \<Rightarrow> block) \<Rightarrow> ('z hw_scheme, uint option) kop" where
  "bootmain dsk =
     (let elf = 0x10000 in
      kthen (readseg dsk elf 4096 0)
      (kbind (kget (\<lambda>s. ld32 (mem s) elf)) (\<lambda>magic.
       if magic \<noteq> ELF_MAGIC then ret None
       else
         kbind (kget (\<lambda>s. elf + ld32 (mem s) (elf + 28))) (\<lambda>ph.
         kbind (kget (\<lambda>s. unat (ld16 (mem s) (elf + 44)))) (\<lambda>n.
         kthen (kfor (if ph < ph + of_nat (32 * n) then [0..<n] else []) (\<lambda>i. boot_segment dsk (ph + of_nat (32 * i))))
         (kbind (kget (\<lambda>s. ld32 (mem s) (elf + 24))) (\<lambda>e. ret (Some e))))))))"

section \<open>Reading the disk\<close>

lemma waitdisk_exec:
  assumes "ready_times (Suc n) (inputs s)"
  shows "\<exists>rs ps. waitdisk s = Ok () (s\<lparr>inputs := rs, io := io s @ map (Inb 0x1f7) ps\<rparr>) \<and> ready_times n rs"
proof -
  obtain r rs where r: "dropWhile busy (inputs s) = r # rs" "ready_times n rs" using ready_next [OF assms] by blast
  have "dropWhile (\<lambda>r. \<not> r AND 0xc0 = 0x40) (inputs s) = r # rs" using r(1) unfolding busy_def .
  from wait_in_exec [OF this, of "0x1f7"] r(2) show ?thesis
    by (intro exI [of _ rs] exI [of _ "takeWhile (\<lambda>r. \<not> r AND 0xc0 = 0x40) (inputs s) @ [r]"]) (simp add: waitdisk_def kexec)
qed

lemma readsect_registers:
  fixes off :: uint
  assumes "unat off < 2 ^ 24"
  shows "bit (ucast (drop_bit 24 off OR 0xE0) :: byte) 4 = False" "(ucast (drop_bit 24 off OR 0xE0) :: byte) AND 0x0f = 0"
    "unat (ucast off :: byte) + 256 * unat (ucast (drop_bit 8 off) :: byte) + 65536 * unat (ucast (drop_bit 16 off) :: byte) = unat off"
proof -
  have z: "drop_bit 24 off = 0" by (rule drive_register(2) [OF assms])
  show "bit (ucast (drop_bit 24 off OR 0xE0) :: byte) 4 = False" "(ucast (drop_bit 24 off OR 0xE0) :: byte) AND 0x0f = 0"
    unfolding z by simp_all
  have "unat off < 268435456" "unat off div 16777216 = 0" using assms by simp_all
  then show "unat (ucast off :: byte) + 256 * unat (ucast (drop_bit 8 off) :: byte) + 65536 * unat (ucast (drop_bit 16 off) :: byte) = unat off"
    using bytes_sum [of "unat off"] by (simp add: unat_byte drop_bit_eq_div unat_div_distrib)
qed

lemma readsect_exec:
  assumes dsk: "ata_disk D0 dsk" and rd: "ready_times (Suc (Suc n)) (inputs s)" and off: "unat off < 2 ^ 24"
    and D: "platter (ata_after D0 (io s)) = D"
  shows "\<exists>I tr. readsect dsk dst off s = Ok () (s\<lparr>inputs := I, io := io s @ tr, mem := put_sect dst (D False (unat off)) (mem s)\<rparr>) \<and>
    ready_times n I \<and> platter (ata_after D0 (io s @ tr)) = D"
proof -
  obtain rs ps where a: "waitdisk s = Ok () (s\<lparr>inputs := rs, io := io s @ map (Inb 0x1f7) ps\<rparr>)" "ready_times (Suc n) rs"
    using waitdisk_exec [OF rd] by blast
  define sel where "sel = map (Inb 0x1f7) ps @ [Outb 0x1f2 1, Outb 0x1f3 (ucast off), Outb 0x1f4 (ucast (drop_bit 8 off)), Outb 0x1f5 (ucast (drop_bit 16 off)),
    Outb 0x1f6 (ucast (drop_bit 24 off OR 0xE0)), Outb 0x1f7 0x20]"
  obtain rs' ps' where b: "waitdisk (s\<lparr>inputs := rs, io := io s @ sel\<rparr>) = Ok () (s\<lparr>inputs := rs', io := (io s @ sel) @ map (Inb 0x1f7) ps'\<rparr>)" "ready_times n rs'"
    using waitdisk_exec [of n "s\<lparr>inputs := rs, io := io s @ sel\<rparr>"] a(2) by auto
  let ?tr = "sel @ map (Inb 0x1f7) ps'"
  have st: "platter (ata_after D0 (io s @ sel)) = D \<and> ata_cmd (ata_after D0 (io s @ sel)) = Some (0x20, False, unat off)"
    using D readsect_registers [OF off] unfolding sel_def by (simp add: ata_after_append ata_lba_def)
  then have st': "platter (ata_after D0 (io s @ ?tr)) = D" "ata_cmd (ata_after D0 (io s @ ?tr)) = Some (0x20, False, unat off)"
    by (simp_all add: ata_after_append)
  then have "dsk (io s @ ?tr) = D False (unat off)" using dsk unfolding ata_disk_def by blast
  then have "readsect dsk dst off s = Ok () (s\<lparr>inputs := rs', io := io s @ ?tr @ [Insl 0x1f0], mem := put_sect dst (D False (unat off)) (mem s)\<rparr>)"
    using a(1) b(1) by (simp add: readsect_def kexec sel_def)
  moreover have "platter (ata_after D0 (io s @ ?tr @ [Insl 0x1f0])) = D" using st' by (simp add: ata_after_append)
  ultimately show ?thesis using b(2) by blast
qed

text \<open>Memory with a range of it replaced.\<close>

definition over :: "nat \<Rightarrow> nat \<Rightarrow> (nat \<Rightarrow> byte) \<Rightarrow> memory \<Rightarrow> memory" where
  "over lo len f m = (\<lambda>a. if lo \<le> unat a \<and> unat a < lo + len then f (unat a - lo) else m a)"

lemma put_sect_over:
  assumes "unat d + 512 \<le> 2 ^ 32"
  shows "put_sect d x m = over (unat d) 512 x m"
proof (rule ext)
  fix a :: uint
  have "unat a < 2 ^ 32" using unsigned_less [of a] by simp
  then have "unat (a - d) < 512 \<longleftrightarrow> unat d \<le> unat a \<and> unat a < unat d + 512" "unat d \<le> unat a \<Longrightarrow> unat (a - d) = unat a - unat d"
    using assms by (auto simp: unat_sub_if_size word_size word_le_nat_alt)
  then show "put_sect d x m a = over (unat d) 512 x m a" by (auto simp: put_sect_def over_def)
qed

lemma over_over:
  "over (lo + 512) (512 * k) (\<lambda>j. f (Suc n + j div 512) (j mod 512)) (over lo 512 (f n) m) = over lo (512 * Suc k) (\<lambda>j. f (n + j div 512) (j mod 512)) m"
proof (rule ext)
  fix a :: uint
  consider "unat a < lo" | "lo \<le> unat a" "unat a < lo + 512" | "lo + 512 \<le> unat a" by linarith
  then show "over (lo + 512) (512 * k) (\<lambda>j. f (Suc n + j div 512) (j mod 512)) (over lo 512 (f n) m) a = over lo (512 * Suc k) (\<lambda>j. f (n + j div 512) (j mod 512)) m a"
  proof cases
    case 3
    then obtain j where j: "unat a = lo + 512 + j" using le_iff_add by auto
    have e: "unat a - lo = 512 + j" "unat a - (lo + 512) = j" using j by simp_all
    have "(512 + j) div 512 = Suc (j div 512)" using div_add_self1 [of 512 j] by simp
    then show ?thesis unfolding over_def e using j by simp
  qed (auto simp: over_def)
qed

lemma readseg_loop_exec:
  assumes dsk: "ata_disk D0 dsk"
  shows "ready_times (2 * k + n) (inputs s) \<Longrightarrow> platter (ata_after D0 (io s)) = D \<Longrightarrow> unat off + k < 2 ^ 24 \<Longrightarrow>
    unat pa + 512 * k < 2 ^ 32 \<Longrightarrow> unat epa \<le> unat pa + 512 * k \<Longrightarrow> unat pa + 512 * k < unat epa + 512 \<or> k = 0 \<Longrightarrow> k < fuel \<Longrightarrow>
    \<exists>I tr. readseg_loop dsk fuel epa pa off s = Ok () (s\<lparr>inputs := I, io := io s @ tr,
        mem := over (unat pa) (512 * k) (\<lambda>j. D False (unat off + j div 512) (j mod 512)) (mem s)\<rparr>) \<and>
      ready_times n I \<and> platter (ata_after D0 (io s @ tr)) = D"
proof (induction k arbitrary: s pa off fuel)
  case 0
  then obtain g where "fuel = Suc g" by (cases fuel) auto
  moreover have "\<not> pa < epa" using 0 by (simp add: word_less_nat_alt)
  moreover have "over (unat pa) 0 f (mem s) = mem s" for f by (rule ext) (auto simp: over_def)
  ultimately show ?case using 0 by (intro exI [of _ "inputs s"] exI [of _ "[]"]) (simp add: kexec)
next
  case (Suc k)
  then obtain g where g: "fuel = Suc g" by (cases fuel) auto
  have less: "pa < epa" using Suc.prems(6) by (simp add: word_less_nat_alt)
  have rd: "ready_times (Suc (Suc (2 * k + n))) (inputs s)" using Suc.prems(1) by (simp del: ready_times.simps)
  have "unat off < 2 ^ 24" using Suc.prems(3) by simp
  from readsect_exec [OF dsk rd this Suc.prems(2), of pa]
  obtain I tr where a: "readsect dsk pa off s = Ok () (s\<lparr>inputs := I, io := io s @ tr, mem := put_sect pa (D False (unat off)) (mem s)\<rparr>)"
    "ready_times (2 * k + n) I" "platter (ata_after D0 (io s @ tr)) = D" by blast
  have w: "unat (pa + 512) = unat pa + 512" "unat (off + 1) = Suc (unat off)"
    using Suc.prems(3,4) by (simp_all add: unat_word_ariths)
  let ?t = "s\<lparr>inputs := I, io := io s @ tr, mem := put_sect pa (D False (unat off)) (mem s)\<rparr>"
  have "\<exists>I' tr'. readseg_loop dsk g epa (pa + 512) (off + 1) ?t = Ok () (?t\<lparr>inputs := I', io := io ?t @ tr',
        mem := over (unat (pa + 512)) (512 * k) (\<lambda>j. D False (unat (off + 1) + j div 512) (j mod 512)) (mem ?t)\<rparr>) \<and>
      ready_times n I' \<and> platter (ata_after D0 (io ?t @ tr')) = D"
    by (rule Suc.IH) (use Suc.prems a w g in \<open>simp_all del: ready_times.simps\<close>)
  then obtain I' tr' where b: "readseg_loop dsk g epa (pa + 512) (off + 1) ?t = Ok () (?t\<lparr>inputs := I', io := io ?t @ tr',
        mem := over (unat pa + 512) (512 * k) (\<lambda>j. D False (Suc (unat off) + j div 512) (j mod 512)) (mem ?t)\<rparr>)"
    "ready_times n I'" "platter (ata_after D0 (io ?t @ tr')) = D" unfolding w by blast
  have "unat pa + 512 \<le> 2 ^ 32" using Suc.prems(4) by simp
  then have m: "over (unat pa + 512) (512 * k) (\<lambda>j. D False (Suc (unat off) + j div 512) (j mod 512)) (mem ?t)
      = over (unat pa) (512 * Suc k) (\<lambda>j. D False (unat off + j div 512) (j mod 512)) (mem s)"
    using over_over [of "unat pa" k "D False" "unat off" "mem s"] by (simp add: put_sect_over)
  have "readseg_loop dsk fuel epa pa off s = Ok () (s\<lparr>inputs := I', io := io s @ tr @ tr',
        mem := over (unat pa) (512 * Suc k) (\<lambda>j. D False (unat off + j div 512) (j mod 512)) (mem s)\<rparr>)"
    using b(1) a(1) less unfolding m g by (simp add: kexec)
  then show ?case using b(2,3) by (intro exI [of _ I'] exI [of _ "tr @ tr'"]) simp
qed

text \<open>The kernel file \<open>K\<close> on the first disk, from its second sector on.\<close>

definition on_disk :: "(nat \<Rightarrow> byte) \<Rightarrow> (bool \<Rightarrow> nat \<Rightarrow> block) \<Rightarrow> bool" where
  "on_disk K D \<longleftrightarrow> (\<forall>k. D False (Suc (k div 512)) (k mod 512) = K k)"

definition sectors :: "nat \<Rightarrow> nat \<Rightarrow> nat" where
  "sectors off cnt = (off mod 512 + cnt + 511) div 512"

lemma ready_length: "ready_times n rs \<Longrightarrow> n \<le> length rs"
proof (induction n arbitrary: rs)
  case (Suc n)
  then obtain r rs' where r: "dropWhile busy rs = r # rs'" "ready_times n rs'" using ready_next by blast
  then have "length rs' < length rs" using length_dropWhile_le [of busy rs] by simp
  with Suc.IH [OF r(2)] show ?case by simp
qed simp

lemma sectors_bounds:
  "off mod 512 + cnt \<le> 512 * sectors off cnt" "512 * sectors off cnt < off mod 512 + cnt + 512"
  using div_mult_mod_eq [of "off mod 512 + cnt + 511" 512] mod_less_divisor [of 512 "off mod 512 + cnt + 511"]
  unfolding sectors_def by linarith+

lemma readseg_exec:
  assumes dsk: "ata_disk D0 dsk" and rd: "ready_times (2 * sectors (unat off) (unat cnt) + n) (inputs s)"
    and D: "platter (ata_after D0 (io s)) = D" "on_disk K D"
    and r: "unat off mod 512 \<le> unat pa" "unat pa + unat cnt + 512 \<le> 2 ^ 32" "unat off + unat cnt \<le> 2 ^ 32"
  shows "\<exists>I tr. readseg dsk pa cnt off s = Ok () (s\<lparr>inputs := I, io := io s @ tr,
      mem := over (unat pa - unat off mod 512) (512 * sectors (unat off) (unat cnt)) (\<lambda>j. K (unat off - unat off mod 512 + j)) (mem s)\<rparr>) \<and>
    ready_times n I \<and> platter (ata_after D0 (io s @ tr)) = D"
proof -
  let ?k = "sectors (unat off) (unat cnt)" and ?lo = "unat pa - unat off mod 512"
  have w: "unat (pa - off mod 512) = ?lo" "unat (off div 512 + 1) = unat off div 512 + 1" "unat (pa + cnt) = unat pa + unat cnt"
    using r unsigned_less [of off] by (simp_all add: unat_sub word_le_nat_alt unat_mod_distrib unat_word_ariths unat_div_distrib)
  have f: "unat off div 512 + 1 + ?k < 2 ^ 24" using sectors_bounds [of "unat off" "unat cnt"] r(3) by auto
  have h: "?lo + 512 * ?k < 2 ^ 32" "unat pa + unat cnt \<le> ?lo + 512 * ?k" "?lo + 512 * ?k < unat pa + unat cnt + 512 \<or> ?k = 0"
    using sectors_bounds [of "unat off" "unat cnt"] r(1,2) by auto
  have "?k < Suc (length (inputs s))" using ready_length [OF rd] by simp
  then obtain I tr where a: "readseg_loop dsk (Suc (length (inputs s))) (pa + cnt) (pa - off mod 512) (off div 512 + 1) s = Ok () (s\<lparr>inputs := I, io := io s @ tr,
        mem := over ?lo (512 * ?k) (\<lambda>j. D False (unat off div 512 + 1 + j div 512) (j mod 512)) (mem s)\<rparr>)"
      "ready_times n I" "platter (ata_after D0 (io s @ tr)) = D"
    using readseg_loop_exec [OF dsk rd D(1), of "off div 512 + 1" "pa - off mod 512" "pa + cnt" "Suc (length (inputs s))"] f h unfolding w by blast
  have "D False (unat off div 512 + 1 + j div 512) (j mod 512) = K (unat off - unat off mod 512 + j)" for j
  proof -
    have "unat off - unat off mod 512 + j = unat off div 512 * 512 + j" by (simp add: minus_mod_eq_div_mult)
    then show ?thesis using D(2) unfolding on_disk_def by (metis add.commute add_Suc_right div_mult_self3 mod_mult_self3 plus_1_eq_Suc zero_neq_numeral)
  qed
  then show ?thesis using a by (simp add: readseg_def kexec del: readseg_loop.simps) blast
qed

section \<open>Loading the kernel\<close>

text \<open>The fields of the file's program headers, and the memory a segment takes; \<open>seg_lo\<close> is where its first sector goes.\<close>

definition kphoff :: "(nat \<Rightarrow> byte) \<Rightarrow> nat" where "kphoff K = unat (bld32 K 28)"
definition kphnum :: "(nat \<Rightarrow> byte) \<Rightarrow> nat" where "kphnum K = unat (bld16 K 44)"
definition kseg :: "(nat \<Rightarrow> byte) \<Rightarrow> nat \<Rightarrow> nat \<Rightarrow> uint" where "kseg K i f = bld32 K (kphoff K + 32 * i + f)"

definition seg_lo :: "(nat \<Rightarrow> byte) \<Rightarrow> nat \<Rightarrow> nat" where
  "seg_lo K i = unat (kseg K i 12) - unat (kseg K i 4) mod 512"

definition seg_end :: "(nat \<Rightarrow> byte) \<Rightarrow> nat \<Rightarrow> nat" where
  "seg_end K i = unat (kseg K i 12) + max (unat (kseg K i 16)) (unat (kseg K i 20))"

text \<open>
  A file the loader can load: the headers lie in the first 4096 bytes, and the segments, with the sectors they are read in, lie
  behind the loader's copy of the headers and in the order of their addresses.
\<close>

definition loadable :: "(nat \<Rightarrow> byte) \<Rightarrow> bool" where
  "loadable K \<longleftrightarrow> bld32 K 0 = ELF_MAGIC \<and> kphoff K + 32 * kphnum K \<le> 4096 \<and>
     (\<forall>i < kphnum K. unat (kseg K i 4) mod 512 \<le> unat (kseg K i 12) \<and> 0x11000 \<le> seg_lo K i \<and> seg_end K i + 512 \<le> 2 ^ 32 \<and>
        unat (kseg K i 4) + unat (kseg K i 16) \<le> 2 ^ 32) \<and>
     (\<forall>i. Suc i < kphnum K \<longrightarrow> seg_end K i \<le> seg_lo K (Suc i))"

definition loaded :: "(nat \<Rightarrow> byte) \<Rightarrow> nat \<Rightarrow> memory \<Rightarrow> bool" where
  "loaded K i m \<longleftrightarrow> (\<forall>j < max (unat (kseg K i 16)) (unat (kseg K i 20)).
     m (kseg K i 12 + of_nat j) = (if j < unat (kseg K i 16) then K (unat (kseg K i 4) + j) else 0))"

definition headers :: "(nat \<Rightarrow> byte) \<Rightarrow> memory \<Rightarrow> bool" where
  "headers K m \<longleftrightarrow> (\<forall>k < 4096. m (0x10000 + of_nat k) = K k)"

lemma ld_headers:
  assumes "headers K m"
  shows "k + 4 \<le> 4096 \<Longrightarrow> ld32 m (0x10000 + of_nat k) = bld32 K k" "k + 2 \<le> 4096 \<Longrightarrow> ld16 m (0x10000 + of_nat k) = bld16 K k"
proof -
  have h: "m (0x10000 + of_nat k + of_nat j) = K (k + j)" if "k + j < 4096" for j
    using assms that by (simp add: headers_def add.assoc flip: of_nat_add)
  show "ld32 m (0x10000 + of_nat k) = bld32 K k" if "k + 4 \<le> 4096"
    using h [of 0] h [of 1] h [of 2] h [of 3] that unfolding ld32_def bld32_def
    by (simp, intro bit_word_eqI) (auto simp: bit_simps dest: bit_imp_le_length)
  show "ld16 m (0x10000 + of_nat k) = bld16 K k" if "k + 2 \<le> 4096"
    using h [of 0] h [of 1] that unfolding ld16_def bld16_def
    by (simp, intro bit_word_eqI) (auto simp: bit_simps dest: bit_imp_le_length)
qed

lemma headers_kept:
  assumes "headers K m" and "\<And>a. unat a < 0x11000 \<Longrightarrow> m' a = m a"
  shows "headers K m'"
proof -
  have "unat (0x10000 + of_nat k :: uint) < 0x11000" if "k < 4096" for k using that by (simp add: unat_word_ariths unat_of_nat)
  with assms show ?thesis by (simp add: headers_def)
qed

lemma seg_order: "loadable K \<Longrightarrow> i < k \<Longrightarrow> k < kphnum K \<Longrightarrow> seg_end K i \<le> seg_lo K k"
proof (induction k)
  case (Suc k)
  have "seg_lo K k \<le> seg_end K k" unfolding seg_lo_def seg_end_def by linarith
  moreover have "seg_end K k \<le> seg_lo K (Suc k)" using Suc.prems unfolding loadable_def by blast
  ultimately show ?case using Suc by (cases "i = k") auto
qed simp

lemma boot_segment_exec:
  assumes dsk: "ata_disk D0 dsk" and rd: "ready_times (2 * sectors (unat (kseg K i 4)) (unat (kseg K i 16)) + n) (inputs s)"
    and D: "platter (ata_after D0 (io s)) = D" "on_disk K D" and K: "loadable K" "i < kphnum K" and h: "headers K (mem s)"
  shows "\<exists>I tr M. boot_segment dsk (0x10000 + of_nat (kphoff K + 32 * i)) s = Ok () (s\<lparr>inputs := I, io := io s @ tr, mem := M\<rparr>) \<and>
    ready_times n I \<and> platter (ata_after D0 (io s @ tr)) = D \<and> loaded K i M \<and> (\<forall>a. unat a < seg_lo K i \<longrightarrow> M a = mem s a)"
proof -
  let ?ph = "0x10000 + of_nat (kphoff K + 32 * i) :: uint" and ?pa = "kseg K i 12" and ?fs = "kseg K i 16" and ?off = "kseg K i 4" and ?ms = "kseg K i 20"
  have k: "unat ?off mod 512 \<le> unat ?pa" "0x11000 \<le> seg_lo K i" "seg_end K i + 512 \<le> 2 ^ 32" "unat ?off + unat ?fs \<le> 2 ^ 32"
    and ph: "kphoff K + 32 * i + 32 \<le> 4096" using K by (auto simp: loadable_def)
  have ld: "ld32 m (?ph + of_nat f) = kseg K i f" if "headers K m" "f \<le> 28" for m f
    using ld_headers(1) [OF that(1), of "kphoff K + 32 * i + f"] that(2) ph by (simp add: kseg_def add.assoc)
  have e: "unat ?pa + unat ?fs + 512 \<le> 2 ^ 32" "unat ?pa + unat ?ms + 512 \<le> 2 ^ 32" using k(3) by (auto simp: seg_end_def)
  define M1 where "M1 = over (seg_lo K i) (512 * sectors (unat ?off) (unat ?fs)) (\<lambda>j. K (unat ?off - unat ?off mod 512 + j)) (mem s)"
  obtain I tr where a: "readseg dsk ?pa ?fs ?off s = Ok () (s\<lparr>inputs := I, io := io s @ tr, mem := M1\<rparr>)" "ready_times n I" "platter (ata_after D0 (io s @ tr)) = D"
    using readseg_exec [OF dsk rd D k(1) e(1) k(4)] unfolding M1_def seg_lo_def by blast
  have low: "M1 a = mem s a" if "unat a < seg_lo K i" for a using that by (simp add: M1_def over_def)
  have h1: "headers K M1" by (rule headers_kept [OF h]) (use low k(2) in simp)
  have at: "unat (?pa + of_nat j) = unat ?pa + j" if "j < max (unat ?fs) (unat ?ms)" for j
    using that e by (simp add: unat_word_ariths unat_of_nat max_def split: if_splits)
  have M1: "M1 (?pa + of_nat j) = K (unat ?off + j)" if "j < unat ?fs" for j
  proof -
    have "unat ?pa + j - seg_lo K i = unat ?off mod 512 + j" "seg_lo K i \<le> unat ?pa + j" using k(1) by (simp_all add: seg_lo_def)
    moreover have "unat ?pa + j < seg_lo K i + 512 * sectors (unat ?off) (unat ?fs)"
      using k(1) that sectors_bounds(1) [of "unat ?off" "unat ?fs"] unfolding seg_lo_def by linarith
    ultimately show ?thesis using that at [of j] by (simp add: M1_def over_def)
  qed
  define M where "M = (if ?fs < ?ms then stosb M1 (?pa + ?fs) 0 (unat (?ms - ?fs)) else M1)"
  have st: "M a = (if unat ?fs < unat ?ms \<and> unat ?pa + unat ?fs \<le> unat a \<and> unat a < unat ?pa + unat ?ms then 0 else M1 a)" for a
  proof (cases "?fs < ?ms")
    case True
    then have "unat (?ms - ?fs) = unat ?ms - unat ?fs" "unat (?pa + ?fs) = unat ?pa + unat ?fs" "unat ?fs < unat ?ms"
      using e by (simp_all add: unat_sub unat_word_ariths word_less_nat_alt word_le_nat_alt)
    then show ?thesis using True e(2) stosb_spec [of "?pa + ?fs" "unat (?ms - ?fs)" M1 0 a] by (simp add: M_def)
  next
    case False
    then show ?thesis by (simp add: M_def word_less_nat_alt)
  qed
  have "boot_segment dsk ?ph s = Ok () (s\<lparr>inputs := I, io := io s @ tr, mem := M\<rparr>)"
    using a(1) ld [OF h, of 12] ld [OF h, of 16] ld [OF h, of 4] ld [OF h1, of 20] ld [OF h1, of 16] by (simp add: boot_segment_def kexec M_def)
  moreover have "loaded K i M" unfolding loaded_def using M1 at st by (auto simp: max_def split: if_splits)
  moreover have "\<forall>a. unat a < seg_lo K i \<longrightarrow> M a = mem s a" using st low by (auto simp: seg_lo_def)
  ultimately show ?thesis using a(2,3) by blast
qed

lemma unat_plus_of_nat_le: "unat (a + of_nat j :: uint) \<le> unat a + j"
proof -
  have "unat (a + of_nat j :: uint) \<le> unat a + j mod 4294967296" by (simp add: unat_word_ariths unat_of_nat)
  then show ?thesis using mod_less_eq_dividend [of j 4294967296] by linarith
qed

definition boot_reads :: "(nat \<Rightarrow> byte) \<Rightarrow> nat \<Rightarrow> nat" where
  "boot_reads K k = (\<Sum>i < k. sectors (unat (kseg K i 4)) (unat (kseg K i 16)))"

lemma boot_segments_exec:
  assumes dsk: "ata_disk D0 dsk" and D: "on_disk K D" and K: "loadable K"
  shows "k \<le> kphnum K \<Longrightarrow> ready_times (2 * boot_reads K k + n) (inputs s) \<Longrightarrow> platter (ata_after D0 (io s)) = D \<Longrightarrow> headers K (mem s) \<Longrightarrow>
    \<exists>I tr M. kfor [0..<k] (\<lambda>i. boot_segment dsk (0x10000 + of_nat (kphoff K + 32 * i))) s = Ok () (s\<lparr>inputs := I, io := io s @ tr, mem := M\<rparr>) \<and>
      ready_times n I \<and> platter (ata_after D0 (io s @ tr)) = D \<and> headers K M \<and> (\<forall>i < k. loaded K i M)"
proof (induction k arbitrary: n)
  case 0
  then show ?case by (intro exI [of _ "inputs s"] exI [of _ "[]"] exI [of _ "mem s"]) (simp add: kexec boot_reads_def)
next
  case (Suc k)
  let ?n = "sectors (unat (kseg K k 4)) (unat (kseg K k 16))"
  have "ready_times (2 * boot_reads K k + (2 * ?n + n)) (inputs s)" using Suc.prems(2) by (simp add: boot_reads_def algebra_simps)
  then obtain I tr M where a: "kfor [0..<k] (\<lambda>i. boot_segment dsk (0x10000 + of_nat (kphoff K + 32 * i))) s = Ok () (s\<lparr>inputs := I, io := io s @ tr, mem := M\<rparr>)"
    "ready_times (2 * ?n + n) I" "platter (ata_after D0 (io s @ tr)) = D" "headers K M" "\<forall>i < k. loaded K i M"
    using Suc.IH [of "2 * ?n + n"] Suc.prems by auto
  obtain I' tr' M' where b: "boot_segment dsk (0x10000 + of_nat (kphoff K + 32 * k)) (s\<lparr>inputs := I, io := io s @ tr, mem := M\<rparr>) =
      Ok () (s\<lparr>inputs := I', io := (io s @ tr) @ tr', mem := M'\<rparr>)" "ready_times n I'" "platter (ata_after D0 ((io s @ tr) @ tr')) = D" "loaded K k M'"
      "\<forall>a. unat a < seg_lo K k \<longrightarrow> M' a = M a"
    using boot_segment_exec [OF dsk _ _ D K, of k n "s\<lparr>inputs := I, io := io s @ tr, mem := M\<rparr>"] a Suc.prems(1) by auto
  have k: "0x11000 \<le> seg_lo K k" using K Suc.prems(1) by (auto simp: loadable_def)
  have "headers K M'" by (rule headers_kept [OF a(4)]) (use b(5) k in auto)
  moreover have "loaded K i M'" if "i < k" for i
  proof -
    have "unat (kseg K i 12 + of_nat j) < seg_lo K k" if j: "j < max (unat (kseg K i 16)) (unat (kseg K i 20))" for j
      using seg_order [OF K \<open>i < k\<close>] Suc.prems(1) j unat_plus_of_nat_le [of "kseg K i 12" j] unfolding seg_end_def by linarith
    then show ?thesis using a(5) that b(5) by (simp add: loaded_def)
  qed
  ultimately have "\<forall>i < Suc k. loaded K i M'" "headers K M'" using b(4) by (auto simp: less_Suc_eq)
  with a(1) b(1-3) show ?case
    by (intro exI [of _ I'] exI [of _ "tr @ tr'"] exI [of _ M']) (simp add: kfor_append kexec)
qed

text \<open>
  C17. The boot loader loads the kernel. Let the disk hold an ELF file from its second sector on whose headers lie in the first
  4096 bytes and whose segments go, in the order of their addresses and with the sectors they are read in, to memory behind the
  loader's copy of the headers; and let the drive become ready as often as it is asked. Then \<open>bootmain\<close> calls the entry point of the file, and at that
  time every segment is in memory at its physical address: first the bytes of the file, then zeros up to the size in memory, although
  each segment is read in whole sectors that overlap its neighbours.
\<close>

theorem bootmain_loads:
  assumes "ata_disk D0 dsk" and "on_disk K D0" and "loadable K" and "io s = []"
    and "ready_times (2 * (8 + boot_reads K (kphnum K))) (inputs s)"
  shows "\<exists>t. bootmain dsk s = Ok (Some (bld32 K 24)) t \<and> (\<forall>i < kphnum K. loaded K i (mem t))"
proof -
  have rd: "ready_times (2 * sectors (unat (0 :: uint)) (unat (4096 :: uint)) + 2 * boot_reads K (kphnum K)) (inputs s)"
    using assms(5) by (simp add: sectors_def)
  have p: "platter (ata_after D0 (io s)) = D0" using assms(4) by (simp add: ata_after_def)
  let ?M = "over 0x10000 4096 K (mem s)"
  obtain I tr where a: "readseg dsk 0x10000 4096 0 s = Ok () (s\<lparr>inputs := I, io := io s @ tr, mem := ?M\<rparr>)"
    "ready_times (2 * boot_reads K (kphnum K)) I" "platter (ata_after D0 (io s @ tr)) = D0"
    using readseg_exec [OF assms(1) rd p assms(2), of "0x10000"] by (auto simp: sectors_def)
  have h: "headers K ?M" by (simp add: headers_def over_def unat_word_ariths unat_of_nat)
  have k: "bld32 K 0 = ELF_MAGIC" "kphoff K + 32 * kphnum K \<le> 4096" using assms(3) by (simp_all add: loadable_def)
  obtain I' tr' M' where b: "kfor [0..<kphnum K] (\<lambda>i. boot_segment dsk (0x10000 + of_nat (kphoff K + 32 * i))) (s\<lparr>inputs := I, io := io s @ tr, mem := ?M\<rparr>) =
      Ok () (s\<lparr>inputs := I', io := (io s @ tr) @ tr', mem := M'\<rparr>)" "headers K M'" "\<forall>i < kphnum K. loaded K i M'"
    using boot_segments_exec [OF assms(1,2,3) le_refl, of 0 "s\<lparr>inputs := I, io := io s @ tr, mem := ?M\<rparr>"] a(2,3) h by auto
  have ph: "0x10000 + ld32 ?M (0x10000 + 28) = 0x10000 + of_nat (kphoff K)" "unat (ld16 ?M (0x10000 + 44)) = kphnum K" "ld32 ?M 0x10000 = ELF_MAGIC"
    "ld32 M' (0x10000 + 24) = bld32 K 24"
    using ld_headers [OF h, of 28] ld_headers [OF h, of 44] ld_headers [OF h, of 0] ld_headers [OF b(2), of 24] k(1)
    by (simp_all add: kphoff_def kphnum_def)
  have l: "(if 0x10000 + of_nat (kphoff K) < 0x10000 + of_nat (kphoff K) + (of_nat (32 * kphnum K) :: uint) then [0..<kphnum K] else []) = [0..<kphnum K]"
    using k(2) by (cases "kphnum K") (auto simp: word_less_nat_alt unat_word_ariths unat_of_nat)
  have "bootmain dsk s = Ok (Some (bld32 K 24)) (s\<lparr>inputs := I', io := (io s @ tr) @ tr', mem := M'\<rparr>)"
    unfolding bootmain_def Let_def using a(1) b(1) ph l by (simp add: kexec add.assoc)
  with b(3) show ?thesis by auto
qed

text \<open>An example: one segment of three bytes from the file and two zeros.\<close>

definition kernel_file :: "nat \<Rightarrow> byte" where
  "kernel_file = bst32 (bst32 (bst32 (bst32 (bst16 (bst32 (bst32 (bst32 of_nat 0 ELF_MAGIC) 24 0x10000c) 28 52) 44 1) 56 4099) 64 0x100003) 68 3) 72 5"

lemma kernel_file_facts:
  "loadable kernel_file" "kphnum kernel_file = 1" "bld32 kernel_file 24 = 0x10000c" "kseg kernel_file 0 12 = 0x100003"
  "kseg kernel_file 0 16 = 3" "kseg kernel_file 0 20 = 5" "kseg kernel_file 0 4 = 4099" "kernel_file 4100 = 4"
proof -
  have o: "kphoff kernel_file = 52" by (simp add: kphoff_def kernel_file_def)
  show n: "kphnum kernel_file = 1" by (simp add: kphnum_def kernel_file_def)
  show "bld32 kernel_file 24 = 0x10000c" by (simp add: kernel_file_def)
  show s: "kseg kernel_file 0 12 = 0x100003" "kseg kernel_file 0 16 = 3" "kseg kernel_file 0 20 = 5" "kseg kernel_file 0 4 = 4099"
    unfolding kseg_def o by (simp_all add: kernel_file_def)
  show "kernel_file 4100 = 4" by (simp add: kernel_file_def bst_other)
  have "bld32 kernel_file 0 = ELF_MAGIC" by (simp add: kernel_file_def)
  then show "loadable kernel_file" unfolding loadable_def using o n s by (simp add: seg_lo_def seg_end_def)
qed

theorem bootmain_loads_witness:
  "\<exists>t. bootmain (ata_data (\<lambda>_ n j. kernel_file (512 * (n - 1) + j))) (ide_ex\<lparr>inputs := replicate 18 0x40\<rparr>) = Ok (Some 0x10000c) t \<and>
     mem t 0x100004 = 4 \<and> mem t 0x100006 = 0"
proof -
  let ?D = "\<lambda>(_ :: bool) n j. kernel_file (512 * (n - 1) + j)" and ?s = "ide_ex\<lparr>inputs := replicate 18 0x40\<rparr>"
  have "on_disk kernel_file ?D" by (simp add: on_disk_def)
  moreover have "io ?s = []" by (simp add: ide_ex_def trapst.defs hw.defs)
  moreover have "boot_reads kernel_file (kphnum kernel_file) = 1" using kernel_file_facts by (simp add: boot_reads_def sectors_def)
  then have "ready_times (2 * (8 + boot_reads kernel_file (kphnum kernel_file))) (inputs ?s)" using ready_replicate [of 18 18] by (simp del: ready_times.simps)
  ultimately obtain t where t: "bootmain (ata_data ?D) ?s = Ok (Some (bld32 kernel_file 24)) t" "\<forall>i < kphnum kernel_file. loaded kernel_file i (mem t)"
    using bootmain_loads [OF ata_disk_data [of ?D] _ kernel_file_facts(1), of ?s] by blast
  then have l: "loaded kernel_file 0 (mem t)" using kernel_file_facts(2) by simp
  have "mem t 0x100004 = 4" using l [unfolded loaded_def, rule_format, of 1] kernel_file_facts by simp
  moreover have "mem t 0x100006 = 0" using l [unfolded loaded_def, rule_format, of 3] kernel_file_facts by simp
  ultimately show ?thesis using t(1) kernel_file_facts(3) by auto
qed

end
