(* ===== verification/Mp.thy ===== *)
theory Mp
  imports Boot
begin

text \<open>
  The search for the other processors, \<^verbatim>\<open>mp.c\<close>: the BIOS leaves a table in memory that lists the processors and the interrupt
  controllers. The memory is the kernel's view of it, in which physical memory starts at \<open>KERNBASE\<close>.
\<close>

section \<open>\<^verbatim>\<open>mp.c\<close>\<close>

definition bytes_at :: "memory \<Rightarrow> uint \<Rightarrow> nat \<Rightarrow> byte list" where
  "bytes_at m a n = map (\<lambda>i. m (a + of_nat i)) [0..<n]"

definition mp_sum :: "memory \<Rightarrow> uint \<Rightarrow> nat \<Rightarrow> byte" where
  "mp_sum m a n = fold (+) (bytes_at m a n) 0"

definition mpsearch1 :: "memory \<Rightarrow> uint \<Rightarrow> nat \<Rightarrow> uint option" where
  "mpsearch1 m a len =
     (let addr = P2V a; e = addr + of_nat len in
      find (\<lambda>p. bytes_at m p 4 = [0x5f, 0x4d, 0x50, 0x5f] \<and> mp_sum m p 16 = 0)
        (map (\<lambda>i. addr + of_nat (16 * i)) (if addr < e then [0..<(len + 15) div 16] else [])))"

definition mpsearch :: "memory \<Rightarrow> uint option" where
  "mpsearch m =
     (let bda = P2V 0x400;
          p = push_bit 4 (push_bit 8 (ucast (m (bda + 0x0F))) OR ucast (m (bda + 0x0E)));
          found = (if p \<noteq> 0 then mpsearch1 m p 1024
                   else mpsearch1 m ((push_bit 8 (ucast (m (bda + 0x14))) OR ucast (m (bda + 0x13))) * 1024 - 1024) 1024)
      in case found of Some mp \<Rightarrow> Some mp | None \<Rightarrow> mpsearch1 m 0xF0000 0x10000)"

text \<open>The floating pointer structure and the configuration table it points to.\<close>

definition mpconfig :: "memory \<Rightarrow> (uint \<times> uint) option" where
  "mpconfig m =
     (case mpsearch m of None \<Rightarrow> None
      | Some mp \<Rightarrow>
          if ld32 m (mp + 4) = 0 then None
          else let conf = P2V (ld32 m (mp + 4)) in
            if bytes_at m conf 4 \<noteq> [0x50, 0x43, 0x4d, 0x50] then None
            else if m (conf + 6) \<noteq> 1 \<and> m (conf + 6) \<noteq> 4 then None
            else if mp_sum m conf (unat (ld16 m (conf + 4))) \<noteq> 0 then None
            else Some (mp, conf))"

text \<open>
  The walk over the entries. In C, \<open>break\<close> in the last case leaves the switch and not the loop, which goes on with the same entry
  for ever. The step bound is the length of the table: an entry has at least eight bytes.
\<close>

primrec mp_entries :: "nat \<Rightarrow> uint \<Rightarrow> uint \<Rightarrow> ('z hw_scheme, unit) kop" where
  "mp_entries 0 p e = stop Spin"
| "mp_entries (Suc n) p e =
     (if p < e then
        kbind (kget (\<lambda>s. mem s p)) (\<lambda>ty.
        if ty = 0 then
          kbind (kget (\<lambda>s. mem s (p + 1))) (\<lambda>i.
          kbind (kget ncpu) (\<lambda>c.
          kthen (kwhen (c < NCPU) (kthen (kmod (\<lambda>s. s\<lparr>apicids := (apicids s)(c := i)\<rparr>)) (kmod (\<lambda>s. s\<lparr>ncpu := c + 1\<rparr>))))
          (mp_entries n (p + 20) e)))
        else if ty = 2 then
          kbind (kget (\<lambda>s. mem s (p + 1))) (\<lambda>i.
          kthen (kmod (\<lambda>s. s\<lparr>ioapicid := i\<rparr>)) (mp_entries n (p + 8) e))
        else if ty = 1 \<or> ty = 3 \<or> ty = 4 then mp_entries n (p + 8) e
        else stop Spin)
      else ret ())"

definition mpinit :: "('z hw_scheme, unit) kop" where
  "mpinit =
     kbind (kget (\<lambda>s. mpconfig (mem s))) (\<lambda>r.
     case r of None \<Rightarrow> panic ''Expect to run on an SMP''
     | Some (mp, conf) \<Rightarrow>
         kthen (kmod (\<lambda>s. s\<lparr>lapic := ld32 (mem s) (conf + 36)\<rparr>))
         (kbind (kget (\<lambda>s. unat (ld16 (mem s) (conf + 4)))) (\<lambda>len.
          kthen (mp_entries (Suc len) (conf + 44) (conf + of_nat len))
         (kbind (kget (\<lambda>s. mem s (mp + 12))) (\<lambda>imcrp.
          kwhen (imcrp \<noteq> 0)
            (kthen (outb 0x22 0x70) (kbind (inb 0x23) (\<lambda>v. outb 0x23 (v OR 1)))))))))"

section \<open>What the table lists\<close>

datatype mpentry = MpProc byte | MpIoapic byte | MpOther byte

fun mp_size :: "mpentry \<Rightarrow> nat" where
  "mp_size (MpProc i) = 20"
| "mp_size (MpIoapic i) = 8"
| "mp_size (MpOther t) = 8"

fun mp_at :: "memory \<Rightarrow> uint \<Rightarrow> mpentry \<Rightarrow> bool" where
  "mp_at m p (MpProc i) \<longleftrightarrow> m p = 0 \<and> m (p + 1) = i"
| "mp_at m p (MpIoapic i) \<longleftrightarrow> m p = 2 \<and> m (p + 1) = i"
| "mp_at m p (MpOther t) \<longleftrightarrow> m p = t \<and> (t = 1 \<or> t = 3 \<or> t = 4)"

primrec mp_table :: "memory \<Rightarrow> uint \<Rightarrow> mpentry list \<Rightarrow> bool" where
  "mp_table m p [] \<longleftrightarrow> True"
| "mp_table m p (x # xs) \<longleftrightarrow> mp_at m p x \<and> mp_table m (p + of_nat (mp_size x)) xs"

fun note_entry :: "mpentry \<Rightarrow> byte list \<times> byte \<Rightarrow> byte list \<times> byte" where
  "note_entry (MpProc i) (ps, d) = (if length ps < NCPU then ps @ [i] else ps, d)"
| "note_entry (MpIoapic i) (ps, d) = (ps, i)"
| "note_entry (MpOther t) r = r"

definition cpu_list :: "'z hw_scheme \<Rightarrow> byte list" where
  "cpu_list s = map (apicids s) [0..<ncpu s]"

text \<open>
  \<open>mp_entries\<close> visits the entries of a well-formed table one after the other and ends behind the last one; the list of processors
  takes the first eight of them, and the I/O controller is the last one listed.
\<close>

lemma mp_entries_exec:
  "mp_table (mem s) p xs \<Longrightarrow> unat p + sum_list (map mp_size xs) = unat e \<Longrightarrow> length xs < n \<Longrightarrow>
    \<exists>a c i. mp_entries n p e s = Ok () (s\<lparr>apicids := a, ncpu := c, ioapicid := i\<rparr>) \<and>
      (map a [0..<c], i) = fold note_entry xs (cpu_list s, ioapicid s)"
proof (induction xs arbitrary: p s n)
  case Nil
  then obtain g where "n = Suc g" by (cases n) auto
  moreover have "\<not> p < e" using Nil by (simp add: word_less_nat_alt)
  ultimately show ?case by (intro exI [of _ "apicids s"] exI [of _ "ncpu s"] exI [of _ "ioapicid s"]) (simp add: kexec cpu_list_def)
next
  case (Cons x xs)
  then obtain g where g: "n = Suc g" "length xs < g" by (cases n) auto
  have sz: "0 < mp_size x" "mp_size x \<le> 20" by (cases x; simp)+
  then have less: "p < e" using Cons.prems(2) by (simp add: word_less_nat_alt)
  have "unat e < 4294967296" using unsigned_less [of e] by simp
  then have w: "unat (p + of_nat (mp_size x)) = unat p + mp_size x"
    using Cons.prems(2) sz by (simp add: unat_word_ariths unat_of_nat)
  have IH: "\<exists>a c i. mp_entries g (p + of_nat (mp_size x)) e t = Ok () (t\<lparr>apicids := a, ncpu := c, ioapicid := i\<rparr>) \<and>
      (map a [0..<c], i) = fold note_entry xs (cpu_list t, ioapicid t)" if "mem t = mem s" for t :: "'a hw_scheme"
    by (rule Cons.IH) (use Cons.prems that w g in simp_all)
  show ?case
  proof (cases x)
    case (MpProc j)
    let ?t = "if ncpu s < NCPU then s\<lparr>apicids := (apicids s)(ncpu s := j), ncpu := ncpu s + 1\<rparr> else s"
    have "mp_entries n p e s = mp_entries g (p + 20) e ?t"
      using less MpProc Cons.prems(1) by (cases "ncpu s < NCPU") (simp_all add: g kexec)
    moreover have "note_entry x (cpu_list s, ioapicid s) = (cpu_list ?t, ioapicid ?t)" using MpProc by (simp add: cpu_list_def)
    ultimately show ?thesis using IH [of ?t] MpProc by (cases "ncpu s < NCPU") simp_all
  next
    case (MpIoapic j)
    let ?t = "s\<lparr>ioapicid := j\<rparr>"
    have "mp_entries n p e s = mp_entries g (p + 8) e ?t" using less MpIoapic Cons.prems(1) by (simp add: g kexec)
    with IH [of ?t] MpIoapic show ?thesis by (simp add: cpu_list_def)
  next
    case (MpOther t)
    have "mp_entries n p e s = mp_entries g (p + 8) e s" using less MpOther Cons.prems(1) by (auto simp: g kexec)
    with IH [of s] MpOther show ?thesis by simp
  qed
qed

text \<open>An entry of an unknown type stops the kernel in an endless loop, before the test that would report it.\<close>

lemma mp_entries_unknown:
  "p < e \<Longrightarrow> 4 < mem s p \<Longrightarrow> mp_entries (Suc n) p e s = Stop Spin s"
  by (auto simp: kexec)

end
