(* ===== verification/Startup.thy ===== *)
theory Startup
  imports Quota Return Mp
begin

text \<open>
  \<^verbatim>\<open>main.c\<close>: the order in which the boot processor sets up the kernel, up to the call of the scheduler. What the linker and the
  other processors decide (the end of the kernel's image, the code for the other processors, whether one of them reports that it
  has started) is a parameter. \<open>seginit\<close>, \<open>tvinit\<close> and \<open>idtinit\<close> load tables of the processor; \<open>cinit\<close> and \<open>fileinit\<close>
  only initialise locks; neither changes the state. The theorem is the start of the invariant of \<open>Quota\<close>.
\<close>

section \<open>\<^verbatim>\<open>main.c\<close>\<close>

record bootimage =
  bi_kernel :: kimage
  bi_end :: uint                 \<comment> \<open>first address after the kernel\<close>
  bi_entryother :: "byte list"   \<comment> \<open>\<open>_binary_entryother_start\<close>\<close>
  bi_mpenter :: uint
  bi_entrypgdir :: uint
  bi_cpu :: nat                  \<comment> \<open>the index of the boot processor\<close>
  bi_started :: "nat \<Rightarrow> bool"   \<comment> \<open>which of the others come up\<close>

definition startother :: "bootimage \<Rightarrow> nat \<Rightarrow> ('z hw_scheme, unit) kop" where
  "startother bi c =
     (let code = P2V 0x7000 in
      if c = bi_cpu bi then ret ()
      else
        kbind kalloc (\<lambda>stack.
        kthen (kmod (\<lambda>s. s\<lparr>mem := st32 (mem s) (code - 4) (stack + 4096)\<rparr>))
        (kthen (kmod (\<lambda>s. s\<lparr>mem := st32 (mem s) (code - 8) (bi_mpenter bi)\<rparr>))
        (kthen (kmod (\<lambda>s. s\<lparr>mem := st32 (mem s) (code - 12) (V2P (bi_entrypgdir bi))\<rparr>))
        (kbind (kget (\<lambda>s. apicids s c)) (\<lambda>a.
         kthen (lapicstartap a (V2P code))
        (if bi_started bi c then ret () else stop Spin)))))))"

definition startothers :: "bootimage \<Rightarrow> ('z hw_scheme, unit) kop" where
  "startothers bi =
     kthen (kmod (\<lambda>s. s\<lparr>mem := put_at (P2V 0x7000) (bi_entryother bi) (mem s)\<rparr>))
     (kbind (kget ncpu) (\<lambda>n. kfor [0..<n] (startother bi)))"

text \<open>\<open>mpmain\<close> up to its call of the scheduler.\<close>

definition mpmain :: "bootimage \<Rightarrow> ('z hw_scheme, unit) kop" where
  "mpmain bi = cprintf (Some (''cpu%d: starting %d'' @ [CHR 0x0A, NUL])) [CInt (of_nat (bi_cpu bi)), CInt (of_nat (bi_cpu bi))]"

text \<open>Where another processor starts, after \<^verbatim>\<open>entryother.S\<close>.\<close>

definition mpenter :: "bootimage \<Rightarrow> ('z hw_scheme, unit) kop" where
  "mpenter bi = kthen switchkvm (kthen lapicinit (mpmain bi))"

definition kernel_main :: "bootimage \<Rightarrow> ('z hw_scheme, unit) kop" where
  "kernel_main bi =
     kthen (kinit1 (bi_end bi) (P2V (4 * 1024 * 1024)))
     (kthen (kvmalloc (im_data (bi_kernel bi)))
     (kthen mpinit
     (kthen lapicinit
     (kthen picinit
     (kthen ioapicinit
     (kthen (kthen consoleinit (ioapicenable IRQ_KBD 0))
     (kthen uartinit
     (kthen binit
     (kthen ideinit_pio
     (kthen (startothers bi)
     (kthen (kinit2 (P2V (4 * 1024 * 1024)) (P2V PHYSTOP))
     (kthen (userinit (bi_kernel bi))
     (kthen (kmod (\<lambda>s. s\<lparr>userinited := True\<rparr>))
     (mpmain bi))))))))))))))"

section \<open>Relations the start of the kernel respects\<close>

locale boot_steps = kern_steps R for R :: "'z hw_scheme \<Rightarrow> 'z hw_scheme \<Rightarrow> bool" +
  assumes upd_proc_law: "obeys R (upd_proc p g)"
    and initcontainer_law: "obeys R initcontainer"
begin

declare upd_proc_law [steps] initcontainer_law [steps]

lemma steps_list [steps]: "obeys R n \<Longrightarrow> (\<And>x xs. obeys R (f x xs)) \<Longrightarrow> obeys R (case l of [] \<Rightarrow> n | x # xs \<Rightarrow> f x xs)"
  by (cases l) simp_all

lemma steps_logged [steps]: "obeys R (logged a)"
  unfolding logged_def by (intro steps) (simp add: same_conts_def)

lemma steps_ports [steps]: "obeys R (outb p v)" "obeys R (inb p)" "obeys R (peek_reg x)" "obeys R (poke_reg x w)"
  unfolding outb_def inb_def peek_reg_def poke_reg_def by (intro steps | simp add: same_conts_def)+

lemma steps_poll [steps]: "obeys R (poll p good rs)"
  by (induction rs) (simp_all only: poll.simps, (intro steps | assumption | simp add: same_conts_def)+)

lemma steps_wait_reg [steps]: "obeys R (wait_reg a bz rs)"
  by (induction rs) (simp_all only: wait_reg.simps, (intro steps | assumption | simp add: same_conts_def)+)

section \<open>The devices\<close>

lemma steps_ioapic [steps]: "obeys R (ioapicread r)" "obeys R (ioapicwrite r w)" "obeys R (ioapicenable irq c)" "obeys R ioapicinit"
  unfolding ioapicread_def ioapicinit_def ioapicinit_entry_def ioapicenable_def ioapicwrite_def by (intro steps)+

lemma steps_lapic [steps]: "obeys R (lapicw r w)" "obeys R lapicinit" "obeys R (lapicstartap i a)"
  unfolding lapicinit_def lapicstartap_def lapicw_def by (intro steps | simp add: same_conts_def)+

lemma steps_picinit [steps]: "obeys R picinit"
  unfolding picinit_def by (intro steps)

lemma steps_uartinit [steps]: "obeys R uartinit"
  unfolding uartinit_def uartputc_def by (intro steps | simp add: same_conts_def)+

lemma steps_find_disk1 [steps]: "obeys R (find_disk1 n)"
  by (induction n) (simp_all only: find_disk1.simps, (intro steps | assumption | simp add: same_conts_def)+)

lemma steps_ideinit [steps]: "obeys R ideinit_pio"
  unfolding ideinit_pio_def idewait_def wait_in_def by (intro steps)

lemma steps_mp_entries [steps]: "obeys R (mp_entries n p e)"
  by (induction n arbitrary: p) (simp_all only: mp_entries.simps, (intro steps | assumption | simp add: same_conts_def)+)

lemma steps_mpinit [steps]: "obeys R mpinit"
  unfolding mpinit_def by (intro steps | simp add: same_conts_def)+

section \<open>The kernel\<close>

lemma steps_freerange_loop: "obeys R (freerange_loop p e)"
  by (induction p e rule: freerange_loop.induct) (subst freerange_loop.simps, (intro steps | assumption | blast)+)

lemma steps_kinit [steps]: "obeys R (kinit1 a b)" "obeys R (kinit2 a b)"
  unfolding kinit1_def kinit2_def freerange_def by (intro steps steps_freerange_loop | simp add: same_conts_def)+

lemma steps_kvmalloc [steps]: "obeys R (kvmalloc d)"
  unfolding kvmalloc_def switchkvm_def by (intro steps | simp add: same_conts_def)+

lemma steps_binit [steps]: "obeys R binit"
  unfolding binit_def binit_body_def by (intro steps | simp add: same_conts_def)+

lemma steps_consoleinit [steps]: "obeys R consoleinit"
  unfolding consoleinit_def by (intro steps) (simp add: same_conts_def)

lemma steps_initprocess [steps]: "obeys R (initprocess im i)"
  unfolding initprocess_def inituvm_def by (intro steps | simp add: same_conts_def)+

lemma steps_startothers [steps]: "obeys R (startothers bi)"
  unfolding startothers_def startother_def by (intro steps | simp add: same_conts_def)+

lemma steps_kernel_main: "obeys R (kernel_main bi)"
  unfolding kernel_main_def userinit_def mpmain_def by (intro steps | simp add: same_conts_def)+

end

section \<open>The quotas at the start\<close>

text \<open>The first container gets the maximum of everything, so it is in order with whatever it is charged for.\<close>

lemma quota_steps: "cont_steps (\<lambda>s t. quota_ok (s :: 'z console_scheme) \<longrightarrow> quota_ok t)"
  using quota_and_steps [of "\<lambda>_. True"] by (simp add: quota_and_True)

lemma quota_keeps_upd:
  assumes "\<And>c. cont_ok c \<Longrightarrow> cont_ok (f c)" and "\<And>c. idle_cont (f c) = idle_cont c"
  shows "keeps quota_ok (upd_cont i f)"
  using assms by (auto simp: keeps_def upd_cont_exec quota_ok_def)

lemma initcontainer_fill_quota:
  "leads (quota_and (\<lambda>c. cstate c = CEMBRYO) i) (initcontainer_fill i r) (quota_ok :: 'z console_scheme \<Rightarrow> bool)"
proof -
  let ?J = "quota_and (\<lambda>c. cstate c = CEMBRYO) i :: 'z console_scheme \<Rightarrow> bool" and ?Q = "quota_ok :: 'z console_scheme \<Rightarrow> bool"
  have acq: "keeps ?J (acquire Lctable)" by (rule stable_keeps) (auto intro!: steps)
  have fill: "leads ?J (upd_cont i (\<lambda>c. c\<lparr>mproc := int NPROC, msz := MAX_CONT_MEM, mdsk := MAX_CONT_DSK, cstate := CRUNNABLE\<rparr>)) ?Q"
    unfolding quota_and_True [of i, symmetric] by (rule quota_and_change) (auto simp: cont_ok_def idle_cont_def)
  have dup: "keeps ?Q (idup r)" unfolding keeps_obeys by (rule cont_steps.steps_idup [OF quota_steps])
  have upd: "keeps ?Q (upd_cont k (\<lambda>c. c\<lparr>cname := nm\<rparr>))" "keeps ?Q (upd_cont k (\<lambda>c. c\<lparr>rootdir := rd\<rparr>))"
    "keeps ?Q (upd_cont k (\<lambda>c. c\<lparr>cptable := pt\<rparr>))" for k nm rd pt
    by (rule quota_keeps_upd; simp add: cont_ok_def idle_cont_def)+
  have same: "keeps ?Q m" if "obeys same_conts m" for m :: "('z console_scheme, 'c) kop"
    by (rule stable_keeps [OF that]) (rule stable_intros)
  have msg: "keeps ?Q (cprintf f as)" for f as unfolding keeps_obeys by (rule cont_steps.steps_cprintf [OF quota_steps])
  show ?thesis
    unfolding initcontainer_fill_def
    by (rule leads_kthen [OF acq], simp add: quota_and_def, rule leads_upd [OF fill], unfold leads_keeps,
        (rule dup upd msg same [OF tab.steps_release] keeps_intros)+)
qed

lemma initcontainer_quota: "leads quota_ok initcontainer (quota_ok :: 'z console_scheme \<Rightarrow> bool)"
proof -
  let ?J = "\<lambda>i. quota_and (\<lambda>c. cstate c = CEMBRYO) i :: 'z console_scheme \<Rightarrow> bool"
  have path: "keeps (?J i) (namei name)" for i name
    unfolding keeps_obeys by (rule cont_steps.steps_namei [OF quota_and_steps]) simp
  have JQ: "\<And>s. ?J i s \<Longrightarrow> quota_ok s" for i by (simp add: quota_and_def)
  have stops: "leads P (panic m :: ('z console_scheme, nat) kop) quota_ok" if "\<And>s. P s \<Longrightarrow> quota_ok s" for P :: "'z console_scheme \<Rightarrow> bool" and m
    using that by (simp add: leads_def kexec)
  show ?thesis
    unfolding initcontainer_def
  proof (rule leads_kbind_res [where M = "\<lambda>mc. case mc of None \<Rightarrow> quota_ok | Some i \<Rightarrow> ?J i"])
    fix s :: "'z console_scheme" and mc t
    assume "quota_ok s" and "alloccont s = Ok mc t"
    then show "(case mc of None \<Rightarrow> quota_ok | Some i \<Rightarrow> ?J i) t" by (cases mc) (auto dest: alloccont_quota(1,2))
  next
    fix mc
    show "leads (case mc of None \<Rightarrow> quota_ok | Some i \<Rightarrow> ?J i) (case mc of None \<Rightarrow> panic ''Can't alloc init container.''
      | Some i \<Rightarrow> kbind (namei (cstring ''/'')) (\<lambda>mr. case mr of None \<Rightarrow> panic ''Can't set '/' as root container's rootdir''
         | Some r \<Rightarrow> initcontainer_fill i r)) quota_ok"
    proof (cases mc)
      case (Some i)
      have "leads (?J i) (kbind (namei (cstring ''/'')) (\<lambda>mr. case mr of None \<Rightarrow> panic m | Some r \<Rightarrow> initcontainer_fill i r)) quota_ok" for m
        by (rule leads_kbind [OF path JQ], assumption, rule leads_option, rule initcontainer_fill_quota, rule stops [OF JQ])
      with Some show ?thesis by simp
    qed (simp add: stops)
  qed (auto dest: alloccont_quota(3))
qed

lemma both_obeyed:
  assumes "obeys (\<lambda>s t. quota_ok s \<longrightarrow> quota_ok t) m" and "obeys (\<lambda>s t. cur t = cur s) m"
  shows "obeys (\<lambda>s t. quota_ok s \<and> cur s = None \<longrightarrow> quota_ok t \<and> cur t = None) m"
  using assms by (auto simp: obeys_def)

lemma runs_initcontainer: "obeys (\<lambda>s t. cur t = cur (s :: 'z trapst_scheme)) initcontainer"
  unfolding initcontainer_def initcontainer_fill_def alloccont_def by (intro steps)

interpretation start: boot_steps "\<lambda>s t. quota_ok (s :: 'z hw_scheme) \<and> cur s = None \<longrightarrow> quota_ok t \<and> cur t = None"
proof
  show "quota_ok s \<and> cur s = None \<longrightarrow> quota_ok t \<and> cur t = None" if "same_conts s t" for s t :: "'z hw_scheme"
    using quota_same [OF that] that by (simp add: same_conts_def)
  show "obeys (\<lambda>s t. quota_ok s \<and> cur s = None \<longrightarrow> quota_ok t \<and> cur t = None) (upd_proc p g :: ('z hw_scheme, unit) kop)" for p g
    by (auto simp: obeys_def upd_proc_exec quota_ok_def curcont_def)
  show "obeys (\<lambda>s t. quota_ok s \<and> cur s = None \<longrightarrow> quota_ok t \<and> cur t = None) (initcontainer :: ('z hw_scheme, nat) kop)"
    by (rule both_obeyed [OF leads_obeys [OF initcontainer_quota] runs_initcontainer])
qed (auto intro!: both_obeyed quota.balloc_law quota.bfree_law quota.kalloc_law quota.kfree_law quota.ckill_law
    quota.allocproc_law quota.uproc_law quota.pause_law quota.resume_law quota.ccreate_law quota.cstart_law
    runs.balloc_law runs.bfree_law runs.kalloc_law runs.kfree_law runs.ckill_law
    runs.allocproc_law runs.uproc_law runs.pause_law runs.resume_law runs.ccreate_law runs.cstart_law)


text \<open>An example: a machine of one processor.\<close>

definition boot_ex :: bootimage where
  "boot_ex = \<lparr>bi_kernel = image_ex, bi_end = 0x80110000, bi_entryother = [0xfa], bi_mpenter = 0x80102000, bi_entrypgdir = 0x80109000,
     bi_cpu = 0, bi_started = (\<lambda>_. True)\<rparr>"


end
