(* ===== verification/Spec2Isabelle.thy ===== *)
theory Spec2Isabelle
  imports Return Ctool Grep Shprint Image Startup
begin

text \<open>
  xv6c is xv6 for the x86 with containers: every process belongs to a container, a container
  has limits for memory, disk space and processes, its own root directory and its own row of the
  process table, and the scheduler serves the containers in turn. This development models
  the boot loader, the kernel, the program that builds the file system, and the shell and the other user programs, and proves what they do.

  \<^bold>\<open>Method.\<close> A kernel function is a state transformer with a result type (\<open>Prelude\<close>): it
  returns, or it stops by \<open>panic\<close>, by undefined behaviour, by giving up the processor, or by
  spinning on a lock held elsewhere. The kernel's global variables form a chain of extensible
  records, one extension per component, so that a component's functions run unchanged on
  the state of the components above it. Arrays of fixed size are functions from indices; a
  pointer into a table is an index, and a null pointer is \<open>None\<close>. C \<open>int\<close> is \<open>int\<close>,
  \<open>uint\<close> is a 32-bit word, a string is a list of characters whose end is the end of the array
  it lives in.

  \<^bold>\<open>Theories.\<close>
  \<^item> \<open>Prelude\<close>: integer types, state transformers, the calculus of invariants and frames.
  \<^item> \<open>CString\<close>: \<^verbatim>\<open>string.c\<close>.
  \<^item> \<open>Spinlock\<close>: \<^verbatim>\<open>spinlock.c\<close>, its refinement to a set of held locks, and mutual exclusion
    between processors.
  \<^item> \<open>Ctable\<close>: the container and process tables, and the administrative calls of
    \<^verbatim>\<open>container.c\<close>.
  \<^item> \<open>Sched\<close>: wake-up, \<open>sched\<close>, the scheduler and \<open>cinfo\<close> of \<^verbatim>\<open>container.c\<close>.
  \<^item> \<open>Kalloc\<close>: \<^verbatim>\<open>kalloc.c\<close>, the page allocator with the containers' accounts.
  \<^item> \<open>Sleep\<close>: \<open>sleep\<close>, \<open>yield\<close> and \<open>kill\<close> of \<^verbatim>\<open>proc.c\<close>, and the sleep locks of \<^verbatim>\<open>sleeplock.c\<close>.
  \<^item> \<open>Bio\<close>: \<^verbatim>\<open>bio.c\<close>, the buffer cache with its linked list, over the memory disk of \<^verbatim>\<open>memide.c\<close>.
  \<^item> \<open>Layout\<close>: super block, log header, inodes and directory entries in the bytes of a block.
  \<^item> \<open>Log\<close>: \<^verbatim>\<open>log.c\<close>, the write-ahead log, and its atomicity under crashes.
  \<^item> \<open>Inode\<close>: block allocation, the inode cache and the block map of \<^verbatim>\<open>fs.c\<close>.
  \<^item> \<open>Console\<close>: \<^verbatim>\<open>console.c\<close>, output, the line discipline and the console device.
  \<^item> \<open>Fs\<close>: file contents, directories and path names of \<^verbatim>\<open>fs.c\<close>.
  \<^item> \<open>Vm\<close>: \<^verbatim>\<open>vm.c\<close>, page tables and user address spaces.
  \<^item> \<open>Pipe\<close>, \<open>File\<close>: \<^verbatim>\<open>pipe.c\<close> and \<^verbatim>\<open>file.c\<close>, pipes and the table of open files.
  \<^item> \<open>Proc\<close>: the life cycle of processes in \<^verbatim>\<open>proc.c\<close>.
  \<^item> \<open>Container\<close>: creating, starting and entering containers (\<^verbatim>\<open>container.c\<close>).
  \<^item> \<open>Syscall\<close>, \<open>Exec\<close>, \<open>Sysfile\<close>: argument checks, \<^verbatim>\<open>exec.c\<close>, and the system calls of \<^verbatim>\<open>sysproc.c\<close> and
    \<^verbatim>\<open>sysfile.c\<close>.
  \<^item> \<open>Kbd\<close>, \<open>Trap\<close>: the keyboard tables, and the dispatch of system calls and interrupts in \<^verbatim>\<open>trap.c\<close>.
  \<^item> \<open>Steps\<close>, \<open>Kernel\<close>: a relation between states that the primitive operations respect is respected by every
    operation of the kernel up to \<open>trap\<close>; the locales \<open>table_steps\<close>, \<open>cont_steps\<close> and \<open>kern_steps\<close> state what the
    primitive operations owe.
  \<^item> \<open>Quota\<close>: the containers' limits hold across every trap. \<open>Return\<close>: who returns from a trap.
  \<^item> \<open>Ports\<close>: port and memory-mapped input and output as a record of accesses (\<^verbatim>\<open>x86.h\<close>), and what an ATA disk makes of them.
  \<^item> \<open>Apic\<close>: the interrupt controllers, the clock and the serial port (\<^verbatim>\<open>picirq.c\<close>, \<^verbatim>\<open>ioapic.c\<close>, \<^verbatim>\<open>lapic.c\<close>, \<^verbatim>\<open>uart.c\<close>).
  \<^item> \<open>Ide\<close>: \<^verbatim>\<open>ide.c\<close>, the disk driver with its queue of requests. \<open>Boot\<close>: \<^verbatim>\<open>bootmain.c\<close>, the boot loader.
  \<^item> \<open>Mp\<close>, \<open>Startup\<close>: \<^verbatim>\<open>mp.c\<close> and \<^verbatim>\<open>main.c\<close>, the search for the processors and the start of the kernel.
  \<^item> \<open>Mkfs\<close>, \<open>Image\<close>: \<^verbatim>\<open>mkfs.c\<close>, which builds the file system on the host, and the kernel on its image.
  \<^item> \<open>User\<close>: the user library \<^verbatim>\<open>ulib.c\<close>, \<^verbatim>\<open>printf.c\<close> and \<^verbatim>\<open>umalloc.c\<close>; \<open>Uprogs\<close>, \<open>Ctool\<close>, \<open>Grep\<close>, \<open>Sh\<close>: the programs. A program is a state
    transformer on its own state; a system call records what was asked and takes the kernel's next answer. \<open>Shprint\<close>: a grammar of the
    shell's commands and its printer.

  \<^bold>\<open>How the parts interact.\<close> \<open>Boot\<close> puts the kernel into memory and calls it; \<open>Startup.kernel_main\<close> is \<open>main\<close> and ends where the
  scheduler begins; \<open>Sched.scheduler_round\<close> is a pass of the scheduler, with the running of a process between two switches as a
  parameter; \<open>Trap.trap\<close> is what a process or a device makes the kernel do. A function that
  gives up the processor stops with \<open>Switch\<close> in the state the rest of the kernel goes on from. The file system runs over the memory disk of \<^verbatim>\<open>memide.c\<close>;
  \<open>Ide\<close> is the driver a machine with a disk has in its place, with the same contract for a buffer.

  \<^bold>\<open>What is shown.\<close>
  \<^item> Storage: a commit is atomic under crashes at any write (C1) and installs what was logged (C4); the cache returns
    the current block (C7) from the least recently used buffer (C29); the disk driver serves all requests in order (C8); blocks, inodes, files and paths do what
    their contracts say (C9, C10, C13 to C15, C18); what \<open>mkfs\<close> writes is a consistent file system (C12) and the kernel reads it back (C11).
  \<^item> Containers: the limits hold from the start (C3) and across every trap (C2, C5); containers cannot see or kill each other's processes (C24, C30).
  \<^item> Processes: no wake-up is lost (C19, C22), the scheduler is fair to a container's processes (C20), a killed process does not return to user mode (C37).
  \<^item> Memory, locks and devices: the page allocator is a stack of pages (C6, C25); the spin locks exclude each other (C21) and refine a set of held
    locks (C26, C27); pipes are queues (C35, C36); the console is a line editor (C16) that stays on the screen (C32); system call arguments are checked
    before use (C38); the boot loader loads the kernel (C17).
  \<^item> Programs: the shell's parser ends on every line with well-formed commands (C34) and reads back what is printed (C39); \<open>grep\<close> matches the language of its
    pattern (C40).

  \<^bold>\<open>Bounds.\<close> A loop along pointers counts its steps, bounded by the size of the table: \<open>Suc NBUF\<close> for the buffer list and the disk queue. A loop that waits for a device is
  bounded by the number of answers the device gives, and ends with \<open>Spin\<close> when they are used up. The walk over page
  tables and the other loops over addresses are bounded by the addresses. The shell's parser takes \<open>4 * n + 4\<close> steps at most for a line of \<open>n\<close> characters,
  which C34 shows to be enough. \<open>mkfs\<close> handles up to 206 files of up to 140 blocks each (12 direct and 128 indirect) within the 4096 blocks that one block of
  the free map describes: the inode table ends there, and the other two are limits of the program.

  \<^bold>\<open>Not modelled.\<close>
  \<^item> The assembly code (\<^verbatim>\<open>bootasm.S\<close>, \<^verbatim>\<open>entry.S\<close>, \<^verbatim>\<open>entryother.S\<close>, \<^verbatim>\<open>swtch.S\<close>, \<^verbatim>\<open>trapasm.S\<close>, \<^verbatim>\<open>vectors.S\<close>): it changes the processor's mode and stack, which
    the model does not have. \<open>seginit\<close>, \<open>tvinit\<close> and \<open>idtinit\<close> only load the processor's tables.
  \<^item> Several processors in the kernel at once: a kernel function runs to its end, or to the switch, and \<open>Spinlock\<close> shows what allows that for a section
    under one lock.
  \<^item> The test and load programs (\<^verbatim>\<open>usertests.c\<close>, \<^verbatim>\<open>forktest.c\<close>, \<^verbatim>\<open>stressfs.c\<close>, \<^verbatim>\<open>schedtest.c\<close>, \<^verbatim>\<open>tickstest.c\<close>, \<^verbatim>\<open>vctest.c\<close> and the bombs): they state expectations of the
    system and have no contract of their own.
\<close>

section \<open>The kernel on an image\<close>

text \<open>
  C11. The kernel reads what the image builder wrote. Let \<open>mkfs\<close> have built an image from the given files, and let the kernel run on a disk with
  that image. When a process locks the inode of the \<open>k\<close>th file, which is not loaded yet, and reads \<open>n\<close> bytes from its start, the inode comes
  from the inode table through the buffer cache, its direct and indirect addresses lead to the file's blocks, and the
  call returns the first \<open>n\<close> bytes of the file that was given to \<open>mkfs\<close>, or all of them if there are fewer. The disk is unchanged.
\<close>

theorem kernel_reads_image:
  assumes "\<forall>n. ok n" and "\<forall>n \<in> set names. fits_host host n" and "length names \<le> 206" and "blocks_of host names < 4096"
    and run: "mkfs_main host True (prog # target # names) (mkfs0 ok) = Ok () m" and k: "k < length names"
    and s: "on_image (img m) s" "in_txn j s"
    and ip: "i_inum (inodes s ip) = word_of_nat (2 + k)" "i_dev (inodes s ip) = 1" "\<not> i_valid (inodes s ip)" "1 \<le> i_ref (inodes s ip)"
      "\<not> sl_locked (slocks s (InodeLock ip))"
  shows "\<exists>t. kthen (ilock (Some ip)) (readi ip 0 n) s =
      Ok (int (min (unat n) (length (file_data host (names ! k)))), take (unat n) (file_data host (names ! k))) t \<and> view t = view s"
proof -
  let ?S = "\<lambda>i. if i = 1 then 16 * (2 + length names) else isize (img m) i"
  have im: "alloc_ok {1..<2 + length names} (dino (img m)) ?S (img m) (blocks_of host names)"
    "content (img m) (2 + k) = file_data host (names ! k)" "di_type (dino (img m) (2 + k)) = 2"
    using mkfs_run [OF assms(1-4) refl, of prog target] run k by auto
  have data: "?S (2 + k) = length (file_data host (names ! k))" "fdata (img m) (dino (img m) (2 + k)) (?S (2 + k)) = file_data host (names ! k)"
    using content_length [of "img m" "2 + k"] im(2) by (simp_all add: content_def)
  have size: "isize (img m) (Suc (Suc k)) = length (file_data host (names ! k))" using data(1) by simp
  have "length (file_data host (names ! k)) \<le> 71680" using assms(2) k by (simp add: fits_host_def)
  then show ?thesis
    using image_read [OF s(1) im(1), of "2 + k" j ip n] im(3) s(2) ip k assms(3) unfolding data(2) by (simp add: size)
qed

theorem kernel_reads_image_witness:
  "\<exists>m t. mkfs_main (\<lambda>n. if n = ''_a'' then Some [[1, 2], [3]] else None) True [''mkfs'', ''fs.img'', ''_a''] (mkfs0 (\<lambda>_. True)) = Ok () m \<and>
     kthen (ilock (Some 0)) (readi 0 0 2) (kernel_ex (img m)) = Ok (2, [1, 2]) t"
proof -
  let ?host = "\<lambda>n. if n = ''_a'' then Some [[1, 2], [3]] else None"
  have d: "file_data ?host ''_a'' = [1, 2, 3]" by (simp add: file_data_def delivered_def)
  have fits: "\<forall>n \<in> set [''_a'']. fits_host ?host n" by (simp add: fits_host_def d)
  have b: "blocks_of ?host [''_a''] < 4096" by (simp add: blocks_of_def d nblk_def)
  obtain m where m: "mkfs_main ?host True [''mkfs'', ''fs.img'', ''_a''] (mkfs0 (\<lambda>_. True)) = Ok () m"
    using mkfs_run [of "\<lambda>_. True" "[''_a'']" ?host 48 "''mkfs''" "''fs.img''"] fits b by auto
  then show ?thesis
    using kernel_reads_image [of "\<lambda>_. True" "[''_a'']" ?host "''mkfs''" "''fs.img''" m 0 "kernel_ex (img m)" 0 0 2] fits b d kernel_ex_facts [of "img m"]
    by (auto simp: inode0_def)
qed

end
